(* ===== verification/Prelude.thy ===== *)
theory Prelude
  imports Main "HOL-Library.Word" "HOL-Library.Signed_Division"
begin

unbundle bit_operations_syntax

text \<open>
  Shared vocabulary of the development: the C integer types of the port as truncations on
  \<^typ>\<open>int\<close> (\<open>usr/sys/h/types.h\<close>; plain \<open>char\<close> is unsigned on this target), octal masks as
  arithmetic, list lemmas used by several components, and the collections of simplification
  rules that the component proofs share.
\<close>

named_theorems ctype_simps \<open>truncations that are the identity in range\<close>
named_theorems kdefs \<open>unfoldings of small kernel definitions\<close>

section \<open>C integer types\<close>

definition u8 :: "int \<Rightarrow> int" where
  "u8 x = x mod 256"

definition u16 :: "int \<Rightarrow> int" where
  "u16 x = x mod 65536"

definition u32 :: "int \<Rightarrow> int" where
  "u32 x = x mod 4294967296"

definition s16 :: "int \<Rightarrow> int" where
  "s16 x = (x + 32768) mod 65536 - 32768"

definition s32 :: "int \<Rightarrow> int" where
  "s32 x = (x + 2147483648) mod 4294967296 - 2147483648"

lemma u8_id [ctype_simps]: "0 \<le> x \<Longrightarrow> x < 256 \<Longrightarrow> u8 x = x"
  by (simp add: u8_def)

lemma u16_id [ctype_simps]: "0 \<le> x \<Longrightarrow> x < 65536 \<Longrightarrow> u16 x = x"
  by (simp add: u16_def)

lemma u32_id [ctype_simps]: "0 \<le> x \<Longrightarrow> x < 4294967296 \<Longrightarrow> u32 x = x"
  by (simp add: u32_def)

lemma s16_id [ctype_simps]: "-32768 \<le> x \<Longrightarrow> x < 32768 \<Longrightarrow> s16 x = x"
  by (simp add: s16_def)

lemma s32_id [ctype_simps]: "-2147483648 \<le> x \<Longrightarrow> x < 2147483648 \<Longrightarrow> s32 x = x"
  by (simp add: s32_def)

lemma u8_range: "0 \<le> u8 x" "u8 x < 256"
  by (simp_all add: u8_def)

lemma u16_range: "0 \<le> u16 x" "u16 x < 65536"
  by (simp_all add: u16_def)

lemma s16_range: "-32768 \<le> s16 x" "s16 x < 32768"
  by (simp_all add: s16_def)

lemma s16_0 [simp]: "s16 0 = 0" and u16_0 [simp]: "u16 0 = 0" and u8_0 [simp]: "u8 0 = 0"
  by (simp_all add: s16_def u16_def u8_def)

lemma s16_take: "s16 x = signed_take_bit 15 x"
  by (simp add: s16_def signed_take_bit_eq_take_bit_shift take_bit_eq_mod)

lemma bit_s16: "bit (s16 x) j = bit x (min 15 j)"
  by (simp add: s16_take bit_signed_take_bit_iff)

lemma bit_s16_lt: "j < 16 \<Longrightarrow> bit (s16 x) j = bit x j"
proof -
  assume "j < 16"
  then have "min 15 j = j" by simp
  then show ?thesis by (simp add: bit_s16)
qed

lemma s16_bits_0: "s16 x = 0 \<longleftrightarrow> (\<forall>j<16. \<not> bit x j)"
proof
  assume "s16 x = 0"
  then show "\<forall>j<16. \<not> bit x j" using bit_s16_lt by (metis bit_0_eq bot_apply bot_bool_def)
next
  assume z: "\<forall>j<16. \<not> bit x j"
  show "s16 x = 0" by (rule bit_eqI) (use z in \<open>auto simp: bit_s16\<close>)
qed

lemma bit_push_1: "bit (push_bit m (1::int)) j \<longleftrightarrow> j = m"
  by (auto simp: bit_exp_iff)

lemma and_127: "(x :: int) AND 127 = x mod 128"
proof -
  have "(127 :: int) = mask 7" by (simp add: mask_eq_exp_minus_1)
  then show ?thesis by (simp only: take_bit_eq_mask [symmetric] take_bit_eq_mod) simp
qed

lemma bit_u8: "k < 8 \<Longrightarrow> bit (u8 v) k = bit v k"
  by (simp add: u8_def bit_take_bit_iff flip: take_bit_eq_mod [where n = 8, simplified])

lemma smod_pos: "0 \<le> k \<Longrightarrow> 0 < l \<Longrightarrow> k smod l = k mod (l :: int)"
  and sdiv_pos: "0 \<le> k \<Longrightarrow> 0 < l \<Longrightarrow> k sdiv l = k div (l :: int)"
  by (auto simp: signed_modulo_int_def signed_divide_int_def sgn_if minus_div_mult_eq_mod)

section \<open>Lists\<close>

lemma ex4I: "P a b c d \<Longrightarrow> \<exists>a b c d. P a b c d"
  by blast

lemma last_butlast_split: "xs \<noteq> [] \<Longrightarrow> xs = butlast xs @ [last xs]"
  by simp

lemma map_option_eq_Some_conv:
  "map_option f x = Some y \<longleftrightarrow> (\<exists>z. x = Some z \<and> y = f z)"
  by (cases x) auto

lemma upt_split: "i \<le> j \<Longrightarrow> j \<le> k \<Longrightarrow> [i ..< k] = [i ..< j] @ [j ..< k]"
  by (metis le_add_diff_inverse upt_add_eq_append)

end
