(* ===== verification/Bytes.thy ===== *)
theory Bytes
  imports Prelude
begin

text \<open>
  Memory as bytes: the bytes of the words of the machine, which is little-endian, and their loads and
  stores in an array of bytes. Buffers of the kernel and the memory of user programs are such arrays.
\<close>

section \<open>Bytes of words\<close>

text \<open>Little-endian, as the processor stores them.\<close>

definition byte_of :: "nat \<Rightarrow> int \<Rightarrow> int" where
  "byte_of k w = u8 (drop_bit (8 * k) w)"

definition set_byte :: "nat \<Rightarrow> int \<Rightarrow> int \<Rightarrow> int" where
  "set_byte k v w = (w AND NOT (push_bit (8 * k) 255)) OR push_bit (8 * k) (u8 v)"

definition le16 :: "int \<Rightarrow> int \<Rightarrow> int" where
  "le16 b0 b1 = b0 + 256 * b1"

definition le32 :: "int \<Rightarrow> int \<Rightarrow> int \<Rightarrow> int \<Rightarrow> int" where
  "le32 b0 b1 b2 b3 = b0 + 256 * b1 + 65536 * b2 + 16777216 * b3"

definition bytes16 :: "int \<Rightarrow> int list" where
  "bytes16 w = [byte_of 0 w, byte_of 1 w]"

definition bytes32 :: "int \<Rightarrow> int list" where
  "bytes32 w = [byte_of 0 w, byte_of 1 w, byte_of 2 w, byte_of 3 w]"

text \<open>A byte array, and the loads and stores of words in it.\<close>

definition get16 :: "(nat \<Rightarrow> int) \<Rightarrow> nat \<Rightarrow> int" where
  "get16 m i = le16 (m i) (m (i + 1))"

definition get32 :: "(nat \<Rightarrow> int) \<Rightarrow> nat \<Rightarrow> int" where
  "get32 m i = s32 (le32 (m i) (m (i + 1)) (m (i + 2)) (m (i + 3)))"

definition put8s :: "nat \<Rightarrow> int list \<Rightarrow> (nat \<Rightarrow> int) \<Rightarrow> nat \<Rightarrow> int" where
  "put8s i cs m = (\<lambda>k. if i \<le> k \<and> k < i + length cs then cs ! (k - i) else m k)"

definition put16 :: "nat \<Rightarrow> int \<Rightarrow> (nat \<Rightarrow> int) \<Rightarrow> nat \<Rightarrow> int" where
  "put16 i v m = put8s i (bytes16 v) m"

definition put32 :: "nat \<Rightarrow> int \<Rightarrow> (nat \<Rightarrow> int) \<Rightarrow> nat \<Rightarrow> int" where
  "put32 i v m = put8s i (bytes32 v) m"

section \<open>Words and bytes\<close>

lemma byte_of_range: "0 \<le> byte_of k w" "byte_of k w < 256"
  by (simp_all add: byte_of_def u8_def)

lemma length_bytes [simp]: "length (bytes16 w) = 2" "length (bytes32 w) = 4"
  by (simp_all add: bytes16_def bytes32_def)

lemma le16_bytes: "le16 (byte_of 0 w) (byte_of (Suc 0) w) = u16 w"
  using zmod_zmult2_eq [of 256 w 256] by (simp add: le16_def byte_of_def u8_def u16_def drop_bit_eq_div)

lemma le32_bytes: "le32 (byte_of 0 w) (byte_of (Suc 0) w) (byte_of 2 w) (byte_of 3 w) = u32 w"
proof -
  have e: "w mod 4294967296 = 16777216 * (w div 16777216 mod 256) + w mod 16777216"
    using zmod_zmult2_eq [of 256 w 16777216] by simp
  have e': "w mod 16777216 = 65536 * (w div 65536 mod 256) + w mod 65536"
    using zmod_zmult2_eq [of 256 w 65536] by simp
  have e'': "w mod 65536 = 256 * (w div 256 mod 256) + w mod 256"
    using zmod_zmult2_eq [of 256 w 256] by simp
  have b: "byte_of 0 w = w mod 256" "byte_of (Suc 0) w = w div 256 mod 256"
    "byte_of 2 w = w div 65536 mod 256" "byte_of 3 w = w div 16777216 mod 256"
    by (simp_all add: byte_of_def u8_def drop_bit_eq_div)
  show ?thesis unfolding le32_def u32_def b e e' e'' by (simp only: ac_simps)
qed

lemma s32_u32 [simp]: "s32 (u32 w) = s32 w"
  by (simp add: s32_def u32_def mod_simps)

lemma put8s_in: "i \<le> k \<Longrightarrow> k < i + length cs \<Longrightarrow> put8s i cs m k = cs ! (k - i)"
  by (simp add: put8s_def)

lemma put8s_out: "k < i \<or> i + length cs \<le> k \<Longrightarrow> put8s i cs m k = m k"
  by (auto simp: put8s_def)

lemma get32_put32: "get32 (put32 i v m) i = s32 v"
  by (simp add: get32_def put32_def put8s_in bytes32_def le32_bytes)

lemma get32_put32_other: "j + 4 \<le> i \<or> i + 4 \<le> j \<Longrightarrow> get32 (put32 i v m) j = get32 m j"
  by (auto simp: get32_def put32_def put8s_out)

lemma get16_put16: "get16 (put16 i v m) i = u16 v"
  by (simp add: get16_def put16_def put8s_in bytes16_def le16_bytes)

end
