(* ===== verification/Resmap.thy ===== *)
theory Resmap
  imports Prelude
begin

text \<open>
  The resource maps of \<open>usr/sys/sys/malloc.c\<close>: \<open>coremap\<close> and \<open>swapmap\<close> are arrays of
  \<open>struct map\<close> whose used entries are sorted by address and closed by an entry of size 0.
  A C pointer \<open>bp\<close> into the array is the list suffix that starts there; running past the end
  of the array is the result \<^const>\<open>None\<close>. The part of \<open>mfree\<close> that wakes the swapper is in
  the process theory, where the sleep queues are.
\<close>

record map_ent =
  m_size :: int
  m_addr :: int

section \<open>Model\<close>

text \<open>\<open>do { bp++; (bp-1)->m_addr = bp->m_addr; } while (((bp-1)->m_size = bp->m_size))\<close>\<close>

fun shift_down :: "map_ent \<Rightarrow> map_ent list \<Rightarrow> map_ent list option" where
  "shift_down b [] = None"
| "shift_down b (c # cs) =
     (let b' = b\<lparr>m_addr := m_addr c, m_size := m_size c\<rparr>
      in if m_size b' = 0 then Some (b' # c # cs)
         else map_option (Cons b') (shift_down c cs))"

fun malloc :: "map_ent list \<Rightarrow> int \<Rightarrow> (int \<times> map_ent list) option" where
  "malloc [] sz = None"
| "malloc (b # bs) sz =
     (if m_size b = 0 then Some (0, b # bs)
      else if m_size b \<ge> sz then
        (let a = m_addr b;
             b' = b\<lparr>m_addr := u16 (m_addr b + sz), m_size := s16 (m_size b - sz)\<rparr>
         in if m_size b' = 0 then map_option (Pair a) (shift_down b' bs)
            else Some (a, b' # bs))
      else map_option (\<lambda>(a, cs). (a, b # cs)) (malloc bs sz))"

text \<open>\<open>for (; bp->m_addr<=a && bp->m_size!=0; bp++);\<close> splits the array at \<open>bp\<close>.\<close>

fun mfree_scan :: "map_ent list \<Rightarrow> int \<Rightarrow> (map_ent list \<times> map_ent list) option" where
  "mfree_scan [] a = None"
| "mfree_scan (b # bs) a =
     (if m_addr b \<le> a \<and> m_size b \<noteq> 0
      then map_option (\<lambda>(x, y). (b # x, y)) (mfree_scan bs a)
      else Some ([], b # bs))"

text \<open>\<open>while (bp->m_size) { bp++; (bp-1)->m_addr = ...; (bp-1)->m_size = ...; }\<close>\<close>

fun close_gap :: "map_ent list \<Rightarrow> map_ent list option" where
  "close_gap [] = None"
| "close_gap (b # bs) =
     (if m_size b = 0 then Some (b # bs)
      else (case bs of
              [] \<Rightarrow> None
            | c # cs \<Rightarrow> map_option (Cons (b\<lparr>m_addr := m_addr c, m_size := m_size c\<rparr>)) (close_gap bs)))"

text \<open>The insertion loop: each slot takes the carried entry and hands on its own.\<close>

fun insert_shift :: "int \<Rightarrow> int \<Rightarrow> map_ent list \<Rightarrow> map_ent list option" where
  "insert_shift a sz [] = None"
| "insert_shift a sz (b # bs) =
     (let ta = u16 (m_addr b); t = u16 (m_size b);
          b' = b\<lparr>m_addr := u16 a, m_size := s16 sz\<rparr>
      in if t = 0 then Some (b' # bs)
         else map_option (Cons b') (insert_shift ta t bs))"

definition mfree :: "map_ent list \<Rightarrow> int \<Rightarrow> int \<Rightarrow> map_ent list option" where
  "mfree mp sz a =
     (case mfree_scan mp a of
        None \<Rightarrow> None
      | Some (pre, suf) \<Rightarrow>
          (let b = hd suf; p = last pre in
           if pre \<noteq> [] \<and> m_addr p + m_size p = a then
             (let p' = p\<lparr>m_size := s16 (m_size p + sz)\<rparr> in
              if a + sz = m_addr b then
                (let p'' = p'\<lparr>m_size := s16 (m_size p' + m_size b)\<rparr> in
                 map_option (\<lambda>ys. butlast pre @ p'' # ys) (close_gap suf))
              else Some (butlast pre @ p' # suf))
           else if a + sz = m_addr b \<and> m_size b \<noteq> 0 then
             Some (pre @ b\<lparr>m_addr := u16 (m_addr b - sz), m_size := s16 (m_size b + sz)\<rparr> # tl suf)
           else if sz \<noteq> 0 then map_option (append pre) (insert_shift a sz suf)
           else Some mp))"

section \<open>Free units and well-formed maps\<close>

definition ent_units :: "map_ent \<Rightarrow> int set" where
  "ent_units b = {m_addr b ..< m_addr b + m_size b}"

fun units :: "map_ent list \<Rightarrow> int set" where
  "units [] = {}"
| "units (b # bs) = (if m_size b = 0 then {} else ent_units b \<union> units bs)"

text \<open>
  Used entries lie between \<open>lo\<close> and \<open>hi\<close>, in increasing order and with a gap after each one
  (adjacent regions are always merged); every slot after the terminator has size 0.
\<close>

fun map_wf :: "int \<Rightarrow> int \<Rightarrow> map_ent list \<Rightarrow> bool" where
  "map_wf lo hi [] = False"
| "map_wf lo hi (b # bs) =
     (if m_size b = 0 then (\<forall>c\<in>set bs. m_size c = 0)
      else lo \<le> m_addr b \<and> 0 < m_size b \<and> m_addr b + m_size b \<le> hi
           \<and> map_wf (m_addr b + m_size b + 1) hi bs)"

definition used :: "map_ent list \<Rightarrow> nat" where
  "used mp = length (takeWhile (\<lambda>b. m_size b \<noteq> 0) mp)"

text \<open>The bounds under which no 16-bit field of the map can wrap.\<close>

definition arena :: "int \<Rightarrow> int \<Rightarrow> bool" where
  "arena lo hi \<longleftrightarrow> 0 < lo \<and> hi \<le> 65535 \<and> hi - lo \<le> 32767"

lemma map_wf_weaken: "map_wf lo hi mp \<Longrightarrow> lo' \<le> lo \<Longrightarrow> map_wf lo' hi mp"
  by (cases mp) (auto split: if_splits)

lemma units_bounds: "map_wf lo hi mp \<Longrightarrow> units mp \<subseteq> {lo ..< hi}"
proof (induction mp arbitrary: lo)
  case (Cons b bs)
  show ?case
  proof (cases "m_size b = 0")
    case False
    with Cons.prems have "units bs \<subseteq> {m_addr b + m_size b + 1 ..< hi}"
      by (intro Cons.IH) simp
    with False Cons.prems show ?thesis by (auto simp: ent_units_def)
  qed simp
qed simp

lemma finite_units: "map_wf lo hi mp \<Longrightarrow> finite (units mp)"
  using finite_subset [OF units_bounds] by blast

text \<open>A run of free units never spans two entries.\<close>

lemma run_in_units:
  assumes wf: "map_wf lo hi (b # bs)" and used: "m_size b \<noteq> 0" and pos: "0 < n"
  shows "{x ..< x + n} \<subseteq> units (b # bs) \<longleftrightarrow>
    {x ..< x + n} \<subseteq> ent_units b \<or> {x ..< x + n} \<subseteq> units bs"
proof
  let ?e = "m_addr b + m_size b"
  assume run: "{x ..< x + n} \<subseteq> units (b # bs)"
  have tail: "units bs \<subseteq> {?e + 1 ..< hi}"
    using wf used by (intro units_bounds) simp
  have gap: "?e \<notin> units (b # bs)"
    using tail by (auto simp: ent_units_def)
  show "{x ..< x + n} \<subseteq> ent_units b \<or> {x ..< x + n} \<subseteq> units bs"
  proof (cases "x < ?e")
    case True
    have "x + n \<le> ?e"
    proof (rule ccontr)
      assume "\<not> x + n \<le> ?e"
      with True have "?e \<in> {x ..< x + n}" by simp
      with run gap show False by blast
    qed
    with run used tail have "\<forall>y\<in>{x ..< x + n}. y \<in> ent_units b" by fastforce
    then show ?thesis by blast
  next
    case False
    with run used have "\<forall>y\<in>{x ..< x + n}. y \<in> units bs" by (fastforce simp: ent_units_def)
    then show ?thesis by blast
  qed
qed (use used in auto)

lemma run_subset_ent:
  "0 < n \<Longrightarrow> {x ..< x + n} \<subseteq> ent_units b \<longleftrightarrow> m_addr b \<le> x \<and> x + n \<le> m_addr b + m_size b"
  by (auto simp: ent_units_def dest: subsetD)

section \<open>Allocation\<close>

lemma shift_down_wf:
  assumes "map_wf lo hi bs"
  shows "\<exists>cs. shift_down b bs = Some cs \<and> map_wf lo hi cs \<and> units cs = units bs
    \<and> length cs = Suc (length bs)"
  using assms
proof (induction bs arbitrary: b lo)
  case (Cons c cs)
  show ?case
  proof (cases "m_size c = 0")
    case True
    with Cons.prems show ?thesis by auto
  next
    case False
    with Cons.prems have "map_wf (m_addr c + m_size c + 1) hi cs" by simp
    from Cons.IH [OF this, of c] obtain ds where
      "shift_down c cs = Some ds" "map_wf (m_addr c + m_size c + 1) hi ds"
      "units ds = units cs" "length ds = Suc (length cs)" by blast
    with False Cons.prems show ?thesis by (auto simp: ent_units_def)
  qed
qed simp

text \<open>What a request for \<open>n\<close> units answers: the lowest free run, or 0 when there is none.\<close>

definition first_fit :: "int set \<Rightarrow> int \<Rightarrow> int \<Rightarrow> bool" where
  "first_fit U n a \<longleftrightarrow> {a ..< a + n} \<subseteq> U \<and> (\<forall>x. {x ..< x + n} \<subseteq> U \<longrightarrow> a \<le> x)"

lemma first_fit_head:
  assumes "map_wf lo hi (b # bs)" "m_size b \<noteq> 0" "n \<le> m_size b" "0 < n"
  shows "first_fit (units (b # bs)) n (m_addr b)"
proof -
  have "units bs \<subseteq> {m_addr b + m_size b + 1 ..< hi}"
    using assms by (intro units_bounds) simp
  then have "m_addr b \<le> x" if "{x ..< x + n} \<subseteq> units bs" for x
    using that assms by (force dest: subsetD [of _ _ x])
  then show ?thesis
    using assms by (auto simp: first_fit_def run_in_units run_subset_ent simp del: units.simps)
qed

lemma first_fit_tail:
  assumes "map_wf lo hi (b # bs)" "m_size b \<noteq> 0" "m_size b < n" "0 < n"
  shows "first_fit (units (b # bs)) n a \<longleftrightarrow> first_fit (units bs) n a"
    and "(\<exists>x. {x ..< x + n} \<subseteq> units (b # bs)) \<longleftrightarrow> (\<exists>x. {x ..< x + n} \<subseteq> units bs)"
proof -
  have "{x ..< x + n} \<subseteq> units (b # bs) \<longleftrightarrow> {x ..< x + n} \<subseteq> units bs" for x
    using run_in_units [OF assms(1,2,4), of x] run_subset_ent [OF assms(4), of x b] assms(3)
    by linarith
  then show "first_fit (units (b # bs)) n a \<longleftrightarrow> first_fit (units bs) n a"
    and "(\<exists>x. {x ..< x + n} \<subseteq> units (b # bs)) \<longleftrightarrow> (\<exists>x. {x ..< x + n} \<subseteq> units bs)"
    by (simp_all only: first_fit_def)
qed

lemma malloc_correct:
  assumes "map_wf lo hi mp" "arena lo hi" "0 < n"
  shows "\<exists>a mp'. malloc mp n = Some (a, mp') \<and> map_wf lo hi mp' \<and> length mp' = length mp \<and>
    (if \<exists>x. {x ..< x + n} \<subseteq> units mp
     then first_fit (units mp) n a \<and> units mp' = units mp - {a ..< a + n}
     else a = 0 \<and> mp' = mp)"
  using assms
proof (induction mp arbitrary: lo)
  case (Cons b bs)
  note ar = Cons.prems(2) [unfolded arena_def]
  consider (stop) "m_size b = 0" | (fit) "m_size b \<noteq> 0" "n \<le> m_size b"
    | (skip) "m_size b \<noteq> 0" "m_size b < n" by linarith
  then show ?case
  proof cases
    case stop
    with Cons.prems show ?thesis by auto
  next
    case fit
    let ?b = "b\<lparr>m_addr := m_addr b + n, m_size := m_size b - n\<rparr>"
    from fit Cons.prems ar have tail: "map_wf (m_addr b + m_size b + 1) hi bs"
      and rng: "u16 (m_addr b + n) = m_addr b + n" "s16 (m_size b - n) = m_size b - n"
      by (auto intro!: u16_id s16_id)
    have above: "\<forall>x\<in>units bs. m_addr b + m_size b < x"
      using units_bounds [OF tail] by auto
    then have disj: "units bs \<inter> {m_addr b ..< m_addr b + n} = {}" "units bs \<inter> ent_units b = {}"
      using fit(2) by (force simp: ent_units_def)+
    have ff: "first_fit (units (b # bs)) n (m_addr b)"
      using first_fit_head fit Cons.prems by blast
    then have ex: "\<exists>x. {x ..< x + n} \<subseteq> units (b # bs)" by (simp only: first_fit_def) blast
    show ?thesis
    proof (cases "m_size b = n")
      case True
      obtain cs where cs: "shift_down ?b bs = Some cs" "map_wf (m_addr b + m_size b + 1) hi cs"
        "units cs = units bs" "length cs = Suc (length bs)"
        using shift_down_wf [OF tail] by blast
      have "lo \<le> m_addr b + m_size b + 1" using Cons.prems(1) fit(1) by simp
      with cs(2) have "map_wf lo hi cs" by (rule map_wf_weaken)
      moreover have "units (b # bs) - {m_addr b ..< m_addr b + n} = units bs"
        using fit(1) True disj(1) ent_units_def [of b] by auto
      ultimately show ?thesis
        using cs True fit ff ex rng by (simp del: units.simps)
    next
      case False
      have "units (?b # bs) = units (b # bs) - {m_addr b ..< m_addr b + n}"
        using fit False \<open>0 < n\<close> disj(1) by (auto simp: ent_units_def)
      moreover have "map_wf lo hi (?b # bs)"
        using Cons.prems fit False by auto
      ultimately show ?thesis
        using False fit ff ex rng by (simp del: units.simps map_wf.simps)
    qed
  next
    case skip
    then have tail: "map_wf (m_addr b + m_size b + 1) hi bs" using Cons.prems by simp
    moreover have "arena (m_addr b + m_size b + 1) hi"
      using Cons.prems skip ar by (auto simp: arena_def)
    ultimately obtain a bs' where IH: "malloc bs n = Some (a, bs')"
      "map_wf (m_addr b + m_size b + 1) hi bs'" "length bs' = length bs"
      "if \<exists>x. {x ..< x + n} \<subseteq> units bs
       then first_fit (units bs) n a \<and> units bs' = units bs - {a ..< a + n} else a = 0 \<and> bs' = bs"
      using Cons.IH Cons.prems(3) by blast
    have ft: "first_fit (units (b # bs)) n a \<longleftrightarrow> first_fit (units bs) n a"
      "(\<exists>x. {x ..< x + n} \<subseteq> units (b # bs)) \<longleftrightarrow> (\<exists>x. {x ..< x + n} \<subseteq> units bs)"
      using first_fit_tail Cons.prems skip by blast+
    have wf': "map_wf lo hi (b # bs')" using Cons.prems skip IH(2) by simp
    have "units (b # bs') = units (b # bs) - {a ..< a + n}"
      if "first_fit (units bs) n a" "units bs' = units bs - {a ..< a + n}"
    proof -
      have "{a ..< a + n} \<subseteq> {m_addr b + m_size b + 1 ..< hi}"
        using that(1) units_bounds [OF tail] unfolding first_fit_def by (meson order_trans)
      then have "ent_units b \<inter> {a ..< a + n} = {}"
        using Cons.prems(3) by (force simp: ent_units_def)
      then show ?thesis using that(2) skip by auto
    qed
    then show ?thesis
      using IH ft wf' skip by (simp del: units.simps map_wf.simps split: if_splits)
  qed
qed simp

section \<open>Release\<close>

lemma mfree_scan_split:
  assumes "map_wf lo hi mp"
  shows "\<exists>pre b bs. mfree_scan mp a = Some (pre, b # bs) \<and> mp = pre @ b # bs
    \<and> (\<forall>c\<in>set pre. m_size c \<noteq> 0 \<and> m_addr c \<le> a) \<and> (m_size b = 0 \<or> a < m_addr b)"
  using assms
proof (induction mp arbitrary: lo)
  case (Cons c cs)
  show ?case
  proof (cases "m_addr c \<le> a \<and> m_size c \<noteq> 0")
    case True
    with Cons.prems Cons.IH [of "m_addr c + m_size c + 1"] obtain pre b bs where
      "mfree_scan cs a = Some (pre, b # bs)" "cs = pre @ b # bs"
      "\<forall>c\<in>set pre. m_size c \<noteq> 0 \<and> m_addr c \<le> a" "m_size b = 0 \<or> a < m_addr b" by auto
    with True show ?thesis by (intro exI [of _ "c # pre"]) simp
  next
    case False
    then show ?thesis by (intro exI [of _ "[]"]) auto
  qed
qed simp

text \<open>A well-formed map seen from a position in it.\<close>

fun chain :: "int \<Rightarrow> map_ent list \<Rightarrow> bool" where
  "chain lo [] = True"
| "chain lo (b # bs) = (lo \<le> m_addr b \<and> 0 < m_size b \<and> chain (m_addr b + m_size b + 1) bs)"

fun above :: "int \<Rightarrow> map_ent list \<Rightarrow> int" where
  "above lo [] = lo"
| "above lo (b # bs) = above (m_addr b + m_size b + 1) bs"

lemma above_snoc [simp]: "above lo (bs @ [p]) = m_addr p + m_size p + 1"
  by (induction bs arbitrary: lo) auto

lemma chain_append [simp]: "chain lo (xs @ ys) \<longleftrightarrow> chain lo xs \<and> chain (above lo xs) ys"
  by (induction xs arbitrary: lo) auto

lemma chain_above: "chain lo bs \<Longrightarrow> lo \<le> above lo bs"
proof (induction bs arbitrary: lo)
  case (Cons b bs)
  then have "m_addr b + m_size b + 1 \<le> above (m_addr b + m_size b + 1) bs" by simp
  with Cons.prems show ?case by simp
qed simp

lemma map_wf_append:
  "\<forall>c\<in>set pre. m_size c \<noteq> 0 \<Longrightarrow> suf \<noteq> [] \<Longrightarrow>
   map_wf lo hi (pre @ suf) \<longleftrightarrow>
     chain lo pre \<and> (\<forall>c\<in>set pre. m_addr c + m_size c \<le> hi) \<and> map_wf (above lo pre) hi suf"
  by (induction pre arbitrary: lo) auto

lemma units_append:
  "\<forall>c\<in>set pre. m_size c \<noteq> 0 \<Longrightarrow> units (pre @ suf) = (\<Union>c\<in>set pre. ent_units c) \<union> units suf"
  by (induction pre) auto

lemma close_gap_wf:
  assumes "map_wf lo hi (b # bs)" "m_size b \<noteq> 0"
  shows "\<exists>cs. close_gap (b # bs) = Some cs \<and> map_wf (m_addr b + m_size b + 1) hi cs
    \<and> units cs = units bs \<and> length cs = Suc (length bs)"
  using assms
proof (induction bs arbitrary: b lo)
  case (Cons c cs)
  show ?case
  proof (cases "m_size c = 0")
    case True
    with Cons.prems show ?thesis by auto
  next
    case False
    with Cons.prems have wf: "map_wf (m_addr b + m_size b + 1) hi (c # cs)" by simp
    from Cons.IH [OF this False] obtain ds where "close_gap (c # cs) = Some ds"
      "map_wf (m_addr c + m_size c + 1) hi ds" "units ds = units cs" "length ds = Suc (length cs)"
      by blast
    with False wf Cons.prems(2) show ?thesis by (auto simp: ent_units_def)
  qed
qed simp

lemma map_wf_raise:
  "map_wf l hi cs \<Longrightarrow> l' \<le> m_addr (hd cs) \<Longrightarrow> map_wf l' hi cs"
  by (cases cs) (auto split: if_splits)

text \<open>The insertion loop needs a second empty slot, which becomes the new terminator.\<close>

lemma insert_shift_wf:
  assumes "map_wf l hi bs" "arena lo hi" "lo \<le> l" "lo \<le> a" "0 < n" "Suc (used bs) < length bs"
    and "a + n < m_addr (hd bs) \<or> m_size (hd bs) = 0" "a + n \<le> hi"
  shows "\<exists>cs. insert_shift a n bs = Some cs \<and> map_wf a hi cs \<and> m_addr (hd cs) = a
    \<and> units cs = {a ..< a + n} \<union> units bs \<and> length cs = length bs"
  using assms
proof (induction bs arbitrary: a n l)
  case (Cons b bs)
  note ar = Cons.prems(2) [unfolded arena_def]
  from Cons.prems ar have tr: "u16 a = a" "s16 n = n" by (auto intro!: u16_id s16_id)
  show ?case
  proof (cases "m_size b = 0")
    case True
    with Cons.prems obtain c cs where "bs = c # cs" by (cases bs) (auto simp: used_def)
    with True tr Cons.prems show ?thesis by (auto simp: ent_units_def)
  next
    case False
    with Cons.prems ar have tb: "u16 (m_addr b) = m_addr b" "u16 (m_size b) = m_size b"
      by (auto intro!: u16_id)
    have tail: "map_wf (m_addr b + m_size b + 1) hi bs" using Cons.prems False by simp
    have "\<exists>cs. insert_shift (m_addr b) (m_size b) bs = Some cs \<and> map_wf (m_addr b) hi cs
      \<and> m_addr (hd cs) = m_addr b \<and> units cs = {m_addr b ..< m_addr b + m_size b} \<union> units bs \<and> length cs = length bs"
    proof (rule Cons.IH [OF tail Cons.prems(2)])
      show "m_addr b + m_size b < m_addr (hd bs) \<or> m_size (hd bs) = 0"
        using tail by (cases bs) auto
    qed (use Cons.prems False in \<open>auto simp: used_def\<close>)
    then obtain cs where cs: "insert_shift (m_addr b) (m_size b) bs = Some cs"
      "map_wf (m_addr b) hi cs" "m_addr (hd cs) = m_addr b" "units cs = {m_addr b ..< m_addr b + m_size b} \<union> units bs"
      "length cs = length bs" by blast
    have "map_wf (a + n + 1) hi cs"
      by (rule map_wf_raise [OF cs(2)]) (use cs(3) False Cons.prems(7) in simp)
    with cs False tr tb Cons.prems show ?thesis by (auto simp: ent_units_def Let_def)
  qed
qed simp

text \<open>The freed region touches the entry before it: that entry grows, and may swallow the next.\<close>

lemma mfree_grow:
  assumes suf: "map_wf (m_addr p + m_size p + 1) hi (b # bs)" and ar: "arena lo hi" and n: "0 < n"
    and p: "lo \<le> m_addr p" "0 < m_size p" "m_addr p + m_size p = a" and hi: "a + n \<le> hi"
    and next_ent: "m_size b = 0 \<or> a + n \<le> m_addr b"
  shows "\<exists>cs. (let p' = p\<lparr>m_size := s16 (m_size p + n)\<rparr> in
      if a + n = m_addr b then
        (let p'' = p'\<lparr>m_size := s16 (m_size p' + m_size b)\<rparr> in
         map_option (\<lambda>ys. qs @ p'' # ys) (close_gap (b # bs)))
      else Some (qs @ p' # b # bs)) = Some (qs @ cs)
    \<and> map_wf (m_addr p) hi cs \<and> units cs = ent_units p \<union> {a ..< a + n} \<union> units (b # bs)
    \<and> length cs = Suc (Suc (length bs))"
proof -
  from ar p n hi have t1: "s16 (m_size p + n) = m_size p + n"
    by (intro s16_id) (auto simp: arena_def)
  show ?thesis
  proof (cases "a + n = m_addr b \<and> m_size b \<noteq> 0")
    case True
    with suf ar p n have t2: "s16 (m_size p + n + m_size b) = m_size p + n + m_size b"
      by (intro s16_id) (auto simp: arena_def)
    from close_gap_wf [OF suf] True obtain cs where cs: "close_gap (b # bs) = Some cs"
      "map_wf (m_addr b + m_size b + 1) hi cs" "units cs = units bs" "length cs = Suc (length bs)"
      by blast
    have "m_addr b + m_size b + 1 = m_addr p + (m_size p + n + m_size b) + 1"
      using True p by simp
    with cs(2) have wf: "map_wf (m_addr p + (m_size p + n + m_size b) + 1) hi cs" by simp
    let ?p = "p\<lparr>m_size := m_size p + n + m_size b\<rparr>"
    from True suf have b: "m_addr b = a + n" "0 < m_size b" "m_addr b + m_size b \<le> hi" by simp_all
    have "{m_addr p ..< m_addr p + (m_size p + n + m_size b)} =
      ent_units p \<union> {a ..< a + n} \<union> ent_units b"
      using b p n unfolding ent_units_def by auto
    then have "units (?p # cs) = ent_units p \<union> {a ..< a + n} \<union> units (b # bs)"
      using b(2) p n cs(3) by (simp add: ent_units_def Un_assoc)
    moreover have "map_wf (m_addr p) hi (?p # cs)" using wf b p n by simp
    ultimately show ?thesis
      using True t1 t2 cs(1,4)
      by (intro exI [of _ "?p # cs"]) (simp add: Let_def del: units.simps map_wf.simps close_gap.simps)
  next
    case False
    with t1 p suf n hi next_ent show ?thesis by (auto simp: Let_def ent_units_def)
  qed
qed

text \<open>It does not: it extends the next entry downwards or becomes an entry of its own.\<close>

lemma mfree_place:
  assumes suf: "map_wf l hi (b # bs)" and ar: "arena lo hi" and l: "lo \<le> l" "l \<le> a"
    and n: "0 < n" and hi: "a + n \<le> hi" and next_ent: "m_size b = 0 \<or> a + n \<le> m_addr b"
    and room: "Suc (used (b # bs)) < length (b # bs)"
  shows "\<exists>cs. (if a + n = m_addr b \<and> m_size b \<noteq> 0 then
        Some (pre @ b\<lparr>m_addr := u16 (m_addr b - n), m_size := s16 (m_size b + n)\<rparr> # bs)
      else if n \<noteq> 0 then map_option (append pre) (insert_shift a n (b # bs))
      else Some (pre @ b # bs)) = Some (pre @ cs)
    \<and> map_wf l hi cs \<and> units cs = {a ..< a + n} \<union> units (b # bs) \<and> length cs = Suc (length bs)"
proof (cases "a + n = m_addr b \<and> m_size b \<noteq> 0")
  case True
  then have "m_addr b - n = a" by simp
  with True suf ar l n have t: "u16 (m_addr b - n) = a" "s16 (m_size b + n) = m_size b + n"
    by (auto simp: arena_def u16_id intro!: s16_id)
  have "m_addr b + m_size b + 1 = a + (m_size b + n) + 1" using True by simp
  with suf True have "map_wf (a + (m_size b + n) + 1) hi bs" by simp
  with True t l suf n show ?thesis by (auto simp: ent_units_def)
next
  case False
  have "\<exists>cs. insert_shift a n (b # bs) = Some cs \<and> map_wf a hi cs \<and> m_addr (hd cs) = a
    \<and> units cs = {a ..< a + n} \<union> units (b # bs) \<and> length cs = length (b # bs)"
    by (rule insert_shift_wf [OF suf ar]) (use False l n hi next_ent room in auto)
  then obtain cs where "insert_shift a n (b # bs) = Some cs" "map_wf a hi cs"
    "units cs = {a ..< a + n} \<union> units (b # bs)" "length cs = length (b # bs)" by blast
  moreover have "map_wf l hi cs" using calculation(2) l(2) by (rule map_wf_weaken)
  ultimately show ?thesis using False n by auto
qed

lemma used_append: "\<forall>c\<in>set pre. m_size c \<noteq> 0 \<Longrightarrow> used (pre @ suf) = length pre + used suf"
  by (induction pre) (auto simp: used_def)

lemma mfree_correct:
  assumes wf: "map_wf lo hi mp" and ar: "arena lo hi" and n: "0 < n"
    and a: "lo \<le> a" "a + n \<le> hi" and disj: "{a ..< a + n} \<inter> units mp = {}"
    and room: "Suc (used mp) < length mp"
  shows "\<exists>mp'. mfree mp n a = Some mp' \<and> map_wf lo hi mp' \<and> length mp' = length mp
    \<and> units mp' = units mp \<union> {a ..< a + n}"
proof -
  from mfree_scan_split [OF wf, of a] obtain pre b bs where
    scan: "mfree_scan mp a = Some (pre, b # bs)" and mp: "mp = pre @ b # bs"
    and pre: "\<forall>c\<in>set pre. m_size c \<noteq> 0 \<and> m_addr c \<le> a" and stop: "m_size b = 0 \<or> a < m_addr b"
    by blast
  from pre have pre0: "\<forall>c\<in>set pre. m_size c \<noteq> 0" by blast
  from wf have ch: "chain lo pre" "\<forall>c\<in>set pre. m_addr c + m_size c \<le> hi"
    and suf: "map_wf (above lo pre) hi (b # bs)"
    unfolding mp using map_wf_append [OF pre0] by blast+
  have un: "units mp = (\<Union>c\<in>set pre. ent_units c) \<union> units (b # bs)"
    unfolding mp by (rule units_append [OF pre0])
  have nb: "m_size b = 0 \<or> a + n \<le> m_addr b"
  proof (cases "m_size b = 0")
    case False
    with suf un have "m_addr b \<in> units mp" by (auto simp: ent_units_def)
    with disj stop False show ?thesis
      by (meson atLeastLessThan_iff disjoint_iff less_imp_le linorder_not_le)
  qed simp
  show ?thesis
  proof (cases "pre \<noteq> [] \<and> m_addr (last pre) + m_size (last pre) = a")
    case True
    then obtain qs p where pq: "pre = qs @ [p]" "m_addr p + m_size p = a"
      by (cases pre rule: rev_cases) auto
    have lp: "lo \<le> m_addr p" "0 < m_size p" "above lo qs \<le> m_addr p"
      using ch(1) chain_above [of lo qs] by (auto simp: pq)
    have "\<exists>cs. mfree mp n a = Some (qs @ cs) \<and> map_wf (m_addr p) hi cs
      \<and> units cs = ent_units p \<union> {a ..< a + n} \<union> units (b # bs) \<and> length cs = Suc (Suc (length bs))"
      using mfree_grow [OF _ ar n lp(1,2) pq(2) a(2) nb, of bs qs] suf pq
      by (cases "a + n = m_addr b")
        (simp_all add: mfree_def scan Let_def del: units.simps map_wf.simps close_gap.simps)
    then obtain cs where cs:
      "mfree mp n a = Some (qs @ cs)" "map_wf (m_addr p) hi cs" "length cs = Suc (Suc (length bs))"
      "units cs = ent_units p \<union> {a ..< a + n} \<union> units (b # bs)" by blast
    moreover have "cs \<noteq> []" using calculation(3) by auto
    moreover have "map_wf lo hi (qs @ cs)"
      using calculation pre0 ch lp map_wf_append [of qs cs lo hi]
      by (auto simp: pq intro: map_wf_weaken)
    ultimately show ?thesis
      using un pre0 by (auto simp: mp pq units_append simp del: units.simps)
  next
    case False
    have "above lo pre \<le> a"
    proof (cases pre rule: rev_cases)
      case (snoc qs p)
      with un disj n have "a \<notin> ent_units p" by (auto simp: disjoint_iff)
      with snoc pre False show ?thesis by (auto simp: ent_units_def)
    qed (use a in simp)
    moreover have "Suc (used (b # bs)) < length (b # bs)"
      using room used_append [OF pre0] by (simp add: mp)
    ultimately have "\<exists>cs. mfree mp n a = Some (pre @ cs) \<and> map_wf (above lo pre) hi cs
      \<and> units cs = {a ..< a + n} \<union> units (b # bs) \<and> length cs = Suc (length bs)"
      using mfree_place [OF suf ar chain_above [OF ch(1)] _ n a(2) nb, of pre] False
      by (simp only: mfree_def scan [unfolded mp] option.case prod.case Let_def list.sel mp if_False
          simp_thms)
    then obtain cs where
      "mfree mp n a = Some (pre @ cs)" "map_wf (above lo pre) hi cs" "length cs = Suc (length bs)"
      "units cs = {a ..< a + n} \<union> units (b # bs)" by blast
    moreover have "cs \<noteq> []" using calculation(3) by auto
    moreover have "map_wf lo hi (pre @ cs)"
      using calculation pre0 ch map_wf_append [of pre cs lo hi] by auto
    ultimately show ?thesis
      using un pre0 by (auto simp: mp units_append simp del: units.simps)
  qed
qed

lemma shift_down_used: "shift_down b bs = Some cs \<Longrightarrow> used cs = used bs"
  by (induction b bs arbitrary: cs rule: shift_down.induct)
    (auto simp: used_def Let_def map_option_eq_Some_conv split: if_splits)

lemma malloc_used: "malloc mp n = Some (a, mp') \<Longrightarrow> used mp' \<le> used mp"
proof (induction mp n arbitrary: a mp' rule: malloc.induct)
  case (2 b bs n)
  then show ?case
    by (auto simp: used_def Let_def map_option_eq_Some_conv dest!: shift_down_used [unfolded used_def]
        split: if_splits prod.splits)
qed simp

section \<open>The allocator interface\<close>

text \<open>
  What the swapper, \<open>newproc\<close>, \<open>expand\<close> and the text routines rely on: a request is answered
  with units that were free and are so no longer, and a release gives units back.
\<close>

locale unit_allocator =
  fixes alloc :: "'m \<Rightarrow> int \<Rightarrow> (int \<times> 'm) option"
    and release :: "'m \<Rightarrow> int \<Rightarrow> int \<Rightarrow> 'm option"
    and avail :: "'m \<Rightarrow> int set" and inv :: "'m \<Rightarrow> bool" and roomy :: "'m \<Rightarrow> bool"
    and space :: "int set"
  assumes alloc_law: "inv m \<Longrightarrow> 0 < n \<Longrightarrow> \<exists>a m'. alloc m n = Some (a, m') \<and> inv m' \<and>
      (if \<exists>x. {x ..< x + n} \<subseteq> avail m
       then a \<noteq> 0 \<and> {a ..< a + n} \<subseteq> avail m \<and> avail m' = avail m - {a ..< a + n}
       else a = 0 \<and> m' = m)"
    and alloc_roomy: "alloc m n = Some (a, m') \<Longrightarrow> inv m \<Longrightarrow> 0 < n \<Longrightarrow> roomy m \<Longrightarrow> roomy m'"
    and release_law: "inv m \<Longrightarrow> roomy m \<Longrightarrow> 0 < n \<Longrightarrow> {a ..< a + n} \<subseteq> space
      \<Longrightarrow> {a ..< a + n} \<inter> avail m = {} \<Longrightarrow>
      \<exists>m'. release m n a = Some m' \<and> inv m' \<and> avail m' = avail m \<union> {a ..< a + n}"
    and avail_space: "inv m \<Longrightarrow> avail m \<subseteq> space"
begin

lemma alloc_SomeD:
  assumes "inv m" "0 < n" "alloc m n = Some (a, m')"
  shows "inv m'" and "a \<noteq> 0 \<Longrightarrow> {a ..< a + n} \<subseteq> avail m \<and> avail m' = avail m - {a ..< a + n}"
  using alloc_law [OF assms(1,2)] assms(3) by (auto split: if_splits)

text \<open>Two live allocations never share a unit.\<close>

lemma two_allocs_disjoint:
  assumes "inv m" "0 < n" "0 < k" "alloc m n = Some (a, m1)" "a \<noteq> 0"
    "alloc m1 k = Some (b, m2)" "b \<noteq> 0"
  shows "{a ..< a + n} \<inter> {b ..< b + k} = {}"
proof -
  have "avail m1 = avail m - {a ..< a + n}" using alloc_SomeD assms by blast
  moreover have "{b ..< b + k} \<subseteq> avail m1" using alloc_SomeD assms by blast
  ultimately show ?thesis by blast
qed

lemma alloc_release:
  assumes "inv m" "roomy m" "0 < n" "alloc m n = Some (a, m1)" "a \<noteq> 0"
  shows "\<exists>m2. release m1 n a = Some m2 \<and> inv m2 \<and> avail m2 = avail m"
proof -
  have m1: "inv m1" "avail m1 = avail m - {a ..< a + n}" "{a ..< a + n} \<subseteq> avail m" "roomy m1"
    using alloc_SomeD alloc_roomy assms by blast+
  moreover have "{a ..< a + n} \<subseteq> space" using m1(3) avail_space assms(1) by blast
  ultimately obtain m2 where "release m1 n a = Some m2" "inv m2"
    "avail m2 = avail m1 \<union> {a ..< a + n}"
    using release_law [OF m1(1,4) assms(3), of a] by auto
  with m1 show ?thesis by auto
qed

end

definition resmap_inv :: "int \<Rightarrow> int \<Rightarrow> map_ent list \<Rightarrow> bool" where
  "resmap_inv lo hi mp \<longleftrightarrow> map_wf lo hi mp \<and> arena lo hi"

definition resmap_roomy :: "map_ent list \<Rightarrow> bool" where
  "resmap_roomy mp \<longleftrightarrow> Suc (used mp) < length mp"

interpretation resmap: unit_allocator malloc mfree units "resmap_inv lo hi" resmap_roomy "{lo ..< hi}"
  for lo hi
proof unfold_locales
  fix m and n :: int assume inv: "resmap_inv lo hi m" and n: "0 < n"
  have pos: "a \<noteq> 0" if "{a ..< a + n} \<subseteq> units m" for a
  proof -
    from n that have "a \<in> units m" by auto
    with inv units_bounds [of lo hi m] show ?thesis by (auto simp: resmap_inv_def arena_def)
  qed
  show "\<exists>a m'. malloc m n = Some (a, m') \<and> resmap_inv lo hi m' \<and>
      (if \<exists>x. {x ..< x + n} \<subseteq> units m
       then a \<noteq> 0 \<and> {a ..< a + n} \<subseteq> units m \<and> units m' = units m - {a ..< a + n}
       else a = 0 \<and> m' = m)"
  proof (cases "\<exists>x. {x ..< x + n} \<subseteq> units m")
    case True
    then show ?thesis
      using malloc_correct [of lo hi m n] inv n pos unfolding resmap_inv_def first_fit_def
      by simp blast
  next
    case False
    then show ?thesis
      using malloc_correct [of lo hi m n] inv n unfolding resmap_inv_def by simp
  qed
next
  fix m and n a :: int and m' assume "malloc m n = Some (a, m')" "resmap_inv lo hi m" "0 < n"
    "resmap_roomy m"
  with malloc_used [of m n a m'] malloc_correct [of lo hi m n] show "resmap_roomy m'"
    by (auto simp: resmap_roomy_def resmap_inv_def)
next
  fix m and n a :: int assume "resmap_inv lo hi m" "resmap_roomy m" "0 < n"
    "{a ..< a + n} \<subseteq> {lo ..< hi}" "{a ..< a + n} \<inter> units m = {}"
  then show "\<exists>m'. mfree m n a = Some m' \<and> resmap_inv lo hi m' \<and> units m' = units m \<union> {a ..< a + n}"
    using mfree_correct [of lo hi m n a] by (auto simp: resmap_inv_def resmap_roomy_def)
qed (auto simp: resmap_inv_def dest: units_bounds)

section \<open>Properties\<close>

text \<open>
  Claim C1. \<open>malloc\<close> always returns on a well-formed map; it answers the lowest address at which
  \<open>n\<close> consecutive units are free, takes exactly those units out of the map and keeps the map
  well-formed; when there is no such run it answers 0 and leaves the map alone.
\<close>

theorem malloc_first_fit:
  assumes "map_wf lo hi mp" "arena lo hi" "0 < n"
  shows "\<exists>a mp'. malloc mp n = Some (a, mp') \<and> map_wf lo hi mp' \<and>
    (if \<exists>x. {x ..< x + n} \<subseteq> units mp
     then first_fit (units mp) n a \<and> units mp' = units mp - {a ..< a + n}
     else a = 0 \<and> mp' = mp)"
  using malloc_correct [OF assms] by blast

definition demo_map :: "map_ent list" where
  "demo_map = [\<lparr>m_size = 3, m_addr = 10\<rparr>, \<lparr>m_size = 8, m_addr = 20\<rparr>,
     \<lparr>m_size = 0, m_addr = 0\<rparr>, \<lparr>m_size = 0, m_addr = 0\<rparr>, \<lparr>m_size = 0, m_addr = 0\<rparr>]"

theorem malloc_first_fit_witness:
  "map_wf 1 100 demo_map \<and> (\<exists>mp'. malloc demo_map 5 = Some (20, mp') \<and> map_wf 1 100 mp')"
proof -
  have wf: "map_wf 1 100 demo_map" by (simp add: demo_map_def)
  have "malloc demo_map 5 = Some (20, [\<lparr>m_size = 3, m_addr = 10\<rparr>, \<lparr>m_size = 3, m_addr = 25\<rparr>,
     \<lparr>m_size = 0, m_addr = 0\<rparr>, \<lparr>m_size = 0, m_addr = 0\<rparr>, \<lparr>m_size = 0, m_addr = 0\<rparr>])"
    by (simp add: demo_map_def u16_def s16_def)
  with malloc_first_fit [OF wf, of 5] wf show ?thesis by (auto simp: arena_def)
qed

text \<open>
  Claim C7. \<open>mfree\<close> of a region that is not free, inside the arena of the map and with a spare
  slot in the table, returns a well-formed map (sorted, closed by a zero entry, neighbours
  merged) whose free units are the old ones and exactly the freed region.
\<close>

theorem mfree_releases:
  assumes "map_wf lo hi mp" "arena lo hi" "0 < n" "lo \<le> a" "a + n \<le> hi"
    "{a ..< a + n} \<inter> units mp = {}" "Suc (used mp) < length mp"
  shows "\<exists>mp'. mfree mp n a = Some mp' \<and> map_wf lo hi mp' \<and> length mp' = length mp
    \<and> units mp' = units mp \<union> {a ..< a + n}"
  using mfree_correct [OF assms] .

theorem mfree_releases_witness:
  "\<exists>mp'. mfree demo_map 7 13 = Some mp' \<and> map_wf 1 100 mp' \<and> units mp' = {10 ..< 28}"
proof -
  have u: "units demo_map = {10 ..< 13} \<union> {20 ..< 28}"
    by (simp add: demo_map_def ent_units_def)
  have h: "map_wf 1 100 demo_map" "arena 1 100" "(0::int) < 7" "(1::int) \<le> 13" "(13::int) + 7 \<le> 100"
    "{13 ..< 13 + (7::int)} \<inter> units demo_map = {}" "Suc (used demo_map) < length demo_map"
    unfolding u by (simp_all add: demo_map_def arena_def used_def) auto
  from mfree_releases [OF h] show ?thesis unfolding u by (auto simp: atLeastLessThan_def)
qed

text \<open>
  What \<open>malloc\<close> hands out can be handed back: releasing the region just allocated
  restores the set of free units, and two regions allocated one after the other are disjoint.
\<close>

theorem malloc_mfree_roundtrip:
  assumes "resmap_inv lo hi mp" "resmap_roomy mp" "0 < n" "0 < k"
    "malloc mp n = Some (a, mp1)" "a \<noteq> 0"
  shows "(\<exists>mp2. mfree mp1 n a = Some mp2 \<and> resmap_inv lo hi mp2 \<and> units mp2 = units mp)
    \<and> (\<forall>b mp2. malloc mp1 k = Some (b, mp2) \<longrightarrow> b \<noteq> 0 \<longrightarrow> {a ..< a + n} \<inter> {b ..< b + k} = {})"
  using resmap.alloc_release [OF assms(1,2,3,5,6)] resmap.two_allocs_disjoint [OF assms(1,3,4,5,6)]
  by blast

theorem malloc_mfree_roundtrip_witness:
  "\<exists>mp1 mp2. malloc demo_map 5 = Some (20, mp1) \<and> mfree mp1 5 20 = Some mp2 \<and> units mp2 = units demo_map"
proof -
  have h: "resmap_inv 1 100 demo_map" "resmap_roomy demo_map" "(0::int) < 5" "(0::int) < 2"
    by (simp_all add: demo_map_def resmap_inv_def resmap_roomy_def arena_def used_def)
  have "\<exists>mp1. malloc demo_map 5 = Some (20, mp1)"
    by (simp add: demo_map_def u16_def s16_def)
  then obtain mp1 where m: "malloc demo_map 5 = Some (20, mp1)" by blast
  from malloc_mfree_roundtrip [OF h m] m show ?thesis by auto
qed

end
