(* ===== verification/Clist.thy ===== *)
theory Clist
  imports Prelude
begin

text \<open>
  Character lists (\<open>usr/sys/sys/prim.c\<close>). Characters live in 16-byte blocks (\<open>struct cblock\<close>:
  a 4-byte link and \<open>CBSIZE\<close> = 12 characters) aligned on 16, so that address arithmetic finds the
  block of a character. Addresses are natural numbers, 0 is \<open>NULL\<close>; \<open>c_next\<close> is the link word
  of the block at an address and \<open>c_info\<close> the character cells, both indexed by address. The
  processor priority (\<open>spl6\<close>/\<open>splx\<close>) is the field \<open>ipl\<close>.
\<close>

record clmem =
  c_next :: "nat \<Rightarrow> nat"
  c_info :: "nat \<Rightarrow> int"
  cfreelist :: nat
  cbad :: int
  ipl :: int

record clist =
  c_cc :: int
  c_cf :: nat
  c_cl :: nat

section \<open>Model\<close>

abbreviation CBSIZE :: nat where "CBSIZE \<equiv> 12"

definition spl6 :: "clmem \<Rightarrow> int \<times> clmem" where
  "spl6 m = (ipl m, m\<lparr>ipl := 6\<rparr>)"

definition splx :: "int \<Rightarrow> clmem \<Rightarrow> clmem" where
  "splx s m = m\<lparr>ipl := s\<rparr>"

text \<open>\<open>x & ~CROUND\<close> and \<open>bp->c_next = cfreelist; cfreelist = bp\<close>\<close>

definition cround :: "nat \<Rightarrow> nat" where
  "cround x = x - x mod 16"

definition cb_free :: "nat \<Rightarrow> clmem \<Rightarrow> clmem" where
  "cb_free bp m = m\<lparr>c_next := (c_next m)(bp := cfreelist m), cfreelist := bp\<rparr>"

text \<open>\<open>bp = cfreelist; cfreelist = bp->c_next; bp->c_next = NULL\<close>\<close>

definition cb_take :: "clmem \<Rightarrow> nat \<times> clmem" where
  "cb_take m = (let bp = cfreelist m in
     (bp, m\<lparr>cfreelist := c_next m bp, c_next := (c_next m)(bp := 0)\<rparr>))"

definition getc :: "clist \<Rightarrow> clmem \<Rightarrow> int \<times> clist \<times> clmem" where
  "getc p m =
     (let (s, m) = spl6 m in
      if c_cc p \<le> 0 then (-1, p\<lparr>c_cc := 0, c_cf := 0, c_cl := 0\<rparr>, splx s m)
      else
        (let c = u8 (c_info m (c_cf p));
             p = p\<lparr>c_cf := c_cf p + 1, c_cc := c_cc p - 1\<rparr>
         in if c_cc p \<le> 0 then
              (let bp = cround (c_cf p - 1)
               in (c, p\<lparr>c_cf := 0, c_cl := 0\<rparr>, splx s (cb_free bp m)))
            else if c_cf p mod 16 = 0 then
              (let bp = c_cf p - 16
               in (c, p\<lparr>c_cf := c_next m bp + 4\<rparr>, splx s (cb_free bp m)))
            else (c, p, splx s m)))"

text \<open>The copy loop of \<open>q_to_b\<close>: at most \<open>n\<close> characters, stopping when the list is empty.\<close>

fun q_to_b_loop :: "nat \<Rightarrow> clist \<Rightarrow> clmem \<Rightarrow> int list \<times> clist \<times> clmem" where
  "q_to_b_loop 0 q m = ([], q, m)"
| "q_to_b_loop (Suc n) q m =
     (let c = u8 (c_info m (c_cf q));
          q = q\<lparr>c_cf := c_cf q + 1, c_cc := c_cc q - 1\<rparr>
      in if c_cc q \<le> 0 then
           (let bp = cround (c_cf q - 1)
            in ([c], q\<lparr>c_cf := 0, c_cl := 0\<rparr>, cb_free bp m))
         else
           (let (q, m) =
                  (if c_cf q mod 16 = 0 then
                     (let bp = c_cf q - 16
                      in (q\<lparr>c_cf := c_next m bp + 4\<rparr>, cb_free bp m))
                   else (q, m));
                (cs, q', m') = q_to_b_loop n q m
            in (c # cs, q', m')))"

definition q_to_b :: "clist \<Rightarrow> int \<Rightarrow> clmem \<Rightarrow> int list \<times> clist \<times> clmem" where
  "q_to_b q cc m =
     (if cc \<le> 0 then ([], q, m)
      else
        (let (s, m) = spl6 m in
         if c_cc q \<le> 0 then ([], q\<lparr>c_cc := 0, c_cf := 0, c_cl := 0\<rparr>, m)
         else (let (cs, q, m) = q_to_b_loop (nat cc) q m in (cs, q, splx s m))))"

fun ndqb_scan :: "(nat \<Rightarrow> int) \<Rightarrow> int \<Rightarrow> nat \<Rightarrow> nat \<Rightarrow> nat \<Rightarrow> nat" where
  "ndqb_scan info flag p 0 i = i"
| "ndqb_scan info flag p (Suc n) i =
     (if info p AND flag \<noteq> 0 then i else ndqb_scan info flag (Suc p) n (Suc i))"

definition ndqb :: "clist \<Rightarrow> int \<Rightarrow> clmem \<Rightarrow> int" where
  "ndqb q flag m =
     (if c_cc q \<le> 0 then - c_cc q
      else
        (let cc = int (cround (c_cf q + CBSIZE)) - int (c_cf q);
             cc = (if c_cc q < cc then c_cc q else cc)
         in if flag \<noteq> 0 then int (ndqb_scan (\<lambda>a. u8 (c_info m a)) flag (c_cf q) (nat cc) 0) else cc))"

definition ndflush :: "clist \<Rightarrow> int \<Rightarrow> clmem \<Rightarrow> clist \<times> clmem" where
  "ndflush q cc m =
     (if c_cc q < 0 then
        (if c_cf q \<noteq> 0 then (q\<lparr>c_cc := c_cc q + cc, c_cf := nat (int (c_cf q) + cc)\<rparr>, m)
         else (q\<lparr>c_cc := 0\<rparr>, m))
      else if c_cc q = 0 then (q, m)
      else if cc > int CBSIZE \<or> cc \<le> 0 then (q, m\<lparr>cbad := cbad m + 1\<rparr>)
      else
        (let q = q\<lparr>c_cc := c_cc q - cc, c_cf := c_cf q + nat cc\<rparr> in
         if c_cf q mod 16 = 0 then
           (let bp = c_cf q - 16;
                q = (if c_next m bp \<noteq> 0 then q\<lparr>c_cf := c_next m bp + 4\<rparr>
                     else q\<lparr>c_cf := 0, c_cl := 0\<rparr>)
            in (q, cb_free bp m))
         else if c_cc q = 0 then
           (let bp = cround (c_cf q) in (q\<lparr>c_cf := 0, c_cl := 0\<rparr>, cb_free bp m))
         else (q, m)))"

definition putc :: "int \<Rightarrow> clist \<Rightarrow> clmem \<Rightarrow> int \<times> clist \<times> clmem" where
  "putc c p m =
     (let (s, m) = spl6 m;
          cp = c_cl p;
          store = (\<lambda>cp p m. (0, p\<lparr>c_cc := c_cc p + 1, c_cl := cp + 1\<rparr>,
                             splx s (m\<lparr>c_info := (c_info m)(cp := u8 c)\<rparr>)))
      in if cp = 0 \<or> c_cc p < 0 then
           (if cfreelist m = 0 then (-1, p, splx s m)
            else (let (bp, m) = cb_take m in store (bp + 4) (p\<lparr>c_cf := bp + 4\<rparr>) m))
         else if cp mod 16 = 0 then
           (let bp = cp - 16; m = m\<lparr>c_next := (c_next m)(bp := cfreelist m)\<rparr> in
            if cfreelist m = 0 then (-1, p, splx s m)
            else (let (bp, m) = cb_take m in store (bp + 4) p m))
         else store cp p m)"

fun b_to_q_loop :: "int list \<Rightarrow> nat \<Rightarrow> clmem \<Rightarrow> nat \<times> nat \<times> clmem" where
  "b_to_q_loop [] cq m = (0, cq, m)"
| "b_to_q_loop (c # cs) cq m =
     (if cq mod 16 = 0 then
        (let bp = cq - 16; m = m\<lparr>c_next := (c_next m)(bp := cfreelist m)\<rparr> in
         if cfreelist m = 0 then (length (c # cs), cq, m)
         else (let (bp, m) = cb_take m
               in b_to_q_loop cs (bp + 5) (m\<lparr>c_info := (c_info m)(bp + 4 := u8 c)\<rparr>)))
      else b_to_q_loop cs (cq + 1) (m\<lparr>c_info := (c_info m)(cq := u8 c)\<rparr>))"

text \<open>The buffer \<open>cp\<close> of \<open>cc\<close> characters is a list; the result is the number not transferred.\<close>

definition b_to_q :: "int list \<Rightarrow> clist \<Rightarrow> clmem \<Rightarrow> int \<times> clist \<times> clmem" where
  "b_to_q cs q m =
     (if cs = [] then (0, q, m)
      else
        (let (s, m) = spl6 m; acc = length cs in
         if (c_cl q = 0 \<or> c_cc q < 0) \<and> cfreelist m = 0 then (int acc, q, splx s m)
         else
           (let (cq, q, m) =
                  (if c_cl q = 0 \<or> c_cc q < 0 then
                     (let (bp, m) = cb_take m in (bp + 4, q\<lparr>c_cf := bp + 4\<rparr>, m))
                   else (c_cl q, q, m));
                (cc, cq, m) = b_to_q_loop cs cq m
            in (int cc, q\<lparr>c_cl := cq, c_cc := c_cc q + (int acc - int cc)\<rparr>, splx s m))))"

text \<open>
  \<open>cinit\<close> strings the aligned blocks between \<open>cfree\<close> (at address \<open>base\<close>) and
  \<open>&cfree[NCLIST-1]\<close> on the free list, and counts the entries of \<open>cdevsw\<close> up to the first
  one whose \<open>d_open\<close> is null.
\<close>

abbreviation NCLIST :: nat where "NCLIST \<equiv> 100"

fun cinit_loop :: "nat \<Rightarrow> nat \<Rightarrow> clmem \<Rightarrow> clmem" where
  "cinit_loop 0 cp m = m"
| "cinit_loop (Suc n) cp m = cinit_loop n (cp + 16) (cb_free cp m)"

definition cinit :: "nat \<Rightarrow> bool list \<Rightarrow> clmem \<Rightarrow> nat \<times> clmem" where
  "cinit base d_opens m =
     (let ccp = cround (base + 15); lim = base + 16 * (NCLIST - 1)
      in (length (takeWhile id d_opens),
          cinit_loop (if ccp \<le> lim then (lim - ccp) div 16 + 1 else 0) ccp m))"

definition getw :: "clist \<Rightarrow> clmem \<Rightarrow> int \<times> clist \<times> clmem" where
  "getw p m =
     (if c_cc p \<le> 1 then (u16 (-1), p, m)
      else (let (s, p, m) = getc p m; (t, p, m) = getc p m in (u16 (s OR push_bit 8 t), p, m)))"

definition putw :: "int \<Rightarrow> clist \<Rightarrow> clmem \<Rightarrow> int \<times> clist \<times> clmem" where
  "putw c p m =
     (let (s, m) = spl6 m in
      if cfreelist m = 0 then (-1, p, splx s m)
      else (let (_, p, m) = putc c p m; (_, p, m) = putc (drop_bit 8 c) p m in (0, p, splx s m)))"

section \<open>Contents of a list\<close>

text \<open>The characters a reader would get, following the links.\<close>

fun gather :: "nat \<Rightarrow> clmem \<Rightarrow> nat \<Rightarrow> int list" where
  "gather 0 m cf = []"
| "gather (Suc n) m cf =
     u8 (c_info m cf) # gather n m (if Suc cf mod 16 = 0 then c_next m (Suc cf - 16) + 4 else Suc cf)"

definition contents :: "clmem \<Rightarrow> clist \<Rightarrow> int list" where
  "contents m q = gather (nat (c_cc q)) m (c_cf q)"

fun lnk_path :: "(nat \<Rightarrow> nat) \<Rightarrow> nat \<Rightarrow> nat list \<Rightarrow> bool" where
  "lnk_path nx p [] = (p = 0)"
| "lnk_path nx p (k # ks) = (p = k \<and> k \<noteq> 0 \<and> k mod 16 = 0 \<and> lnk_path nx (nx k) ks)"

definition frep :: "clmem \<Rightarrow> nat list \<Rightarrow> bool" where
  "frep m fs \<longleftrightarrow> lnk_path (c_next m) (cfreelist m) fs \<and> distinct fs"

text \<open>
  A list occupies the blocks \<open>ks\<close>: its first character is in the first block, the place for
  the next one at most at the end of the last block, and the count agrees with both.
\<close>

definition crep :: "clmem \<Rightarrow> clist \<Rightarrow> nat list \<Rightarrow> bool" where
  "crep m q ks \<longleftrightarrow>
     (if ks = [] then c_cc q = 0 \<and> c_cf q = 0 \<and> c_cl q = 0
      else 0 < c_cc q \<and> lnk_path (c_next m) (hd ks) ks \<and> distinct ks
         \<and> hd ks + 4 \<le> c_cf q \<and> c_cf q < hd ks + 16
         \<and> last ks + 4 < c_cl q \<and> c_cl q \<le> last ks + 16
         \<and> c_cc q + int (c_cf q) + int (last ks) = 12 * int (length ks) + int (hd ks) + int (c_cl q) - 12)"

section \<open>Blocks and cells\<close>

lemma lnk_path_upd [simp]: "k \<notin> set ks \<Longrightarrow> lnk_path (nx(k := v)) p ks = lnk_path nx p ks"
  by (induction ks arbitrary: p) auto

lemma lnk_path_aligned: "lnk_path nx p ks \<Longrightarrow> k \<in> set ks \<Longrightarrow> k mod 16 = 0 \<and> k \<noteq> 0"
  by (induction ks arbitrary: p) auto

lemma lnk_path_snoc:
  "lnk_path nx p ks \<Longrightarrow> ks \<noteq> [] \<Longrightarrow> distinct ks \<Longrightarrow> k \<notin> set ks \<Longrightarrow> k \<noteq> 0 \<Longrightarrow> k mod 16 = 0 \<Longrightarrow>
   nx' k = 0 \<Longrightarrow> nx' (last ks) = k \<Longrightarrow> \<forall>j\<in>set (butlast ks). nx' j = nx j \<Longrightarrow>
   lnk_path nx' p (ks @ [k])"
proof (induction ks arbitrary: p)
  case (Cons j ks)
  then show ?case by (cases ks) auto
qed simp

fun cells :: "nat \<Rightarrow> nat list \<Rightarrow> nat list" where
  "cells cf [] = []"
| "cells cf [k] = [cf ..< k + 16]"
| "cells cf (k # k' # ks) = [cf ..< k + 16] @ cells (k' + 4) (k' # ks)"

lemma cells_step:
  assumes "cf < k + 16"
  shows "cells cf (k # ks) =
    cf # (if Suc cf = k + 16 then (if ks = [] then [] else cells (hd ks + 4) ks) else cells (Suc cf) (k # ks))"
  using assms by (cases ks) (auto simp: upt_conv_Cons)

lemma length_cells:
  "ks \<noteq> [] \<Longrightarrow> cf \<le> hd ks + 16 \<Longrightarrow> length (cells cf ks) + cf = 12 * length ks + hd ks + 4"
proof (induction cf ks rule: cells.induct)
  case (3 cf k k' ks)
  then have "length (cells (k' + 4) (k' # ks)) + (k' + 4) = 12 * length (k' # ks) + k' + 4" by simp
  with 3(2,3) show ?case by simp
qed auto

lemma cells_snoc: "ks \<noteq> [] \<Longrightarrow> cells cf (ks @ [k]) = cells cf ks @ [k + 4 ..< k + 16]"
  by (induction cf ks rule: cells.induct) auto

lemma set_cells:
  "a \<in> set (cells cf ks) \<Longrightarrow> hd ks + 4 \<le> cf \<Longrightarrow> \<exists>k\<in>set ks. k + 4 \<le> a \<and> a < k + 16"
  by (induction cf ks rule: cells.induct) auto

lemma block_of:
  assumes "k mod 16 = 0" "k \<le> a" "a < k + 16"
  shows "a - a mod 16 = (k::nat)" "a mod 16 = a - k"
proof -
  from assms(1) obtain p where p: "k = 16 * p" by (auto elim!: dvdE)
  with assms(2,3) obtain r where "a = 16 * p + r" "r < 16" using le_Suc_ex by fastforce
  with p show "a - a mod 16 = k" "a mod 16 = a - k" by simp_all
qed

lemma blocks_apart:
  assumes "k mod 16 = 0" "j mod 16 = 0" "k \<noteq> j" "k \<le> (a::nat)" "a < k + 16"
  shows "\<not> (j \<le> a \<and> a < j + 16)"
  using assms block_of(1) by metis

lemma distinct_cells:
  "\<forall>k\<in>set ks. k mod 16 = 0 \<Longrightarrow> distinct ks \<Longrightarrow> hd ks + 4 \<le> cf \<Longrightarrow> distinct (cells cf ks)"
proof (induction cf ks rule: cells.induct)
  case (3 cf k k' ks)
  have "a \<notin> set (cells (k' + 4) (k' # ks))" if "a \<in> {cf ..< k + 16}" for a
  proof
    assume "a \<in> set (cells (k' + 4) (k' # ks))"
    then obtain j where "j \<in> set (k' # ks)" "j + 4 \<le> a" "a < j + 16" using set_cells by fastforce
    moreover from this 3(2,3) have "k mod 16 = 0" "j mod 16 = 0" "k \<noteq> j" by auto
    ultimately show False using 3(4) that blocks_apart [of k j a] by simp
  qed
  with 3 show ?case by auto
qed auto

lemma cells_to_last:
  assumes "ks \<noteq> []" "last ks + 4 \<le> cl" "cl \<le> last ks + 16" "length ks = 1 \<longrightarrow> cf \<le> cl"
  shows "\<exists>pre. cells cf ks = pre @ [cl ..< last ks + 16]"
  using assms
proof (induction cf ks rule: cells.induct)
  case (2 cf k)
  then show ?case by (intro exI [of _ "[cf ..< cl]"]) (simp add: upt_split [symmetric])
next
  case (3 cf k k' ks)
  then have "length (k' # ks) = 1 \<longrightarrow> k' + 4 \<le> cl" by (cases ks) auto
  with 3 obtain pre where "cells (k' + 4) (k' # ks) = pre @ [cl ..< last (k' # ks) + 16]"
    by (metis last_ConsR list.distinct(1))
  then show ?case by (intro exI [of _ "[cf ..< k + 16] @ pre"]) simp
qed simp

lemma gather_cells:
  assumes "lnk_path (c_next m) (hd ks) ks" "ks \<noteq> []" "hd ks + 4 \<le> cf" "cf < hd ks + 16"
    "n \<le> length (cells cf ks)"
  shows "gather n m cf = map (\<lambda>a. u8 (c_info m a)) (take n (cells cf ks))"
  using assms
proof (induction n arbitrary: cf ks)
  case (Suc n)
  then obtain k ks' where ks: "ks = k # ks'" by (cases ks) auto
  with Suc.prems have al: "k mod 16 = 0" by simp
  note step = cells_step [of cf k ks']
  show ?case
  proof (cases "Suc cf = k + 16")
    case True
    with al have b: "Suc cf mod 16 = 0" "Suc cf - 16 = k" by simp_all
    show ?thesis
    proof (cases ks')
      case Nil
      with True Suc.prems ks show ?thesis by (simp add: upt_conv_Cons)
    next
      case (Cons k' ks'')
      with Suc.prems ks have "c_next m k = k'" "lnk_path (c_next m) k' ks'" by auto
      with Suc.IH [of ks' "k' + 4"] Suc.prems ks Cons True b step show ?thesis by auto
    qed
  next
    case False
    with al Suc.prems(3,4) ks have "Suc cf mod 16 = Suc cf - k" by (intro block_of) auto
    with Suc.prems(3) ks have "Suc cf mod 16 \<noteq> 0" by simp
    with Suc.IH [of ks "Suc cf"] Suc.prems ks False step show ?thesis by auto
  qed
qed simp

lemma contents_cells:
  assumes "crep m q ks" "ks \<noteq> []"
  shows "\<exists>pre. cells (c_cf q) ks = pre @ [c_cl q ..< last ks + 16]
    \<and> contents m q = map (\<lambda>a. u8 (c_info m a)) pre \<and> int (length pre) = c_cc q"
proof -
  note r = assms(1) [unfolded crep_def if_not_P [OF assms(2)]]
  have "length ks = 1 \<longrightarrow> c_cf q \<le> c_cl q"
    using r by (cases ks) auto
  with r assms(2) obtain pre where pre: "cells (c_cf q) ks = pre @ [c_cl q ..< last ks + 16]"
    using cells_to_last [of ks "c_cl q" "c_cf q"] by auto
  have "length (cells (c_cf q) ks) + c_cf q = 12 * length ks + hd ks + 4"
    using r assms(2) by (intro length_cells) auto
  with pre r have len: "int (length pre) = c_cc q" by auto
  have "contents m q = map (\<lambda>a. u8 (c_info m a)) (take (nat (c_cc q)) (cells (c_cf q) ks))"
    unfolding contents_def using r assms(2) pre len by (intro gather_cells) auto
  with pre len show ?thesis by auto
qed

section \<open>Representation lemmas\<close>

text \<open>Changing memory outside the blocks of a list does not change the list.\<close>

lemma crep_frame:
  assumes "crep m q ks" "\<forall>k\<in>set ks. c_next m' k = c_next m k"
  shows "crep m' q ks"
proof -
  have "lnk_path (c_next m') p ks = lnk_path (c_next m) p ks" for p
    using assms(2) by (induction ks arbitrary: p) auto
  with assms(1) show ?thesis by (simp add: crep_def split: if_splits)
qed

lemma contents_frame:
  assumes "crep m q ks" "crep m' q ks"
    "\<forall>k\<in>set ks. \<forall>a. k + 4 \<le> a \<and> a < k + 16 \<longrightarrow> c_info m' a = c_info m a"
  shows "contents m' q = contents m q"
proof (cases "ks = []")
  case True
  with assms(1) show ?thesis by (simp add: crep_def contents_def)
next
  case False
  from contents_cells [OF assms(1) False] contents_cells [OF assms(2) False] obtain pre where
    pre: "cells (c_cf q) ks = pre @ [c_cl q ..< last ks + 16]"
    "contents m q = map (\<lambda>a. u8 (c_info m a)) pre" "contents m' q = map (\<lambda>a. u8 (c_info m' a)) pre"
    by auto
  have "c_info m' a = c_info m a" if "a \<in> set pre" for a
  proof -
    from that pre(1) have "a \<in> set (cells (c_cf q) ks)" by simp
    moreover have "hd ks + 4 \<le> c_cf q" using assms(1) False by (simp add: crep_def)
    ultimately obtain k where "k \<in> set ks" "k + 4 \<le> a" "a < k + 16" using set_cells by blast
    with assms(3) show ?thesis by blast
  qed
  with pre show ?thesis by simp
qed

lemma contents_Nil: "crep m q ks \<Longrightarrow> contents m q = [] \<longleftrightarrow> ks = []"
proof (cases "ks = []")
  case False
  assume "crep m q ks"
  with contents_cells [OF this False] False show ?thesis by (auto simp: crep_def)
qed (simp add: crep_def contents_def)

lemma crep_count: "crep m q ks \<Longrightarrow> c_cc q = int (length (contents m q))"
  using contents_cells [of m q ks] by (cases "ks = []") (auto simp: crep_def contents_def)

lemma crep_pathD:
  "crep m q ks \<Longrightarrow> ks \<noteq> [] \<Longrightarrow> lnk_path (c_next m) (hd ks) ks \<and> distinct ks"
  by (simp add: crep_def)

lemma frep_Cons:
  "frep m (f # fs) \<longleftrightarrow> cfreelist m = f \<and> f \<noteq> 0 \<and> f mod 16 = 0 \<and> f \<notin> set fs \<and> distinct fs
    \<and> lnk_path (c_next m) (c_next m f) fs"
  by (auto simp: frep_def)

lemma frep_cb_free:
  "frep m fs \<Longrightarrow> k \<notin> set fs \<Longrightarrow> k \<noteq> 0 \<Longrightarrow> k mod 16 = 0 \<Longrightarrow> frep (cb_free k m) (k # fs)"
  by (auto simp: frep_def cb_free_def)

lemma frep_Nil_iff: "frep m fs \<Longrightarrow> cfreelist m = 0 \<longleftrightarrow> fs = []"
  by (cases fs) (auto simp: frep_def)

lemma spl_simps [simp]:
  "c_next (splx s m) = c_next m" "c_info (splx s m) = c_info m" "cfreelist (splx s m) = cfreelist m"
  by (simp_all add: splx_def)

text \<open>The link structure and the characters ignore the priority level.\<close>

lemma ipl_irrelevant [simp]:
  "crep (m\<lparr>ipl := s\<rparr>) q ks = crep m q ks" "frep (m\<lparr>ipl := s\<rparr>) fs = frep m fs"
  "gather n (m\<lparr>ipl := s\<rparr>) cf = gather n m cf" "contents (m\<lparr>ipl := s\<rparr>) q = contents m q"
proof -
  show g: "gather n (m\<lparr>ipl := s\<rparr>) cf = gather n m cf" for n cf
    by (induction n arbitrary: cf) auto
  show "contents (m\<lparr>ipl := s\<rparr>) q = contents m q" by (simp add: contents_def g)
qed (simp_all add: crep_def frep_def)

section \<open>Removing a character\<close>

text \<open>The three ways the front of a list can look after its first character is taken.\<close>

lemma front_step:
  assumes r: "crep m q (k # ks)"
  shows "k + 4 \<le> c_cf q" "c_cf q < k + 16" "k mod 16 = 0" "k \<noteq> 0" "k \<notin> set ks" "distinct ks"
    and "cround (c_cf q) = k" and "Suc (c_cf q) mod 16 = 0 \<longleftrightarrow> Suc (c_cf q) = k + 16"
    and "c_cc q = 1 \<Longrightarrow> ks = []"
proof -
  from r show b: "k + 4 \<le> c_cf q" "c_cf q < k + 16" "k mod 16 = 0" "k \<noteq> 0" "k \<notin> set ks" "distinct ks"
    by (simp_all add: crep_def)
  show "cround (c_cf q) = k" unfolding cround_def using b by (intro block_of) auto
  show "Suc (c_cf q) mod 16 = 0 \<longleftrightarrow> Suc (c_cf q) = k + 16"
  proof (cases "Suc (c_cf q) = k + 16")
    case True
    with b(3) show ?thesis by simp
  next
    case False
    with b have "Suc (c_cf q) mod 16 = Suc (c_cf q) - k" by (intro block_of) auto
    with b(1) False show ?thesis by simp
  qed
  show "ks = []" if "c_cc q = 1"
  proof (rule ccontr)
    assume "ks \<noteq> []"
    then have "2 \<le> length (k # ks)" by (cases ks) auto
    with r that b \<open>ks \<noteq> []\<close> show False by (auto simp: crep_def)
  qed
qed

lemma getc_empty: "crep m q [] \<Longrightarrow> getc q m = (-1, q, m)"
  by (simp add: getc_def crep_def spl6_def splx_def)


lemma contents_Cons:
  assumes "0 < c_cc q"
  shows "contents m q = u8 (c_info m (c_cf q))
    # gather (nat (c_cc q - 1)) m (if Suc (c_cf q) mod 16 = 0 then c_next m (Suc (c_cf q) - 16) + 4 else Suc (c_cf q))"
proof -
  from assms have "nat (c_cc q) = Suc (nat (c_cc q - 1))" by simp
  then show ?thesis by (simp add: contents_def)
qed

lemma frep_free_front:
  assumes "crep m q (k # ks)" "frep m fs" "set fs \<inter> set (k # ks) = {}"
  shows "frep (cb_free k m) (k # fs)"
  using assms front_step [OF assms(1)] by (intro frep_cb_free) auto

text \<open>
  Taking a character: either the first block keeps some, or it goes back to the free list. The
  characters stay where they are and only the link of the first block may change.
\<close>

definition took :: "clmem \<Rightarrow> clmem \<Rightarrow> nat \<Rightarrow> bool" where
  "took m m' k \<longleftrightarrow> c_info m' = c_info m \<and> (\<forall>j. j \<noteq> k \<longrightarrow> c_next m' j = c_next m j) \<and> ipl m' = ipl m"

lemma getc_keep_block:
  assumes r: "crep m q (k # ks)" and more: "c_cc q \<noteq> 1" "Suc (c_cf q) mod 16 \<noteq> 0"
  shows "\<exists>q'. getc q m = (hd (contents m q), q', m) \<and> crep m q' (k # ks) \<and> contents m q' = tl (contents m q)"
proof -
  let ?q = "q\<lparr>c_cf := c_cf q + 1, c_cc := c_cc q - 1\<rparr>"
  note b = front_step [OF r]
  from r have pos: "0 < c_cc q" by (simp add: crep_def)
  have "getc q m = (hd (contents m q), ?q, m)"
    using pos more by (simp add: getc_def spl6_def splx_def contents_Cons)
  moreover have "crep m ?q (k # ks)"
    using r more b by (simp add: crep_def)
  moreover have "contents m ?q = tl (contents m q)"
    using pos more by (simp add: contents_Cons [of q]) (simp add: contents_def)
  ultimately show ?thesis by blast
qed

lemma getc_drop_block:
  assumes r: "crep m q (k # ks)" and f: "frep m fs" "set fs \<inter> set (k # ks) = {}"
    and stop: "c_cc q = 1 \<or> Suc (c_cf q) mod 16 = 0"
  shows "\<exists>q'. getc q m = (hd (contents m q), q', cb_free k m)
    \<and> crep (cb_free k m) q' ks \<and> contents (cb_free k m) q' = tl (contents m q)"
proof -
  note b = front_step [OF r]
  from r have pos: "0 < c_cc q" by (simp add: crep_def)
  show ?thesis
  proof (cases "c_cc q = 1")
    case True
    let ?q = "q\<lparr>c_cc := 0, c_cf := 0, c_cl := 0\<rparr>"
    from True b have "getc q m = (hd (contents m q), ?q, cb_free k m)"
      by (simp add: getc_def spl6_def splx_def contents_Cons cb_free_def)
    moreover have "contents m q = [u8 (c_info m (c_cf q))]" using True by (simp add: contents_Cons)
    ultimately show ?thesis using b(9) [OF True] by (simp add: crep_def contents_def)
  next
    case False
    with stop have bd: "Suc (c_cf q) = k + 16" using b by simp
    then have bk: "Suc (c_cf q) - 16 = k" by simp
    have ne: "ks \<noteq> []" using r False bd by (auto simp: crep_def)
    let ?q = "q\<lparr>c_cf := c_next m k + 4, c_cc := c_cc q - 1\<rparr>"
    have hd: "c_next m k = hd ks" using r ne by (cases ks) (auto simp: crep_def)
    have rep: "crep m ?q ks"
      using r ne bd False hd by (auto simp: crep_def)
    have "getc q m = (hd (contents m q), ?q, cb_free k m)"
      using pos False b(8) bd bk
      by (simp add: getc_def spl6_def splx_def contents_Cons cb_free_def)
    moreover have rep': "crep (cb_free k m) ?q ks"
      using b(5) by (intro crep_frame [OF rep]) (auto simp: cb_free_def)
    moreover have "contents (cb_free k m) ?q = contents m ?q"
      by (intro contents_frame [OF rep rep']) (simp add: cb_free_def)
    moreover have "contents m ?q = tl (contents m q)"
      using pos b(8) bd bk by (simp add: contents_Cons [of q]) (simp add: contents_def)
    ultimately show ?thesis by metis
  qed
qed

lemma getc_correct:
  assumes r: "crep m q (k # ks)" and f: "frep m fs" "set fs \<inter> set (k # ks) = {}"
  shows "\<exists>q' m' ks' fs'. getc q m = (hd (contents m q), q', m') \<and> crep m' q' ks' \<and> frep m' fs'
    \<and> contents m' q' = tl (contents m q) \<and> took m m' k
    \<and> (ks' = k # ks \<and> fs' = fs \<or> ks' = ks \<and> fs' = k # fs)"
proof (cases "c_cc q = 1 \<or> Suc (c_cf q) mod 16 = 0")
  case True
  from getc_drop_block [OF r f True] frep_free_front [OF r f] show ?thesis
    by (fastforce simp: took_def cb_free_def)
next
  case False
  with getc_keep_block [OF r] f(1) show ?thesis by (fastforce simp: took_def)
qed

section \<open>Appending a character\<close>

lemma contents_take:
  assumes "crep m q ks" "ks \<noteq> []"
  shows "contents m q = map (\<lambda>a. u8 (c_info m a)) (take (nat (c_cc q)) (cells (c_cf q) ks))"
    and "nat (c_cc q) \<le> length (cells (c_cf q) ks)"
  using contents_cells [OF assms] by auto

text \<open>Storing into the cell after the last character appends it.\<close>

lemma append_char:
  assumes r: "crep m q ks" "ks \<noteq> []" and r': "crep m' q' ks'" "ks' \<noteq> []"
    and upd: "c_cf q' = c_cf q" "c_cc q' = c_cc q + 1" "c_info m' = (c_info m)(a := u8 c)"
    and pos: "cells (c_cf q) ks' = cells (c_cf q) ks @ ext" "cells (c_cf q) ks' ! nat (c_cc q) = a"
  shows "contents m' q' = contents m q @ [u8 c]"
proof -
  let ?n = "nat (c_cc q)" and ?cs = "cells (c_cf q) ks'"
  from r have "0 < c_cc q" by (simp add: crep_def)
  then have n: "nat (c_cc q') = Suc ?n" using upd(2) by simp
  with contents_take(2) [OF r'] upd(1) have lt: "?n < length ?cs" by simp
  have "\<forall>k\<in>set ks'. k mod 16 = 0" using r' lnk_path_aligned by (fastforce simp: crep_def)
  then have "distinct ?cs" using r' upd(1) by (intro distinct_cells) (auto simp: crep_def)
  with lt pos(2) have fresh: "a \<notin> set (take ?n ?cs)"
    by (auto simp: in_set_conv_nth nth_eq_iff_index_eq)
  have "take ?n ?cs = take ?n (cells (c_cf q) ks)" using pos(1) contents_take(2) [OF r] by simp
  moreover have "map (\<lambda>x. u8 (c_info m' x)) (take ?n ?cs) = map (\<lambda>x. u8 (c_info m x)) (take ?n ?cs)"
    using fresh upd(3) by auto
  ultimately show ?thesis
    unfolding contents_take(1) [OF r'] contents_take(1) [OF r] n upd(1)
    using lt pos(2) upd(3) by (simp add: take_Suc_conv_app_nth u8_def)
qed

lemma room_in_block:
  assumes "crep m q ks"
  shows "c_cl q mod 16 = 0 \<longleftrightarrow> ks = [] \<or> c_cl q = last ks + 16"
proof (cases "ks = []")
  case False
  then have b: "last ks mod 16 = 0" "last ks + 4 < c_cl q" "c_cl q \<le> last ks + 16"
    using assms lnk_path_aligned [OF _ last_in_set] by (auto simp: crep_def)
  show ?thesis
  proof (cases "c_cl q = last ks + 16")
    case False
    with b have "c_cl q mod 16 = c_cl q - last ks" by (intro block_of) auto
    with b False \<open>ks \<noteq> []\<close> show ?thesis by simp
  qed (use b in simp)
qed (use assms in \<open>simp add: crep_def\<close>)

lemma lnk_path_last: "lnk_path nx p ks \<Longrightarrow> ks \<noteq> [] \<Longrightarrow> nx (last ks) = 0"
  by (induction ks arbitrary: p) (auto split: if_splits)

text \<open>The frame of an append to a list whose blocks are \<open>ks\<close> afterwards.\<close>

definition stored :: "clmem \<Rightarrow> clmem \<Rightarrow> nat list \<Rightarrow> bool" where
  "stored m m' ks \<longleftrightarrow> ipl m' = ipl m \<and> (\<forall>j. j \<notin> set ks \<longrightarrow> c_next m' j = c_next m j)
     \<and> (\<forall>a. (\<forall>k\<in>set ks. \<not> (k + 4 \<le> a \<and> a < k + 16)) \<longrightarrow> c_info m' a = c_info m a)"

lemma putc_full:
  assumes r: "crep m q ks" and full: "c_cl q mod 16 = 0" and f: "frep m []"
  shows "putc c q m = (-1, q, m)"
proof (cases "ks = []")
  case True
  with r f show ?thesis by (simp add: putc_def crep_def spl6_def splx_def frep_def)
next
  case False
  with r full room_in_block [OF r] have "c_cl q = last ks + 16" "c_next m (last ks) = 0" "0 < c_cc q"
    by (auto simp: crep_def lnk_path_last)
  moreover from this(2) have "(c_next m)(last ks := 0) = c_next m" by (rule fun_upd_idem)
  ultimately show ?thesis using full f
    by (simp add: putc_def spl6_def splx_def frep_def)
qed

lemma putc_first:
  assumes r: "crep m q []" and f: "frep m (f # fs)"
  shows "\<exists>q' m'. putc c q m = (0, q', m') \<and> crep m' q' [f] \<and> frep m' fs
    \<and> contents m' q' = [u8 c] \<and> stored m m' [f]"
proof -
  let ?q = "q\<lparr>c_cf := f + 4, c_cc := 1, c_cl := f + 5\<rparr>"
  let ?m = "m\<lparr>cfreelist := c_next m f, c_next := (c_next m)(f := 0), c_info := (c_info m)(f + 4 := u8 c)\<rparr>"
  note fl = f [unfolded frep_Cons]
  have "putc c q m = (0, ?q, ?m)"
    using r fl by (simp add: putc_def crep_def spl6_def splx_def cb_take_def)
  moreover have "crep ?m ?q [f]" using fl by (simp add: crep_def)
  moreover have "frep ?m fs" using fl by (simp add: frep_def)
  moreover have "contents ?m ?q = [u8 c]" by (simp add: contents_def u8_def)
  moreover have "stored m ?m [f]" by (simp add: stored_def)
  ultimately show ?thesis by blast
qed

lemma putc_same_block:
  assumes r: "crep m q ks" and room: "c_cl q mod 16 \<noteq> 0" and f: "frep m fs"
  shows "\<exists>q' m'. putc c q m = (0, q', m') \<and> crep m' q' ks \<and> frep m' fs
    \<and> contents m' q' = contents m q @ [u8 c] \<and> stored m m' ks"
proof -
  let ?q = "q\<lparr>c_cc := c_cc q + 1, c_cl := c_cl q + 1\<rparr>"
  let ?m = "m\<lparr>c_info := (c_info m)(c_cl q := u8 c)\<rparr>"
  have ne: "ks \<noteq> []" "c_cl q \<noteq> last ks + 16" using room room_in_block [OF r] by auto
  with r have b: "0 < c_cc q" "last ks + 4 < c_cl q" "c_cl q < last ks + 16" by (auto simp: crep_def)
  have "putc c q m = (0, ?q, ?m)"
    using b room by (auto simp: putc_def spl6_def splx_def Let_def)
  moreover have r': "crep ?m ?q ks" using r ne b by (simp add: crep_def)
  moreover have "frep ?m fs" using f by (simp add: frep_def)
  moreover have "contents ?m ?q = contents m q @ [u8 c]"
    using contents_cells [OF r ne(1)] b
    by (intro append_char [OF r ne(1) r' ne(1), of "c_cl q" c "[]"]) (auto simp: upt_conv_Cons nth_append)
  moreover have "stored m ?m ks" using ne(1) b by (auto simp: stored_def)
  ultimately show ?thesis by blast
qed

lemma putc_new_block:
  assumes r: "crep m q ks" "ks \<noteq> []" and room: "c_cl q mod 16 = 0" and f: "frep m (f # fs)"
    and dis: "set (f # fs) \<inter> set ks = {}"
  shows "\<exists>q' m'. putc c q m = (0, q', m') \<and> crep m' q' (ks @ [f]) \<and> frep m' fs
    \<and> contents m' q' = contents m q @ [u8 c] \<and> stored m m' (ks @ [f])"
proof -
  let ?q = "q\<lparr>c_cc := c_cc q + 1, c_cl := f + 5\<rparr>"
  let ?nx = "(c_next m)(last ks := f, f := 0)"
  let ?m = "m\<lparr>cfreelist := c_next m f, c_next := ?nx, c_info := (c_info m)(f + 4 := u8 c)\<rparr>"
  note fl = f [unfolded frep_Cons]
  from r room room_in_block [OF r(1)] have cl: "c_cl q = last ks + 16" by simp
  from r have b: "0 < c_cc q" "lnk_path (c_next m) (hd ks) ks" "distinct ks" by (auto simp: crep_def)
  have lf: "last ks \<in> set ks" "f \<notin> set ks" "last ks \<noteq> f" "last ks \<notin> set fs" using r(2) dis by auto
  have "putc c q m = (0, ?q, ?m)"
    using b cl room fl lf by (auto simp: putc_def spl6_def splx_def cb_take_def)
  moreover have path: "lnk_path ?nx (hd ks) (ks @ [f])"
  proof (rule lnk_path_snoc [OF b(2) r(2) b(3) lf(2)])
    have "last ks \<notin> set (butlast ks)"
      using b(3) r(2) by (metis append_butlast_last_id distinct_append not_distinct_conv_prefix)
    then show "\<forall>j\<in>set (butlast ks). ?nx j = c_next m j" using lf(2) by (auto dest: in_set_butlastD)
  qed (use fl lf in auto)
  moreover have r': "crep ?m ?q (ks @ [f])"
    using r cl lf path by (simp add: crep_def)
  moreover have "frep ?m fs" using fl lf by (simp add: frep_def)
  moreover have "contents ?m ?q = contents m q @ [u8 c]"
    using contents_cells [OF r] cl
    by (intro append_char [OF r r', of "f + 4" c "[f + 4 ..< f + 16]"])
      (auto simp: cells_snoc r nth_append)
  moreover have "stored m ?m (ks @ [f])" using r(2) by (auto simp: stored_def)
  ultimately show ?thesis by blast
qed

lemma putc_correct:
  assumes r: "crep m q ks" and f: "frep m fs" and dis: "set fs \<inter> set ks = {}"
  shows "if c_cl q mod 16 = 0 \<and> fs = [] then putc c q m = (-1, q, m)
    else \<exists>q' m' ks' fs'. putc c q m = (0, q', m') \<and> crep m' q' ks' \<and> frep m' fs'
      \<and> contents m' q' = contents m q @ [u8 c] \<and> stored m m' ks' \<and> ks' @ fs' = ks @ fs
      \<and> fs' = (if c_cl q mod 16 = 0 then tl fs else fs)"
proof (cases "c_cl q mod 16 = 0")
  case full: True
  show ?thesis
  proof (cases fs)
    case Nil
    then show ?thesis using putc_full [OF r full] f full by simp
  next
    case (Cons g gs)
    then have nf: "\<not> (c_cl q mod 16 = 0 \<and> fs = [])" by simp
    show ?thesis
    proof (cases "ks = []")
      case True
      with putc_first [of m q g gs c] r f \<open>fs = g # gs\<close> obtain q' m' where
        "putc c q m = (0, q', m')" "crep m' q' [g]" "frep m' gs" "contents m' q' = [u8 c]" "stored m m' [g]"
        by blast
      moreover have "contents m q = []" using r True contents_Nil by blast
      moreover have "[g] @ gs = ks @ fs" "gs = (if c_cl q mod 16 = 0 then tl fs else fs)" using full True Cons by simp_all
      ultimately show ?thesis
        unfolding if_not_P [OF nf] by (intro ex4I [of _ q' m' "[g]" gs]) simp
    next
      case False
      with putc_new_block [OF r False full, of g gs c] f dis Cons obtain q' m' where
        "putc c q m = (0, q', m')" "crep m' q' (ks @ [g])" "frep m' gs"
        "contents m' q' = contents m q @ [u8 c]" "stored m m' (ks @ [g])"
        by blast
      moreover have "(ks @ [g]) @ gs = ks @ fs" "gs = (if c_cl q mod 16 = 0 then tl fs else fs)" using full Cons by simp_all
      ultimately show ?thesis
        unfolding if_not_P [OF nf] by (intro ex4I [of _ q' m' "ks @ [g]" gs]) simp
    qed
  qed
next
  case False
  with putc_same_block [OF r False f, of c] show ?thesis by auto
qed

section \<open>Lists sharing the free list\<close>

text \<open>
  All character lists of the kernel draw their blocks from one free list. A pool is the memory
  together with the list headers, indexed by any type; \<open>B\<close> is the set of all blocks.
\<close>

definition pool_rep ::
  "nat set \<Rightarrow> clmem \<Rightarrow> ('x \<Rightarrow> clist) \<Rightarrow> ('x \<Rightarrow> nat list) \<Rightarrow> nat list \<Rightarrow> bool" where
  "pool_rep B m S ks fs \<longleftrightarrow>
     frep m fs \<and> (\<forall>x. crep m (S x) (ks x)) \<and> (\<forall>x. set fs \<inter> set (ks x) = {})
     \<and> (\<forall>x y. x \<noteq> y \<longrightarrow> set (ks x) \<inter> set (ks y) = {}) \<and> set fs \<union> (\<Union>x. set (ks x)) = B"

definition pool_inv :: "nat set \<Rightarrow> clmem \<times> ('x \<Rightarrow> clist) \<Rightarrow> bool" where
  "pool_inv B s \<longleftrightarrow> finite B \<and> (\<exists>ks fs. pool_rep B (fst s) (snd s) ks fs)"

definition pool_cont :: "clmem \<times> ('x \<Rightarrow> clist) \<Rightarrow> 'x \<Rightarrow> int list" where
  "pool_cont s x = contents (fst s) (snd s x)"

fun free_count :: "nat \<Rightarrow> clmem \<Rightarrow> nat \<Rightarrow> nat" where
  "free_count 0 m p = 0"
| "free_count (Suc n) m p = (if p = 0 then 0 else Suc (free_count n m (c_next m p)))"

definition pool_spare :: "nat set \<Rightarrow> clmem \<times> ('x \<Rightarrow> clist) \<Rightarrow> nat" where
  "pool_spare B s = free_count (card B) (fst s) (cfreelist (fst s))"

definition pool_get :: "'x \<Rightarrow> clmem \<times> ('x \<Rightarrow> clist) \<Rightarrow> int \<times> clmem \<times> ('x \<Rightarrow> clist)" where
  "pool_get x s = (let (c, q, m) = getc (snd s x) (fst s) in (c, m, (snd s)(x := q)))"

definition pool_put :: "int \<Rightarrow> 'x \<Rightarrow> clmem \<times> ('x \<Rightarrow> clist) \<Rightarrow> int \<times> clmem \<times> ('x \<Rightarrow> clist)" where
  "pool_put c x s = (let (r, q, m) = putc c (snd s x) (fst s) in (r, m, (snd s)(x := q)))"

lemma free_count_path: "lnk_path (c_next m) p fs \<Longrightarrow> length fs \<le> n \<Longrightarrow> free_count n m p = length fs"
proof (induction fs arbitrary: n p)
  case Nil
  then show ?case by (cases n) auto
next
  case (Cons f fs)
  then show ?case by (cases n) auto
qed

lemma pool_spare_eq:
  assumes "finite B" "pool_rep B (fst s) (snd s) ks fs"
  shows "pool_spare B s = length fs"
proof -
  from assms have "set fs \<subseteq> B" "distinct fs" "lnk_path (c_next (fst s)) (cfreelist (fst s)) fs"
    by (auto simp: pool_rep_def frep_def)
  with assms(1) show ?thesis
    unfolding pool_spare_def by (metis card_mono distinct_card free_count_path)
qed

lemma pool_repD:
  assumes "pool_rep B m S ks fs"
  shows "crep m (S x) (ks x)" "frep m fs" "set fs \<inter> set (ks x) = {}"
  using assms by (auto simp: pool_rep_def)

text \<open>A step that moves blocks between one list and the free list keeps the pool.\<close>

lemma pool_rep_step:
  assumes pr: "pool_rep B m S ks fs"
    and new: "crep m' q' ks'" "frep m' fs'" "set fs' \<inter> set ks' = {}"
    and blocks: "set fs' \<union> set ks' = set fs \<union> set (ks x)"
    and nx: "\<forall>j. j \<notin> set fs \<union> set (ks x) \<longrightarrow> c_next m' j = c_next m j"
    and info: "\<forall>a. (\<forall>k\<in>set fs \<union> set (ks x). \<not> (k + 4 \<le> a \<and> a < k + 16)) \<longrightarrow> c_info m' a = c_info m a"
  shows "pool_rep B m' (S(x := q')) (ks(x := ks')) fs'"
    and "y \<noteq> x \<Longrightarrow> contents m' (S y) = contents m (S y)"
proof -
  have oth: "set (ks y) \<inter> (set fs \<union> set (ks x)) = {}" if "y \<noteq> x" for y
    using pr that by (fastforce simp: pool_rep_def)
  have fr: "crep m' (S y) (ks y)" if "y \<noteq> x" for y
    using oth [OF that] nx by (intro crep_frame [OF pool_repD(1) [OF pr]]) auto
  have "set fs' \<union> (\<Union>y. set ((ks(x := ks')) y)) = B"
  proof -
    have "(\<Union>y. set ((ks(x := ks')) y)) = set ks' \<union> (\<Union>y\<in>-{x}. set (ks y))"
      by (auto split: if_splits)
    moreover have "(\<Union>y. set (ks y)) = set (ks x) \<union> (\<Union>y\<in>-{x}. set (ks y))" by auto
    moreover have "set fs \<union> (\<Union>y. set (ks y)) = B" using pr by (simp add: pool_rep_def)
    ultimately show ?thesis using blocks by (simp only: Un_assoc [symmetric])
  qed
  moreover have "set ks' \<inter> set (ks y) = {}" "set fs' \<inter> set (ks y) = {}" if "y \<noteq> x" for y
    using oth [OF that] blocks by blast+
  ultimately show "pool_rep B m' (S(x := q')) (ks(x := ks')) fs'"
    using new fr pr unfolding pool_rep_def by (simp add: Int_commute)
  have al: "k mod 16 = 0" if "k \<in> set (ks y) \<or> k \<in> set fs" for k y
    using that pr lnk_path_aligned unfolding pool_rep_def frep_def crep_def
    by (metis empty_iff empty_set)
  show "contents m' (S y) = contents m (S y)" if "y \<noteq> x"
  proof (rule contents_frame [OF pool_repD(1) [OF pr] fr [OF that]], intro ballI allI impI)
    fix k a assume k: "k \<in> set (ks y)" "k + 4 \<le> a \<and> a < k + 16"
    have "\<not> (j + 4 \<le> a \<and> a < j + 16)" if "j \<in> set fs \<union> set (ks x)" for j
    proof -
      have "k \<noteq> j" using k that oth [OF \<open>y \<noteq> x\<close>] by blast
      then show ?thesis using blocks_apart [of k j a] k al [of k y] al [of j x] that by auto
    qed
    with info show "c_info m' a = c_info m a" by blast
  qed
qed

lemma getc_pool:
  assumes pr: "pool_rep B m S ks fs" and ne: "contents m (S x) \<noteq> []"
  shows "\<exists>q' m' ks' fs'. getc (S x) m = (hd (contents m (S x)), q', m') \<and> pool_rep B m' (S(x := q')) ks' fs'
    \<and> contents m' q' = tl (contents m (S x)) \<and> (\<forall>y. y \<noteq> x \<longrightarrow> contents m' (S y) = contents m (S y))
    \<and> ipl m' = ipl m \<and> length fs \<le> length fs'"
proof -
  note p = pool_repD(1) [OF pr, of x] pool_repD(2) [OF pr] pool_repD(3) [OF pr, of x]
  from ne contents_Nil [OF p(1)] obtain k ks0 where k: "ks x = k # ks0" by (cases "ks x") auto
  from getc_correct [OF p(1,2,3) [unfolded k]] obtain q' m' ks' fs' where
    g: "getc (S x) m = (hd (contents m (S x)), q', m')" "crep m' q' ks'" "frep m' fs'"
    "contents m' q' = tl (contents m (S x))" "took m m' k"
    "ks' = k # ks0 \<and> fs' = fs \<or> ks' = ks0 \<and> fs' = k # fs" by blast
  have d: "k \<notin> set ks0" using p(1) k by (simp add: front_step(5))
  then have "set fs' \<inter> set ks' = {}" "set fs' \<union> set ks' = set fs \<union> set (ks x)"
    "length fs \<le> length fs'" using g(6) p(3) k by auto
  with pool_rep_step [OF pr g(2,3), of x] g(1,4,5) k show ?thesis
    unfolding took_def by fastforce
qed

lemma putc_pool:
  assumes pr: "pool_rep B m S ks fs"
  shows "if c_cl (S x) mod 16 = 0 \<and> fs = [] then putc c (S x) m = (-1, S x, m)
    else \<exists>q' m' ks' fs'. putc c (S x) m = (0, q', m') \<and> pool_rep B m' (S(x := q')) ks' fs'
      \<and> contents m' q' = contents m (S x) @ [u8 c]
      \<and> (\<forall>y. y \<noteq> x \<longrightarrow> contents m' (S y) = contents m (S y)) \<and> ipl m' = ipl m
      \<and> length fs \<le> Suc (length fs') \<and> c_cl q' \<noteq> 0 \<and> 0 < c_cc q'
      \<and> fs' = (if c_cl (S x) mod 16 = 0 then tl fs else fs)"
proof -
  note p = pool_repD(1) [OF pr, of x] pool_repD(2) [OF pr] pool_repD(3) [OF pr, of x]
  show ?thesis
  proof (cases "c_cl (S x) mod 16 = 0 \<and> fs = []")
    case True
    with putc_correct [OF p, of c] show ?thesis by simp
  next
    case False
    from putc_correct [OF p, of c] False obtain q' m' ks' fs' where
      g: "putc c (S x) m = (0, q', m')" "crep m' q' ks'" "frep m' fs'"
      "contents m' q' = contents m (S x) @ [u8 c]" "stored m m' ks'" "ks' @ fs' = ks x @ fs"
      "fs' = (if c_cl (S x) mod 16 = 0 then tl fs else fs)" by (auto simp del: append_assoc)
    have "distinct (ks x @ fs)" using p by (auto simp: crep_def frep_def split: if_splits)
    then have d: "distinct (ks' @ fs')" using g(6) by simp
    have "set (ks' @ fs') = set (ks x @ fs)" using g(6) by simp
    with d have bl: "set fs' \<inter> set ks' = {}" "set fs' \<union> set ks' = set fs \<union> set (ks x)" by auto
    have ne: "c_cl q' \<noteq> 0 \<and> 0 < c_cc q'" "length fs \<le> Suc (length fs')"
      using g(2,7) contents_Nil [OF g(2)] g(4) by (auto simp: crep_def)
    have "pool_rep B m' (S(x := q')) (ks(x := ks')) fs'
      \<and> (\<forall>y. y \<noteq> x \<longrightarrow> contents m' (S y) = contents m (S y))"
      using pool_rep_step [OF pr g(2,3) bl] g(5) bl(2) unfolding stored_def by blast
    with g(1,4,5,7) ne False show ?thesis unfolding stored_def by auto
  qed
qed

section \<open>The queue interface\<close>

text \<open>
  What the rest of the kernel relies on: a family of FIFO queues of characters that share a
  pool of \<open>spare\<close> blocks. A removal answers -1 exactly on an empty queue; an append may fail,
  changing nothing, and then there is no spare block.
\<close>

locale char_queues =
  fixes get :: "'x \<Rightarrow> 's \<Rightarrow> int \<times> 's"
    and put :: "int \<Rightarrow> 'x \<Rightarrow> 's \<Rightarrow> int \<times> 's"
    and cont :: "'s \<Rightarrow> 'x \<Rightarrow> int list"
    and inv :: "'s \<Rightarrow> bool"
    and spare :: "'s \<Rightarrow> nat"
  assumes get_law: "inv s \<Longrightarrow> get x s = (c, s') \<Longrightarrow>
      inv s' \<and> spare s \<le> spare s' \<and> cont s' = (cont s)(x := tl (cont s x))
      \<and> c = (if cont s x = [] then -1 else hd (cont s x))"
    and put_law: "inv s \<Longrightarrow> put c x s = (r, s') \<Longrightarrow>
      r = 0 \<and> inv s' \<and> cont s' = (cont s)(x := cont s x @ [u8 c]) \<and> spare s \<le> Suc (spare s')
      \<or> r = -1 \<and> s' = s \<and> spare s = 0"
    and cont_byte: "inv s \<Longrightarrow> c \<in> set (cont s x) \<Longrightarrow> 0 \<le> c \<and> c < 256"
begin

fun put_all :: "int list \<Rightarrow> 'x \<Rightarrow> 's \<Rightarrow> int list \<times> 's" where
  "put_all [] x s = ([], s)"
| "put_all (c # cs) x s =
     (let (r, s') = put c x s in if r = 0 then put_all cs x s' else (c # cs, s'))"

fun get_some :: "nat \<Rightarrow> 'x \<Rightarrow> 's \<Rightarrow> int list \<times> 's" where
  "get_some 0 x s = ([], s)"
| "get_some (Suc n) x s =
     (let (c, s') = get x s in
      if c = -1 then ([], s') else (let (cs, s'') = get_some n x s' in (c # cs, s'')))"

lemma get_empty_iff: "inv s \<Longrightarrow> fst (get x s) = -1 \<longleftrightarrow> cont s x = []"
  using get_law [of s x] cont_byte [of s _ x] by (cases "get x s"; cases "cont s x") force+

lemma put_all_law:
  "inv s \<Longrightarrow> put_all cs x s = (rest, s') \<Longrightarrow>
   \<exists>dn. cs = dn @ rest \<and> inv s' \<and> cont s' = (cont s)(x := cont s x @ map u8 dn)
     \<and> (rest \<noteq> [] \<longrightarrow> spare s' = 0)"
proof (induction cs arbitrary: s)
  case (Cons c cs)
  obtain r t where p: "put c x s = (r, t)" by (cases "put c x s")
  from put_law [OF Cons.prems(1) p] show ?case
  proof
    assume ok: "r = 0 \<and> inv t \<and> cont t = (cont s)(x := cont s x @ [u8 c]) \<and> spare s \<le> Suc (spare t)"
    with p Cons.prems(2) have "put_all cs x t = (rest, s')" by simp
    with Cons.IH [of t] ok obtain dn where
      "cs = dn @ rest" "inv s'" "cont s' = (cont t)(x := cont t x @ map u8 dn)" "rest \<noteq> [] \<longrightarrow> spare s' = 0"
      by blast
    with ok show ?thesis by (intro exI [of _ "c # dn"]) simp
  next
    assume "r = -1 \<and> t = s \<and> spare s = 0"
    with p Cons show ?thesis by auto
  qed
qed auto

lemma put_all_enough:
  "inv s \<Longrightarrow> length cs \<le> spare s \<Longrightarrow> fst (put_all cs x s) = []"
proof (induction cs arbitrary: s)
  case (Cons c cs)
  obtain r t where p: "put c x s = (r, t)" by (cases "put c x s")
  from put_law [OF Cons.prems(1) p] Cons p show ?case by auto
qed simp

lemma get_some_law:
  "inv s \<Longrightarrow> get_some n x s = (cs, s') \<Longrightarrow>
   cs = take n (cont s x) \<and> inv s' \<and> spare s \<le> spare s' \<and> cont s' = (cont s)(x := drop n (cont s x))"
proof (induction n arbitrary: s cs)
  case (Suc n)
  obtain c t where g: "get x s = (c, t)" by (cases "get x s")
  note law = get_law [OF Suc.prems(1) g]
  show ?case
  proof (cases "cont s x")
    case Nil
    with law g Suc.prems show ?thesis by (auto simp: fun_upd_idem)
  next
    case (Cons d ds)
    then have "c \<noteq> -1" using law cont_byte [OF Suc.prems(1), of d x] by auto
    moreover obtain cs0 where "get_some n x t = (cs0, s')" "cs = c # cs0"
      using Suc.prems(2) g \<open>c \<noteq> -1\<close> by (auto split: prod.splits)
    ultimately show ?thesis using Suc.IH [of t cs0] law Cons by auto
  qed
qed auto

text \<open>Whatever was accepted comes out again, in order, behind what was there before.\<close>

lemma put_then_get:
  assumes "inv s" "put_all cs x s = ([], t)"
  shows "fst (get_some (length (cont s x) + length cs) x t) = cont s x @ map u8 cs"
  using put_all_law [OF assms] get_some_law [of t "length (cont s x) + length cs" x]
  by (cases "get_some (length (cont s x) + length cs) x t") auto

end

lemma pool_get_law:
  assumes inv: "pool_inv B s" and g: "pool_get x s = (c, s')"
  shows "pool_inv B s' \<and> pool_spare B s \<le> pool_spare B s'
    \<and> pool_cont s' = (pool_cont s)(x := tl (pool_cont s x))
    \<and> c = (if pool_cont s x = [] then -1 else hd (pool_cont s x))"
proof -
  obtain m S where s: "s = (m, S)" by (cases s)
  from inv s obtain ks fs where fin: "finite B" and pr: "pool_rep B m S ks fs"
    by (auto simp: pool_inv_def)
  show ?thesis
  proof (cases "contents m (S x) = []")
    case True
    with pool_repD(1) [OF pr, of x] have "crep m (S x) []" using contents_Nil by metis
    then have "s' = s" "c = -1" using g s by (auto simp: pool_get_def getc_empty)
    with True s inv show ?thesis by (auto simp: pool_cont_def fun_eq_iff)
  next
    case False
    from getc_pool [OF pr False] obtain q' m' ks' fs' where
      p: "getc (S x) m = (hd (contents m (S x)), q', m')" "pool_rep B m' (S(x := q')) ks' fs'"
      "contents m' q' = tl (contents m (S x))" "\<forall>y. y \<noteq> x \<longrightarrow> contents m' (S y) = contents m (S y)"
      "length fs \<le> length fs'" by blast
    then have r: "c = hd (contents m (S x))" "s' = (m', S(x := q'))" using g s by (auto simp: pool_get_def)
    have "pool_spare B s = length fs" "pool_spare B s' = length fs'"
      using pool_spare_eq fin pr p(2) r(2) s by (metis fst_conv snd_conv)+
    with p r fin s False show ?thesis by (auto simp: pool_cont_def pool_inv_def fun_eq_iff)
  qed
qed

lemma pool_put_law:
  assumes inv: "pool_inv B s" and g: "pool_put c x s = (r, s')"
  shows "r = 0 \<and> pool_inv B s' \<and> pool_cont s' = (pool_cont s)(x := pool_cont s x @ [u8 c])
      \<and> pool_spare B s \<le> Suc (pool_spare B s')
    \<or> r = -1 \<and> s' = s \<and> pool_spare B s = 0"
proof -
  obtain m S where s: "s = (m, S)" by (cases s)
  from inv s obtain ks fs where fin: "finite B" and pr: "pool_rep B m S ks fs"
    by (auto simp: pool_inv_def)
  have sp: "pool_spare B s = length fs" using pool_spare_eq fin pr s by (metis fst_conv snd_conv)
  show ?thesis
  proof (cases "c_cl (S x) mod 16 = 0 \<and> fs = []")
    case True
    with putc_pool [OF pr, of x c] g s sp show ?thesis by (auto simp: pool_put_def)
  next
    case False
    from putc_pool [OF pr, of x c, unfolded if_not_P [OF False]] obtain q' m' ks' fs' where
      p: "putc c (S x) m = (0, q', m')" "pool_rep B m' (S(x := q')) ks' fs'"
      "contents m' q' = contents m (S x) @ [u8 c]"
      "\<forall>y. y \<noteq> x \<longrightarrow> contents m' (S y) = contents m (S y)" "length fs \<le> Suc (length fs')" by blast
    then have r: "r = 0" "s' = (m', S(x := q'))" using g s by (auto simp: pool_put_def)
    have "pool_spare B s' = length fs'" using pool_spare_eq fin p(2) r(2) by (metis fst_conv snd_conv)
    with p r fin s sp show ?thesis by (auto simp: pool_cont_def pool_inv_def fun_eq_iff)
  qed
qed

lemma gather_byte: "c \<in> set (gather n m cf) \<Longrightarrow> 0 \<le> c \<and> c < 256"
  by (induction n arbitrary: cf) (auto simp: u8_range)

interpretation pool: char_queues pool_get pool_put pool_cont "pool_inv B" "pool_spare B" for B
  by unfold_locales
    (simp add: pool_get_law, simp add: pool_put_law, simp add: pool_cont_def contents_def gather_byte)

section \<open>Bulk transfers\<close>

lemma cb_free_spl: "splx (ipl m) (cb_free bp (m\<lparr>ipl := 6\<rparr>)) = cb_free bp m"
  by (simp add: splx_def cb_free_def)

lemma q_to_b_loop_getc:
  assumes "0 < c_cc q"
  shows "q_to_b_loop (Suc n) q m =
    (let (c, q', m') = getc q m in
     if c_cc q' \<le> 0 then ([c], q', m')
     else (let (cs, q'', m'') = q_to_b_loop n q' m' in (c # cs, q'', m'')))"
  using assms by (auto simp: getc_def spl6_def cb_free_spl splx_def Let_def split: prod.splits)
    (simp_all add: cb_free_def)

lemma pool_get_empty: "pool_inv B s \<Longrightarrow> pool_cont s x = [] \<Longrightarrow> pool_get x s = (-1, s)"
proof -
  assume inv: "pool_inv B s" and e: "pool_cont s x = []"
  then obtain ks fs where "pool_rep B (fst s) (snd s) ks fs" by (auto simp: pool_inv_def)
  then have r: "crep (fst s) (snd s x) (ks x)" by (rule pool_repD)
  with e contents_Nil [OF r] have "crep (fst s) (snd s x) []" by (simp add: pool_cont_def)
  then show ?thesis by (simp add: pool_get_def getc_empty)
qed

lemma get_some_empty: "pool_inv B s \<Longrightarrow> pool_cont s x = [] \<Longrightarrow> pool.get_some n x s = ([], s)"
  by (cases n) (auto simp: pool_get_empty)

lemma pool_count: "pool_inv B s \<Longrightarrow> c_cc (snd s x) = int (length (pool_cont s x))"
  unfolding pool_inv_def pool_rep_def pool_cont_def using crep_count by blast

lemma q_to_b_loop_pool:
  "pool_inv B (m, S) \<Longrightarrow> pool_cont (m, S) x \<noteq> [] \<Longrightarrow> q_to_b_loop n (S x) m = (cs, q', m') \<Longrightarrow>
   pool.get_some n x (m, S) = (cs, m', S(x := q'))"
proof (induction n arbitrary: m S cs)
  case (Suc n)
  obtain c q1 m1 where g: "getc (S x) m = (c, q1, m1)" by (metis prod_cases3)
  let ?s1 = "(m1, S(x := q1))"
  have pg: "pool_get x (m, S) = (c, ?s1)" using g by (simp add: pool_get_def)
  note law = pool_get_law [OF Suc.prems(1) pg]
  have "c \<noteq> -1" using pool.get_empty_iff [OF Suc.prems(1), of x] Suc.prems(2) pg by simp
  have pos: "0 < c_cc (S x)" using pool_count [OF Suc.prems(1), of x] Suc.prems(2) by simp
  have cnt: "c_cc q1 = int (length (pool_cont ?s1 x))" using pool_count [of B ?s1 x] law by simp
  show ?case
  proof (cases "pool_cont ?s1 x = []")
    case True
    with Suc.prems(3) q_to_b_loop_getc [OF pos, of n m] g cnt
    have "cs = [c]" "q' = q1" "m' = m1" by auto
    with pg \<open>c \<noteq> -1\<close> get_some_empty [of B ?s1 x n] True law show ?thesis
      by (simp add: fun_eq_iff)
  next
    case False
    then obtain cs1 where "q_to_b_loop n q1 m1 = (cs1, q', m')" "cs = c # cs1"
      using Suc.prems(3) q_to_b_loop_getc [OF pos, of n m] g cnt by (auto split: prod.splits)
    moreover from this have "pool.get_some n x ?s1 = (cs1, m', S(x := q'))"
      using Suc.IH [of m1 "S(x := q1)" cs1] law False by (simp add: fun_upd_def cong: if_cong)
    ultimately show ?thesis using pg \<open>c \<noteq> -1\<close> by (simp add: fun_upd_def)
  qed
qed auto

text \<open>The second half of \<open>b_to_q\<close>, once \<open>cq\<close> is set.\<close>

definition b_to_q_tail :: "int list \<Rightarrow> clist \<Rightarrow> clmem \<Rightarrow> int \<times> clist \<times> clmem" where
  "b_to_q_tail cs q m =
     (let (cc, cq, m') = b_to_q_loop cs (c_cl q) (m\<lparr>ipl := 6\<rparr>)
      in (int cc, q\<lparr>c_cl := cq, c_cc := c_cc q + (int (length cs) - int cc)\<rparr>, m'\<lparr>ipl := ipl m\<rparr>))"

lemma b_to_q_tail: "c_cl q \<noteq> 0 \<Longrightarrow> 0 \<le> c_cc q \<Longrightarrow> b_to_q cs q m = b_to_q_tail cs q m"
  by (cases cs) (simp_all add: b_to_q_def b_to_q_tail_def spl6_def splx_def)

lemma ipl_last:
  "m\<lparr>ipl := s, cfreelist := f\<rparr> = m\<lparr>cfreelist := f, ipl := s\<rparr>"
  "m\<lparr>ipl := s, c_next := nx\<rparr> = m\<lparr>c_next := nx, ipl := s\<rparr>"
  "m\<lparr>ipl := s, c_info := i\<rparr> = m\<lparr>c_info := i, ipl := s\<rparr>"
  by simp_all

lemma b_to_q_tail_putc:
  assumes "c_cl q \<noteq> 0" "0 \<le> c_cc q" "putc c q m = (r, q1, m1)"
  shows "b_to_q_tail (c # cs) q m =
    (if r = 0 then b_to_q_tail cs q1 m1 else (int (length (c # cs)), q1, m1))"
proof -
  consider "c_cl q mod 16 \<noteq> 0" | "c_cl q mod 16 = 0" "cfreelist m = 0" | "c_cl q mod 16 = 0" "cfreelist m \<noteq> 0"
    by blast
  then show ?thesis
    using assms by cases
      (auto simp: b_to_q_tail_def putc_def spl6_def splx_def cb_take_def Let_def add_ac
        ipl_last fun_upd_twist split: prod.splits)
qed

lemma b_to_q_first:
  assumes "c_cl q = 0" "cfreelist m \<noteq> 0" "cfreelist m mod 16 = 0" "putc c q m = (r, q1, m1)" "c_cc q = 0"
  shows "r = 0 \<and> b_to_q (c # cs) q m = b_to_q_tail cs q1 m1"
proof -
  have "(cfreelist m + 4) mod 16 = 4" using assms(3) by (simp add: mod_add_left_eq [symmetric])
  moreover have "cfreelist m + 4 + 1 = cfreelist m + 5" by simp
  ultimately show ?thesis
    using assms by (simp add: b_to_q_def b_to_q_tail_def putc_def spl6_def splx_def cb_take_def Let_def
        ipl_last split: prod.splits) (clarsimp simp: algebra_simps)
qed

lemma b_to_q_putc:
  assumes pr: "pool_rep B m S ks fs" and p: "putc c (S x) m = (r, q1, m1)"
  shows "b_to_q (c # cs) (S x) m =
    (if r = 0 then b_to_q cs q1 m1 else (int (length (c # cs)), q1, m1))"
proof -
  from pool_repD(1) [OF pr, of x] have nn: "0 \<le> c_cc (S x)" "c_cl (S x) = 0 \<longrightarrow> c_cc (S x) = 0"
    by (auto simp: crep_def split: if_splits)
  have ok: "c_cl q1 \<noteq> 0 \<and> 0 \<le> c_cc q1" if "r = 0"
    using putc_pool [OF pr, of x c] p that by (auto split: if_splits)
  consider (one) "c_cl (S x) \<noteq> 0" | (two) "c_cl (S x) = 0" "cfreelist m = 0"
    | (three) "c_cl (S x) = 0" "cfreelist m \<noteq> 0" by blast
  then show ?thesis
  proof cases
    case one
    with b_to_q_tail_putc [OF one nn(1) p] ok nn show ?thesis by (simp add: b_to_q_tail)
  next
    case two
    with p show ?thesis by (auto simp: b_to_q_def putc_def spl6_def splx_def)
  next
    case three
    moreover have "cfreelist m mod 16 = 0"
      using pool_repD(2) [OF pr] three by (cases fs) (auto simp: frep_def)
    ultimately have "r = 0 \<and> b_to_q (c # cs) (S x) m = b_to_q_tail cs q1 m1"
      using nn(2) by (intro b_to_q_first [OF _ _ _ p]) simp_all
    with ok show ?thesis by (simp add: b_to_q_tail)
  qed
qed

lemma b_to_q_pool:
  "pool_inv B (m, S) \<Longrightarrow> b_to_q cs (S x) m = (n, q', m') \<Longrightarrow>
   \<exists>rest. pool.put_all cs x (m, S) = (rest, m', S(x := q')) \<and> n = int (length rest)"
proof (induction cs arbitrary: m S)
  case (Cons c cs)
  obtain r q1 m1 where p: "putc c (S x) m = (r, q1, m1)" by (metis prod_cases3)
  then have pp: "pool_put c x (m, S) = (r, m1, S(x := q1))" by (simp add: pool_put_def)
  from Cons.prems(1) obtain ks fs where "pool_rep B m S ks fs" by (auto simp: pool_inv_def)
  note step = b_to_q_putc [OF this p, of cs]
  show ?case
  proof (cases "r = 0")
    case True
    with pool_put_law [OF Cons.prems(1) pp] Cons.IH [of m1 "S(x := q1)"] Cons.prems(2) step pp
    show ?thesis by (simp add: fun_upd_def cong: if_cong)
  next
    case False
    with Cons.prems(2) step pp show ?thesis by (simp add: fun_upd_def)
  qed
qed (auto simp: b_to_q_def)

lemma pool_ipl [simp]:
  "pool_inv B (m\<lparr>ipl := i\<rparr>, S) = pool_inv B (m, S)" "pool_cont (m\<lparr>ipl := i\<rparr>, S) = pool_cont (m, S)"
  by (simp_all add: pool_inv_def pool_rep_def pool_cont_def fun_eq_iff)

lemma q_to_b_pool:
  assumes inv: "pool_inv B (m, S)" and q: "q_to_b (S x) k m = (cs, q', m')"
  shows "cs = take (nat k) (pool_cont (m, S) x) \<and> pool_inv B (m', S(x := q'))
    \<and> pool_cont (m', S(x := q')) = (pool_cont (m, S))(x := drop (nat k) (pool_cont (m, S) x))"
proof -
  note cnt = pool_count [OF inv, of x, simplified]
  consider (none) "k \<le> 0" | (empty) "0 < k" "pool_cont (m, S) x = []" | (some) "0 < k" "pool_cont (m, S) x \<noteq> []"
    by linarith
  then show ?thesis
  proof cases
    case none
    with q inv show ?thesis by (auto simp: q_to_b_def fun_upd_idem)
  next
    case empty
    from pool_get_empty [OF inv empty(2)] empty cnt
    have "S(x := S x\<lparr>c_cc := 0, c_cf := 0, c_cl := 0\<rparr>) = S"
      by (auto simp: pool_get_def getc_def split: prod.splits)
    then show ?thesis using q inv empty cnt by (auto simp: q_to_b_def spl6_def fun_upd_idem)
  next
    case some
    obtain m'' where l: "q_to_b_loop (nat k) (S x) (m\<lparr>ipl := 6\<rparr>) = (cs, q', m'')" "m' = m''\<lparr>ipl := ipl m\<rparr>"
      using q some cnt by (auto simp: q_to_b_def spl6_def splx_def split: prod.splits)
    have "pool.get_some (nat k) x (m\<lparr>ipl := 6\<rparr>, S) = (cs, m'', S(x := q'))"
      using q_to_b_loop_pool [of B "m\<lparr>ipl := 6\<rparr>" S x "nat k"] inv some l(1) by auto
    from pool.get_some_law [OF _ this, of B] inv l(2) show ?thesis by simp
  qed
qed

section \<open>Start-up\<close>

lemma cinit_loop_frep:
  "frep m fs \<Longrightarrow> cp \<noteq> 0 \<Longrightarrow> cp mod 16 = 0 \<Longrightarrow> \<forall>f\<in>set fs. f < cp \<Longrightarrow>
   \<exists>gs. frep (cinit_loop n cp m) gs \<and> set gs = set fs \<union> (\<lambda>i. cp + 16 * i) ` {..<n}
     \<and> length gs = length fs + n \<and> c_info (cinit_loop n cp m) = c_info m \<and> ipl (cinit_loop n cp m) = ipl m"
proof (induction n arbitrary: cp m fs)
  case (Suc n)
  have "frep (cb_free cp m) (cp # fs)" using Suc.prems by (intro frep_cb_free) auto
  moreover have "\<forall>f\<in>set (cp # fs). f < cp + 16" using Suc.prems(4) by auto
  ultimately obtain gs where
    "frep (cinit_loop (Suc n) cp m) gs"
    "set gs = set (cp # fs) \<union> (\<lambda>i. cp + 16 + 16 * i) ` {..<n}" "length gs = length fs + Suc n"
    "c_info (cinit_loop (Suc n) cp m) = c_info m" "ipl (cinit_loop (Suc n) cp m) = ipl m"
    using Suc.prems Suc.IH [of "cb_free cp m" "cp # fs" "cp + 16"] by (auto simp: cb_free_def)
  moreover have "(\<lambda>i. cp + 16 * i) ` {..<Suc n} = insert cp ((\<lambda>i. cp + 16 + 16 * i) ` {..<n})"
    by (simp add: lessThan_Suc_eq_insert_0 image_image add.assoc)
  ultimately show ?case by (intro exI [of _ gs]) auto
qed auto

lemma cround_up: "cround (base + 15) mod 16 = 0" "base \<le> cround (base + 15)" "cround (base + 15) \<le> base + 15"
proof -
  have "cround (base + 15) = 16 * ((base + 15) div 16)"
    unfolding cround_def by (simp add: minus_mod_eq_mult_div)
  then show "cround (base + 15) mod 16 = 0" "base \<le> cround (base + 15)" "cround (base + 15) \<le> base + 15"
    by auto
qed

lemma cinit_blocks:
  fixes base :: nat
  defines "ccp \<equiv> cround (base + 15)"
  defines "n \<equiv> (base + 16 * (NCLIST - 1) - ccp) div 16 + 1"
  shows "n = (if base mod 16 = 0 then 100 else 99)"
    and "(\<lambda>i. ccp + 16 * i) ` {..<n} = {a. a mod 16 = 0 \<and> base \<le> a \<and> a + 16 \<le> base + 16 * NCLIST}"
proof -
  obtain b r where b: "base = 16 * b + r" "r < 16"
    by (metis mod_less_divisor mult_div_mod_eq zero_less_numeral)
  let ?d = "if r = 0 then 0 else 1"
  have "(base + 15) div 16 = b + ?d" using b by auto
  then have ccp: "ccp = 16 * (b + ?d)" unfolding ccp_def cround_def by (simp add: minus_mod_eq_mult_div)
  then have n: "n = 100 - ?d" using b by (auto simp: n_def)
  show "n = (if base mod 16 = 0 then 100 else 99)" using n b by auto
  show "(\<lambda>i. ccp + 16 * i) ` {..<n} = {a. a mod 16 = 0 \<and> base \<le> a \<and> a + 16 \<le> base + 16 * NCLIST}"
  proof (intro set_eqI iffI)
    fix a assume "a \<in> (\<lambda>i. ccp + 16 * i) ` {..<n}"
    then show "a \<in> {a. a mod 16 = 0 \<and> base \<le> a \<and> a + 16 \<le> base + 16 * NCLIST}"
      using n b ccp by (auto split: if_splits)
  next
    fix a assume a: "a \<in> {a. a mod 16 = 0 \<and> base \<le> a \<and> a + 16 \<le> base + 16 * NCLIST}"
    then obtain c where c: "a = 16 * c" by (auto elim!: dvdE)
    with a b n ccp have "a = ccp + 16 * (c - (b + ?d))" "c - (b + ?d) < n" by (auto split: if_splits)
    then show "a \<in> (\<lambda>i. ccp + 16 * i) ` {..<n}" by blast
  qed
qed

section \<open>Properties\<close>

lemma putc_new_offset:
  "putc c q m = (0, q', m') \<Longrightarrow> c_cl q mod 16 = 0 \<Longrightarrow> cfreelist m mod 16 = 0 \<Longrightarrow> c_cl q' mod 16 \<noteq> 0"
proof -
  assume p: "putc c q m = (0, q', m')" "c_cl q mod 16 = 0" "cfreelist m mod 16 = 0"
  then have "c_cl q' = cfreelist m + 5"
    by (auto simp: putc_def spl6_def splx_def cb_take_def Let_def split: if_splits)
  moreover have "(cfreelist m + 5) mod 16 = 5" using p(3) by (simp add: mod_add_left_eq [symmetric])
  ultimately show ?thesis by simp
qed

lemma pool_cont_upd:
  "pool_cont (m', S(x := q)) = (pool_cont (m, S))(x := v) \<longleftrightarrow>
     contents m' q = v \<and> (\<forall>y. y \<noteq> x \<longrightarrow> contents m' (S y) = contents m (S y))"
  by (auto simp: pool_cont_def fun_eq_iff)

lemma no_spare: "pool_inv B (m, S) \<Longrightarrow> pool_spare B (m, S) = 0 \<longleftrightarrow> cfreelist m = 0"
proof -
  assume "pool_inv B (m, S)"
  then obtain ks fs where "finite B" "pool_rep B m S ks fs" by (auto simp: pool_inv_def)
  then show ?thesis using pool_spare_eq [of B "(m, S)" ks fs] frep_Nil_iff [of m fs]
      pool_repD(2) [of B m S ks fs] by auto
qed

text \<open>A pool of two blocks and two empty lists, for the concrete instances below.\<close>

definition demo_cl :: clmem where
  "demo_cl = \<lparr>c_next = (\<lambda>_. 0)(16 := 32), c_info = \<lambda>_. 0, cfreelist = 16, cbad = 0, ipl = 0\<rparr>"

definition demo_lists :: "bool \<Rightarrow> clist" where
  "demo_lists x = \<lparr>c_cc = 0, c_cf = 0, c_cl = 0\<rparr>"

lemma demo_pool: "pool_inv {16, 32} (demo_cl, demo_lists)"
proof -
  have "pool_rep {16, 32} demo_cl demo_lists (\<lambda>_. []) [16, 32]"
    by (simp add: pool_rep_def frep_def crep_def demo_cl_def demo_lists_def)
  then show ?thesis by (auto simp: pool_inv_def)
qed

lemma demo_empty [simp]: "contents demo_cl (demo_lists x) = []"
  by (simp add: contents_def demo_lists_def)

lemmas demo_defs = demo_cl_def demo_lists_def spl6_def splx_def cb_take_def cb_free_def cround_def

text \<open>
  Claim C8. \<open>getc\<close> refines removal from the front of a queue: it returns the first character,
  or -1 exactly when the list is empty; the other lists keep their characters, no block is lost
  and none is used up.
\<close>

theorem getc_refines_queue:
  assumes "pool_inv B (m, S)" "getc (S x) m = (c, q, m')"
  shows "pool_inv B (m', S(x := q)) \<and> pool_spare B (m, S) \<le> pool_spare B (m', S(x := q))
    \<and> contents m' q = tl (contents m (S x))
    \<and> (\<forall>y. y \<noteq> x \<longrightarrow> contents m' (S y) = contents m (S y))
    \<and> (if contents m (S x) = [] then c = -1 else c = hd (contents m (S x)) \<and> 0 \<le> c)"
proof -
  have g: "pool_get x (m, S) = (c, m', S(x := q))" using assms(2) by (simp add: pool_get_def)
  have "contents m (S x) \<noteq> [] \<Longrightarrow> 0 \<le> hd (contents m (S x))"
    using gather_byte by (metis contents_def hd_in_set)
  with pool_get_law [OF assms(1) g] show ?thesis
    by (simp add: pool_cont_upd pool_cont_def [of "(m, S)"] split: if_splits)
qed

theorem getc_refines_queue_witness:
  "getc (demo_lists True) demo_cl = (-1, demo_lists True, demo_cl)
   \<and> pool_inv {16, 32} (demo_cl, demo_lists(True := demo_lists True))
   \<and> contents demo_cl (demo_lists True) = tl (contents demo_cl (demo_lists True))"
proof -
  have g: "getc (demo_lists True) demo_cl = (-1, demo_lists True, demo_cl)"
    by (simp add: getc_def demo_defs)
  from getc_refines_queue [OF demo_pool g] g show ?thesis by simp
qed

text \<open>
  Claim C2. \<open>putc\<close> refines appending to a queue: it stores the low 8 bits of the character
  behind the others and leaves the other lists alone, or it returns -1 with nothing changed,
  and then the free list is empty.
\<close>

theorem putc_refines_queue:
  assumes "pool_inv B (m, S)" "putc c (S x) m = (r, q, m')"
  shows "r = 0 \<and> pool_inv B (m', S(x := q)) \<and> contents m' q = contents m (S x) @ [u8 c]
      \<and> (\<forall>y. y \<noteq> x \<longrightarrow> contents m' (S y) = contents m (S y))
    \<or> r = -1 \<and> q = S x \<and> m' = m \<and> cfreelist m = 0"
proof -
  have "pool_put c x (m, S) = (r, m', S(x := q))" using assms(2) by (simp add: pool_put_def)
  note law = pool_put_law [OF assms(1) this]
  show ?thesis
  proof (cases "r = 0")
    case True
    with law show ?thesis by (simp add: pool_cont_upd pool_cont_def [of "(m, S)"])
  next
    case False
    with law have "(m', S(x := q)) = (m, S)" "pool_spare B (m, S) = 0" "r = -1" by auto
    with no_spare [OF assms(1)] show ?thesis by (auto dest: fun_cong [of _ _ x])
  qed
qed

theorem putc_refines_queue_witness:
  "\<exists>q m. putc 65 (demo_lists True) demo_cl = (0, q, m) \<and> pool_inv {16, 32} (m, demo_lists(True := q))
    \<and> contents m q = [65]"
proof -
  obtain q m where p: "putc 65 (demo_lists True) demo_cl = (0, q, m)"
    by (simp add: putc_def demo_defs)
  from putc_refines_queue [OF demo_pool p] p show ?thesis by (simp add: u8_def)
qed

text \<open>
  Bulk transfers are first in, first out: what \<open>b_to_q\<close> reports as transferred
  (all but \<open>n\<close> characters, with \<open>n > 0\<close> only when the free list has run out) is returned by
  \<open>q_to_b\<close> in order, behind what the list held before, and the other lists are unchanged.
\<close>

theorem b_to_q_q_to_b_fifo:
  assumes inv: "pool_inv B (m, S)" and put: "b_to_q cs (S x) m = (n, q1, m1)"
    and get: "q_to_b q1 k m1 = (ds, q2, m2)"
    and k: "k \<ge> int (length (contents m (S x)) + length cs)"
  shows "0 \<le> n \<and> n \<le> int (length cs) \<and> ds = contents m (S x) @ map u8 (take (length cs - nat n) cs)
    \<and> (n > 0 \<longrightarrow> cfreelist m1 = 0) \<and> pool_inv B (m2, S(x := q2)) \<and> contents m2 q2 = []
    \<and> (\<forall>y. y \<noteq> x \<longrightarrow> contents m2 (S y) = contents m (S y))"
proof -
  from b_to_q_pool [OF inv put] obtain rest where
    r: "pool.put_all cs x (m, S) = (rest, m1, S(x := q1))" "n = int (length rest)" by blast
  from pool.put_all_law [OF inv r(1)] obtain dn where
    d: "cs = dn @ rest" "pool_inv B (m1, S(x := q1))" "rest \<noteq> [] \<longrightarrow> pool_spare B (m1, S(x := q1)) = 0"
    and c1: "pool_cont (m1, S(x := q1)) = (pool_cont (m, S))(x := pool_cont (m, S) x @ map u8 dn)"
    by blast
  have "q_to_b ((S(x := q1)) x) k m1 = (ds, q2, m2)" using get by simp
  note step = q_to_b_pool [of B m1 "S(x := q1)", OF d(2) this]
  from step c1 k d(1)
  have "ds = contents m (S x) @ map u8 dn" "pool_inv B (m2, S(x := q2))"
    "pool_cont (m2, S(x := q2)) = (pool_cont (m, S))(x := [])"
    by (simp_all add: pool_cont_def [of "(m, S)"])
  with r(2) d no_spare [OF d(2)] show ?thesis by (auto simp: pool_cont_upd)
qed

theorem b_to_q_q_to_b_fifo_witness:
  "\<exists>q1 m1 q2 m2. b_to_q [104, 105] (demo_lists True) demo_cl = (0, q1, m1)
    \<and> q_to_b q1 2 m1 = ([104, 105], q2, m2) \<and> pool_inv {16, 32} (m2, demo_lists(True := q2))"
proof -
  obtain q1 m1 where p: "b_to_q [104, 105] (demo_lists True) demo_cl = (0, q1, m1)"
    by (simp add: b_to_q_def demo_defs)
  obtain ds q2 m2 where g: "q_to_b q1 2 m1 = (ds, q2, m2)" by (metis prod_cases3)
  from b_to_q_q_to_b_fifo [OF demo_pool p g] p g show ?thesis by (simp add: u8_def)
qed

text \<open>
  \<open>putw\<close> puts both bytes of a word or none: it succeeds exactly when the free list is
  not empty, and a failure changes nothing.
\<close>

theorem putw_all_or_nothing:
  assumes "pool_inv B (m, S)" "putw c (S x) m = (r, q, m')"
  shows "if cfreelist m = 0 then r = -1 \<and> q = S x \<and> m' = m
    else r = 0 \<and> pool_inv B (m', S(x := q)) \<and> contents m' q = contents m (S x) @ [u8 c, u8 (drop_bit 8 c)]
      \<and> (\<forall>y. y \<noteq> x \<longrightarrow> contents m' (S y) = contents m (S y))"
proof (cases "cfreelist m = 0")
  case True
  with assms(2) show ?thesis by (simp add: putw_def spl6_def splx_def)
next
  case False
  let ?m = "m\<lparr>ipl := 6\<rparr>"
  obtain ks fs where fin: "finite B" and pr: "pool_rep B ?m S ks fs"
    using assms(1) by (auto simp: pool_inv_def pool_rep_def)
  have fs: "fs \<noteq> []" "cfreelist m mod 16 = 0"
    using False pool_repD(2) [OF pr] by (cases fs; auto simp: frep_def)+
  from putc_pool [OF pr, of x c] fs(1) obtain q1 m1 ks1 fs1 where
    p1: "putc c (S x) ?m = (0, q1, m1)" "pool_rep B m1 (S(x := q1)) ks1 fs1"
    "contents m1 q1 = contents m (S x) @ [u8 c]" "\<forall>y. y \<noteq> x \<longrightarrow> contents m1 (S y) = contents m (S y)"
    "fs1 = (if c_cl (S x) mod 16 = 0 then tl fs else fs)" by auto
  have "\<not> (c_cl q1 mod 16 = 0 \<and> fs1 = [])"
    using p1(5) fs putc_new_offset [OF p1(1)] by (auto split: if_splits)
  then obtain q2 m2 ks2 fs2 where
    p2: "putc (drop_bit 8 c) q1 m1 = (0, q2, m2)" "pool_rep B m2 (S(x := q2)) ks2 fs2"
    "contents m2 q2 = contents m1 q1 @ [u8 (drop_bit 8 c)]" "\<forall>y. y \<noteq> x \<longrightarrow> contents m2 (S y) = contents m1 (S y)"
    using putc_pool [OF p1(2), of x "drop_bit 8 c"] by auto
  have "r = 0" "q = q2" "m' = m2\<lparr>ipl := ipl m\<rparr>"
    using assms(2) False p1(1) p2(1) by (auto simp: putw_def spl6_def splx_def)
  moreover have "pool_inv B (m2, S(x := q2))" using fin p2(2) by (auto simp: pool_inv_def)
  ultimately show ?thesis using False p1 p2 by simp
qed

theorem putw_all_or_nothing_witness:
  "\<exists>q m. putw 258 (demo_lists True) demo_cl = (0, q, m) \<and> contents m q = [2, 1]"
proof -
  obtain r q m where p: "putw 258 (demo_lists True) demo_cl = (r, q, m)" by (metis prod_cases3)
  from putw_all_or_nothing [OF demo_pool p] p show ?thesis
    by (simp add: u8_def demo_cl_def [THEN arg_cong, of cfreelist] drop_bit_eq_div)
qed

text \<open>
  \<open>cinit\<close> makes a free list of all aligned blocks that lie inside \<open>cfree\<close>: 100 when
  the array is aligned, else 99; with empty lists this establishes the pool invariant.
\<close>

theorem cinit_establishes_pool:
  assumes "0 < base" "cfreelist m = 0" "\<forall>x. S x = \<lparr>c_cc = 0, c_cf = 0, c_cl = 0\<rparr>"
  shows "\<exists>B. pool_inv B (snd (cinit base d_opens m), S)
    \<and> pool_spare B (snd (cinit base d_opens m), S) = (if base mod 16 = 0 then 100 else 99)
    \<and> B = {a. a mod 16 = 0 \<and> base \<le> a \<and> a + 16 \<le> base + 16 * NCLIST}"
proof -
  let ?ccp = "cround (base + 15)" and ?m = "snd (cinit base d_opens m)"
  let ?n = "(base + 16 * (NCLIST - 1) - ?ccp) div 16 + 1"
  let ?B = "(\<lambda>i. ?ccp + 16 * i) ` {..<?n}"
  note ru = cround_up [of base]
  have "frep m []" using assms(2) by (simp add: frep_def)
  moreover have m: "?m = cinit_loop ?n ?ccp m" using ru(3) by (simp add: cinit_def Let_def)
  ultimately obtain gs where gs: "frep ?m gs" "set gs = ?B" "length gs = ?n"
    using cinit_loop_frep [of m "[]" ?ccp ?n] ru assms(1) unfolding m by auto
  have pr: "pool_rep ?B ?m S (\<lambda>_. []) gs"
    using gs(1,2) assms(3) by (simp add: pool_rep_def crep_def)
  then have "pool_spare ?B (?m, S) = length gs" by (intro pool_spare_eq) simp_all
  then have spare: "pool_spare ?B (?m, S) = (if base mod 16 = 0 then 100 else 99)"
    unfolding gs(3) by (simp only: cinit_blocks(1))
  have "finite ?B" by simp
  with pr have "pool_inv ?B (?m, S)" unfolding pool_inv_def fst_conv snd_conv by blast
  with spare cinit_blocks(2) [of base] show ?thesis by (intro exI [of _ ?B] conjI)
qed

theorem cinit_establishes_pool_witness:
  "\<exists>B. pool_inv B (snd (cinit 1000 [True, False] (demo_cl\<lparr>cfreelist := 0\<rparr>)), demo_lists)
    \<and> pool_spare B (snd (cinit 1000 [True, False] (demo_cl\<lparr>cfreelist := 0\<rparr>)), demo_lists) = 99"
  using cinit_establishes_pool [of 1000 "demo_cl\<lparr>cfreelist := 0\<rparr>" demo_lists "[True, False]"]
  by (auto simp: demo_lists_def)

text \<open>No block leaks: when every list is empty, all blocks are back on the free list.\<close>

theorem clist_no_leak:
  assumes "pool_inv B s" "\<forall>x. pool_cont s x = []"
  shows "pool_spare B s = card B"
proof -
  from assms(1) obtain ks fs where fin: "finite B" and pr: "pool_rep B (fst s) (snd s) ks fs"
    by (auto simp: pool_inv_def)
  have "ks x = []" for x
    using assms(2) contents_Nil [OF pool_repD(1) [OF pr]] by (simp add: pool_cont_def)
  with pr have "set fs = B" "distinct fs" by (auto simp: pool_rep_def frep_def)
  then show ?thesis using pool_spare_eq [OF fin pr] distinct_card by fastforce
qed

theorem clist_no_leak_witness: "pool_spare {16, 32} (demo_cl, demo_lists) = 2"
  using clist_no_leak [OF demo_pool] by (simp add: pool_cont_def)

end
