(* ===== verification/Kernel_State.thy ===== *)
theory Kernel_State
  imports Prelude Resmap Clist
begin

text \<open>
  The kernel's tables (\<open>usr/sys/h/*.h\<close>) and the state every kernel routine works on. A C table
  is a function from indices, a pointer into it an index (\<open>NULL\<close> is \<^const>\<open>None\<close> where the code
  tests for it). Flag words whose bits are only ever tested, set and cleared by name are sets of
  named bits; file modes stay numbers because the code shifts them. Scalars are \<^typ>\<open>int\<close>, with
  the truncation to the field's C type written where a store can exceed it. The processor
  priority is not part of this state: routines are atomic between two sleeps.
\<close>

section \<open>Tables\<close>

datatype pflag = SLOAD | SSYS | SLOCK | SSWAP | STRC | SWTED | SULOCK

record proc =
  p_stat :: int
  p_flag :: "pflag set"
  p_pri :: int
  p_time :: int
  p_cpu :: int
  p_nice :: int
  p_sig :: int
  p_uid :: int
  p_pgrp :: int
  p_pid :: int
  p_ppid :: int
  p_addr :: int
  p_size :: int
  p_wchan :: int
  p_textp :: "nat option"
  p_link :: "nat option"
  p_clktim :: int

text \<open>A zombie's entry is read as a \<open>struct xproc\<close>: the fields that overlay the image data.\<close>

record xproc =
  xp_xstat :: int
  xp_utime :: int
  xp_stime :: int

datatype iflag = ILOCK | IUPD | IACC | IMOUNT | IWANT | ITEXT | ICHG

record inode =
  i_flag :: "iflag set"
  i_count :: int
  i_dev :: int
  i_number :: int
  i_mode :: int
  i_nlink :: int
  i_uid :: int
  i_gid :: int
  i_size :: int
  i_addr :: "nat \<Rightarrow> int"
  i_lastr :: int

datatype fflag = FREAD | FWRITE | FPIPE | FKERNEL

record file_ent =
  f_flag :: "fflag set"
  f_count :: int
  f_inode :: nat
  f_offset :: int

datatype bflag = B_READ | B_DONE | B_ERROR | B_BUSY | B_PHYS | B_MAP | B_WANTED | B_AGE | B_ASYNC
  | B_DELWRI | B_TAPE | B_PBUSY | B_PACK

record buf =
  b_flags :: "bflag set"
  b_forw :: nat
  b_back :: nat
  av_forw :: nat
  av_back :: nat
  b_dev :: int
  b_bcount :: int
  b_addr :: int
  b_xmem :: int
  b_data :: "nat \<Rightarrow> int"
  b_blkno :: int
  b_error :: int
  b_resid :: int

datatype xflag = XTRC | XWRIT | XLOAD | XLOCK | XWANT

record text_ent =
  x_daddr :: int
  x_caddr :: int
  x_size :: int
  x_iptr :: "nat option"
  x_count :: int
  x_ccount :: int
  x_flag :: "xflag set"

record filsys =
  s_isize :: int
  s_fsize :: int
  s_nfree :: int
  s_free :: "nat \<Rightarrow> int"
  s_ninode :: int
  s_inode :: "nat \<Rightarrow> int"
  s_flock :: int
  s_ilock :: int
  s_fmod :: int
  s_ronly :: int
  s_time :: int
  s_rest :: "nat \<Rightarrow> int"

record mount =
  m_dev :: int
  m_bufp :: "nat option"
  m_fs :: filsys
  m_inodp :: "nat option"

record direct =
  d_ino :: int
  d_name :: "int list"

record u_prof_s =
  pr_base :: int
  pr_size :: int
  pr_off :: int
  pr_scale :: int

record exdata_s =
  ux_mag :: int
  ux_tsize :: int
  ux_dsize :: int
  ux_bsize :: int
  ux_ssize :: int
  ux_entloc :: int
  ux_unused :: int
  ux_relflg :: int

datatype acflag = AFORK | ASU

record user =
  u_segflg :: int
  u_error :: int
  u_uid :: int
  u_gid :: int
  u_ruid :: int
  u_rgid :: int
  u_procp :: nat
  u_r_val1 :: int
  u_r_val2 :: int
  u_base :: int
  u_count :: int
  u_offset :: int
  u_cdir :: nat
  u_rdir :: "nat option"
  u_dbuf :: "int list"
  u_dirp :: int
  u_dent :: direct
  u_pdir :: nat
  u_uisa :: "nat \<Rightarrow> int"
  u_ofile :: "nat \<Rightarrow> nat option"
  u_pofile :: "nat \<Rightarrow> int"
  u_arg :: "nat \<Rightarrow> int"
  u_tsize :: int
  u_dsize :: int
  u_ssize :: int
  u_signal :: "nat \<Rightarrow> int"
  u_utime :: int
  u_stime :: int
  u_cutime :: int
  u_cstime :: int
  u_ar0 :: "nat \<Rightarrow> int"
  u_prof :: u_prof_s
  u_fpsaved :: int
  u_sep :: int
  u_ttyp :: "nat option"
  u_ttyd :: int
  u_exdata :: exdata_s
  u_comm :: "int list"
  u_start :: int
  u_acflag :: "acflag set"
  u_cmask :: int

record ipc_s =
  ip_lock :: int
  ip_req :: int
  ip_addr :: int
  ip_data :: int

record callo =
  c_time :: int
  c_arg :: int
  c_func :: "nat option"

record io_info_s =
  nread :: int
  nreada :: int
  ncache :: int
  nwrite :: int
  bufcount :: "nat \<Rightarrow> int"

datatype tstate = TIMEOUT | WOPEN | ISOPEN | FLUSH | CARR_ON | BUSY | ASLEEP | XCLUDE | TTSTOP
  | HUPCLS | TBLOCK | DKCMD | DKMPX | DKCALL | DKLINGR | CNTLQ

record tty =
  t_rawq :: clist
  t_canq :: clist
  t_outq :: clist
  t_dev :: int
  t_flags :: int
  t_state :: "tstate set"
  t_pgrp :: int
  t_delct :: int
  t_line :: int
  t_col :: int
  t_erase :: int
  t_kill :: int
  t_char :: int
  t_ispeed :: int
  t_ospeed :: int
  t_intrc :: int
  t_quitc :: int
  t_startc :: int
  t_stopc :: int
  t_eofc :: int
  t_brkc :: int

section \<open>Wait channels\<close>

text \<open>
  A wait channel is the address of some kernel object. Where the linker put the objects is the
  field \<open>addr_of\<close> of the state; \<open>Ch_inode1\<close> and \<open>Ch_inode2\<close> are the addresses \<open>(caddr_t)ip+1\<close>
  and \<open>(caddr_t)ip+2\<close> that the pipe code sleeps on. The objects from \<open>Ch_dent\<close> on are not slept on; the
  kernel reads or writes them through a pointer. \<open>junk\<close> is what the kernel stack holds in bytes
  that a routine copies out without having set them.
\<close>

datatype chan = Ch_runin | Ch_runout | Ch_lbolt | Ch_u | Ch_ipc | Ch_bfreelist | Ch_swbuf
  | Ch_proc nat | Ch_inode nat | Ch_inode1 nat | Ch_inode2 nat | Ch_buf nat | Ch_text nat
  | Ch_flock nat | Ch_ilock nat | Ch_tty nat nat | Ch_dent | Ch_exdata | Ch_acctbuf
  | Ch_corename | Ch_ar0 | Ch_fps

section \<open>The state\<close>

record kst =
  u :: user
  proc :: "nat \<Rightarrow> proc"
  xproc :: "nat \<Rightarrow> xproc"
  inode :: "nat \<Rightarrow> inode"
  file_t :: "nat \<Rightarrow> file_ent"
  buf :: "nat \<Rightarrow> buf"
  text_t :: "nat \<Rightarrow> text_ent"
  mount :: "nat \<Rightarrow> mount"
  runq :: "nat option"
  slpque :: "nat \<Rightarrow> nat option"
  curpri :: int
  runin :: int
  runout :: int
  runrun :: int
  mpid :: int
  lbolt :: int
  time :: int
  coremap :: "map_ent list"
  swapmap :: "map_ent list"
  ipc :: ipc_s
  callout :: "callo list"
  cl :: clmem
  tty :: "nat \<Rightarrow> tty"
  tk_nin :: int
  tk_nout :: int
  dk_time :: "nat \<Rightarrow> int"
  dk_busy :: int
  acctp :: "nat option"
  rootdir :: nat
  rootdev :: int
  pipedev :: int
  swapdev :: int
  swplo :: int
  updlock :: int
  rablock :: int
  nblkdev :: int
  nchrdev :: int
  maxmem :: int
  asid :: int
  pgmap :: "int \<Rightarrow> int"
  kmem :: "int \<Rightarrow> int"
  junk :: "nat \<Rightarrow> int"
  io_info :: io_info_s
  core :: "int \<Rightarrow> int \<Rightarrow> int"
  printed :: "string list"
  addr_of :: "chan \<Rightarrow> int"

abbreviation (input) NPROC :: nat where "NPROC \<equiv> 150"
abbreviation (input) NINODE :: nat where "NINODE \<equiv> 200"
abbreviation (input) NFILE :: nat where "NFILE \<equiv> 175"
abbreviation (input) NMOUNT :: nat where "NMOUNT \<equiv> 8"
abbreviation (input) NTEXT :: nat where "NTEXT \<equiv> 40"
abbreviation (input) NBUF :: nat where "NBUF \<equiv> 29"
abbreviation (input) NOFILE :: nat where "NOFILE \<equiv> 20"
abbreviation (input) NSIG :: int where "NSIG \<equiv> 17"

abbreviation (input) SSLEEP :: int where "SSLEEP \<equiv> 1"
abbreviation (input) SRUN :: int where "SRUN \<equiv> 3"
abbreviation (input) SIDL :: int where "SIDL \<equiv> 4"
abbreviation (input) SZOMB :: int where "SZOMB \<equiv> 5"
abbreviation (input) SSTOP :: int where "SSTOP \<equiv> 6"

abbreviation (input) PSWP :: int where "PSWP \<equiv> 0"
abbreviation (input) PINOD :: int where "PINOD \<equiv> 10"
abbreviation (input) PRIBIO :: int where "PRIBIO \<equiv> 20"
abbreviation (input) PZERO :: int where "PZERO \<equiv> 25"
abbreviation (input) NZERO :: int where "NZERO \<equiv> 20"
abbreviation (input) PPIPE :: int where "PPIPE \<equiv> 26"
abbreviation (input) PWAIT :: int where "PWAIT \<equiv> 30"
abbreviation (input) PSLEP :: int where "PSLEP \<equiv> 40"
abbreviation (input) PUSER :: int where "PUSER \<equiv> 50"

abbreviation (input) EPERM :: int where "EPERM \<equiv> 1"
abbreviation (input) ENOENT :: int where "ENOENT \<equiv> 2"
abbreviation (input) ESRCH :: int where "ESRCH \<equiv> 3"
abbreviation (input) EINTR :: int where "EINTR \<equiv> 4"
abbreviation (input) EIO :: int where "EIO \<equiv> 5"
abbreviation (input) ENXIO :: int where "ENXIO \<equiv> 6"
abbreviation (input) E2BIG :: int where "E2BIG \<equiv> 7"
abbreviation (input) ENOEXEC :: int where "ENOEXEC \<equiv> 8"
abbreviation (input) EBADF :: int where "EBADF \<equiv> 9"
abbreviation (input) ECHILD :: int where "ECHILD \<equiv> 10"
abbreviation (input) EAGAIN :: int where "EAGAIN \<equiv> 11"
abbreviation (input) ENOMEM :: int where "ENOMEM \<equiv> 12"
abbreviation (input) EACCES :: int where "EACCES \<equiv> 13"
abbreviation (input) EFAULT :: int where "EFAULT \<equiv> 14"
abbreviation (input) ENOTBLK :: int where "ENOTBLK \<equiv> 15"
abbreviation (input) EBUSY :: int where "EBUSY \<equiv> 16"
abbreviation (input) EEXIST :: int where "EEXIST \<equiv> 17"
abbreviation (input) EXDEV :: int where "EXDEV \<equiv> 18"
abbreviation (input) ENODEV :: int where "ENODEV \<equiv> 19"
abbreviation (input) ENOTDIR :: int where "ENOTDIR \<equiv> 20"
abbreviation (input) EISDIR :: int where "EISDIR \<equiv> 21"
abbreviation (input) EINVAL :: int where "EINVAL \<equiv> 22"
abbreviation (input) ENFILE :: int where "ENFILE \<equiv> 23"
abbreviation (input) EMFILE :: int where "EMFILE \<equiv> 24"
abbreviation (input) ENOTTY :: int where "ENOTTY \<equiv> 25"
abbreviation (input) ETXTBSY :: int where "ETXTBSY \<equiv> 26"
abbreviation (input) EFBIG :: int where "EFBIG \<equiv> 27"
abbreviation (input) ENOSPC :: int where "ENOSPC \<equiv> 28"
abbreviation (input) ESPIPE :: int where "ESPIPE \<equiv> 29"
abbreviation (input) EROFS :: int where "EROFS \<equiv> 30"
abbreviation (input) EPIPE :: int where "EPIPE \<equiv> 32"

section \<open>Outcomes\<close>

text \<open>
  A routine that may sleep or panic ends in one of these ways. \<open>Jump\<close> is the non-local return
  to the label \<open>u_qsav\<close> that a signal causes; \<open>Blocked\<close> is a process left sleeping; \<open>Stuck\<close> is
  a walk along links that has used up its fuel, which happens only on cyclic lists.
\<close>

datatype ('a, 's) res = Ok 'a 's | Jump 's | Blocked int int 's | Panic string 's | Stuck 's

primrec bnd :: "('a, 's) res \<Rightarrow> ('a \<Rightarrow> 's \<Rightarrow> ('b, 's) res) \<Rightarrow> ('b, 's) res" where
  "bnd (Ok x s) f = f x s"
| "bnd (Jump s) f = Jump s"
| "bnd (Blocked c p s) f = Blocked c p s"
| "bnd (Panic m s) f = Panic m s"
| "bnd (Stuck s) f = Stuck s"

lemma bnd_Ok_iff: "bnd m f = Ok y t \<longleftrightarrow> (\<exists>x s. m = Ok x s \<and> f x s = Ok y t)"
  by (cases m) auto

lemma bnd_assoc: "bnd (bnd m f) g = bnd m (\<lambda>x s. bnd (f x s) g)"
  by (cases m) auto

lemma bnd_cong [fundef_cong]:
  "m = m' \<Longrightarrow> (\<And>x s. m' = Ok x s \<Longrightarrow> f x s = g x s) \<Longrightarrow> bnd m f = bnd m' g"
  by (cases m') auto

section \<open>Small updates\<close>

definition set_error :: "int \<Rightarrow> 'z kst_scheme \<Rightarrow> 'z kst_scheme" where
  "set_error e s = s\<lparr>u := (u s)\<lparr>u_error := e\<rparr>\<rparr>"

definition upd_u :: "(user \<Rightarrow> user) \<Rightarrow> 'z kst_scheme \<Rightarrow> 'z kst_scheme" where
  "upd_u f s = s\<lparr>u := f (u s)\<rparr>"

definition upd_proc :: "nat \<Rightarrow> (proc \<Rightarrow> proc) \<Rightarrow> 'z kst_scheme \<Rightarrow> 'z kst_scheme" where
  "upd_proc p f s = s\<lparr>proc := (proc s)(p := f (proc s p))\<rparr>"

definition upd_inode :: "nat \<Rightarrow> (inode \<Rightarrow> inode) \<Rightarrow> 'z kst_scheme \<Rightarrow> 'z kst_scheme" where
  "upd_inode i f s = s\<lparr>inode := (inode s)(i := f (inode s i))\<rparr>"

definition upd_file :: "nat \<Rightarrow> (file_ent \<Rightarrow> file_ent) \<Rightarrow> 'z kst_scheme \<Rightarrow> 'z kst_scheme" where
  "upd_file i f s = s\<lparr>file_t := (file_t s)(i := f (file_t s i))\<rparr>"

definition upd_buf :: "nat \<Rightarrow> (buf \<Rightarrow> buf) \<Rightarrow> 'z kst_scheme \<Rightarrow> 'z kst_scheme" where
  "upd_buf i f s = s\<lparr>buf := (buf s)(i := f (buf s i))\<rparr>"

definition upd_text :: "nat \<Rightarrow> (text_ent \<Rightarrow> text_ent) \<Rightarrow> 'z kst_scheme \<Rightarrow> 'z kst_scheme" where
  "upd_text i f s = s\<lparr>text_t := (text_t s)(i := f (text_t s i))\<rparr>"

definition upd_fs :: "nat \<Rightarrow> (filsys \<Rightarrow> filsys) \<Rightarrow> 'z kst_scheme \<Rightarrow> 'z kst_scheme" where
  "upd_fs i f s = s\<lparr>mount := (mount s)(i := (mount s i)\<lparr>m_fs := f (m_fs (mount s i))\<rparr>)\<rparr>"

definition kprintf :: "string \<Rightarrow> 'z kst_scheme \<Rightarrow> 'z kst_scheme" where
  "kprintf m s = s\<lparr>printed := printed s @ [m]\<rparr>"

lemmas upd_defs [kdefs] = set_error_def upd_u_def upd_proc_def upd_inode_def upd_file_def upd_buf_def
  upd_text_def upd_fs_def kprintf_def

section \<open>The zero-initialised kernel\<close>

text \<open>Static storage before \<open>main\<close> runs; the examples of the development start from it.\<close>

definition zero_proc :: proc where
  "zero_proc = \<lparr>
    p_stat = 0, p_flag = {}, p_pri = 0, p_time = 0, p_cpu = 0, p_nice = 0, p_sig = 0, p_uid = 0,
    p_pgrp = 0, p_pid = 0, p_ppid = 0, p_addr = 0, p_size = 0, p_wchan = 0, p_textp = None,
    p_link = None, p_clktim = 0\<rparr>"

definition zero_xproc :: xproc where
  "zero_xproc = \<lparr>
    xp_xstat = 0, xp_utime = 0, xp_stime = 0\<rparr>"

definition zero_inode :: inode where
  "zero_inode = \<lparr>
    i_flag = {}, i_count = 0, i_dev = 0, i_number = 0, i_mode = 0, i_nlink = 0, i_uid = 0, i_gid = 0,
    i_size = 0, i_addr = \<lambda>_. 0, i_lastr = 0\<rparr>"

definition zero_file_ent :: file_ent where
  "zero_file_ent = \<lparr>
    f_flag = {}, f_count = 0, f_inode = 0, f_offset = 0\<rparr>"

definition zero_buf :: buf where
  "zero_buf = \<lparr>
    b_flags = {}, b_forw = 0, b_back = 0, av_forw = 0, av_back = 0, b_dev = 0, b_bcount = 0,
    b_addr = 0, b_xmem = 0, b_data = \<lambda>_. 0, b_blkno = 0, b_error = 0, b_resid = 0\<rparr>"

definition zero_text_ent :: text_ent where
  "zero_text_ent = \<lparr>
    x_daddr = 0, x_caddr = 0, x_size = 0, x_iptr = None, x_count = 0, x_ccount = 0, x_flag = {}\<rparr>"

definition zero_filsys :: filsys where
  "zero_filsys = \<lparr>
    s_isize = 0, s_fsize = 0, s_nfree = 0, s_free = \<lambda>_. 0, s_ninode = 0,
    s_inode = \<lambda>_. 0, s_flock = 0, s_ilock = 0, s_fmod = 0, s_ronly = 0, s_time = 0, s_rest = \<lambda>_. 0\<rparr>"

definition zero_mount :: mount where
  "zero_mount = \<lparr>
    m_dev = 0, m_bufp = None, m_fs = zero_filsys, m_inodp = None\<rparr>"

definition zero_direct :: direct where
  "zero_direct = \<lparr>
    d_ino = 0, d_name = []\<rparr>"

definition zero_u_prof_s :: u_prof_s where
  "zero_u_prof_s = \<lparr>
    pr_base = 0, pr_size = 0, pr_off = 0, pr_scale = 0\<rparr>"

definition zero_exdata_s :: exdata_s where
  "zero_exdata_s = \<lparr>
    ux_mag = 0, ux_tsize = 0, ux_dsize = 0, ux_bsize = 0, ux_ssize = 0, ux_entloc = 0, ux_unused = 0, ux_relflg = 0\<rparr>"

definition zero_user :: user where
  "zero_user = \<lparr>
    u_segflg = 0, u_error = 0, u_uid = 0, u_gid = 0, u_ruid = 0, u_rgid = 0, u_procp = 0,
    u_r_val1 = 0, u_r_val2 = 0, u_base = 0, u_count = 0, u_offset = 0, u_cdir = 0, u_rdir = None,
    u_dbuf = [], u_dirp = 0, u_dent = zero_direct, u_pdir = 0, u_uisa = \<lambda>_. 0, u_ofile = \<lambda>_. None,
    u_pofile = \<lambda>_. 0, u_arg = \<lambda>_. 0, u_tsize = 0, u_dsize = 0, u_ssize = 0,
    u_signal = \<lambda>_. 0, u_utime = 0, u_stime = 0, u_cutime = 0, u_cstime = 0,
    u_ar0 = \<lambda>_. 0, u_prof = zero_u_prof_s, u_fpsaved = 0, u_sep = 0, u_ttyp = None,
    u_ttyd = 0, u_exdata = zero_exdata_s, u_comm = [], u_start = 0, u_acflag = {}, u_cmask = 0\<rparr>"

definition zero_ipc_s :: ipc_s where
  "zero_ipc_s = \<lparr>
    ip_lock = 0, ip_req = 0, ip_addr = 0, ip_data = 0\<rparr>"

definition zero_clist :: clist where
  "zero_clist = \<lparr>
    c_cc = 0, c_cf = 0, c_cl = 0\<rparr>"

definition zero_clmem :: clmem where
  "zero_clmem = \<lparr>
    c_next = \<lambda>_. 0, c_info = \<lambda>_. 0, cfreelist = 0, cbad = 0, ipl = 0\<rparr>"

definition zero_callo :: callo where
  "zero_callo = \<lparr>
    c_time = 0, c_arg = 0, c_func = None\<rparr>"

definition zero_io_info_s :: io_info_s where
  "zero_io_info_s = \<lparr>nread = 0, nreada = 0, ncache = 0, nwrite = 0, bufcount = \<lambda>_. 0\<rparr>"

definition zero_tty :: tty where
  "zero_tty = \<lparr>
    t_rawq = zero_clist, t_canq = zero_clist, t_outq = zero_clist, t_dev = 0, t_flags = 0,
    t_state = {}, t_pgrp = 0, t_delct = 0, t_line = 0, t_col = 0, t_erase = 0, t_kill = 0,
    t_char = 0, t_ispeed = 0, t_ospeed = 0, t_intrc = 0, t_quitc = 0, t_startc = 0, t_stopc = 0,
    t_eofc = 0, t_brkc = 0\<rparr>"

definition bss :: kst where
  "bss = \<lparr>
    u = zero_user, proc = \<lambda>_. zero_proc, xproc = \<lambda>_. zero_xproc,
    inode = \<lambda>_. zero_inode, file_t = \<lambda>_. zero_file_ent, buf = \<lambda>_. zero_buf,
    text_t = \<lambda>_. zero_text_ent, mount = \<lambda>_. zero_mount, runq = None,
    slpque = \<lambda>_. None, curpri = 0, runin = 0, runout = 0, runrun = 0, mpid = 0, lbolt = 0,
    time = 0, coremap = [], swapmap = [], ipc = zero_ipc_s, callout = [], cl = zero_clmem,
    tty = \<lambda>_. zero_tty, tk_nin = 0, tk_nout = 0, dk_time = \<lambda>_. 0, dk_busy = 0,
    acctp = None, rootdir = 0, rootdev = 0, pipedev = 0, swapdev = 0, swplo = 0, updlock = 0,
    rablock = 0, nblkdev = 0, nchrdev = 0, maxmem = 0, asid = 0, pgmap = \<lambda>_. 0, kmem = \<lambda>_. 0, junk = \<lambda>_. 0, io_info = zero_io_info_s,
    core = \<lambda>_. \<lambda>_. 0, printed = [], addr_of = \<lambda>_. 0\<rparr>"

lemmas zero_defs = zero_proc_def zero_xproc_def zero_inode_def zero_file_ent_def zero_buf_def
  zero_text_ent_def zero_filsys_def zero_mount_def zero_direct_def zero_u_prof_s_def
  zero_exdata_s_def zero_user_def zero_ipc_s_def zero_clist_def zero_clmem_def zero_callo_def
  zero_io_info_s_def zero_tty_def bss_def

section \<open>The running system\<close>

text \<open>
  A process that gives up the processor finds the state changed by other processes and by
  interrupts. Each element of \<open>env\<close> is what happens during one such absence; a process that
  sleeps more often than \<open>env\<close> is long stays blocked. The device switches are the drivers'
  entry points; they are called through the tables only.
\<close>

record world = kst +
  env :: "(kst \<Rightarrow> kst) list"
  d_tab :: "int \<Rightarrow> nat option"
  d_strategy :: "int \<Rightarrow> nat \<Rightarrow> kst \<Rightarrow> kst"
  bd_open :: "int \<Rightarrow> int \<Rightarrow> int \<Rightarrow> kst \<Rightarrow> kst"
  bd_close :: "int \<Rightarrow> int \<Rightarrow> fflag set \<Rightarrow> kst \<Rightarrow> kst"
  cd_open :: "int \<Rightarrow> int \<Rightarrow> int \<Rightarrow> kst \<Rightarrow> kst"
  cd_close :: "int \<Rightarrow> int \<Rightarrow> fflag set \<Rightarrow> kst \<Rightarrow> kst"
  cd_read :: "int \<Rightarrow> int \<Rightarrow> kst \<Rightarrow> kst"
  cd_write :: "int \<Rightarrow> int \<Rightarrow> kst \<Rightarrow> kst"
  cd_ioctl :: "int \<Rightarrow> int \<Rightarrow> int \<Rightarrow> int \<Rightarrow> fflag set \<Rightarrow> kst \<Rightarrow> kst"
  cd_stop :: "nat \<Rightarrow> kst \<Rightarrow> kst"
  t_oproc :: "nat \<Rightarrow> kst \<Rightarrow> kst"

definition on_kst :: "(kst \<Rightarrow> kst) \<Rightarrow> world \<Rightarrow> world" where
  "on_kst f w = kst.extend (f (kst.truncate w)) (world.fields (env w) (d_tab w) (d_strategy w) (bd_open w)
     (bd_close w) (cd_open w) (cd_close w) (cd_read w) (cd_write w)
     (cd_ioctl w) (cd_stop w) (t_oproc w))"

lemma on_kst_simps [simp]:
  "env (on_kst f w) = env w" "d_tab (on_kst f w) = d_tab w" "d_strategy (on_kst f w) = d_strategy w"
  "kst.truncate (on_kst f w) = f (kst.truncate w)"
  by (simp_all add: on_kst_def kst.defs world.defs)

text \<open>The zero-initialised kernel with no other process and drivers that do nothing, for examples.\<close>

definition bss_world :: world where
  "bss_world = kst.extend bss (world.fields [] (\<lambda>_. None) (\<lambda>_ _ s. s) (\<lambda>_ _ _ s. s) (\<lambda>_ _ _ s. s)
     (\<lambda>_ _ _ s. s) (\<lambda>_ _ _ s. s) (\<lambda>_ _ s. s) (\<lambda>_ _ s. s) (\<lambda>_ _ _ _ _ s. s) (\<lambda>_ s. s) (\<lambda>_ s. s))"

lemma bss_world_simps [simp]:
  "u bss_world = zero_user" "proc bss_world = (\<lambda>_. zero_proc)" "inode bss_world = (\<lambda>_. zero_inode)"
  "file_t bss_world = (\<lambda>_. zero_file_ent)" "buf bss_world = (\<lambda>_. zero_buf)" "text_t bss_world = (\<lambda>_. zero_text_ent)"
  "mount bss_world = (\<lambda>_. zero_mount)" "runq bss_world = None" "slpque bss_world = (\<lambda>_. None)" "runout bss_world = 0"
  "runin bss_world = 0" "env bss_world = []" "tty bss_world = (\<lambda>_. zero_tty)" "cl bss_world = zero_clmem"
  "addr_of bss_world = (\<lambda>_. 0)" "pgmap bss_world = (\<lambda>_. 0)" "core bss_world = (\<lambda>_ _. 0)" "kmem bss_world = (\<lambda>_. 0)"
  "printed bss_world = []" "d_tab bss_world = (\<lambda>_. None)" "d_strategy bss_world = (\<lambda>_ _ s. s)"
  "coremap bss_world = []" "swapmap bss_world = []" "maxmem bss_world = 0" "time bss_world = 0" "mpid bss_world = 0"
  "nblkdev bss_world = 0" "nchrdev bss_world = 0" "curpri bss_world = 0"
  by (simp_all add: bss_world_def bss_def kst.defs world.defs)

section \<open>Units and fields of numbers\<close>

text \<open>The macros of \<open>types.h\<close> and \<open>param.h\<close>, and the bits of a file's mode.\<close>

definition major :: "int \<Rightarrow> int" where
  "major x = s16 (drop_bit 8 (u32 x))"

definition minor :: "int \<Rightarrow> int" where
  "minor x = s16 (x AND 255)"

definition itod :: "int \<Rightarrow> int" where
  "itod x = s32 (drop_bit 3 (u32 (u32 x + 15)))"

definition itoo :: "int \<Rightarrow> nat" where
  "itoo x = nat ((x + 15) AND 7)"

definition ctod :: "int \<Rightarrow> int" where
  "ctod x = s32 (push_bit 2 x)"

definition ctob :: "int \<Rightarrow> int" where
  "ctob x = s32 (push_bit 12 x)"

definition btoc :: "int \<Rightarrow> int" where
  "btoc x = drop_bit 12 (u32 (u32 x + 4095))"

abbreviation (input) NODEV :: int where "NODEV \<equiv> -1"
abbreviation (input) BSIZE :: int where "BSIZE \<equiv> 512"
abbreviation (input) BMASK :: int where "BMASK \<equiv> 511"
abbreviation (input) NADDR :: nat where "NADDR \<equiv> 13"
abbreviation (input) NINDIR :: nat where "NINDIR \<equiv> 128"
abbreviation (input) SUPERB :: int where "SUPERB \<equiv> 1"
abbreviation (input) ROOTINO :: int where "ROOTINO \<equiv> 2"
abbreviation (input) NICFREE :: nat where "NICFREE \<equiv> 50"
abbreviation (input) NICINOD :: nat where "NICINOD \<equiv> 100"
abbreviation (input) DIRSIZ :: nat where "DIRSIZ \<equiv> 14"
abbreviation (input) USERTOP :: int where "USERTOP \<equiv> 0x60000000"
abbreviation (input) PGSZ :: int where "PGSZ \<equiv> 4096"

abbreviation (input) IFMT :: int where "IFMT \<equiv> 0xF000"
abbreviation (input) IFDIR :: int where "IFDIR \<equiv> 0x4000"
abbreviation (input) IFCHR :: int where "IFCHR \<equiv> 0x2000"
abbreviation (input) IFBLK :: int where "IFBLK \<equiv> 0x6000"
abbreviation (input) IFREG :: int where "IFREG \<equiv> 0x8000"
abbreviation (input) ISUID :: int where "ISUID \<equiv> 0x800"
abbreviation (input) ISGID :: int where "ISGID \<equiv> 0x400"
abbreviation (input) ISVTX :: int where "ISVTX \<equiv> 0x200"
abbreviation (input) IREAD :: int where "IREAD \<equiv> 0x100"
abbreviation (input) IWRITE :: int where "IWRITE \<equiv> 0x80"
abbreviation (input) IEXEC :: int where "IEXEC \<equiv> 0x40"

end
