(* ===== verification/Proc.thy ===== *)
theory Proc
  imports Kernel_State
begin

text \<open>
  Processes (\<open>usr/sys/sys/slp.c\<close>, the signal part of \<open>usr/sys/sys/sig.c\<close>): the sleep and run
  queues, wakeup, priorities, the choice of the next process, and the sending and the
  recognition of signals. The queues are linked through \<open>p_link\<close> as in the code; walks along
  them carry fuel.
\<close>

section \<open>Model\<close>

definition HASH :: "int \<Rightarrow> nat" where
  "HASH x = nat (drop_bit 5 x mod 64)"

text \<open>Enough for any walk along queues without cycles, nested once.\<close>

abbreviation qfuel :: nat where "qfuel \<equiv> 4 * NPROC"

fun on_queue :: "nat \<Rightarrow> (nat \<Rightarrow> proc) \<Rightarrow> nat option \<Rightarrow> nat \<Rightarrow> bool option" where
  "on_queue 0 pr q p = None"
| "on_queue (Suc n) pr q p =
     (case q of None \<Rightarrow> Some False
      | Some q' \<Rightarrow> if q' = p then Some True else on_queue n pr (p_link (pr q')) p)"

definition setrq :: "nat \<Rightarrow> 'z kst_scheme \<Rightarrow> (unit, 'z kst_scheme) res" where
  "setrq p s =
     (case on_queue qfuel (proc s) (runq s) p of
        None \<Rightarrow> Stuck s
      | Some True \<Rightarrow> Ok () (kprintf ''proc on q'' s)
      | Some False \<Rightarrow> Ok () ((upd_proc p (\<lambda>r. r\<lparr>p_link := runq s\<rparr>) s)\<lparr>runq := Some p\<rparr>))"

text \<open>\<open>if (q == NULL) slpque[i] = l; else q->p_link = l;\<close>\<close>

definition slp_unlink :: "nat \<Rightarrow> nat option \<Rightarrow> nat option \<Rightarrow> 'z kst_scheme \<Rightarrow> 'z kst_scheme" where
  "slp_unlink i q l s =
     (case q of None \<Rightarrow> s\<lparr>slpque := (slpque s)(i := l)\<rparr>
      | Some q' \<Rightarrow> upd_proc q' (\<lambda>r. r\<lparr>p_link := l\<rparr>) s)"

text \<open>\<open>wakeup\<close> from the test of its loop on, and \<open>setrun\<close>, which call each other.\<close>

fun wakeup_loop :: "nat \<Rightarrow> int \<Rightarrow> nat \<Rightarrow> nat option \<Rightarrow> nat option \<Rightarrow> 'z kst_scheme \<Rightarrow> (unit, 'z kst_scheme) res"
and setrun_n :: "nat \<Rightarrow> nat \<Rightarrow> 'z kst_scheme \<Rightarrow> (unit, 'z kst_scheme) res" where
  "wakeup_loop 0 chan i p q s = Stuck s"
| "wakeup_loop (Suc n) chan i p q s =
     (case p of
        None \<Rightarrow> Ok () s
      | Some p' \<Rightarrow>
          if p_wchan (proc s p') = chan \<and> p_stat (proc s p') \<noteq> SZOMB then
            (let sp = p_link (proc s p');
                 s = slp_unlink i q sp s;
                 s = upd_proc p' (\<lambda>r. r\<lparr>p_wchan := 0\<rparr>) s
             in bnd (setrun_n n p' s) (\<lambda>_ s. wakeup_loop n chan i sp q s))
          else wakeup_loop n chan i (p_link (proc s p')) p s)"
| "setrun_n 0 p s = Stuck s"
| "setrun_n (Suc n) p s =
     (if p_stat (proc s p) = 0 \<or> p_stat (proc s p) = SZOMB then Panic ''Running a dead proc'' s
      else
        (let w = p_wchan (proc s p) in
         if w \<noteq> 0 then wakeup_loop n w (HASH w) (slpque s (HASH w)) None s
         else
           bnd (setrq p (upd_proc p (\<lambda>r. r\<lparr>p_stat := SRUN\<rparr>) s)) (\<lambda>_ s.
             (let s = (if p_pri (proc s p) < curpri s then s\<lparr>runrun := u8 (runrun s + 1)\<rparr> else s) in
              if runout s \<noteq> 0 \<and> SLOAD \<notin> p_flag (proc s p) then
                (let s = s\<lparr>runout := 0\<rparr>; c = addr_of s Ch_runout
                 in wakeup_loop n c (HASH c) (slpque s (HASH c)) None s)
              else Ok () s))))"

definition wakeup :: "int \<Rightarrow> 'z kst_scheme \<Rightarrow> (unit, 'z kst_scheme) res" where
  "wakeup chan s = wakeup_loop qfuel chan (HASH chan) (slpque s (HASH chan)) None s"

definition setrun :: "nat \<Rightarrow> 'z kst_scheme \<Rightarrow> (unit, 'z kst_scheme) res" where
  "setrun p s = setrun_n qfuel p s"

definition setpri :: "nat \<Rightarrow> 'z kst_scheme \<Rightarrow> int \<times> 'z kst_scheme" where
  "setpri pp s =
     (let r = proc s pp;
          p = u8 (p_cpu r) div 16;
          p = p + (PUSER + p_nice r - NZERO);
          p = (if p > 127 then 127 else p);
          s = (if p < curpri s then s\<lparr>runrun := u8 (runrun s + 1)\<rparr> else s)
      in (u8 p, upd_proc pp (\<lambda>r. r\<lparr>p_pri := u8 p\<rparr>) s))"

text \<open>
  The search of \<open>swtch\<close>: \<open>pp\<close> is the best process so far, \<open>pq\<close> its predecessor on the queue.
\<close>

fun swtch_scan :: "nat \<Rightarrow> (nat \<Rightarrow> proc) \<Rightarrow> nat option \<Rightarrow> nat option \<Rightarrow> int \<Rightarrow> nat option \<Rightarrow> nat option
    \<Rightarrow> (nat option \<times> nat option \<times> int) option" where
  "swtch_scan 0 pr p q n pp pq = None"
| "swtch_scan (Suc k) pr p q n pp pq =
     (case p of
        None \<Rightarrow> Some (pp, pq, n)
      | Some p' \<Rightarrow>
          if p_stat (pr p') = SRUN \<and> SLOAD \<in> p_flag (pr p') \<and> p_pri (pr p') < n
          then swtch_scan k pr (p_link (pr p')) p (p_pri (pr p')) p q
          else swtch_scan k pr (p_link (pr p')) p n pp pq)"

text \<open>
  One round of the search loop of \<open>swtch\<close>: \<open>Ok None\<close> is a call of \<open>idle\<close>; otherwise the process
  leaves the run queue and is resumed, from \<open>u_ssav\<close> if its \<open>SSWAP\<close> was set.
\<close>

definition swtch_round :: "'z kst_scheme \<Rightarrow> ((nat \<times> bool) option, 'z kst_scheme) res" where
  "swtch_round s =
     (let s = s\<lparr>runrun := 0\<rparr> in
      case swtch_scan qfuel (proc s) (runq s) None 128 None None of
        None \<Rightarrow> Stuck s
      | Some (None, pq, n) \<Rightarrow> Ok None s
      | Some (Some p, pq, n) \<Rightarrow>
          (let s = (case pq of
                      None \<Rightarrow> s\<lparr>runq := p_link (proc s p)\<rparr>
                    | Some q \<Rightarrow> upd_proc q (\<lambda>r. r\<lparr>p_link := p_link (proc s p)\<rparr>) s);
               s = s\<lparr>curpri := u8 n\<rparr>;
               sw = (SSWAP \<in> p_flag (proc s p))
           in Ok (Some (p, sw)) (upd_proc p (\<lambda>r. r\<lparr>p_flag := p_flag r - {SSWAP}\<rparr>) s)))"

section \<open>Signals\<close>

definition psignal :: "nat \<Rightarrow> int \<Rightarrow> 'z kst_scheme \<Rightarrow> (unit, 'z kst_scheme) res" where
  "psignal p sig s =
     (if sig < 0 \<or> sig \<ge> NSIG then Ok () s
      else
        (let s = (if sig \<noteq> 0
                  then upd_proc p (\<lambda>r. r\<lparr>p_sig := s16 (p_sig r OR push_bit (nat (sig - 1)) 1)\<rparr>) s else s);
             s = (if p_pri (proc s p) > PUSER then upd_proc p (\<lambda>r. r\<lparr>p_pri := PUSER\<rparr>) s else s)
         in if p_stat (proc s p) = SSLEEP \<and> p_pri (proc s p) > PZERO then setrun p s else Ok () s))"

fun signal_loop :: "nat list \<Rightarrow> int \<Rightarrow> int \<Rightarrow> 'z kst_scheme \<Rightarrow> (unit, 'z kst_scheme) res" where
  "signal_loop [] pgrp sig s = Ok () s"
| "signal_loop (p # ps) pgrp sig s =
     (if p_pgrp (proc s p) = pgrp
      then bnd (psignal p sig s) (\<lambda>_ s. signal_loop ps pgrp sig s)
      else signal_loop ps pgrp sig s)"

definition signal :: "int \<Rightarrow> int \<Rightarrow> 'z kst_scheme \<Rightarrow> (unit, 'z kst_scheme) res" where
  "signal pgrp sig s = (if pgrp = 0 then Ok () s else signal_loop [0..<NPROC] pgrp sig s)"

text \<open>\<open>for(i=1; i<NSIG; i++) { if(n & 1) return(i); n >>= 1; }\<close>, with \<open>k\<close> rounds left\<close>

fun fsig_loop :: "nat \<Rightarrow> int \<Rightarrow> int \<Rightarrow> int" where
  "fsig_loop 0 i n = 0"
| "fsig_loop (Suc k) i n = (if n AND 1 \<noteq> 0 then i else fsig_loop k (i + 1) (drop_bit 1 n))"

definition fsig :: "nat \<Rightarrow> 'z kst_scheme \<Rightarrow> int" where
  "fsig p s = fsig_loop 16 1 (p_sig (proc s p))"

text \<open>
  A round of \<open>issig\<close> that does not return clears the lowest pending signal, so seventeen
  rounds are enough for sixteen signals.
\<close>

fun issig_loop :: "nat \<Rightarrow> 'z kst_scheme \<Rightarrow> (int, 'z kst_scheme) res" where
  "issig_loop 0 s = Stuck s"
| "issig_loop (Suc k) s =
     (let p = u_procp (u s) in
      if p_sig (proc s p) = 0 then Ok 0 s
      else
        (let n = fsig p s in
         if u_signal (u s) (nat n) AND 1 = 0 \<or> STRC \<in> p_flag (proc s p) then Ok n s
         else issig_loop k
                (upd_proc p (\<lambda>r. r\<lparr>p_sig := s16 (p_sig r AND NOT (push_bit (nat (n - 1)) 1))\<rparr>) s)))"

definition issig :: "'z kst_scheme \<Rightarrow> (int, 'z kst_scheme) res" where
  "issig s = issig_loop 17 s"

section \<open>Giving up the processor\<close>

text \<open>
  What \<open>swtch\<close> does as seen by its caller: others run, and the process continues with its own
  \<open>u\<close> area. Without a continuation it stays where it is.
\<close>

definition swtch :: "int \<Rightarrow> int \<Rightarrow> world \<Rightarrow> (unit, world) res" where
  "swtch chan pri s =
     (case env s of
        [] \<Rightarrow> Blocked chan pri s
      | e # es \<Rightarrow> Ok () (on_kst (\<lambda>k. (e k)\<lparr>u := u k\<rparr>) (s\<lparr>env := es\<rparr>)))"

definition sleep :: "int \<Rightarrow> int \<Rightarrow> world \<Rightarrow> (unit, world) res" where
  "sleep chan pri s =
     (if chan = 0 then Panic ''zero wchan'' s
      else
        (let rp = u_procp (u s); h = HASH chan;
             s = upd_proc rp (\<lambda>r. r\<lparr>p_stat := SSLEEP, p_wchan := chan, p_pri := u8 pri,
                                    p_link := slpque s h\<rparr>) s;
             s = s\<lparr>slpque := (slpque s)(h := Some rp)\<rparr>
         in if pri > PZERO then
              bnd (issig s) (\<lambda>n s.
                if n \<noteq> 0 then
                  (let s = upd_proc rp (\<lambda>r. r\<lparr>p_wchan := 0, p_stat := SRUN\<rparr>) s
                   in Jump (s\<lparr>slpque := (slpque s)(h := p_link (proc s rp))\<rparr>))
                else
                  bnd (if runin s \<noteq> 0 then wakeup (addr_of s Ch_runin) (s\<lparr>runin := 0\<rparr>) else Ok () s) (\<lambda>_ s.
                  bnd (swtch chan pri s) (\<lambda>_ s.
                  bnd (issig s) (\<lambda>n s. if n \<noteq> 0 then Jump s else Ok () s))))
            else swtch chan pri s))"

definition qswtch :: "world \<Rightarrow> (unit, world) res" where
  "qswtch s = bnd (setrq (u_procp (u s)) s) (\<lambda>_ s. swtch 0 (p_pri (proc s (u_procp (u s)))) s)"

section \<open>Queues as lists\<close>

fun plist :: "(nat \<Rightarrow> proc) \<Rightarrow> nat option \<Rightarrow> nat list \<Rightarrow> bool" where
  "plist pr p [] = (p = None)"
| "plist pr p (x # xs) = (p = Some x \<and> plist pr (p_link (pr x)) xs)"

definition head :: "'a list \<Rightarrow> 'a option" where
  "head xs = (case xs of [] \<Rightarrow> None | x # _ \<Rightarrow> Some x)"

definition final :: "'a list \<Rightarrow> 'a option" where
  "final xs = (if xs = [] then None else Some (last xs))"

lemma head_simps [simp]: "head [] = None" "head (x # xs) = Some x"
  by (simp_all add: head_def)

lemma final_simps [simp]: "final [] = None" "final (xs @ [x]) = Some x"
  by (simp_all add: final_def)

text \<open>
  The run queue holds processes with no wait channel, the sleep queue of a hash value the
  sleeping processes whose channel has that hash; no process is on two queues.
\<close>

definition queues :: "'z kst_scheme \<Rightarrow> nat list \<Rightarrow> (nat \<Rightarrow> nat list) \<Rightarrow> bool" where
  "queues s rq sq \<longleftrightarrow>
     plist (proc s) (runq s) rq \<and> (\<forall>h. plist (proc s) (slpque s h) (sq h))
     \<and> distinct rq \<and> (\<forall>h. distinct (sq h)) \<and> (\<forall>h. set rq \<inter> set (sq h) = {})
     \<and> (\<forall>p\<in>set rq. p < NPROC \<and> p_wchan (proc s p) = 0)
     \<and> (\<forall>h. \<forall>p\<in>set (sq h). p < NPROC \<and> p_stat (proc s p) = SSLEEP \<and> p_wchan (proc s p) \<noteq> 0
          \<and> HASH (p_wchan (proc s p)) = h)"

lemma plist_head: "plist pr p xs \<Longrightarrow> p = head xs"
  by (cases xs) auto

lemma plist_cong:
  "\<forall>x\<in>set xs. p_link (pr' x) = p_link (pr x) \<Longrightarrow> plist pr' p xs = plist pr p xs"
  by (induction xs arbitrary: p) auto

lemma plist_upd [simp]: "x \<notin> set xs \<Longrightarrow> plist (pr(x := r)) p xs = plist pr p xs"
  by (intro plist_cong) auto

lemma plist_same_link [simp]: "p_link r = p_link (pr x) \<Longrightarrow> plist (pr(x := r)) p xs = plist pr p xs"
  by (intro plist_cong) auto

text \<open>Taking an element out of a queue by redirecting its predecessor.\<close>

lemma plist_unlink:
  assumes "plist pr p (xs @ y # ys)" "distinct (xs @ y # ys)"
  shows "if xs = [] then plist pr (p_link (pr y)) ys
    else plist (pr(last xs := (pr (last xs))\<lparr>p_link := p_link (pr y)\<rparr>)) p (xs @ ys)"
  using assms
proof (induction xs arbitrary: p)
  case (Cons x xs)
  then show ?case
  proof (cases "xs = []")
    case True
    with Cons.prems show ?thesis by simp
  next
    case False
    let ?pr = "pr(last xs := (pr (last xs))\<lparr>p_link := p_link (pr y)\<rparr>)"
    have "x \<noteq> last xs" using Cons.prems(2) False by auto
    then have "?pr x = pr x" by simp
    moreover have "plist ?pr (p_link (pr x)) (xs @ ys)" using Cons False by auto
    ultimately show ?thesis using Cons.prems(1) False by simp
  qed
qed simp

lemma on_queue_notin:
  "plist pr q xs \<Longrightarrow> p \<notin> set xs \<Longrightarrow> length xs < n \<Longrightarrow> on_queue n pr q p = Some False"
proof (induction xs arbitrary: q n)
  case Nil
  then show ?case by (cases n) auto
next
  case (Cons x xs)
  then show ?case by (cases n) auto
qed

lemma queue_length: "distinct xs \<Longrightarrow> \<forall>p\<in>set xs. p < NPROC \<Longrightarrow> length xs \<le> NPROC"
  using card_mono [of "{..<NPROC}" "set xs"] distinct_card [of xs] by auto

section \<open>Wakeup\<close>

text \<open>A process enters the run queue; and the whole step of \<open>wakeup\<close> for one sleeper.\<close>

definition ready :: "nat \<Rightarrow> 'z kst_scheme \<Rightarrow> 'z kst_scheme" where
  "ready p s =
     (upd_proc p (\<lambda>r. r\<lparr>p_stat := SRUN, p_link := runq s\<rparr>) s)
       \<lparr>runq := Some p, runrun := (if p_pri (proc s p) < curpri s then u8 (runrun s + 1) else runrun s)\<rparr>"

definition wake_one :: "nat \<Rightarrow> nat option \<Rightarrow> nat \<Rightarrow> 'z kst_scheme \<Rightarrow> 'z kst_scheme" where
  "wake_one i q p s =
     ready p (upd_proc p (\<lambda>r. r\<lparr>p_wchan := 0\<rparr>) (slp_unlink i q (p_link (proc s p)) s))"

lemma setrun_n_ready:
  assumes "p_stat (proc s p) \<noteq> 0" "p_stat (proc s p) \<noteq> SZOMB" "p_wchan (proc s p) = 0"
    "plist (proc s) (runq s) rq" "p \<notin> set rq" "length rq < qfuel"
    "runout s = 0 \<or> SLOAD \<in> p_flag (proc s p)"
  shows "setrun_n (Suc n) p s = Ok () (ready p s)"
proof -
  have "on_queue qfuel (proc (upd_proc p (\<lambda>r. r\<lparr>p_stat := SRUN\<rparr>) s)) (runq s) p = Some False"
    using assms(4,5,6) by (intro on_queue_notin [of _ _ rq]) (simp_all add: upd_proc_def)
  then show ?thesis
    using assms(1,2,3,7) by (simp add: setrq_def upd_proc_def ready_def Let_def) auto
qed

lemma queuesD:
  assumes "queues s rq sq"
  shows "plist (proc s) (runq s) rq" "distinct rq" "plist (proc s) (slpque s h) (sq h)" "distinct (sq h)"
    "set rq \<inter> set (sq h) = {}" "p \<in> set rq \<Longrightarrow> p < NPROC \<and> p_wchan (proc s p) = 0"
    "p \<in> set (sq h) \<Longrightarrow> p < NPROC \<and> p_stat (proc s p) = SSLEEP \<and> p_wchan (proc s p) \<noteq> 0
       \<and> HASH (p_wchan (proc s p)) = h"
  using assms by (auto simp: queues_def)

lemma slp_unlink_simps [simp]:
  "runq (slp_unlink i q l s) = runq s" "runout (slp_unlink i q l s) = runout s"
  "curpri (slp_unlink i q l s) = curpri s" "runrun (slp_unlink i q l s) = runrun s"
  "addr_of (slp_unlink i q l s) = addr_of s"
  "p_stat (proc (slp_unlink i q l s) y) = p_stat (proc s y)"
  "p_wchan (proc (slp_unlink i q l s) y) = p_wchan (proc s y)"
  "p_pri (proc (slp_unlink i q l s) y) = p_pri (proc s y)"
  "p_flag (proc (slp_unlink i q l s) y) = p_flag (proc s y)"
  "h \<noteq> i \<Longrightarrow> slpque (slp_unlink i q l s) h = slpque s h"
  "q \<noteq> Some y \<Longrightarrow> p_link (proc (slp_unlink i q l s) y) = p_link (proc s y)"
  by (auto simp: slp_unlink_def upd_proc_def split: option.splits)

lemma slp_unlink_plist:
  assumes "plist (proc s) (slpque s i) (dn @ x # rest)" "distinct (dn @ x # rest)"
  shows "plist (proc (slp_unlink i (final dn) (p_link (proc s x)) s))
    (slpque (slp_unlink i (final dn) (p_link (proc s x)) s) i) (dn @ rest)"
  using plist_unlink [OF assms]
  by (cases "dn = []") (simp_all add: slp_unlink_def upd_proc_def final_def)

lemma wake_one_simps:
  "runq (wake_one i q x s) = Some x" "slpque (wake_one i q x s) = slpque (slp_unlink i q (p_link (proc s x)) s)"
  "proc (wake_one i q x s) y = (if y = x
     then (proc s x)\<lparr>p_stat := SRUN, p_wchan := 0, p_link := runq s\<rparr>
     else proc (slp_unlink i q (p_link (proc s x)) s) y)"
  "runout (wake_one i q x s) = runout s" "addr_of (wake_one i q x s) = addr_of s"
  "runrun (wake_one i q x s) = (if p_pri (proc s x) < curpri s then u8 (runrun s + 1) else runrun s)"
  "curpri (wake_one i q x s) = curpri s"
  by (auto simp: wake_one_def ready_def upd_proc_def slp_unlink_def split: option.splits)

lemma queues_wake_one:
  assumes q: "queues s rq (sq(i := dn @ x # rest))"
  shows "queues (wake_one i (final dn) x s) (x # rq) (sq(i := dn @ rest))"
proof -
  let ?s1 = "slp_unlink i (final dn) (p_link (proc s x)) s"
  let ?s' = "wake_one i (final dn) x s"
  note D = queuesD [OF q]
  have d: "distinct (dn @ x # rest)" "set rq \<inter> set (dn @ x # rest) = {}" using D(4,5) [of i] by auto
  have oth: "y \<notin> set (dn @ x # rest)" if "y \<in> set (sq h)" "h \<noteq> i" for y h
    using D(7) [of y h] D(7) [of y i] that by auto
  have fin: "final dn \<noteq> Some y" if "y \<notin> set dn" for y using that by (auto simp: final_def)
  have lk: "p_link (proc ?s' y) = p_link (proc s y)" if "y \<notin> set (dn @ x # rest)" for y
    using that fin [of y] by (simp add: wake_one_simps)
  have "plist (proc ?s') (runq s) rq = plist (proc s) (runq s) rq"
    using lk d(2) by (intro plist_cong) blast
  with D(1) have p1: "plist (proc ?s') (runq ?s') (x # rq)" by (simp add: wake_one_simps)
  have "plist (proc ?s') p (dn @ rest) = plist (proc ?s1) p (dn @ rest)" for p
    using d(1) by (intro plist_cong) (auto simp: wake_one_simps)
  with slp_unlink_plist [of s i dn x rest] D(3) [of i] d(1)
  have p2: "plist (proc ?s') (slpque ?s' i) (dn @ rest)" by (simp add: wake_one_simps)
  have p3: "plist (proc ?s') (slpque ?s' h) (sq h)" if "h \<noteq> i" for h
  proof -
    have "plist (proc ?s') (slpque s h) (sq h) = plist (proc s) (slpque s h) (sq h)"
      using lk oth that by (intro plist_cong) blast
    with D(3) [of h] that show ?thesis by (simp add: wake_one_simps)
  qed
  have st: "p_stat (proc ?s' y) = p_stat (proc s y) \<and> p_wchan (proc ?s' y) = p_wchan (proc s y)"
    if "y \<noteq> x" for y using that by (simp add: wake_one_simps)
  have mem: "y < NPROC \<and> p_stat (proc ?s' y) = SSLEEP \<and> p_wchan (proc ?s' y) \<noteq> 0 \<and> HASH (p_wchan (proc ?s' y)) = h"
    if "y \<in> set ((sq(i := dn @ rest)) h)" for y h
  proof -
    from that have "y \<in> set ((sq(i := dn @ x # rest)) h)" by (auto split: if_splits)
    moreover from that d(1) oth have "y \<noteq> x" by (auto split: if_splits)
    ultimately show ?thesis using D(7) [of y h] st [of y] by simp
  qed
  have rqm: "y < NPROC \<and> p_wchan (proc ?s' y) = 0" if "y \<in> set (x # rq)" for y
    using that D(6) [of y] D(7) [of x i] st [of y] by (cases "y = x") (simp_all add: wake_one_simps)
  show ?thesis unfolding queues_def
  proof (intro conjI allI ballI)
    show "plist (proc ?s') (slpque ?s' h) ((sq(i := dn @ rest)) h)" for h using p2 p3 by simp
    show "distinct (x # rq)" using d D(2) by simp
    show "distinct ((sq(i := dn @ rest)) h)" for h using d(1) D(4) [of h] by (cases "h = i") simp_all
    show "set (x # rq) \<inter> set ((sq(i := dn @ rest)) h) = {}" for h
      using d D(5) [of h] oth by (auto split: if_splits)
  qed (use p1 mem rqm in blast)+
qed

text \<open>
  The effect of waking the processes of a set: they become runnable, the others keep everything
  but their place on a queue, and nothing outside the scheduler's data changes.
\<close>

definition sched_frame :: "'z kst_scheme \<Rightarrow> 'z kst_scheme \<Rightarrow> bool" where
  "sched_frame s s' \<longleftrightarrow>
     s' = s\<lparr>proc := proc s', runq := runq s', slpque := slpque s', runrun := runrun s'\<rparr>"

definition woken :: "nat set \<Rightarrow> 'z kst_scheme \<Rightarrow> 'z kst_scheme \<Rightarrow> bool" where
  "woken W s s' \<longleftrightarrow> sched_frame s s'
     \<and> (\<forall>p. \<exists>l. proc s' p = (if p \<in> W then (proc s p)\<lparr>p_stat := SRUN, p_wchan := 0, p_link := l\<rparr>
                             else (proc s p)\<lparr>p_link := l\<rparr>))"

lemma sched_frame_trans:
  assumes "sched_frame s t" "sched_frame t s'"
  shows "sched_frame s s'"
proof -
  have 1: "t = s\<lparr>proc := proc t, runq := runq t, slpque := slpque t, runrun := runrun t\<rparr>"
    and 2: "s' = t\<lparr>proc := proc s', runq := runq s', slpque := slpque s', runrun := runrun s'\<rparr>"
    using assms by (simp_all add: sched_frame_def)
  have "t\<lparr>proc := a, runq := b, slpque := c, runrun := d\<rparr> = s\<lparr>proc := a, runq := b, slpque := c, runrun := d\<rparr>"
    for a b c d by (subst 1) simp
  with 2 show ?thesis unfolding sched_frame_def by metis
qed

lemma link_self: "\<exists>l. r = r\<lparr>p_link := l\<rparr>"
  by (rule exI [of _ "p_link r"]) simp

lemma woken_refl: "woken {} s s"
  unfolding woken_def sched_frame_def by (intro conjI allI) (simp, simp, rule link_self)

lemma woken_one: "woken {x} s (wake_one i q x s)"
proof -
  have "\<exists>l. proc (slp_unlink i q (p_link (proc s x)) s) p = (proc s p)\<lparr>p_link := l\<rparr>" for p
  proof (cases "q = Some p")
    case True
    then show ?thesis by (intro exI [of _ "p_link (proc s x)"]) (simp add: slp_unlink_def upd_proc_def)
  next
    case False
    then have "proc (slp_unlink i q (p_link (proc s x)) s) p = proc s p"
      by (auto simp: slp_unlink_def upd_proc_def split: option.splits)
    then show ?thesis using link_self by metis
  qed
  moreover have "sched_frame s (wake_one i q x s)"
    by (cases q) (simp_all add: sched_frame_def wake_one_def ready_def slp_unlink_def upd_proc_def)
  moreover have "proc (wake_one i q x s) x = (proc s x)\<lparr>p_stat := SRUN, p_wchan := 0, p_link := runq s\<rparr>"
    "p \<noteq> x \<Longrightarrow> proc (wake_one i q x s) p = proc (slp_unlink i q (p_link (proc s x)) s) p" for p
    by (simp_all add: wake_one_simps)
  ultimately show ?thesis unfolding woken_def by (metis singleton_iff)
qed

lemma woken_trans:
  assumes "woken V s t" "woken W t s'"
  shows "woken (V \<union> W) s s'"
proof -
  have "sched_frame s s'" using assms sched_frame_trans by (auto simp: woken_def)
  moreover have "\<exists>l. proc s' p = (if p \<in> V \<union> W then (proc s p)\<lparr>p_stat := SRUN, p_wchan := 0, p_link := l\<rparr>
      else (proc s p)\<lparr>p_link := l\<rparr>)" for p
  proof -
    obtain l l' where
      "proc t p = (if p \<in> V then (proc s p)\<lparr>p_stat := SRUN, p_wchan := 0, p_link := l\<rparr> else (proc s p)\<lparr>p_link := l\<rparr>)"
      "proc s' p = (if p \<in> W then (proc t p)\<lparr>p_stat := SRUN, p_wchan := 0, p_link := l'\<rparr> else (proc t p)\<lparr>p_link := l'\<rparr>)"
      using assms unfolding woken_def by blast
    then show ?thesis by (intro exI [of _ l']) simp
  qed
  ultimately show ?thesis unfolding woken_def by blast
qed

lemma woken_other:
  assumes "woken W s t" "p \<notin> W"
  shows "p_wchan (proc t p) = p_wchan (proc s p)" "p_flag (proc t p) = p_flag (proc s p)"
    "p_pri (proc t p) = p_pri (proc s p)" "p_stat (proc t p) = p_stat (proc s p)"
proof -
  from assms obtain l where "proc t p = (proc s p)\<lparr>p_link := l\<rparr>" unfolding woken_def by metis
  then show "p_wchan (proc t p) = p_wchan (proc s p)" "p_flag (proc t p) = p_flag (proc s p)"
    "p_pri (proc t p) = p_pri (proc s p)" "p_stat (proc t p) = p_stat (proc s p)" by simp_all
qed

lemma woken_in:
  assumes "woken W s t" "p \<in> W"
  shows "\<exists>l. proc t p = (proc s p)\<lparr>p_stat := SRUN, p_wchan := 0, p_link := l\<rparr>"
  using assms(1) unfolding woken_def by (metis assms(2))

lemma u8_Suc: "u8 (u8 x + y) = u8 (x + y)"
  by (simp add: u8_def mod_add_left_eq)

lemma plist_next: "plist pr p (dn @ x # rest) \<Longrightarrow> p_link (pr x) = head rest"
  by (induction dn arbitrary: p) (auto dest: plist_head)

abbreviation waits :: "'z kst_scheme \<Rightarrow> int \<Rightarrow> nat \<Rightarrow> bool" where
  "waits s chan p \<equiv> p_wchan (proc s p) = chan"

abbreviation preempts :: "'z kst_scheme \<Rightarrow> nat \<Rightarrow> bool" where
  "preempts s p \<equiv> p_pri (proc s p) < curpri s"

lemma wakeup_loop_step:
  assumes q: "queues s rq (sq(i := dn @ x # rest))" and "length rq < qfuel" "waits s chan x"
    and "runout s = 0 \<or> SLOAD \<in> p_flag (proc s x)"
  shows "wakeup_loop (Suc (Suc k)) chan i (Some x) (final dn) s =
    wakeup_loop (Suc k) chan i (head rest) (final dn) (wake_one i (final dn) x s)"
proof -
  let ?t = "upd_proc x (\<lambda>r. r\<lparr>p_wchan := 0\<rparr>) (slp_unlink i (final dn) (p_link (proc s x)) s)"
  note D = queuesD [OF q]
  have x: "p_stat (proc s x) = SSLEEP" "x \<notin> set rq" using D(7) [of x i] D(5) [of i] by auto
  have "last dn \<noteq> y" if "y \<in> set rq" "dn \<noteq> []" for y using D(5) [of i] that by auto
  then have "plist (proc ?t) (runq s) rq = plist (proc s) (runq s) rq"
    using x(2) by (intro plist_cong) (fastforce simp: upd_proc_def final_def)
  then have "setrun_n (Suc k) x ?t = Ok () (ready x ?t)"
    using D(1) x assms(2,4) by (intro setrun_n_ready [of _ _ rq]) (auto simp: upd_proc_def)
  moreover have "p_link (proc s x) = head rest" using plist_next D(3) [of i] by fastforce
  ultimately show ?thesis using assms(3) x(1) by (simp add: wake_one_def Let_def)
qed

lemma wakeup_loop_correct:
  assumes "queues s rq (sq(i := dn @ rest))"
    "runout s = 0 \<or> (\<forall>p\<in>set rest. waits s chan p \<longrightarrow> SLOAD \<in> p_flag (proc s p))"
    "length rest + 1 < n" "length rq + length rest < qfuel"
  shows "\<exists>s'. wakeup_loop n chan i (head rest) (final dn) s = Ok () s'
    \<and> queues s' (rev (filter (waits s chan) rest) @ rq) (sq(i := dn @ filter (\<lambda>p. \<not> waits s chan p) rest))
    \<and> woken (set (filter (waits s chan) rest)) s s'
    \<and> u8 (runrun s') = u8 (runrun s + int (length (filter (\<lambda>p. waits s chan p \<and> preempts s p) rest)))"
  using assms
proof (induction rest arbitrary: s rq dn n)
  case Nil
  then show ?case by (cases n) (auto simp: woken_refl)
next
  case (Cons x rest)
  then obtain k where n: "n = Suc (Suc k)" by (cases n; cases "n - 1") auto
  note D = queuesD [OF Cons.prems(1)]
  have d: "x \<notin> set rest" using D(4) [of i] by simp
  show ?case
  proof (cases "waits s chan x")
    case True
    let ?t = "wake_one i (final dn) x s"
    have w: "woken {x} s ?t" by (rule woken_one)
    have same: "p_wchan (proc ?t p) = p_wchan (proc s p)" "p_pri (proc ?t p) = p_pri (proc s p)"
      "p_flag (proc ?t p) = p_flag (proc s p)" if "p \<in> set rest" for p
      using woken_other [OF w, of p] that d by auto
    have f: "filter (waits ?t chan) rest = filter (waits s chan) rest"
      "filter (\<lambda>p. \<not> waits ?t chan p) rest = filter (\<lambda>p. \<not> waits s chan p) rest"
      "filter (\<lambda>p. waits ?t chan p \<and> preempts ?t p) rest = filter (\<lambda>p. waits s chan p \<and> preempts s p) rest"
      using same by (auto intro!: filter_cong simp: wake_one_simps(7))
    have "runout ?t = 0 \<or> (\<forall>p\<in>set rest. waits ?t chan p \<longrightarrow> SLOAD \<in> p_flag (proc ?t p))"
      using Cons.prems(2) same by (auto simp: wake_one_simps(4))
    moreover have "length rest + 1 < Suc k" "length (x # rq) + length rest < qfuel"
      using Cons.prems(3,4) n by simp_all
    ultimately obtain s' where s': "wakeup_loop (Suc k) chan i (head rest) (final dn) ?t = Ok () s'"
      "queues s' (rev (filter (waits s chan) rest) @ x # rq) (sq(i := dn @ filter (\<lambda>p. \<not> waits s chan p) rest))"
      "woken (set (filter (waits s chan) rest)) ?t s'"
      "u8 (runrun s') = u8 (runrun ?t + int (length (filter (\<lambda>p. waits s chan p \<and> preempts s p) rest)))"
      using Cons.IH [OF queues_wake_one [OF Cons.prems(1)], of "Suc k"] unfolding f by blast
    have "{x} \<union> set (filter (waits s chan) rest) = set (filter (waits s chan) (x # rest))" using True by simp
    with woken_trans [OF w s'(3)] have w': "woken (set (filter (waits s chan) (x # rest))) s s'" by simp
    have rr: "u8 (runrun s') = u8 (runrun s + int (length (filter (\<lambda>p. waits s chan p \<and> preempts s p) (x # rest))))"
      using s'(4) True by (simp add: wake_one_simps u8_Suc add_ac)
    have ld: "runout s = 0 \<or> SLOAD \<in> p_flag (proc s x)" using Cons.prems(2) True by auto
    have "wakeup_loop n chan i (head (x # rest)) (final dn) s = Ok () s'"
      using wakeup_loop_step [OF Cons.prems(1) _ True ld, of k] Cons.prems(4) s'(1) n by simp
    with s'(2) w' rr True show ?thesis by (intro exI [of _ s']) (simp add: fun_upd_def)
  next
    case False
    have "wakeup_loop n chan i (head (x # rest)) (final dn) s = wakeup_loop (Suc k) chan i (head rest) (final (dn @ [x])) s"
      using False n plist_next [of "proc s" "slpque s i" dn x rest] D(3) [of i] by simp
    moreover have "queues s rq (sq(i := (dn @ [x]) @ rest))" using Cons.prems(1) by (simp add: fun_upd_def)
    moreover have "runout s = 0 \<or> (\<forall>p\<in>set rest. waits s chan p \<longrightarrow> SLOAD \<in> p_flag (proc s p))"
      "length rest + 1 < Suc k" "length rq + length rest < qfuel" using Cons.prems(2-4) n by auto
    moreover note Cons.IH [of s rq "dn @ [x]" "Suc k"]
    ultimately show ?thesis using False by (simp add: fun_upd_def)
  qed
qed

lemma setrun_n_waiting:
  "p_stat (proc s p) = SSLEEP \<Longrightarrow> p_wchan (proc s p) \<noteq> 0 \<Longrightarrow>
   setrun_n (Suc n) p s = wakeup_loop n (p_wchan (proc s p)) (HASH (p_wchan (proc s p)))
     (slpque s (HASH (p_wchan (proc s p)))) None s"
  by (simp add: Let_def)

lemma queues_bound:
  assumes "queues s rq sq"
  shows "length rq + length (sq h) \<le> NPROC" "length rq \<le> NPROC" "length (sq h) \<le> NPROC"
proof -
  have "distinct (rq @ sq h)" "\<forall>p\<in>set (rq @ sq h). p < NPROC"
    using queuesD [OF assms] by (auto simp: disjoint_iff)
  then show "length rq + length (sq h) \<le> NPROC" using queue_length by fastforce
  then show "length rq \<le> NPROC" "length (sq h) \<le> NPROC" by auto
qed

text \<open>
  When the swapper waits for a process to swap in (\<open>runout\<close>) and a woken process is swapped out, \<open>setrun\<close>
  wakes the sleepers \<open>R\<close> on \<open>&runout\<close> in a nested call. The processes in the order in which they become runnable:
\<close>

definition swapped_out :: "'z kst_scheme \<Rightarrow> nat \<Rightarrow> bool" where
  "swapped_out s p \<longleftrightarrow> SLOAD \<notin> p_flag (proc s p)"

fun wake_order :: "'z kst_scheme \<Rightarrow> int \<Rightarrow> nat list \<Rightarrow> nat list \<Rightarrow> nat list" where
  "wake_order s chan R [] = []"
| "wake_order s chan R (x # xs) =
     (if \<not> waits s chan x then wake_order s chan R xs
      else if runout s \<noteq> 0 \<and> swapped_out s x then x # R @ filter (waits s chan) xs
      else x # wake_order s chan R xs)"

abbreviation nests :: "'z kst_scheme \<Rightarrow> int \<Rightarrow> nat list \<Rightarrow> bool" where
  "nests s chan L \<equiv> runout s \<noteq> 0 \<and> (\<exists>p\<in>set L. waits s chan p \<and> swapped_out s p)"

abbreviation (input) swapchan :: "'z kst_scheme \<Rightarrow> int" where
  "swapchan s \<equiv> addr_of s Ch_runout"

lemma wake_order_flat: "\<not> nests s chan L \<Longrightarrow> wake_order s chan R L = filter (waits s chan) L"
  by (induction L) auto

lemma wake_order_set: "nests s chan L \<Longrightarrow> set (wake_order s chan R L) = set R \<union> set (filter (waits s chan) L)"
  by (induction L) (auto simp: wake_order_flat)

lemma wake_order_cong:
  "runout t = runout s \<Longrightarrow> (\<And>p. p \<in> set L \<Longrightarrow> p_wchan (proc t p) = p_wchan (proc s p) \<and> p_flag (proc t p) = p_flag (proc s p)) \<Longrightarrow>
   wake_order t chan R L = wake_order s chan R L"
  by (induction L) (auto simp: swapped_out_def intro!: filter_cong)

lemma setrun_n_nested:
  assumes "p_stat (proc s p) \<noteq> 0" "p_stat (proc s p) \<noteq> SZOMB" "p_wchan (proc s p) = 0"
    "plist (proc s) (runq s) rq" "p \<notin> set rq" "length rq < qfuel"
    "runout s \<noteq> 0" "swapped_out s p"
  shows "setrun_n (Suc n) p s =
    wakeup_loop n (swapchan s) (HASH (swapchan s)) (slpque s (HASH (swapchan s))) None ((ready p s)\<lparr>runout := 0\<rparr>)"
proof -
  have "on_queue qfuel (proc (upd_proc p (\<lambda>r. r\<lparr>p_stat := SRUN\<rparr>) s)) (runq s) p = Some False"
    using assms(4,5,6) by (intro on_queue_notin [of _ _ rq]) (simp_all add: upd_proc_def)
  then show ?thesis
    using assms(1,2,3,7,8) by (simp add: setrq_def upd_proc_def ready_def Let_def swapped_out_def)
qed

lemma queues_runout: "queues (s\<lparr>runout := n\<rparr>) rq sq = queues s rq sq"
  by (simp add: queues_def)

lemma woken_runout: "woken W s t \<Longrightarrow> woken W (s\<lparr>runout := n\<rparr>) (t\<lparr>runout := n\<rparr>)"
  unfolding woken_def
proof (elim conjE, intro conjI)
  assume "sched_frame s t"
  then have "t = s\<lparr>proc := proc t, runq := runq t, slpque := slpque t, runrun := runrun t\<rparr>" by (simp only: sched_frame_def)
  from arg_cong [OF this, of "\<lambda>s. s\<lparr>runout := n\<rparr>"]
  show "sched_frame (s\<lparr>runout := n\<rparr>) (t\<lparr>runout := n\<rparr>)" by (simp add: sched_frame_def)
next
  have p: "proc (t\<lparr>runout := n\<rparr>) = proc t" "proc (s\<lparr>runout := n\<rparr>) = proc s" by simp_all
  assume "\<forall>p. \<exists>l. proc t p = (if p \<in> W then (proc s p)\<lparr>p_stat := SRUN, p_wchan := 0, p_link := l\<rparr> else (proc s p)\<lparr>p_link := l\<rparr>)"
  then show "\<forall>p. \<exists>l. proc (t\<lparr>runout := n\<rparr>) p = (if p \<in> W
      then (proc (s\<lparr>runout := n\<rparr>) p)\<lparr>p_stat := SRUN, p_wchan := 0, p_link := l\<rparr> else (proc (s\<lparr>runout := n\<rparr>) p)\<lparr>p_link := l\<rparr>)"
    unfolding p .
qed

text \<open>The step for a sleeper that is swapped out.\<close>

lemma wakeup_loop_nested_step:
  assumes q: "queues s rq (sq(i := dn @ x # rest))" and "length rq < qfuel" "waits s chan x"
    and "runout s \<noteq> 0" "swapped_out s x"
  shows "wakeup_loop (Suc (Suc k)) chan i (Some x) (final dn) s =
    bnd (wakeup_loop k (swapchan s) (HASH (swapchan s)) (slpque (wake_one i (final dn) x s) (HASH (swapchan s))) None
          ((wake_one i (final dn) x s)\<lparr>runout := 0\<rparr>))
      (\<lambda>_. wakeup_loop (Suc k) chan i (head rest) (final dn))"
proof -
  let ?t = "upd_proc x (\<lambda>r. r\<lparr>p_wchan := 0\<rparr>) (slp_unlink i (final dn) (p_link (proc s x)) s)"
  note D = queuesD [OF q]
  have x: "p_stat (proc s x) = SSLEEP" "x \<notin> set rq" using D(7) [of x i] D(5) [of i] by auto
  have "last dn \<noteq> y" if "y \<in> set rq" "dn \<noteq> []" for y using D(5) [of i] that by auto
  then have "plist (proc ?t) (runq s) rq = plist (proc s) (runq s) rq"
    using x(2) by (intro plist_cong) (fastforce simp: upd_proc_def final_def)
  then have "setrun_n (Suc k) x ?t = wakeup_loop k (swapchan ?t) (HASH (swapchan ?t)) (slpque ?t (HASH (swapchan ?t))) None
      ((ready x ?t)\<lparr>runout := 0\<rparr>)"
    using D(1) x assms(2,4,5) by (intro setrun_n_nested [of _ _ rq]) (auto simp: upd_proc_def swapped_out_def)
  moreover have "p_link (proc s x) = head rest" using plist_next D(3) [of i] by fastforce
  moreover have "slpque (wake_one i (final dn) x s) = slpque ?t" "addr_of ?t = addr_of s"
    by (simp_all add: wake_one_simps upd_proc_def)
  ultimately show ?thesis using assms(3) x(1) by (simp add: wake_one_def Let_def)
qed

lemma wakeup_loop_nested:
  assumes "queues s rq (sq(i := dn @ rest))" "nests s chan rest" "HASH chan = i" "HASH (swapchan s) \<noteq> i"
    "length rest + length (sq (HASH (swapchan s))) + 3 < n"
    "length rq + length rest + length (sq (HASH (swapchan s))) < qfuel"
  defines "hr \<equiv> HASH (swapchan s)"
  defines "W \<equiv> wake_order s chan (filter (waits s (swapchan s)) (sq hr)) rest"
  shows "\<exists>s'. wakeup_loop n chan i (head rest) (final dn) s = Ok () s'
    \<and> queues s' (rev W @ rq) (sq(hr := filter (\<lambda>p. \<not> waits s (swapchan s) p) (sq hr), i := dn @ filter (\<lambda>p. \<not> waits s chan p) rest))
    \<and> woken (set W) (s\<lparr>runout := 0\<rparr>) s'
    \<and> u8 (runrun s') = u8 (runrun s + int (length (filter (preempts s) W)))"
  using assms(1-6) unfolding W_def hr_def
proof (induction rest arbitrary: s rq dn n)
  case (Cons x rest)
  let ?c = "swapchan s" let ?h = "HASH ?c"
  let ?R = "filter (waits s ?c) (sq ?h)" let ?t = "wake_one i (final dn) x s"
  obtain k where n: "n = Suc (Suc k)" using Cons.prems(5) by (cases n; cases "n - 1") auto
  note D = queuesD [OF Cons.prems(1)]
  have d: "x \<notin> set rest" using D(4) [of i] by simp
  have at: "addr_of ?t = addr_of s" "runout ?t = runout s" "curpri ?t = curpri s" by (simp_all add: wake_one_simps)
  have w: "woken {x} s ?t" by (rule woken_one)
  have same: "p_wchan (proc ?t p) = p_wchan (proc s p) \<and> p_pri (proc ?t p) = p_pri (proc s p)
      \<and> p_flag (proc ?t p) = p_flag (proc s p)" if "p \<noteq> x" for p
    using woken_other [OF w, of p] that by auto
  have xh: "x \<notin> set (sq ?h)" using D(7) [of x ?h] D(7) [of x i] Cons.prems(4) by auto
  have sameh: "p_wchan (proc ?t p) = p_wchan (proc s p) \<and> p_pri (proc ?t p) = p_pri (proc s p)" if "p \<in> set (sq ?h)" for p
    using same [of p] xh that by metis
  have samer: "p_wchan (proc ?t p) = p_wchan (proc s p) \<and> p_flag (proc ?t p) = p_flag (proc s p)" if "p \<in> set rest" for p
    using same [of p] d that by metis
  have eR: "filter (waits ?t ?c) (sq ?h) = ?R" "filter (\<lambda>p. \<not> waits ?t ?c p) (sq ?h) = filter (\<lambda>p. \<not> waits s ?c p) (sq ?h)"
    by (rule filter_cong [OF refl], simp add: sameh)+
  have ex: "HASH chan = i \<Longrightarrow> p \<in> set ?R \<Longrightarrow> p \<notin> set rest" for p
    using D(7) [of p ?h] D(7) [of p i] Cons.prems(4) by auto
  consider (skip) "\<not> waits s chan x" | (nest) "waits s chan x" "swapped_out s x" | (flat) "waits s chan x" "\<not> swapped_out s x" by blast
  then show ?case
  proof cases
    case skip
    have st: "wakeup_loop n chan i (head (x # rest)) (final dn) s = wakeup_loop (Suc k) chan i (head rest) (final (dn @ [x])) s"
      using skip n plist_next [of "proc s" "slpque s i" dn x rest] D(3) [of i] by simp
    have q': "queues s rq (sq(i := (dn @ [x]) @ rest))" using Cons.prems(1) by (simp add: fun_upd_def)
    have ne: "nests s chan rest" using Cons.prems(2) skip by auto
    have len: "length rest + length (sq ?h) + 3 < Suc k" "length rq + length rest + length (sq ?h) < qfuel"
      using Cons.prems(5,6) n by simp_all
    have W: "wake_order s chan R (x # rest) = wake_order s chan R rest" for R using skip by simp
    have f: "dn @ filter (\<lambda>p. \<not> waits s chan p) (x # rest) = (dn @ [x]) @ filter (\<lambda>p. \<not> waits s chan p) rest" using skip by simp
    show ?thesis unfolding st W f by (rule Cons.IH [OF q' ne Cons.prems(3,4) len])
  next
    case flat
    have st: "wakeup_loop n chan i (head (x # rest)) (final dn) s = wakeup_loop (Suc k) chan i (head rest) (final dn) ?t"
      using wakeup_loop_step [OF Cons.prems(1) _ flat(1)] Cons.prems(6) flat(2) n by (auto simp: swapped_out_def)
    obtain p where p: "p \<in> set rest" "waits s chan p" "swapped_out s p" using Cons.prems(2) flat(2) by auto
    then have "waits ?t chan p" "swapped_out ?t p" using same [of p] d unfolding swapped_out_def by metis+
    then have ne: "nests ?t chan rest" using p(1) Cons.prems(2) at(2) by auto
    have eW1: "wake_order ?t chan ?R rest = wake_order s chan ?R rest"
      by (rule wake_order_cong [OF at(2)]) (rule samer)
    have eW2: "filter (\<lambda>p. \<not> waits ?t chan p) rest = filter (\<lambda>p. \<not> waits s chan p) rest"
      by (rule filter_cong [OF refl]) (simp add: samer)
    note eW = eW1 eW2
    have p4: "HASH (swapchan ?t) \<noteq> i" "length rest + length (sq (HASH (swapchan ?t))) + 3 < Suc k"
      "length (x # rq) + length rest + length (sq (HASH (swapchan ?t))) < qfuel"
      using Cons.prems(4-6) n by (simp_all add: at)
    let ?W = "wake_order s chan ?R rest"
    obtain s' where s': "wakeup_loop (Suc k) chan i (head rest) (final dn) ?t = Ok () s'"
      "queues s' (rev ?W @ x # rq) (sq(?h := filter (\<lambda>p. \<not> waits s ?c p) (sq ?h), i := dn @ filter (\<lambda>p. \<not> waits s chan p) rest))"
      "woken (set ?W) (?t\<lparr>runout := 0\<rparr>) s'"
      "u8 (runrun s') = u8 (runrun ?t + int (length (filter (\<lambda>p. p_pri (proc ?t p) < curpri s) ?W)))"
      using Cons.IH [OF queues_wake_one [OF Cons.prems(1)] ne Cons.prems(3) p4, unfolded at eR eW] by blast
    have "x \<notin> set ?W"
      using wake_order_set [of s rest chan ?R] wake_order_flat [of s rest chan ?R] d xh by (cases "nests s chan rest") auto
    then have "filter (\<lambda>p. p_pri (proc ?t p) < curpri s) ?W = filter (preempts s) ?W"
      using same by (intro filter_cong [OF refl]) metis
    then have "u8 (runrun s') = u8 (runrun s + int (length (filter (preempts s) (x # ?W))))"
      using s'(4) by (simp add: wake_one_simps u8_Suc add_ac)
    moreover have "woken ({x} \<union> set ?W) (s\<lparr>runout := 0\<rparr>) s'"
      using woken_trans [OF woken_runout [OF w, of 0] s'(3)] .
    moreover have W: "wake_order s chan ?R (x # rest) = x # ?W" using flat by simp
    moreover have "filter (\<lambda>p. \<not> waits s chan p) (x # rest) = filter (\<lambda>p. \<not> waits s chan p) rest" using flat(1) by simp
    moreover have "rev (x # ?W) @ rq = rev ?W @ x # rq" "set (x # ?W) = {x} \<union> set ?W" by simp_all
    moreover have "wakeup_loop n chan i (head (x # rest)) (final dn) s = Ok () s'" unfolding st by (rule s'(1))
    ultimately show ?thesis using s'(2) by (intro exI [of _ s']) (simp only: simp_thms)
  next
    case nest
    let ?T = "?t\<lparr>runout := 0\<rparr>"
    have ro: "runout s \<noteq> 0" using Cons.prems(2) by blast
    have qT: "queues ?T (x # rq) (sq(i := dn @ rest))" using queues_wake_one [OF Cons.prems(1)] by (simp only: queues_runout)
    have "(sq(i := dn @ rest))(?h := [] @ sq ?h) = sq(i := dn @ rest)" using Cons.prems(4) by auto
    with qT have qT': "queues ?T (x # rq) ((sq(i := dn @ rest))(?h := [] @ sq ?h))" by metis
    have T: "runout ?T = 0 \<or> (\<forall>p\<in>set (sq ?h). waits ?T ?c p \<longrightarrow> SLOAD \<in> p_flag (proc ?T p))" by simp
    have len: "length (sq ?h) + 1 < k" "length (x # rq) + length (sq ?h) < qfuel" using Cons.prems(5,6) n by simp_all
    have hd: "slpque ?t ?h = head (sq ?h)" using queuesD(3) [OF qT, of ?h] Cons.prems(4) plist_head by fastforce
    have fT: "filter (waits ?T ?c) (sq ?h) = ?R" "filter (\<lambda>p. \<not> waits ?T ?c p) (sq ?h) = filter (\<lambda>p. \<not> waits s ?c p) (sq ?h)"
      using eR by simp_all
    obtain s2 where s2: "wakeup_loop k ?c ?h (head (sq ?h)) None ?T = Ok () s2"
      "queues s2 (rev ?R @ x # rq) (sq(i := dn @ rest, ?h := filter (\<lambda>p. \<not> waits s ?c p) (sq ?h)))"
      "woken (set ?R) ?T s2"
      "u8 (runrun s2) = u8 (runrun ?T + int (length (filter (\<lambda>p. waits ?T ?c p \<and> preempts ?T p) (sq ?h))))"
      using wakeup_loop_correct [OF qT' T len] unfolding fT final_simps by auto
    have w2: "woken ({x} \<union> set ?R) (s\<lparr>runout := 0\<rparr>) s2" by (rule woken_trans [OF woken_runout [OF w] s2(3)])
    have same2: "p_wchan (proc s2 p) = p_wchan (proc s p) \<and> p_pri (proc s2 p) = p_pri (proc s p)"
      if "p \<in> set rest" for p using woken_other [OF w2, of p] that d ex [OF Cons.prems(3)] by auto
    have "s2 = (s\<lparr>runout := 0\<rparr>)\<lparr>proc := proc s2, runq := runq s2, slpque := slpque s2, runrun := runrun s2\<rparr>"
      using w2 by (simp add: woken_def sched_frame_def)
    from arg_cong [OF this, of runout] arg_cong [OF this, of curpri] have ro2: "runout s2 = 0" "curpri s2 = curpri s" by simp_all
    have f2: "filter (waits s2 chan) rest = filter (waits s chan) rest"
      "filter (\<lambda>p. \<not> waits s2 chan p) rest = filter (\<lambda>p. \<not> waits s chan p) rest"
      "filter (\<lambda>p. waits s2 chan p \<and> preempts s2 p) rest = filter (\<lambda>p. waits s chan p \<and> preempts s p) rest"
      using same2 ro2(2) by (auto intro!: filter_cong)
    have e2: "sq(i := dn @ rest, ?h := X) = (sq(?h := X))(i := dn @ rest)" for X by (rule fun_upd_twist) (use Cons.prems(4) in simp)
    note q2 = s2(2) [unfolded e2]
    have T2: "runout s2 = 0 \<or> (\<forall>p\<in>set rest. waits s2 chan p \<longrightarrow> SLOAD \<in> p_flag (proc s2 p))" using ro2(1) by simp
    have "length ?R \<le> length (sq ?h)" by (rule length_filter_le)
    moreover have "length (rev ?R @ x # rq) = length ?R + length rq + 1" "length (x # rest) = length rest + 1" by simp_all
    ultimately have len2: "length rest + 1 < Suc k" "length (rev ?R @ x # rq) + length rest < qfuel"
      using Cons.prems(5,6) n by linarith+
    obtain s' where s': "wakeup_loop (Suc k) chan i (head rest) (final dn) s2 = Ok () s'"
      "queues s' (rev (filter (waits s chan) rest) @ rev ?R @ x # rq)
         (sq(?h := filter (\<lambda>p. \<not> waits s ?c p) (sq ?h), i := dn @ filter (\<lambda>p. \<not> waits s chan p) rest))"
      "woken (set (filter (waits s chan) rest)) s2 s'"
      "u8 (runrun s') = u8 (runrun s2 + int (length (filter (\<lambda>p. waits s chan p \<and> preempts s p) rest)))"
      using wakeup_loop_correct [OF q2 T2 len2] unfolding f2 by blast
    have W: "wake_order s chan ?R (x # rest) = x # ?R @ filter (waits s chan) rest" using nest ro by simp
    have "wakeup_loop n chan i (head (x # rest)) (final dn) s = Ok () s'"
      using wakeup_loop_nested_step [OF Cons.prems(1) _ nest(1) ro nest(2), of k] Cons.prems(6) s2(1) s'(1) n
      unfolding hd by simp
    moreover have "woken (set (x # ?R @ filter (waits s chan) rest)) (s\<lparr>runout := 0\<rparr>) s'"
      using woken_trans [OF w2 s'(3)] by (simp add: Un_assoc)
    moreover have "filter (\<lambda>p. waits ?T ?c p \<and> preempts ?T p) (sq ?h) = filter (preempts s) ?R"
      unfolding filter_filter by (rule filter_cong [OF refl]) (simp add: sameh at(3))
    then have r2: "u8 (runrun s2) = u8 (runrun ?t + int (length (filter (preempts s) ?R)))" using s2(4) by simp
    have "u8 (u8 (runrun s2) + int (length (filter (\<lambda>p. waits s chan p \<and> preempts s p) rest)))
        = u8 (runrun ?t + int (length (filter (preempts s) ?R)) + int (length (filter (\<lambda>p. waits s chan p \<and> preempts s p) rest)))"
      unfolding r2 u8_Suc ..
    then have "u8 (runrun s') = u8 (runrun s + int (length (filter (preempts s) (x # ?R @ filter (waits s chan) rest))))"
      using s'(4) by (simp add: wake_one_simps u8_Suc add_ac)
    moreover have "filter (\<lambda>p. \<not> waits s chan p) (x # rest) = filter (\<lambda>p. \<not> waits s chan p) rest" using nest(1) by simp
    moreover have "rev (x # ?R @ filter (waits s chan) rest) @ rq = rev (filter (waits s chan) rest) @ rev ?R @ x # rq" by simp
    ultimately show ?thesis using s'(2) unfolding W by (intro exI [of _ s']) (simp only: simp_thms)
  qed
qed simp

lemma queue_apart: "queues s rq sq \<Longrightarrow> p \<in> set (sq h) \<Longrightarrow> p \<in> set (sq h') \<Longrightarrow> h = h'"
  using queuesD(7) by metis

text \<open>
  A wakeup is in order unless the nested wakeup would walk along the very queue that is being walked: then the
  swapper waits, a sleeper on the channel is swapped out, and the channel has the hash value of \<open>&runout\<close>.
\<close>

definition untangled :: "'z kst_scheme \<Rightarrow> int \<Rightarrow> nat list \<Rightarrow> bool" where
  "untangled s chan L \<longleftrightarrow> \<not> (nests s chan L \<and> HASH (swapchan s) = HASH chan)"

lemma wakeup_correct:
  assumes q: "queues s rq sq" and ok: "untangled s chan (sq (HASH chan))"
  defines "W \<equiv> wake_order s chan (filter (waits s (swapchan s)) (sq (HASH (swapchan s)))) (sq (HASH chan))"
  shows "\<exists>s'. wakeup chan s = Ok () s'
    \<and> queues s' (rev W @ rq) (\<lambda>h. filter (\<lambda>p. p \<notin> set W) (sq h))
    \<and> woken (set W) (s\<lparr>runout := runout s'\<rparr>) s'
    \<and> runout s' = (if nests s chan (sq (HASH chan)) then 0 else runout s)
    \<and> u8 (runrun s') = u8 (runrun s + int (length (filter (preempts s) W)))"
proof -
  let ?i = "HASH chan" let ?L = "sq ?i" let ?hr = "HASH (swapchan s)" let ?R = "filter (waits s (swapchan s)) (sq ?hr)"
  have hd: "slpque s ?i = head ?L" using queuesD(3) [OF q, of ?i] plist_head by metis
  have "sq = sq(?i := [] @ ?L)" by simp
  with q have q': "queues s rq (sq(?i := [] @ ?L))" by metis
  note B = queues_bound(1) [OF q, of ?i] queues_bound(3) [OF q, of ?hr]
  have frame: "runout s' = n" if "woken X (s\<lparr>runout := n\<rparr>) s'" for X n s'
  proof -
    have "s' = s\<lparr>runout := n\<rparr>\<lparr>proc := proc s', runq := runq s', slpque := slpque s', runrun := runrun s'\<rparr>"
      using that by (simp add: woken_def sched_frame_def)
    from arg_cong [OF this, of runout] show ?thesis by simp
  qed
  show ?thesis
  proof (cases "nests s chan ?L")
    case True
    with ok have ne: "?hr \<noteq> ?i" by (auto simp: untangled_def)
    have eW: "set W = set ?R \<union> set (filter (waits s chan) ?L)" unfolding W_def by (rule wake_order_set [OF True])
    have "length ?L + length (sq ?hr) + 3 < qfuel" "length rq + length ?L + length (sq ?hr) < qfuel" using B by linarith+
    from wakeup_loop_nested [OF q' True refl ne this] obtain s' where
      s': "wakeup_loop qfuel chan ?i (head ?L) (final []) s = Ok () s'"
      "queues s' (rev W @ rq) (sq(?hr := filter (\<lambda>p. \<not> waits s (swapchan s) p) (sq ?hr), ?i := [] @ filter (\<lambda>p. \<not> waits s chan p) ?L))"
      "woken (set W) (s\<lparr>runout := 0\<rparr>) s'" "u8 (runrun s') = u8 (runrun s + int (length (filter (preempts s) W)))"
      using ne unfolding W_def by auto
    have "(sq(?hr := filter (\<lambda>p. \<not> waits s (swapchan s) p) (sq ?hr), ?i := [] @ filter (\<lambda>p. \<not> waits s chan p) ?L))
        = (\<lambda>h. filter (\<lambda>p. p \<notin> set W) (sq h))"
    proof
      fix h show "(sq(?hr := filter (\<lambda>p. \<not> waits s (swapchan s) p) (sq ?hr), ?i := [] @ filter (\<lambda>p. \<not> waits s chan p) ?L)) h
        = filter (\<lambda>p. p \<notin> set W) (sq h)"
        using queue_apart [OF q, of _ h] ne unfolding eW by (auto simp: fun_upd_def intro!: filter_cong filter_True [symmetric])
    qed
    with s' True frame [OF s'(3)] show ?thesis unfolding wakeup_def hd by (intro exI [of _ s']) (simp del: wakeup_loop.simps)
  next
    case False
    have eW: "W = filter (waits s chan) ?L" unfolding W_def by (rule wake_order_flat [OF False])
    have "runout s = 0 \<or> (\<forall>p\<in>set ?L. waits s chan p \<longrightarrow> SLOAD \<in> p_flag (proc s p))"
      using False by (auto simp: swapped_out_def)
    moreover have "length ?L + 1 < qfuel" "length rq + length ?L < qfuel" using B by linarith+
    ultimately obtain s' where s': "wakeup_loop qfuel chan ?i (head ?L) (final []) s = Ok () s'"
      "queues s' (rev W @ rq) (sq(?i := [] @ filter (\<lambda>p. \<not> waits s chan p) ?L))" "woken (set W) s s'"
      "u8 (runrun s') = u8 (runrun s + int (length (filter (\<lambda>p. waits s chan p \<and> preempts s p) ?L)))"
      using wakeup_loop_correct [OF q'] unfolding eW by blast
    have "(sq(?i := [] @ filter (\<lambda>p. \<not> waits s chan p) ?L)) = (\<lambda>h. filter (\<lambda>p. p \<notin> set W) (sq h))"
    proof
      fix h show "(sq(?i := [] @ filter (\<lambda>p. \<not> waits s chan p) ?L)) h = filter (\<lambda>p. p \<notin> set W) (sq h)"
        using queue_apart [OF q, of _ h] unfolding eW by (auto simp: fun_upd_def intro!: filter_cong filter_True [symmetric])
    qed
    moreover have "filter (\<lambda>p. waits s chan p \<and> preempts s p) ?L = filter (preempts s) W" by (simp add: eW conj_commute)
    moreover have "runout s' = runout s" using frame [of "set W" "runout s" s'] s'(3) by simp
    ultimately show ?thesis using s' False unfolding wakeup_def hd by (intro exI [of _ s']) (simp del: wakeup_loop.simps)
  qed
qed

section \<open>Pending signals\<close>

definition pending :: "proc \<Rightarrow> int set" where
  "pending r = {i. 1 \<le> i \<and> i \<le> 16 \<and> bit (p_sig r) (nat (i - 1))}"

lemma fsig_loop_spec:
  "fsig_loop k i n = (if \<exists>j<k. bit n j then i + int (LEAST j. bit n j) else 0)"
proof (induction k arbitrary: i n)
  case (Suc k)
  have low: "n AND 1 \<noteq> 0 \<longleftrightarrow> bit n 0" by (simp add: bit_0 and_one_eq odd_iff_mod_2_eq_one)
  show ?case
  proof (cases "bit n 0")
    case True
    then have "(LEAST j. bit n j) = 0" by (simp add: Least_equality)
    with True low show ?thesis by auto
  next
    case False
    have sh: "bit (drop_bit 1 n) j = bit n (Suc j)" for j by (simp add: bit_drop_bit_eq)
    have ex: "(\<exists>j<Suc k. bit n j) \<longleftrightarrow> (\<exists>j<k. bit n (Suc j))"
      using False by (metis Suc_less_eq gr0_conv_Suc less_Suc_eq_0_disj not_gr_zero)
    have rec: "fsig_loop (Suc k) i n = fsig_loop k (i + 1) (drop_bit 1 n)" using False low by simp
    show ?thesis
    proof (cases "\<exists>j<k. bit n (Suc j)")
      case True
      then obtain j where "bit n (Suc j)" by blast
      from Least_Suc [of "bit n", OF this False] have "int (Least (bit n)) = 1 + int (LEAST j. bit n (Suc j))"
        by simp
      then show ?thesis unfolding rec Suc.IH sh ex using True by simp
    next
      case False
      then show ?thesis unfolding rec Suc.IH sh ex by auto
    qed
  qed
qed simp

lemma Least_pending:
  assumes "\<exists>j<16. bit (p_sig r) j"
  shows "1 + int (LEAST j. bit (p_sig r) j) = Min (pending r)"
proof -
  let ?j = "LEAST j. bit (p_sig r) j"
  from assms obtain j where j: "j < 16" "bit (p_sig r) j" by blast
  then have l: "bit (p_sig r) ?j" "?j \<le> j" by (auto intro: LeastI Least_le)
  have fin: "finite (pending r)" by (rule finite_subset [of _ "{1..16}"]) (auto simp: pending_def)
  have "1 + int ?j \<in> pending r" using l j by (auto simp: pending_def)
  moreover have "1 + int ?j \<le> i" if "i \<in> pending r" for i
  proof -
    have "?j \<le> nat (i - 1)" using that by (intro Least_le) (simp add: pending_def)
    with that show ?thesis by (auto simp: pending_def)
  qed
  ultimately show ?thesis using fin by (intro Min_eqI [symmetric]) auto
qed

lemma pending_empty: "pending r = {} \<longleftrightarrow> \<not> (\<exists>j<16. bit (p_sig r) j)"
proof -
  have "1 + int j \<in> pending r" if "j < 16" "bit (p_sig r) j" for j using that by (simp add: pending_def)
  then show ?thesis by (fastforce simp: pending_def)
qed

lemma fsig_eq: "fsig p s = (if pending (proc s p) = {} then 0 else Min (pending (proc s p)))"
  unfolding fsig_def fsig_loop_spec using Least_pending [of "proc s p"] by (auto simp: pending_empty)

lemma finite_pending [simp]: "finite (pending r)"
  by (rule finite_subset [of _ "{1..16}"]) (auto simp: pending_def)

lemma pending_range: "i \<in> pending r \<Longrightarrow> 1 \<le> i \<and> i \<le> 16"
  by (simp add: pending_def)

lemma pending_s16: "i \<in> pending (r\<lparr>p_sig := s16 v\<rparr>) \<longleftrightarrow> 1 \<le> i \<and> i \<le> 16 \<and> bit v (nat (i - 1))"
  by (auto simp: pending_def bit_s16_lt)

lemma pending_clear:
  assumes "1 \<le> n" "n \<le> 16"
  shows "pending (r\<lparr>p_sig := s16 (p_sig r AND NOT (push_bit (nat (n - 1)) 1))\<rparr>) = pending r - {n}"
  using assms by (intro set_eqI) (auto simp: pending_s16 bit_and_iff bit_not_iff_eq bit_push_1 pending_def
      bit_s16_lt nat_less_iff simp del: push_bit_of_1)

lemma pending_set:
  assumes "1 \<le> n" "n \<le> 16"
  shows "pending (r\<lparr>p_sig := s16 (p_sig r OR push_bit (nat (n - 1)) 1)\<rparr>) = insert n (pending r)"
  using assms by (intro set_eqI) (auto simp: pending_s16 bit_or_iff bit_push_1 pending_def
      bit_s16_lt nat_less_iff simp del: push_bit_of_1)

text \<open>A signal is deliverable when it is not ignored (odd disposition) or the process is traced.\<close>

definition deliverable :: "'z kst_scheme \<Rightarrow> int \<Rightarrow> bool" where
  "deliverable s n \<longleftrightarrow> u_signal (u s) (nat n) AND 1 = 0 \<or> STRC \<in> p_flag (proc s (u_procp (u s)))"

definition sig16 :: "proc \<Rightarrow> bool" where
  "sig16 r \<longleftrightarrow> s16 (p_sig r) = p_sig r"

lemma sig16_pending: "sig16 r \<Longrightarrow> p_sig r = 0 \<longleftrightarrow> pending r = {}"
  using s16_bits_0 [of "p_sig r"] by (auto simp: sig16_def pending_empty)

lemma s16_idem [simp]: "s16 (s16 x) = s16 x"
  by (simp add: s16_def mod_diff_left_eq [symmetric])

definition without_signals :: "nat \<Rightarrow> int \<Rightarrow> 'z kst_scheme \<Rightarrow> 'z kst_scheme" where
  "without_signals p v s = upd_proc p (\<lambda>r. r\<lparr>p_sig := v\<rparr>) s"

lemma issig_loop_correct:
  assumes "sig16 (proc s (u_procp (u s)))" "card (pending (proc s (u_procp (u s)))) < k"
  defines "p \<equiv> u_procp (u s)"
  shows "\<exists>n v. issig_loop k s = Ok n (without_signals p v s) \<and> sig16 ((proc s p)\<lparr>p_sig := v\<rparr>)
    \<and> (if \<forall>i\<in>pending (proc s p). \<not> deliverable s i then n = 0 \<and> v = 0
       else n = Min {i \<in> pending (proc s p). deliverable s i}
         \<and> pending ((proc s p)\<lparr>p_sig := v\<rparr>) = {i \<in> pending (proc s p). n \<le> i})"
  using assms(1,2) unfolding p_def
proof (induction k arbitrary: s)
  case (Suc k)
  let ?p = "u_procp (u s)" let ?r = "proc s ?p" let ?P = "pending ?r"
  have same: "without_signals ?p (p_sig ?r) s = s"
    by (simp add: without_signals_def upd_proc_def fun_upd_idem)
  show ?case
  proof (cases "?P = {}")
    case True
    then have "p_sig ?r = 0" using sig16_pending Suc.prems(1) by blast
    with same True Suc.prems(1) show ?thesis by (intro exI [of _ 0]) (simp add: Let_def sig16_def)
  next
    case False
    let ?n = "Min ?P"
    have n: "?n \<in> ?P" using False by simp
    then have n': "1 \<le> ?n" "?n \<le> 16" using pending_range by blast+
    have fs: "p_sig ?r \<noteq> 0" "fsig ?p s = ?n" using False sig16_pending Suc.prems(1) by (auto simp: fsig_eq)
    show ?thesis
    proof (cases "deliverable s ?n")
      case True
      then have "issig_loop (Suc k) s = Ok ?n s" using fs by (simp add: deliverable_def Let_def)
      moreover have "Min {i \<in> ?P. deliverable s i} = ?n" using n True by (intro Min_eqI) auto
      moreover have "\<not> (\<forall>i\<in>?P. \<not> deliverable s i)" using n True by blast
      moreover have "{i \<in> ?P. ?n \<le> i} = ?P" by auto
      moreover have "?r\<lparr>p_sig := p_sig ?r\<rparr> = ?r" by simp
      ultimately show ?thesis using same Suc.prems(1)
        by (intro exI [of _ ?n] exI [of _ "p_sig ?r"]) (simp only: if_False simp_thms)
    next
      case nd: False
      let ?v = "s16 (p_sig ?r AND NOT (push_bit (nat (?n - 1)) 1))"
      let ?t = "without_signals ?p ?v s"
      have u: "u ?t = u s" "proc ?t ?p = ?r\<lparr>p_sig := ?v\<rparr>"
        by (simp_all add: without_signals_def upd_proc_def)
      have pt: "pending (proc ?t ?p) = ?P - {?n}" unfolding u using n' by (intro pending_clear)
      have del: "deliverable ?t i = deliverable s i" for i
        by (simp add: deliverable_def without_signals_def upd_proc_def)
      have "sig16 (proc ?t (u_procp (u ?t)))" unfolding u by (simp add: sig16_def)
      moreover have "card (pending (proc ?t (u_procp (u ?t)))) < k"
      proof -
        have "card (?P - {?n}) < card ?P" using n by (intro card_Diff1_less) auto
        then show ?thesis unfolding u(1) pt using Suc.prems(2) by simp
      qed
      ultimately obtain m w where IH: "issig_loop k ?t = Ok m (without_signals ?p w ?t)"
        "sig16 ((proc ?t ?p)\<lparr>p_sig := w\<rparr>)"
        "if \<forall>i\<in>?P - {?n}. \<not> deliverable s i then m = 0 \<and> w = 0
         else m = Min {i \<in> ?P - {?n}. deliverable s i}
           \<and> pending ((proc ?t ?p)\<lparr>p_sig := w\<rparr>) = {i \<in> ?P - {?n}. m \<le> i}"
        using Suc.IH [of ?t] unfolding u(1) pt del by blast
      have loop: "issig_loop (Suc k) s = Ok m (without_signals ?p w s)"
        using fs nd IH(1) by (simp add: deliverable_def Let_def without_signals_def upd_proc_def)
      have "{i \<in> ?P - {?n}. deliverable s i} = {i \<in> ?P. deliverable s i}" using nd by auto
      moreover have "{i \<in> ?P - {?n}. m \<le> i} = {i \<in> ?P. m \<le> i}"
        if "\<not> (\<forall>i\<in>?P - {?n}. \<not> deliverable s i)" "m = Min {i \<in> ?P - {?n}. deliverable s i}"
      proof -
        have "m \<in> {i \<in> ?P - {?n}. deliverable s i}" unfolding that(2) using that(1) by (intro Min_in) auto
        then have "m \<in> ?P" "m \<noteq> ?n" by auto
        then have "?n < m" using Min_le [OF finite_pending, of m ?r] by linarith
        then show ?thesis by auto
      qed
      moreover have "(proc ?t ?p)\<lparr>p_sig := w\<rparr> = ?r\<lparr>p_sig := w\<rparr>" unfolding u by simp
      moreover have "(\<forall>i\<in>?P - {?n}. \<not> deliverable s i) \<longleftrightarrow> (\<forall>i\<in>?P. \<not> deliverable s i)" using nd by blast
      ultimately show ?thesis using loop IH(2,3)
        by (cases "\<forall>i\<in>?P. \<not> deliverable s i"; intro exI [of _ m] exI [of _ w]) simp_all
    qed
  qed
qed simp

section \<open>The next process\<close>

abbreviation eligible :: "(nat \<Rightarrow> proc) \<Rightarrow> nat \<Rightarrow> bool" where
  "eligible pr p \<equiv> p_stat (pr p) = SRUN \<and> SLOAD \<in> p_flag (pr p)"

text \<open>\<open>x\<close> is a best choice below \<open>n\<close> in the queue \<open>xs\<close>, and \<open>pq\<close> its predecessor (\<open>q\<close> before the first).\<close>

definition picks :: "(nat \<Rightarrow> proc) \<Rightarrow> nat option \<Rightarrow> int \<Rightarrow> nat list \<Rightarrow> nat \<Rightarrow> nat option \<Rightarrow> bool" where
  "picks pr q n xs x pq \<longleftrightarrow>
     (\<exists>a b. xs = a @ x # b \<and> eligible pr x \<and> p_pri (pr x) < n \<and> pq = (if a = [] then q else Some (last a))
        \<and> (\<forall>c\<in>set xs. eligible pr c \<longrightarrow> p_pri (pr x) \<le> p_pri (pr c)))"

lemma picks_here:
  "eligible pr y \<Longrightarrow> p_pri (pr y) < n \<Longrightarrow> \<forall>c\<in>set ys. eligible pr c \<longrightarrow> p_pri (pr y) \<le> p_pri (pr c) \<Longrightarrow>
   picks pr q n (y # ys) y q"
  unfolding picks_def by (intro exI [of _ "[]"] exI [of _ ys]) auto

lemma picks_later:
  assumes "picks pr (Some y) m ys x pq" "m \<le> n" "eligible pr y \<longrightarrow> p_pri (pr x) \<le> p_pri (pr y)"
  shows "picks pr q n (y # ys) x pq"
proof -
  from assms(1) obtain a b where "ys = a @ x # b" "eligible pr x" "p_pri (pr x) < m"
    "pq = (if a = [] then Some y else Some (last a))"
    "\<forall>c\<in>set ys. eligible pr c \<longrightarrow> p_pri (pr x) \<le> p_pri (pr c)" unfolding picks_def by blast
  with assms(2,3) show ?thesis unfolding picks_def by (intro exI [of _ "y # a"] exI [of _ b]) auto
qed

lemma swtch_scan_correct:
  assumes "plist pr p xs" "length xs < k"
  shows "(\<forall>c\<in>set xs. eligible pr c \<longrightarrow> n \<le> p_pri (pr c)) \<and> swtch_scan k pr p q n pp pq = Some (pp, pq, n)
    \<or> (\<exists>x pq'. picks pr q n xs x pq' \<and> swtch_scan k pr p q n pp pq = Some (Some x, pq', p_pri (pr x)))"
  using assms
proof (induction xs arbitrary: k p q n pp pq)
  case Nil
  then show ?case by (cases k) auto
next
  case (Cons y ys)
  then obtain j where k: "k = Suc j" by (cases k) auto
  from Cons.prems have p: "p = Some y" "plist pr (p_link (pr y)) ys" "length ys < j" using k by auto
  show ?case
  proof (cases "eligible pr y \<and> p_pri (pr y) < n")
    case True
    then have step: "swtch_scan k pr p q n pp pq = swtch_scan j pr (p_link (pr y)) (Some y) (p_pri (pr y)) (Some y) q"
      using k p(1) by simp
    from Cons.IH [OF p(2,3), of "p_pri (pr y)" "Some y" "Some y" q] show ?thesis
    proof
      assume "(\<forall>c\<in>set ys. eligible pr c \<longrightarrow> p_pri (pr y) \<le> p_pri (pr c))
        \<and> swtch_scan j pr (p_link (pr y)) (Some y) (p_pri (pr y)) (Some y) q = Some (Some y, q, p_pri (pr y))"
      with picks_here [of pr y n ys q] True step show ?thesis by metis
    next
      assume "\<exists>x pq'. picks pr (Some y) (p_pri (pr y)) ys x pq'
        \<and> swtch_scan j pr (p_link (pr y)) (Some y) (p_pri (pr y)) (Some y) q = Some (Some x, pq', p_pri (pr x))"
      then obtain x pq' where x: "picks pr (Some y) (p_pri (pr y)) ys x pq'"
        "swtch_scan k pr p q n pp pq = Some (Some x, pq', p_pri (pr x))" using step by metis
      moreover have "p_pri (pr x) < p_pri (pr y)" using x(1) by (auto simp: picks_def)
      ultimately have "picks pr q n (y # ys) x pq'" using True by (intro picks_later) auto
      with x(2) show ?thesis by blast
    qed
  next
    case False
    then have step: "swtch_scan k pr p q n pp pq = swtch_scan j pr (p_link (pr y)) (Some y) n pp pq"
      using k p(1) by auto
    from Cons.IH [OF p(2,3), of n "Some y" pp pq] show ?thesis
    proof
      assume "(\<forall>c\<in>set ys. eligible pr c \<longrightarrow> n \<le> p_pri (pr c))
        \<and> swtch_scan j pr (p_link (pr y)) (Some y) n pp pq = Some (pp, pq, n)"
      with False step show ?thesis by auto
    next
      assume "\<exists>x pq'. picks pr (Some y) n ys x pq'
        \<and> swtch_scan j pr (p_link (pr y)) (Some y) n pp pq = Some (Some x, pq', p_pri (pr x))"
      then obtain x pq' where x: "picks pr (Some y) n ys x pq'"
        "swtch_scan k pr p q n pp pq = Some (Some x, pq', p_pri (pr x))" using step by metis
      moreover have "p_pri (pr x) < n" using x(1) by (auto simp: picks_def)
      ultimately have "picks pr q n (y # ys) x pq'" using False by (intro picks_later) auto
      with x(2) show ?thesis by blast
    qed
  qed
qed

text \<open>Removing the chosen process from the run queue.\<close>

lemma queues_dequeue:
  assumes q: "queues s rq sq" and rq: "rq = a @ x # b"
  defines "t \<equiv> (case (if a = [] then None else Some (last a)) of
      None \<Rightarrow> s\<lparr>runq := p_link (proc s x)\<rparr>
    | Some y \<Rightarrow> upd_proc y (\<lambda>r. r\<lparr>p_link := p_link (proc s x)\<rparr>) s)"
  shows "queues t (a @ b) sq" "\<exists>l. proc t y = (proc s y)\<lparr>p_link := l\<rparr>"
proof -
  note D = queuesD [OF q]
  show pr: "\<exists>l. proc t y = (proc s y)\<lparr>p_link := l\<rparr>" for y
  proof (cases "a \<noteq> [] \<and> y = last a")
    case True
    then show ?thesis by (intro exI [of _ "p_link (proc s x)"]) (simp add: t_def upd_proc_def)
  next
    case False
    then have "proc t y = proc s y" by (auto simp: t_def upd_proc_def)
    then show ?thesis using link_self by metis
  qed
  have d: "distinct (a @ x # b)" using D(2) rq by simp
  have lk: "p_link (proc t y) = p_link (proc s y)" if "y \<notin> set rq" for y
    using that rq by (cases "a = []") (auto simp: t_def upd_proc_def)
  have pa: "plist (proc t) (runq t) (a @ b)"
    using plist_unlink [of "proc s" "runq s" a x b] D(1) rq d
    by (cases "a = []") (simp_all add: t_def upd_proc_def)
  have pb: "plist (proc t) (slpque t h) (sq h)" for h
  proof -
    have "plist (proc t) (slpque s h) (sq h) = plist (proc s) (slpque s h) (sq h)"
      using lk D(5) [of h] by (intro plist_cong) blast
    moreover have "slpque t h = slpque s h" by (cases "a = []") (simp_all add: t_def upd_proc_def)
    ultimately show ?thesis using D(3) by simp
  qed
  have st: "p_stat (proc t y) = p_stat (proc s y)" "p_wchan (proc t y) = p_wchan (proc s y)" for y
    using pr [of y] by auto
  show "queues t (a @ b) sq" unfolding queues_def st
  proof (intro conjI allI ballI)
    show "distinct (a @ b)" using d by simp
    show "set (a @ b) \<inter> set (sq h) = {}" for h using D(5) [of h] rq by auto
    show "y < NPROC" "p_wchan (proc s y) = 0" if "y \<in> set (a @ b)" for y using D(6) [of y] that rq by auto
  qed (use pa pb D(4,7) in blast)+
qed

lemma queues_cong:
  assumes "queues s rq sq" "runq t = runq s" "slpque t = slpque s"
    and "\<And>p. p_link (proc t p) = p_link (proc s p)" "\<And>p. p_stat (proc t p) = p_stat (proc s p)"
    "\<And>p. p_wchan (proc t p) = p_wchan (proc s p)"
  shows "queues t rq sq"
proof -
  have "plist (proc t) q xs = plist (proc s) q xs" for q xs using assms(4) by (intro plist_cong) simp
  then show ?thesis using assms(1) unfolding queues_def assms(2,3,5,6) by simp
qed

lemma swtch_round_correct:
  assumes q: "queues s rq sq"
  shows "(\<forall>c\<in>set rq. eligible (proc s) c \<longrightarrow> 128 \<le> p_pri (proc s c)) \<and> swtch_round s = Ok None (s\<lparr>runrun := 0\<rparr>)
    \<or> (\<exists>a x b s'. rq = a @ x # b \<and> eligible (proc s) x \<and> p_pri (proc s x) < 128
        \<and> (\<forall>c\<in>set rq. eligible (proc s) c \<longrightarrow> p_pri (proc s x) \<le> p_pri (proc s c))
        \<and> swtch_round s = Ok (Some (x, SSWAP \<in> p_flag (proc s x))) s'
        \<and> queues s' (a @ b) sq \<and> curpri s' = u8 (p_pri (proc s x)) \<and> runrun s' = 0
        \<and> SSWAP \<notin> p_flag (proc s' x))"
proof -
  let ?s0 = "s\<lparr>runrun := 0\<rparr>"
  note D = queuesD [OF q]
  have "length rq < qfuel" using queues_bound(2) [OF q] by simp
  from swtch_scan_correct [OF D(1) this, of 128 None None None] show ?thesis
  proof
    assume "(\<forall>c\<in>set rq. eligible (proc s) c \<longrightarrow> 128 \<le> p_pri (proc s c))
      \<and> swtch_scan qfuel (proc s) (runq s) None 128 None None = Some (None, None, 128)"
    then show ?thesis by (simp add: swtch_round_def)
  next
    assume "\<exists>x pq'. picks (proc s) None 128 rq x pq'
      \<and> swtch_scan qfuel (proc s) (runq s) None 128 None None = Some (Some x, pq', p_pri (proc s x))"
    then obtain x pq' where pk: "picks (proc s) None 128 rq x pq'"
      "swtch_scan qfuel (proc s) (runq s) None 128 None None = Some (Some x, pq', p_pri (proc s x))" by blast
    from pk(1) obtain a b where x: "rq = a @ x # b" "eligible (proc s) x" "p_pri (proc s x) < 128"
      "\<forall>c\<in>set rq. eligible (proc s) c \<longrightarrow> p_pri (proc s x) \<le> p_pri (proc s c)"
      "pq' = (if a = [] then None else Some (last a))" unfolding picks_def by blast
    let ?t = "case (if a = [] then None else Some (last a)) of
        None \<Rightarrow> ?s0\<lparr>runq := p_link (proc ?s0 x)\<rparr>
      | Some y \<Rightarrow> upd_proc y (\<lambda>r. r\<lparr>p_link := p_link (proc ?s0 x)\<rparr>) ?s0"
    let ?s' = "upd_proc x (\<lambda>r. r\<lparr>p_flag := p_flag r - {SSWAP}\<rparr>) (?t\<lparr>curpri := u8 (p_pri (proc s x))\<rparr>)"
    have q0: "queues ?s0 rq sq" by (rule queues_cong [OF q]) simp_all
    note dq = queues_dequeue [OF q0 x(1)]
    obtain l where tx: "proc ?t x = (proc ?s0 x)\<lparr>p_link := l\<rparr>" using dq(2) by blast
    then have fl: "p_flag (proc ?t x) = p_flag (proc s x)" by simp
    have "swtch_round s = Ok (Some (x, SSWAP \<in> p_flag (proc ?t x))) ?s'"
      using pk(2) unfolding x(5) by (simp add: swtch_round_def Let_def)
    then have "swtch_round s = Ok (Some (x, SSWAP \<in> p_flag (proc s x))) ?s'" unfolding fl .
    moreover have "queues ?s' (a @ b) sq" by (rule queues_cong [OF dq(1)]) (simp_all add: upd_proc_def)
    moreover have "curpri ?s' = u8 (p_pri (proc s x))" "runrun ?s' = 0" "SSWAP \<notin> p_flag (proc ?s' x)"
      by (auto simp: upd_proc_def split: option.splits)
    ultimately show ?thesis using x(1,3,4) conjunct1 [OF x(2)] conjunct2 [OF x(2)]
      by (intro disjI2 ex4I [of _ a x b ?s'] conjI)
  qed
qed

section \<open>Properties\<close>

text \<open>
  Two processes asleep on channel 992, of which number 5 can be interrupted, and one ready to
  run, for the concrete instances below.
\<close>

definition demo_sleep :: kst where
  "demo_sleep = bss\<lparr>curpri := 60, runq := Some 3, slpque := (\<lambda>_. None)(31 := Some 5),
     proc := (\<lambda>_. zero_proc)
       (3 := zero_proc\<lparr>p_stat := SRUN, p_flag := {SLOAD}, p_pri := 50, p_pid := 3\<rparr>,
        5 := zero_proc\<lparr>p_stat := SSLEEP, p_flag := {SLOAD}, p_pri := 40, p_wchan := 992, p_link := Some 7, p_pid := 5\<rparr>,
        7 := zero_proc\<lparr>p_stat := SSLEEP, p_flag := {SLOAD}, p_pri := 20, p_wchan := 992, p_pid := 7\<rparr>)\<rparr>"

definition demo_sq :: "nat \<Rightarrow> nat list" where
  "demo_sq = (\<lambda>_. [])(31 := [5, 7])"

lemma demo_queues: "queues demo_sleep [3] demo_sq"
  by (simp add: queues_def demo_sleep_def demo_sq_def zero_defs HASH_def drop_bit_eq_div)


text \<open>
  The swapper, process 0, waits on \<open>&runout\<close> at address 64; process 5, which is swapped out, and process 7 sleep
  on channel 992.
\<close>

definition demo_nest :: kst where
  "demo_nest = bss\<lparr>curpri := 60, runout := 1, slpque := (\<lambda>_. None)(31 := Some 5, 2 := Some 0), addr_of := (\<lambda>_. 0)(Ch_runout := 64),
     proc := (\<lambda>_. zero_proc)
       (5 := zero_proc\<lparr>p_stat := SSLEEP, p_pri := 40, p_wchan := 992, p_link := Some 7\<rparr>,
        7 := zero_proc\<lparr>p_stat := SSLEEP, p_flag := {SLOAD}, p_pri := 70, p_wchan := 992\<rparr>,
        0 := zero_proc\<lparr>p_stat := SSLEEP, p_flag := {SLOAD}, p_pri := 0, p_wchan := 64\<rparr>)\<rparr>"


text \<open>
  Claim C12. The search of \<open>swtch\<close> takes a loaded, runnable process of the numerically smallest
  priority off the run queue, records its priority and clears the rescheduling flag; it idles
  exactly when no such process (of priority below 128) is queued.
\<close>

theorem swtch_takes_best:
  assumes "queues s rq sq"
  shows "(\<forall>c\<in>set rq. eligible (proc s) c \<longrightarrow> 128 \<le> p_pri (proc s c)) \<and> swtch_round s = Ok None (s\<lparr>runrun := 0\<rparr>)
    \<or> (\<exists>a x b s'. rq = a @ x # b \<and> eligible (proc s) x \<and> p_pri (proc s x) < 128
        \<and> (\<forall>c\<in>set rq. eligible (proc s) c \<longrightarrow> p_pri (proc s x) \<le> p_pri (proc s c))
        \<and> swtch_round s = Ok (Some (x, SSWAP \<in> p_flag (proc s x))) s'
        \<and> queues s' (a @ b) sq \<and> curpri s' = u8 (p_pri (proc s x)) \<and> runrun s' = 0
        \<and> SSWAP \<notin> p_flag (proc s' x))"
  using assms by (rule swtch_round_correct)

theorem swtch_takes_best_witness:
  "\<exists>s'. swtch_round demo_sleep = Ok (Some (3, False)) s' \<and> queues s' [] demo_sq \<and> curpri s' = 50"
  using swtch_takes_best [OF demo_queues]
  by (auto simp: demo_sleep_def zero_defs u8_def Cons_eq_append_conv)

text \<open>
  Claim C13. \<open>issig\<close> returns the smallest pending signal that the process does not ignore (or any
  smallest pending one when it is traced) and drops the ignored signals before it; with none it
  returns 0 and nothing stays pending. It always ends.
\<close>

theorem issig_finds_lowest:
  assumes "sig16 (proc s p)" "p = u_procp (u s)"
  shows "\<exists>n v. issig s = Ok n (without_signals p v s)
    \<and> (if \<forall>i\<in>pending (proc s p). \<not> deliverable s i then n = 0 \<and> v = 0
       else n = Min {i \<in> pending (proc s p). deliverable s i}
         \<and> pending ((proc s p)\<lparr>p_sig := v\<rparr>) = {i \<in> pending (proc s p). n \<le> i})"
proof -
  have "pending (proc s p) \<subseteq> {1..16}" by (auto simp: pending_def)
  then have "card (pending (proc s p)) \<le> card {1::int..16}" by (intro card_mono) auto
  then have "card (pending (proc s p)) < 17" by simp
  with issig_loop_correct [of s 17] assms show ?thesis unfolding issig_def by blast
qed

definition demo_sig :: kst where
  "demo_sig = bss\<lparr>proc := (\<lambda>_. zero_proc\<lparr>p_sig := 10\<rparr>), u := zero_user\<lparr>u_signal := (\<lambda>_. 0)(2 := 1)\<rparr>\<rparr>"

theorem issig_finds_lowest_witness: "\<exists>t. issig demo_sig = Ok 4 t"
proof -
  have u: "u_procp (u demo_sig) = 0" by (simp add: demo_sig_def zero_defs)
  have P: "pending (proc demo_sig 0) = {2, 4}"
  proof -
    have b: "bit (10::int) j \<longleftrightarrow> j = 1 \<or> j = 3" for j
    proof (cases "j < 4")
      case True
      then have "j = 0 \<or> j = 1 \<or> j = 2 \<or> j = 3" by auto
      then show ?thesis by auto
    next
      case False
      then have "(2::int) ^ 4 \<le> 2 ^ j" by (intro power_increasing) auto
      then show ?thesis using False by (simp add: bit_iff_odd div_pos_pos_trivial)
    qed
    have sig: "p_sig (proc demo_sig 0) = 10" by (simp add: demo_sig_def)
    have "pending (proc demo_sig 0) = {i. 1 \<le> i \<and> i \<le> 16 \<and> (nat (i - 1) = 1 \<or> nat (i - 1) = 3)}"
      by (simp only: pending_def b sig)
    also have "\<dots> = {2, 4}" by auto
    finally show ?thesis .
  qed
  have "u_signal (u demo_sig) = (\<lambda>_. 0)(2 := 1)" "p_flag (proc demo_sig k) = {}" for k
    by (simp_all add: demo_sig_def zero_proc_def)
  then have D: "\<not> deliverable demo_sig 2" "deliverable demo_sig 4" unfolding deliverable_def by simp_all
  then have "{i \<in> pending (proc demo_sig 0). deliverable demo_sig i} = {4}" unfolding P by auto
  moreover have "sig16 (proc demo_sig 0)" by (simp add: sig16_def s16_def demo_sig_def)
  moreover have "\<not> (\<forall>i\<in>pending (proc demo_sig 0). \<not> deliverable demo_sig i)" using P D by blast
  ultimately show ?thesis using issig_finds_lowest [of demo_sig 0] u
    by (metis Min_singleton)
qed

text \<open>
  \<open>psignal\<close> with a valid signal number makes the signal pending and, when the process
  sleeps at an interruptible priority, makes it runnable; invalid numbers change nothing.
\<close>

theorem psignal_posts:
  assumes q: "queues s rq sq"
    and load: "runout s = 0 \<or> (\<forall>x\<in>set (sq (HASH (p_wchan (proc s p)))). SLOAD \<in> p_flag (proc s x))"
    and slp: "p_stat (proc s p) = SSLEEP \<longrightarrow> p \<in> set (sq (HASH (p_wchan (proc s p))))"
  shows "if sig < 0 \<or> NSIG \<le> sig then psignal p sig s = Ok () s
    else \<exists>s' rq' sq'. psignal p sig s = Ok () s' \<and> queues s' rq' sq'
      \<and> pending (proc s' p) = (if sig = 0 then {} else {sig}) \<union> pending (proc s p)
      \<and> p_pri (proc s' p) = min PUSER (p_pri (proc s p))
      \<and> p_stat (proc s' p) = (if p_stat (proc s p) = SSLEEP \<and> p_pri (proc s p) > PZERO then SRUN
                              else p_stat (proc s p))"
proof (cases "sig < 0 \<or> NSIG \<le> sig")
  case True
  then show ?thesis by (auto simp: psignal_def)
next
  case False
  let ?r = "\<lambda>r. r\<lparr>p_sig := (if sig = 0 then p_sig r else s16 (p_sig r OR push_bit (nat (sig - 1)) 1)),
      p_pri := min PUSER (p_pri r)\<rparr>"
  let ?t = "upd_proc p ?r s"
  have ps: "psignal p sig s = (if p_stat (proc s p) = SSLEEP \<and> p_pri (proc s p) > PZERO then setrun p ?t else Ok () ?t)"
    using False by (simp add: psignal_def Let_def upd_proc_def min_def del: push_bit_of_1) auto
  have pend: "pending (?r r) = (if sig = 0 then {} else {sig}) \<union> pending r" for r
    using pending_set [of sig r] False by (cases "sig = 0") (simp_all add: pending_def)
  have qt: "queues ?t rq sq" by (rule queues_cong [OF q]) (simp_all add: upd_proc_def)
  show ?thesis
  proof (cases "p_stat (proc s p) = SSLEEP \<and> p_pri (proc s p) > PZERO")
    case True
    let ?w = "p_wchan (proc s p)" let ?h = "HASH ?w"
    have mem: "p \<in> set (sq ?h)" using slp True by blast
    then have w: "?w \<noteq> 0" "p \<in> set (filter (waits ?t ?w) (sq ?h))"
      using queuesD(7) [OF q mem] mem by (simp_all add: upd_proc_def)
    have hd: "slpque ?t ?h = head (sq ?h)" by (rule plist_head [OF queuesD(3) [OF qt]])
    have sr: "setrun p ?t = wakeup_loop (qfuel - 1) ?w ?h (head (sq ?h)) (final []) ?t"
      unfolding setrun_def final_simps hd [symmetric]
      using True w(1) setrun_n_waiting [of ?t p "qfuel - 1"] by (simp add: upd_proc_def)
    have "sq = sq(?h := [] @ sq ?h)" by simp
    then have 1: "queues ?t rq (sq(?h := [] @ sq ?h))" using qt by metis
    have 2: "runout ?t = 0 \<or> (\<forall>x\<in>set (sq ?h). waits ?t ?w x \<longrightarrow> SLOAD \<in> p_flag (proc ?t x))"
      using load by (auto simp: upd_proc_def)
    have 3: "length (sq ?h) + 1 < qfuel - 1" "length rq + length (sq ?h) < qfuel"
      using queues_bound(1) [OF q, of ?h] by simp_all
    from wakeup_loop_correct [OF 1 2 3] obtain s' rq' sq' where
      s': "setrun p ?t = Ok () s'" "queues s' rq' sq'" "woken (set (filter (waits ?t ?w) (sq ?h))) ?t s'"
      unfolding sr by blast
    from woken_in [OF s'(3) w(2)] obtain l where
      "proc s' p = (proc ?t p)\<lparr>p_stat := SRUN, p_wchan := 0, p_link := l\<rparr>" ..
    moreover have "pending ((proc ?t p)\<lparr>p_stat := SRUN, p_wchan := 0, p_link := l\<rparr>) = pending (proc ?t p)" for l
      by (simp add: pending_def)
    ultimately have "pending (proc s' p) = (if sig = 0 then {} else {sig}) \<union> pending (proc s p)
      \<and> p_pri (proc s' p) = min PUSER (p_pri (proc s p)) \<and> p_stat (proc s' p) = SRUN"
      using pend by (simp add: upd_proc_def)
    moreover have "psignal p sig s = Ok () s'" using ps True s'(1) by simp
    ultimately show ?thesis using s'(2) True False by auto
  next
    case ns: False
    have "psignal p sig s = Ok () ?t" using ps ns by auto
    moreover have "proc ?t p = ?r (proc s p)" by (simp add: upd_proc_def)
    then have "pending (proc ?t p) = (if sig = 0 then {} else {sig}) \<union> pending (proc s p)"
      "p_pri (proc ?t p) = min PUSER (p_pri (proc s p))" "p_stat (proc ?t p) = p_stat (proc s p)"
      using pend by simp_all
    ultimately show ?thesis unfolding if_not_P [OF False] using qt ns
      by (intro exI [of _ ?t] exI [of _ rq] exI [of _ sq] conjI) auto
  qed
qed

theorem psignal_posts_witness:
  "\<exists>s' rq' sq'. psignal 5 2 demo_sleep = Ok () s' \<and> queues s' rq' sq' \<and> p_stat (proc s' 5) = SRUN"
proof -
  have d: "runout demo_sleep = 0" "p_wchan (proc demo_sleep 5) = 992" "p_stat (proc demo_sleep 5) = SSLEEP"
    "p_pri (proc demo_sleep 5) = 40" "HASH 992 = 31" "demo_sq 31 = [5, 7]"
    by (simp_all add: demo_sleep_def zero_defs HASH_def drop_bit_eq_div demo_sq_def)
  then have "5 \<in> set (demo_sq (HASH (p_wchan (proc demo_sleep 5))))" by simp
  with psignal_posts [OF demo_queues, of 5 2] d(1,3,4) show ?thesis by auto
qed

section \<open>A lost wakeup\<close>

text \<open>
  Without the proviso of the first property a wakeup can be lost. Processes 2 (swapped out) and
  3 sleep on channel 992; between them on the same sleep queue is the swapper, process 0, on
  \<open>&runout\<close>. Making process 2 runnable wakes the swapper in a nested call, which moves it, the
  next process of the outer walk, to the run queue; the walk goes on along the run queue and
  never reaches process 3.
\<close>

definition demo_lost :: kst where
  "demo_lost = bss\<lparr>runout := 1, slpque := (\<lambda>_. None)(31 := Some 2), addr_of := (\<lambda>_. 0)(Ch_runout := 993),
     proc := (\<lambda>_. zero_proc)
       (2 := zero_proc\<lparr>p_stat := SSLEEP, p_wchan := 992, p_link := Some 0\<rparr>,
        0 := zero_proc\<lparr>p_stat := SSLEEP, p_flag := {SLOAD}, p_wchan := 993, p_link := Some 3\<rparr>,
        3 := zero_proc\<lparr>p_stat := SSLEEP, p_flag := {SLOAD}, p_wchan := 992\<rparr>)\<rparr>"

text \<open>
  A wakeup that finds a swapped-out sleeper while the swapper waits on the same sleep
  queue leaves a later sleeper of the channel asleep.
\<close>

theorem wakeup_nested_loses:
  "\<exists>s'. wakeup 992 demo_lost = Ok () s' \<and> p_stat (proc s' 3) = SSLEEP \<and> p_wchan (proc s' 3) = 992"
proof -
  obtain k where f: "(600::nat) = Suc (Suc (Suc (Suc (Suc (Suc (Suc (Suc k)))))))"
    by (rule that [of 592]) simp
  have h: "HASH 992 = 31" "HASH 993 = 31" by (simp_all add: HASH_def drop_bit_eq_div)
  show ?thesis
    by (simp add: wakeup_def setrq_def f h demo_lost_def zero_defs upd_proc_def slp_unlink_def Let_def)
qed

end
