(* ===== verification/Callout.thy ===== *)
theory Callout
  imports Proc
begin

text \<open>
  The clock interrupt and the callout table (\<open>usr/sys/sys/clock.c\<close>). The table holds, in order of
  expiry, how many ticks each entry fires after the one before; an entry without function ends
  it. The table is the list \<open>callout\<close> of \<open>NCALL\<close> entries; touching an entry beyond the array is
  the outcome \<open>Overrun\<close>.
\<close>

abbreviation (input) NCALL :: nat where "NCALL \<equiv> 20"
abbreviation (input) HZ :: int where "HZ \<equiv> 10"

datatype 'a table_op = Done 'a | TableFull | Overrun

section \<open>Entering a timeout\<close>

text \<open>\<open>while(p1->c_func != 0 && p1->c_time <= t) { t -= p1->c_time; p1++; }\<close>\<close>

fun timeout_scan :: "callo list \<Rightarrow> int \<Rightarrow> (callo list \<times> callo list \<times> int) option" where
  "timeout_scan [] t = None"
| "timeout_scan (c # cs) t =
     (if c_func c \<noteq> None \<and> c_time c \<le> t
      then map_option (\<lambda>(pre, suf, t). (c # pre, suf, t)) (timeout_scan cs (t - c_time c))
      else Some ([], c # cs, t))"

text \<open>
  The two loops that move the entries from \<open>p1\<close> up to the end mark one place up. The entry
  after the mark must exist: the code writes it unconditionally.
\<close>

fun shift_up :: "callo \<Rightarrow> callo list \<Rightarrow> callo list option" where
  "shift_up x [] = None"
| "shift_up x (c # cs) =
     (if c_func x = None then Some (x # cs) else map_option (Cons x) (shift_up c cs))"

definition timeout :: "nat \<Rightarrow> int \<Rightarrow> int \<Rightarrow> callo list \<Rightarrow> callo list table_op" where
  "timeout func arg tim cs =
     (case timeout_scan cs tim of
        None \<Rightarrow> Overrun
      | Some (pre, suf, t) \<Rightarrow>
          if length pre \<ge> NCALL - 1 then TableFull
          else
            (let p1 = (hd suf)\<lparr>c_time := c_time (hd suf) - t\<rparr> in
             case shift_up p1 (tl suf) of
               None \<Rightarrow> Overrun
             | Some up \<Rightarrow> Done (pre @ \<lparr>c_time = t, c_arg = arg, c_func = Some func\<rparr> # up)))"

section \<open>The clock interrupt\<close>

text \<open>\<open>while(p2->c_time<=0 && p2->c_func!=NULL) p2++; p2->c_time--;\<close>\<close>

fun dec_first :: "callo list \<Rightarrow> callo list option" where
  "dec_first [] = None"
| "dec_first (c # cs) =
     (if c_time c \<le> 0 \<and> c_func c \<noteq> None then map_option (Cons c) (dec_first cs)
      else Some (c\<lparr>c_time := c_time c - 1\<rparr> # cs))"

text \<open>
  The calls of the expired entries; \<open>call f a\<close> is the effect of calling the function with
  number \<open>f\<close>, which may itself enter timeouts, so the table is read afresh each time.
\<close>

fun run_callouts ::
  "nat \<Rightarrow> (nat \<Rightarrow> int \<Rightarrow> 'z kst_scheme \<Rightarrow> 'z kst_scheme) \<Rightarrow> nat \<Rightarrow> 'z kst_scheme \<Rightarrow> (nat \<times> 'z kst_scheme) table_op" where
  "run_callouts 0 call p1 s = Overrun"
| "run_callouts (Suc n) call p1 s =
     (if p1 \<ge> length (callout s) then Overrun
      else
        (let c = callout s ! p1 in
         case c_func c of
           None \<Rightarrow> Done (p1, s)
         | Some f \<Rightarrow> if c_time c \<le> 0 then run_callouts n call (p1 + 1) (call f (c_arg c) s) else Done (p1, s)))"

text \<open>The copy of the remaining entries to the front; the rest of the array keeps its contents.\<close>

fun compact :: "callo list \<Rightarrow> callo list \<Rightarrow> callo list option" where
  "compact dst [] = None"
| "compact [] (c # cs) = None"
| "compact (d # ds) (c # cs) =
     (case c_func c of
        None \<Rightarrow> Some (d\<lparr>c_func := None\<rparr> # ds)
      | Some f \<Rightarrow> map_option (Cons (d\<lparr>c_time := c_time c, c_arg := c_arg c, c_func := Some f\<rparr>)) (compact ds cs))"

definition clock_callouts ::
  "(nat \<Rightarrow> int \<Rightarrow> 'z kst_scheme \<Rightarrow> 'z kst_scheme) \<Rightarrow> 'z kst_scheme \<Rightarrow> 'z kst_scheme table_op" where
  "clock_callouts call s =
     (if callout s = [] then Overrun
      else if c_func (hd (callout s)) = None then Done s
      else
        (case dec_first (callout s) of
           None \<Rightarrow> Overrun
         | Some cs \<Rightarrow>
             (let s = s\<lparr>callout := cs\<rparr> in
              if c_time (hd cs) > 0 then Done s
              else
                (case run_callouts (NCALL + 1) call 0 s of
                   Done (p1, s) \<Rightarrow>
                     (case compact (callout s) (drop p1 (callout s)) of
                        None \<Rightarrow> Overrun
                      | Some cs \<Rightarrow> Done (s\<lparr>callout := cs\<rparr>))
                 | TableFull \<Rightarrow> TableFull
                 | Overrun \<Rightarrow> Overrun))))"

text \<open>Accounting of one tick: user or system time, the instrumentation counters.\<close>

definition clock_account :: "(int \<Rightarrow> int \<Rightarrow> 'z kst_scheme \<Rightarrow> 'z kst_scheme) \<Rightarrow> bool \<Rightarrow> int \<Rightarrow> int \<Rightarrow> 'z kst_scheme \<Rightarrow> 'z kst_scheme" where
  "clock_account addupc usermode pc waitloc s =
     (let a = dk_busy s AND 7;
          (a, s) =
            (if usermode then
               (let s = upd_u (\<lambda>u. u\<lparr>u_utime := s32 (u_utime u + 1)\<rparr>) s;
                    s = (if pr_scale (u_prof (u s)) \<noteq> 0 then addupc pc 1 s else s)
                in (if p_nice (proc s (u_procp (u s))) > NZERO then a + 8 else a, s))
             else
               (let a = a + 16;
                    a = (if pc \<ge> waitloc - 16 \<and> pc \<le> waitloc then a + 8 else a)
                in (a, upd_u (\<lambda>u. u\<lparr>u_stime := s32 (u_stime u + 1)\<rparr>) s)))
      in s\<lparr>dk_time := (dk_time s)(nat a := s32 (dk_time s (nat a) + 1))\<rparr>)"

text \<open>\<open>(pp->p_cpu & 0377)*SCHMAG + pp->p_nice - NZERO\<close> with \<open>SCHMAG\<close> the text \<open>8/10\<close>, clamped\<close>

definition decay_cpu :: "proc \<Rightarrow> int" where
  "decay_cpu r =
     (let a = (p_cpu r AND 255) * 8 div 10 + p_nice r - NZERO
      in if a < 0 then 0 else if a > 255 then 255 else a)"

fun clock_second :: "nat list \<Rightarrow> 'z kst_scheme \<Rightarrow> (unit, 'z kst_scheme) res" where
  "clock_second [] s = Ok () s"
| "clock_second (pp # pps) s =
     (let r = proc s pp in
      if p_stat r \<noteq> 0 \<and> p_stat r < SZOMB then
        (let s = (if p_time r \<noteq> 127 then upd_proc pp (\<lambda>r. r\<lparr>p_time := u8 (p_time r + 1)\<rparr>) s else s);
             alarmed = (p_clktim r \<noteq> 0 \<and> s32 (p_clktim r - 1) = 0);
             s = (if p_clktim r \<noteq> 0 then upd_proc pp (\<lambda>r. r\<lparr>p_clktim := s32 (p_clktim r - 1)\<rparr>) s else s)
         in bnd (if alarmed then psignal pp 14 s else Ok () s) (\<lambda>_ s.
              (let s = upd_proc pp (\<lambda>r. r\<lparr>p_cpu := decay_cpu r\<rparr>) s;
                   s = (if p_pri (proc s pp) \<ge> PUSER then snd (setpri pp s) else s)
               in clock_second pps s)))
      else clock_second pps s)"

text \<open>The interrupt handler from its label \<open>out\<close> on.\<close>

definition clock_out :: "(int \<Rightarrow> int \<Rightarrow> 'z kst_scheme \<Rightarrow> 'z kst_scheme) \<Rightarrow> bool \<Rightarrow> int \<Rightarrow> int \<Rightarrow> 'z kst_scheme \<Rightarrow> (unit, 'z kst_scheme) res" where
  "clock_out addupc usermode pc waitloc s =
     (let s = clock_account addupc usermode pc waitloc s;
          pp = u_procp (u s);
          cpu = u8 (p_cpu (proc s pp) + 1);
          s = upd_proc pp (\<lambda>r. r\<lparr>p_cpu := (if cpu = 0 then u8 (cpu - 1) else cpu)\<rparr>) s;
          s = s\<lparr>lbolt := s32 (lbolt s + 1)\<rparr>
      in if lbolt s \<ge> HZ then
           (let s = s\<lparr>lbolt := lbolt s - HZ, time := s32 (time s + 1), runrun := u8 (runrun s + 1)\<rparr> in
            bnd (wakeup (addr_of s Ch_lbolt) s) (\<lambda>_ s.
            bnd (clock_second [0..<NPROC] s) (\<lambda>_ s.
            if runin s \<noteq> 0 then wakeup (addr_of s Ch_runin) (s\<lparr>runin := 0\<rparr>) else Ok () s)))
         else Ok () s)"

definition clock ::
  "(nat \<Rightarrow> int \<Rightarrow> 'z kst_scheme \<Rightarrow> 'z kst_scheme) \<Rightarrow> (int \<Rightarrow> int \<Rightarrow> 'z kst_scheme \<Rightarrow> 'z kst_scheme) \<Rightarrow> bool \<Rightarrow> int \<Rightarrow> int
     \<Rightarrow> 'z kst_scheme \<Rightarrow> (unit, 'z kst_scheme) res" where
  "clock call addupc usermode pc waitloc s =
     (case clock_callouts call s of
        Done s \<Rightarrow> clock_out addupc usermode pc waitloc s
      | TableFull \<Rightarrow> Panic ''Timeout table overflow'' s
      | Overrun \<Rightarrow> Stuck s)"

section \<open>Absolute expiry times\<close>

text \<open>When each entry is due, counted in ticks from now, with its function and argument.\<close>

fun due :: "int \<Rightarrow> callo list \<Rightarrow> (int \<times> nat \<times> int) list" where
  "due b [] = []"
| "due b (c # cs) =
     (case c_func c of None \<Rightarrow> [] | Some f \<Rightarrow> (b + c_time c, f, c_arg c) # due (b + c_time c) cs)"

fun entries :: "callo list \<Rightarrow> nat" where
  "entries [] = 0"
| "entries (c # cs) = (if c_func c = None then 0 else Suc (entries cs))"

fun in_order :: "callo list \<Rightarrow> bool" where
  "in_order [] = False"
| "in_order (c # cs) = (c_func c = None \<or> 0 \<le> c_time c \<and> in_order cs)"

text \<open>The abstract table: sorted by expiry, later requests behind earlier ones of the same time.\<close>

definition enter :: "int \<times> nat \<times> int \<Rightarrow> (int \<times> nat \<times> int) list \<Rightarrow> (int \<times> nat \<times> int) list" where
  "enter e ds = takeWhile (\<lambda>d. fst d \<le> fst e) ds @ e # dropWhile (\<lambda>d. fst d \<le> fst e) ds"

lemma due_shift: "due b cs = map (\<lambda>(t, x). (t + b, x)) (due 0 cs)"
proof (induction cs arbitrary: b)
  case (Cons c cs)
  show ?case
    by (cases "c_func c") (simp_all add: Cons.IH [of "b + c_time c"] Cons.IH [of "c_time c"] o_def split_def add_ac)
qed simp

lemma due_ge: "in_order cs \<Longrightarrow> d \<in> set (due b cs) \<Longrightarrow> b \<le> fst d"
proof (induction cs arbitrary: b)
  case (Cons c cs)
  from Cons.prems Cons.IH [of "b + c_time c"] show ?case by (cases "c_func c") auto
qed simp

lemma shift_up_due:
  assumes "entries (x # cs) < length cs"
  shows "\<exists>up. shift_up x cs = Some up \<and> due b up = due b (x # cs) \<and> (in_order (x # cs) \<longrightarrow> in_order up)
    \<and> length up = length cs \<and> entries up = entries (x # cs)"
  using assms
proof (induction cs arbitrary: x b)
  case (Cons c cs)
  show ?case
  proof (cases "c_func x")
    case None
    then show ?thesis by simp
  next
    case (Some f)
    with Cons.prems have "entries (c # cs) < length cs" by (auto split: if_splits)
    from Cons.IH [OF this, of "b + c_time x"] Some show ?thesis by auto
  qed
qed simp

lemma timeout_scan_due:
  assumes "in_order cs"
  shows "\<exists>pre suf t. timeout_scan cs tim = Some (pre, suf, t) \<and> cs = pre @ suf \<and> suf \<noteq> []
    \<and> (\<forall>c\<in>set pre. c_func c \<noteq> None) \<and> in_order suf \<and> (0 \<le> tim \<longrightarrow> 0 \<le> t)
    \<and> t = tim - sum_list (map c_time pre) \<and> (\<forall>c\<in>set pre. 0 \<le> c_time c)
    \<and> (c_func (hd suf) = None \<or> t < c_time (hd suf))
    \<and> (\<forall>i\<le>length pre. 0 \<le> tim \<longrightarrow> sum_list (map c_time (take i pre)) \<le> tim)"
  using assms
proof (induction cs arbitrary: tim)
  case (Cons c cs)
  show ?case
  proof (cases "c_func c \<noteq> None \<and> c_time c \<le> tim")
    case True
    with Cons.prems have c: "0 \<le> c_time c" "in_order cs" by auto
    from Cons.IH [OF c(2), of "tim - c_time c"] obtain pre suf t where
      IH: "timeout_scan cs (tim - c_time c) = Some (pre, suf, t)" "cs = pre @ suf" "suf \<noteq> []"
      "\<forall>c\<in>set pre. c_func c \<noteq> None" "in_order suf" "t = tim - c_time c - sum_list (map c_time pre)"
      "\<forall>c\<in>set pre. 0 \<le> c_time c" "c_func (hd suf) = None \<or> t < c_time (hd suf)"
      "0 \<le> tim - c_time c \<longrightarrow> 0 \<le> t"
      "\<forall>i\<le>length pre. 0 \<le> tim - c_time c \<longrightarrow> sum_list (map c_time (take i pre)) \<le> tim - c_time c" by blast
    have "\<forall>i\<le>length (c # pre). 0 \<le> tim \<longrightarrow> sum_list (map c_time (take i (c # pre))) \<le> tim"
      using IH(10) True by (auto simp: take_Cons split: nat.splits)
    with IH True c show ?thesis
      by (intro exI [of _ "c # pre"] exI [of _ suf] exI [of _ t]) auto
  next
    case False
    with Cons.prems show ?thesis by (intro exI [of _ "[]"] exI [of _ "c # cs"] exI [of _ tim]) auto
  qed
qed simp

lemma due_append:
  "\<forall>c\<in>set pre. c_func c \<noteq> None \<Longrightarrow>
   due b (pre @ suf) = due b pre @ due (b + sum_list (map c_time pre)) suf"
proof (induction pre arbitrary: b)
  case (Cons c pre)
  then show ?case by (cases "c_func c") (auto simp: add.assoc)
qed simp

lemma due_le:
  assumes "\<forall>c\<in>set pre. 0 \<le> c_time c" "d \<in> set (due b pre)"
  shows "fst d \<le> b + sum_list (map c_time pre)"
  using assms
proof (induction pre arbitrary: b)
  case (Cons c pre)
  have "0 \<le> sum_list (map c_time pre)" using Cons.prems(1) by (intro sum_list_nonneg) auto
  with Cons show ?case by (cases "c_func c") (fastforce simp: add.assoc)+
qed simp

lemma entries_append: "\<forall>c\<in>set pre. c_func c \<noteq> None \<Longrightarrow> entries (pre @ suf) = length pre + entries suf"
  by (induction pre) auto

lemma in_order_append:
  "\<forall>c\<in>set pre. c_func c \<noteq> None \<Longrightarrow>
   in_order (pre @ suf) \<longleftrightarrow> (\<forall>c\<in>set pre. 0 \<le> c_time c) \<and> in_order suf"
  by (induction pre) auto

lemma enter_split:
  "\<forall>d\<in>set xs. fst d \<le> fst e \<Longrightarrow> \<forall>d\<in>set ys. fst e < fst d \<Longrightarrow> enter e (xs @ ys) = xs @ e # ys"
  by (cases ys) (auto simp: enter_def takeWhile_append dropWhile_append)

lemma timeout_enters_due:
  assumes wf: "in_order cs" "length cs = NCALL" and room: "entries cs + 1 < NCALL" and pos: "0 \<le> tim"
  shows "\<exists>cs'. timeout f a tim cs = Done cs' \<and> due 0 cs' = enter (tim, f, a) (due 0 cs) \<and> in_order cs'
    \<and> length cs' = NCALL \<and> entries cs' = entries cs + 1"
proof -
  from timeout_scan_due [OF wf(1), of tim] obtain pre suf t where
    sc: "timeout_scan cs tim = Some (pre, suf, t)" "cs = pre @ suf" "suf \<noteq> []"
    "\<forall>c\<in>set pre. c_func c \<noteq> None" "in_order suf" "0 \<le> t" "t = tim - sum_list (map c_time pre)"
    "\<forall>c\<in>set pre. 0 \<le> c_time c" "c_func (hd suf) = None \<or> t < c_time (hd suf)" using pos by blast
  then obtain c rest where suf: "suf = c # rest" by (cases suf) auto
  let ?p = "c\<lparr>c_time := c_time c - t\<rparr>"
  have ent: "entries cs = length pre + entries (c # rest)" using sc(2,4) suf entries_append by metis
  have "entries (?p # rest) = entries (c # rest)" by simp
  moreover have "length cs = length pre + Suc (length rest)" using sc(2) suf by simp
  ultimately have lt: "entries (?p # rest) < length rest" using ent room wf(2) by linarith
  from shift_up_due [OF lt, of tim] obtain up where
    up: "shift_up ?p rest = Some up" "due tim up = due tim (?p # rest)" "in_order (?p # rest) \<longrightarrow> in_order up"
    "length up = length rest" "entries up = entries (?p # rest)" by blast
  let ?new = "\<lparr>c_time = t, c_arg = a, c_func = Some f\<rparr>"
  have np: "length pre < NCALL - 1" using ent room by auto
  have res: "timeout f a tim cs = Done (pre @ ?new # up)"
    using sc(1) suf up(1) np by (simp add: timeout_def Let_def)
  have base: "sum_list (map c_time pre) + t = tim" using sc(7) by simp
  have "due 0 (pre @ ?new # up) = due 0 pre @ (tim, f, a) # due tim (?p # rest)"
    using due_append [OF sc(4), of 0 "?new # up"] base up(2) by simp
  also have "due tim (?p # rest) = due (sum_list (map c_time pre)) (c # rest)"
    using base by (cases "c_func c") (simp_all add: sc(7) algebra_simps)
  also have "due 0 pre @ (tim, f, a) # due (sum_list (map c_time pre)) (c # rest) = enter (tim, f, a) (due 0 cs)"
  proof -
    have "\<forall>d\<in>set (due 0 pre). fst d \<le> tim"
      using due_le [OF sc(8), of _ 0] base sc(6) by fastforce
    moreover have "\<forall>d\<in>set (due (sum_list (map c_time pre)) (c # rest)). tim < fst d"
    proof (cases "c_func c")
      case (Some g)
      then have "t < c_time c" "in_order rest" using sc(5,9) suf by auto
      with due_ge [of rest _ "sum_list (map c_time pre) + c_time c"] Some base show ?thesis by fastforce
    qed simp
    ultimately show ?thesis
      using enter_split [of "due 0 pre" "(tim, f, a)"] due_append [OF sc(4), of 0 suf] sc(2) suf by simp
  qed
  finally have d: "due 0 (pre @ ?new # up) = enter (tim, f, a) (due 0 cs)" .
  have "in_order (?p # rest)" using sc(5,9) suf by auto
  then have "in_order (pre @ ?new # up)" using up(3) sc(4,6,8) by (simp add: in_order_append)
  moreover have "length (pre @ ?new # up) = NCALL" using wf(2) sc(2) suf up(4) by simp
  moreover have "entries (pre @ ?new # up) = entries cs + 1" using ent up(5) sc(4) by (simp add: entries_append)
  ultimately show ?thesis using res d by blast
qed

section \<open>A tick\<close>

lemma dec_first_due:
  assumes "in_order cs"
  shows "\<exists>cs'. dec_first cs = Some cs' \<and> length cs' = length cs \<and> in_order cs'
    \<and> due 0 cs' = map (\<lambda>(t, x). (max 0 (t - 1), x)) (due 0 cs)"
  using assms
proof (induction cs)
  case (Cons c cs)
  show ?case
  proof (cases "c_func c")
    case None
    then show ?thesis by auto
  next
    case (Some f)
    show ?thesis
    proof (cases "c_time c \<le> 0")
      case True
      with Cons.prems Some have "c_time c = 0" "in_order cs" by auto
      with Cons.IH Some True show ?thesis by auto
    next
      case False
      with Some Cons.prems have "in_order cs" by simp
      then have "map (\<lambda>(t, x). (max 0 (t - 1), x)) (due (c_time c) cs) = due (c_time c - 1) cs"
        using False due_ge [OF \<open>in_order cs\<close>, of _ "c_time c"]
        unfolding due_shift [of "c_time c"] due_shift [of "c_time c - 1"]
        by (fastforce simp: due_shift [of "c_time c"])
      with False Some Cons.prems show ?thesis by auto
    qed
  qed
qed simp

text \<open>How many entries at the front are due now.\<close>

fun ripe :: "callo list \<Rightarrow> nat" where
  "ripe [] = 0"
| "ripe (c # cs) = (if c_func c \<noteq> None \<and> c_time c \<le> 0 then Suc (ripe cs) else 0)"

lemma ripe_due:
  assumes "in_order cs"
  shows "due 0 (take (ripe cs) cs) = takeWhile (\<lambda>d. fst d \<le> 0) (due 0 cs)"
    and "due 0 (drop (ripe cs) cs) = dropWhile (\<lambda>d. fst d \<le> 0) (due 0 cs)"
    and "ripe cs < length cs" and "in_order (drop (ripe cs) cs)"
proof -
  have "due 0 (take (ripe cs) cs) = takeWhile (\<lambda>d. fst d \<le> 0) (due 0 cs)
    \<and> due 0 (drop (ripe cs) cs) = dropWhile (\<lambda>d. fst d \<le> 0) (due 0 cs)
    \<and> ripe cs < length cs \<and> in_order (drop (ripe cs) cs)"
    using assms
  proof (induction cs)
    case (Cons c cs)
    show ?case
    proof (cases "c_func c \<noteq> None \<and> c_time c \<le> 0")
      case True
      with Cons.prems have "c_time c = 0" "in_order cs" by auto
      with True Cons.IH show ?thesis by auto
    next
      case False
      with Cons.prems show ?thesis by (cases "c_func c") auto
    qed
  qed simp
  then show "due 0 (take (ripe cs) cs) = takeWhile (\<lambda>d. fst d \<le> 0) (due 0 cs)"
    "due 0 (drop (ripe cs) cs) = dropWhile (\<lambda>d. fst d \<le> 0) (due 0 cs)"
    "ripe cs < length cs" "in_order (drop (ripe cs) cs)" by blast+
qed

lemma ripe_zero: "in_order cs \<Longrightarrow> \<forall>c\<in>set (take (ripe cs) cs). c_func c \<noteq> None \<and> c_time c = 0"
  by (induction cs) auto

lemma ripe_drop: "ripe (drop (ripe cs) cs) = 0"
  by (induction cs) auto

lemma entries_due: "entries cs = length (due b cs)"
  by (induction cs arbitrary: b) (auto split: option.splits)

lemma compact_due:
  assumes "in_order cs" "length cs \<le> length ds"
  shows "\<exists>r. compact ds cs = Some r \<and> due b r = due b cs \<and> length r = length ds \<and> in_order r"
  using assms
proof (induction cs arbitrary: ds b)
  case (Cons c cs)
  then obtain d ds' where ds: "ds = d # ds'" by (cases ds) auto
  show ?case
  proof (cases "c_func c")
    case None
    then show ?thesis using ds by simp
  next
    case (Some f)
    with Cons.prems ds Cons.IH [of ds' "b + c_time c"] obtain r where
      "compact ds' cs = Some r" "due (b + c_time c) r = due (b + c_time c) cs" "length r = length ds'" "in_order r"
      by auto
    with Some ds Cons.prems show ?thesis by simp
  qed
qed simp

lemma due_sorted: "in_order cs \<Longrightarrow> sorted (map fst (due b cs))"
proof (induction cs arbitrary: b)
  case (Cons c cs)
  then show ?case using due_ge [of cs _ "b + c_time c"] by (cases "c_func c") auto
qed simp

lemma tick_split:
  fixes ds :: "(int \<times> 'a) list"
  assumes "sorted (map fst ds)" "\<forall>d\<in>set ds. 0 \<le> fst d"
  defines "ds' \<equiv> map (\<lambda>(t, x). (max 0 (t - 1), x)) ds"
  shows "map snd (takeWhile (\<lambda>d. fst d \<le> 0) ds') = map snd (takeWhile (\<lambda>d. fst d \<le> 1) ds)"
    and "dropWhile (\<lambda>d. fst d \<le> 0) ds' = map (\<lambda>(t, x). (t - 1, x)) (dropWhile (\<lambda>d. fst d \<le> 1) ds)"
proof -
  have p: "(fst (max 0 (t - 1), x) \<le> 0) = (t \<le> 1)" for t :: int and x :: 'a by auto
  show "map snd (takeWhile (\<lambda>d. fst d \<le> 0) ds') = map snd (takeWhile (\<lambda>d. fst d \<le> 1) ds)"
    unfolding ds'_def by (induction ds) auto
  have big: "1 < fst d" if "d \<in> set (dropWhile (\<lambda>d. fst d \<le> 1) ds)" for d
  proof -
    let ?r = "dropWhile (\<lambda>d. fst d \<le> 1) ds"
    have "?r \<noteq> []" using that by (metis empty_iff empty_set)
    then have "\<not> fst (hd ?r) \<le> 1" by (rule hd_dropWhile)
    moreover have "sorted (map fst ?r)"
      using assms(1) by (metis dropWhile_eq_drop drop_map sorted_wrt_drop)
    then have "fst (hd ?r) \<le> fst d" using that by (cases ?r) auto
    ultimately show ?thesis by simp
  qed
  have "dropWhile (\<lambda>d. fst d \<le> 0) ds' = map (\<lambda>(t, x). (max 0 (t - 1), x)) (dropWhile (\<lambda>d. fst d \<le> 1) ds)"
    unfolding ds'_def by (induction ds) auto
  also have "\<dots> = map (\<lambda>(t, x). (t - 1, x)) (dropWhile (\<lambda>d. fst d \<le> 1) ds)"
    using big by (intro map_cong) fastforce+
  finally show "dropWhile (\<lambda>d. fst d \<le> 0) ds' = map (\<lambda>(t, x). (t - 1, x)) (dropWhile (\<lambda>d. fst d \<le> 1) ds)" .
qed

section \<open>Properties\<close>

text \<open>
  Claim C24. \<open>timeout\<close> enters a request so that the table, read as absolute expiry times, is the
  old one with the request inserted behind all that are due no later; this needs a free entry
  besides the end mark.
\<close>

theorem timeout_enters:
  assumes "in_order cs" "length cs = NCALL" "entries cs + 1 < NCALL" "0 \<le> tim"
  shows "\<exists>cs'. timeout f a tim cs = Done cs' \<and> due 0 cs' = enter (tim, f, a) (due 0 cs) \<and> in_order cs'
    \<and> length cs' = NCALL \<and> entries cs' = entries cs + 1"
  using timeout_enters_due [OF assms] .

definition demo_table :: "callo list" where
  "demo_table = \<lparr>c_time = 2, c_arg = 7, c_func = Some 1\<rparr> # \<lparr>c_time = 3, c_arg = 8, c_func = Some 2\<rparr>
     # replicate 18 zero_callo"

lemma demo_table_wf: "in_order demo_table" "length demo_table = 20" "entries demo_table = 2"
  by (simp_all add: demo_table_def zero_callo_def numeral_eq_Suc)

lemma demo_table_due: "due 0 demo_table = [(2, 1, 7), (5, 2, 8)]"
  by (simp add: demo_table_def zero_callo_def numeral_eq_Suc)

theorem timeout_enters_witness:
  "\<exists>cs'. timeout 3 9 2 demo_table = Done cs' \<and> due 0 cs' = [(2, 1, 7), (2, 3, 9), (5, 2, 8)]"
  using timeout_enters [of demo_table 2 3 9] demo_table_wf demo_table_due by (auto simp: enter_def)

text \<open>
  What a called function may do to the table: leave it alone, or enter one request with a positive delay, as
  \<open>ttrstrt\<close> does when the driver meets the next delay character. \<open>req\<close> tells which; a function is only asked to do so
  while the table has room.
\<close>

definition enters :: "(int \<times> nat \<times> int) option \<Rightarrow> callo list \<Rightarrow> callo list \<Rightarrow> bool" where
  "enters r cs cs' \<longleftrightarrow> (case r of None \<Rightarrow> cs' = cs | Some (t, g, b) \<Rightarrow> 0 < t \<and> timeout g b t cs = Done cs')"

definition polite :: "(nat \<Rightarrow> int \<Rightarrow> 'z kst_scheme \<Rightarrow> 'z kst_scheme) \<Rightarrow> (nat \<Rightarrow> int \<Rightarrow> 'z kst_scheme \<Rightarrow> (int \<times> nat \<times> int) option) \<Rightarrow> bool" where
  "polite call req \<longleftrightarrow>
     (\<forall>f a s. in_order (callout s) \<and> length (callout s) = NCALL \<and> entries (callout s) + 1 < NCALL
        \<longrightarrow> enters (req f a s) (callout s) (callout (call f a s)))"

text \<open>The calls one after another, with the requests they enter.\<close>

fun calls :: "(nat \<Rightarrow> int \<Rightarrow> 'z kst_scheme \<Rightarrow> 'z kst_scheme) \<Rightarrow> (nat \<Rightarrow> int \<Rightarrow> 'z kst_scheme \<Rightarrow> (int \<times> nat \<times> int) option)
    \<Rightarrow> (int \<times> nat \<times> int) list \<Rightarrow> 'z kst_scheme \<Rightarrow> 'z kst_scheme \<times> (int \<times> nat \<times> int) list" where
  "calls call req [] s = (s, [])"
| "calls call req ((_, f, a) # ds) s =
     (let (t, rs) = calls call req ds (call f a s) in (t, (case req f a s of None \<Rightarrow> rs | Some r \<Rightarrow> r # rs)))"

lemma calls_cong: "map snd xs = map snd ys \<Longrightarrow> calls call req xs s = calls call req ys s"
proof (induction xs arbitrary: ys s)
  case (Cons x xs)
  then obtain y ys' where "ys = y # ys'" "snd x = snd y" "map snd xs = map snd ys'" by (cases ys) auto
  with Cons.IH [of ys'] show ?case by (cases x; cases y) simp
qed simp

text \<open>A request with a positive delay goes behind the entries that are due now.\<close>

lemma timeout_scan_zero:
  assumes "\<forall>c\<in>set zs. c_func c \<noteq> None \<and> c_time c = 0" "0 \<le> t"
  shows "timeout_scan (zs @ cs) t = map_option (\<lambda>(pre, suf, t). (zs @ pre, suf, t)) (timeout_scan cs t)"
  using assms(1)
proof (induction zs)
  case Nil
  then show ?case by (simp add: option.map_ident_strong split_beta)
next
  case (Cons z zs)
  then show ?case using assms(2) by (simp add: option.map_comp o_def split_beta)
qed

lemma timeout_behind:
  assumes "\<forall>c\<in>set zs. c_func c \<noteq> None \<and> c_time c = 0" "in_order cs" "length (zs @ cs) = NCALL"
    "length zs + entries cs + 1 < NCALL" "0 < t"
  shows "\<exists>cs'. timeout g b t (zs @ cs) = Done (zs @ cs') \<and> due 0 cs' = enter (t, g, b) (due 0 cs) \<and> in_order cs'
    \<and> length cs' = length cs \<and> entries cs' = entries cs + 1"
proof -
  have wf: "in_order (zs @ cs)" using assms(1,2) by (induction zs) auto
  have e: "entries (zs @ cs) = length zs + entries cs" using assms(1) by (intro entries_append) auto
  obtain ts where ts: "timeout g b t (zs @ cs) = Done ts" "due 0 ts = enter (t, g, b) (due 0 (zs @ cs))" "in_order ts"
    "length ts = NCALL" "entries ts = entries (zs @ cs) + 1"
    using timeout_enters_due [OF wf assms(3), of t g b] e assms(4,5) by auto
  obtain cs' where cs': "ts = zs @ cs'"
    using ts(1) assms(5) unfolding timeout_def timeout_scan_zero [OF assms(1) order.strict_implies_order [OF assms(5)]]
    by (auto simp: Let_def split: option.splits if_splits)
  have z: "due 0 zs = map (\<lambda>c. (0, the (c_func c), c_arg c)) zs" "sum_list (map c_time zs) = 0"
    using assms(1) by (induction zs) (auto split: option.splits)
  have "due 0 zs @ due 0 cs' = enter (t, g, b) (due 0 zs @ due 0 cs)"
    using ts(2) assms(1) z(2) unfolding cs' by (simp add: due_append)
  also have "\<dots> = due 0 zs @ enter (t, g, b) (due 0 cs)"
  proof -
    have le: "fst d \<le> t" if "d \<in> set (due 0 zs)" for d using that assms(5) unfolding z(1) by auto
    have "takeWhile (\<lambda>d. fst d \<le> t) (due 0 zs @ due 0 cs) = due 0 zs @ takeWhile (\<lambda>d. fst d \<le> t) (due 0 cs)"
      by (rule takeWhile_append2) (rule le)
    moreover have "dropWhile (\<lambda>d. fst d \<le> t) (due 0 zs @ due 0 cs) = dropWhile (\<lambda>d. fst d \<le> t) (due 0 cs)"
      by (rule dropWhile_append2) (rule le)
    ultimately show ?thesis by (simp add: enter_def)
  qed
  finally have "due 0 cs' = enter (t, g, b) (due 0 cs)" by simp
  moreover have "in_order cs'" using ts(3) assms(1) unfolding cs' by (simp add: in_order_append)
  moreover have "length cs' = length cs" using ts(4) assms(3) unfolding cs' by simp
  moreover have "entries cs' = entries cs + 1"
    using ts(5) e entries_append [of zs cs'] assms(1) unfolding cs' by auto
  ultimately show ?thesis using ts(1) cs' by blast
qed

text \<open>
  The loop over the due entries, of which \<open>zs\<close> have been called and \<open>ys\<close> not yet; \<open>cs\<close> is the rest of the table.
\<close>

lemma run_callouts_calls:
  assumes "polite call req" "\<forall>c\<in>set (zs @ ys). c_func c \<noteq> None \<and> c_time c = 0"
    "callout s = zs @ ys @ cs" "in_order cs" "ripe cs = 0" "length (callout s) = NCALL" "length ys < n"
    "length zs + 2 * length ys + entries cs \<le> NCALL - 1"
  shows "\<exists>cs'. run_callouts n call (length zs) s = Done (length zs + length ys, fst (calls call req (due 0 ys) s))
    \<and> callout (fst (calls call req (due 0 ys) s)) = zs @ ys @ cs' \<and> in_order cs' \<and> ripe cs' = 0
    \<and> length cs' = length cs \<and> due 0 cs' = fold enter (snd (calls call req (due 0 ys) s)) (due 0 cs)"
  using assms(2-8)
proof (induction ys arbitrary: zs s cs n)
  case Nil
  then obtain c cs0 where c: "cs = c # cs0" by (cases cs) auto
  from Nil obtain m where "n = Suc m" by (cases n) auto
  with Nil c show ?case by (auto simp: nth_append split: option.splits if_splits)
next
  case (Cons y ys)
  then obtain m f where n: "n = Suc m" and f: "c_func y = Some f" "c_time y = 0" by (cases n) auto
  let ?s = "call f (c_arg y) s" let ?r = "req f (c_arg y) s"
  have z: "\<forall>c\<in>set ((zs @ [y]) @ ys). c_func c \<noteq> None \<and> c_time c = 0" using Cons.prems(1) by simp
  have ent: "entries (callout s) = length zs + Suc (length ys) + entries cs"
    using entries_append [of "zs @ y # ys" cs] Cons.prems(1,2) by simp
  have ord: "in_order (callout s)" using in_order_append [of "zs @ y # ys" cs] Cons.prems(1,2,3) by simp
  have "entries (callout s) + 1 < NCALL" using ent Cons.prems(7) by simp
  with assms(1) ord Cons.prems(5) have en: "enters ?r (callout s) (callout ?s)" by (auto simp: polite_def)
  have "\<exists>cs1. callout ?s = (zs @ [y]) @ ys @ cs1 \<and> in_order cs1 \<and> ripe cs1 = 0 \<and> length cs1 = length cs
    \<and> entries cs1 \<le> entries cs + 1 \<and> due 0 cs1 = (case ?r of None \<Rightarrow> due 0 cs | Some r \<Rightarrow> enter r (due 0 cs))"
  proof (cases ?r)
    case None
    with en Cons.prems show ?thesis by (intro exI [of _ cs]) (simp add: enters_def)
  next
    case (Some r)
    obtain t g b where r: "r = (t, g, b)" by (cases r)
    with en Some have t: "0 < t" "timeout g b t (callout s) = Done (callout ?s)" by (simp_all add: enters_def)
    obtain cs1 where cs1: "timeout g b t ((zs @ y # ys) @ cs) = Done ((zs @ y # ys) @ cs1)"
      "due 0 cs1 = enter (t, g, b) (due 0 cs)" "in_order cs1" "length cs1 = length cs" "entries cs1 = entries cs + 1"
      using timeout_behind [of "zs @ y # ys" cs t g b] Cons.prems(1,2,3,5,7) t(1) by auto
    have "callout ?s = (zs @ [y]) @ ys @ cs1" using t(2) cs1(1) Cons.prems(2) by simp
    moreover have "ripe cs1 = 0"
    proof -
      have "due 0 cs = [] \<or> 0 < fst (hd (due 0 cs))" using Cons.prems(4) by (cases cs) (auto split: if_splits option.splits)
      then have "0 < fst (hd (due 0 cs1))" "due 0 cs1 \<noteq> []"
        unfolding cs1(2) enter_def using t(1) by (cases "due 0 cs"; auto)+
      then show ?thesis by (cases cs1) (auto split: option.splits)
    qed
    ultimately show ?thesis using cs1 Some r by (intro exI [of _ cs1]) simp
  qed
  then obtain cs1 where cs1: "callout ?s = (zs @ [y]) @ ys @ cs1" "in_order cs1" "ripe cs1 = 0" "length cs1 = length cs"
    "entries cs1 \<le> entries cs + 1" "due 0 cs1 = (case ?r of None \<Rightarrow> due 0 cs | Some r \<Rightarrow> enter r (due 0 cs))" by blast
  have len: "length (callout ?s) = NCALL" using cs1(1,4) Cons.prems(2,5) by simp
  from Cons.IH [OF z cs1(1-3) len, of m] cs1(5) Cons.prems(6,7) n obtain cs' where
    IH: "run_callouts m call (length (zs @ [y])) ?s = Done (length (zs @ [y]) + length ys, fst (calls call req (due 0 ys) ?s))"
    "callout (fst (calls call req (due 0 ys) ?s)) = (zs @ [y]) @ ys @ cs'" "in_order cs'" "ripe cs' = 0"
    "length cs' = length cs1" "due 0 cs' = fold enter (snd (calls call req (due 0 ys) ?s)) (due 0 cs1)" by auto
  have "run_callouts n call (length zs) s = run_callouts m call (length (zs @ [y])) ?s"
    using n f Cons.prems(2,5) by (simp add: nth_append)
  moreover have "calls call req (due 0 (y # ys)) s =
      (fst (calls call req (due 0 ys) ?s), (case ?r of None \<Rightarrow> id | Some r \<Rightarrow> Cons r) (snd (calls call req (due 0 ys) ?s)))"
    using f by (simp add: split_beta Let_def split: option.splits)
  ultimately show ?case using IH cs1(4,6) by (intro exI [of _ cs']) (simp split: option.splits)
qed

text \<open>
  Claim C25. A clock tick calls, in order, exactly the functions that are due within one tick, and leaves the others
  with one tick less to go. A called function may itself enter a request with a positive delay, as the restart
  of a terminal does, and otherwise leaves the table alone: the request is entered among the others, counted from this
  tick, and not called in the same tick. The table
  must have room for one request of each called function.
\<close>

theorem clock_fires_due:
  assumes "polite call req" "in_order (callout s)" "length (callout s) = NCALL"
    "entries (callout s) + length (takeWhile (\<lambda>d. fst d \<le> 1) (due 0 (callout s))) < NCALL"
  shows "\<exists>cs s'. clock_callouts call s = Done s'
    \<and> due 0 cs = map (\<lambda>(t, x). (max 0 (t - 1), x)) (due 0 (callout s))
    \<and> (case calls call req (takeWhile (\<lambda>d. fst d \<le> 1) (due 0 (callout s))) (s\<lparr>callout := cs\<rparr>) of (t, rs) \<Rightarrow>
         s' = t\<lparr>callout := callout s'\<rparr>
         \<and> due 0 (callout s') = fold enter rs (map (\<lambda>(t, x). (t - 1, x)) (dropWhile (\<lambda>d. fst d \<le> 1) (due 0 (callout s)))))
    \<and> in_order (callout s') \<and> length (callout s') = NCALL"
proof (cases "c_func (hd (callout s))")
  case None
  then have "due 0 (callout s) = []" "clock_callouts call s = Done s"
    using assms(3) by (cases "callout s"; simp add: clock_callouts_def)+
  with assms(2,3) show ?thesis by (intro exI [of _ "callout s"] exI [of _ s]) simp
next
  case (Some f)
  from dec_first_due [OF assms(2)] obtain cs where
    cs: "dec_first (callout s) = Some cs" "length cs = NCALL" "in_order cs"
    "due 0 cs = map (\<lambda>(t, x). (max 0 (t - 1), x)) (due 0 (callout s))" using assms(3) by auto
  let ?s = "s\<lparr>callout := cs\<rparr>" let ?ys = "take (ripe cs) cs" let ?cs = "drop (ripe cs) cs"
  let ?D = "takeWhile (\<lambda>d. fst d \<le> 1) (due 0 (callout s))"
  have ne: "callout s \<noteq> []" "cs \<noteq> []" using assms(3) cs(2) by auto
  note split = tick_split [OF due_sorted [OF assms(2), of 0]] due_ge [OF assms(2), of _ 0]
  have "map snd (due 0 ?ys) = map snd ?D" using split ripe_due(1) [OF cs(3)] cs(4) by simp
  then have fired: "calls call req (due 0 ?ys) ?s = calls call req ?D ?s" and lD: "length (due 0 ?ys) = length ?D"
    by (rule calls_cong, metis length_map)
  have rest: "due 0 ?cs = map (\<lambda>(t, x). (t - 1, x)) (dropWhile (\<lambda>d. fst d \<le> 1) (due 0 (callout s)))"
    using split ripe_due(2) [OF cs(3)] cs(4) by simp
  obtain t rs where tr: "calls call req ?D ?s = (t, rs)" by (cases "calls call req ?D ?s")
  have z: "\<forall>c\<in>set ([] @ ?ys). c_func c \<noteq> None \<and> c_time c = 0" using ripe_zero [OF cs(3)] by simp
  have "entries cs = length (due 0 cs)" for cs :: "callo list" by (rule entries_due)
  moreover have "length ?ys = length ?D" using lD entries_due [of ?ys] entries_append [of ?ys "[]"] z by simp
  ultimately have room: "length ([] :: callo list) + 2 * length ?ys + entries ?cs \<le> NCALL - 1"
    using assms(4) entries_append [of ?ys ?cs] z cs(4) by simp
  have rp: "ripe ?cs = 0" by (rule ripe_drop)
  have len: "length ?ys < NCALL + 1" using cs(2) by simp
  from run_callouts_calls [OF assms(1) z _ ripe_due(4) [OF cs(3)] rp _ len room, of ?s, unfolded fired tr] cs(2)
  obtain cs' where cs': "run_callouts (NCALL + 1) call 0 ?s = Done (length ?ys, t)" "callout t = ?ys @ cs'" "in_order cs'"
    "length cs' = length ?cs" "due 0 cs' = fold enter rs (due 0 ?cs)" by auto
  show ?thesis
  proof (cases "c_time (hd cs) > 0")
    case True
    then have r0: "ripe cs = 0" using ne(2) by (cases cs) auto
    then have "?D = []" using lD by simp
    moreover have "clock_callouts call s = Done ?s" using True Some cs(1) ne(1) by (simp add: clock_callouts_def)
    ultimately show ?thesis using rest cs r0 by (intro exI [of _ cs] exI [of _ ?s]) simp
  next
    case False
    obtain r where r: "compact (callout t) cs' = Some r" "due 0 r = due 0 cs'" "length r = NCALL" "in_order r"
      using compact_due [OF cs'(3), of "callout t" 0] cs'(2,4) cs(2) by auto
    have "drop (length ?ys) (callout t) = cs'" using cs'(2) by simp
    with r cs'(1) have "clock_callouts call s = Done (t\<lparr>callout := r\<rparr>)"
      using False Some cs(1) ne(1) by (simp add: clock_callouts_def)
    then show ?thesis using tr r cs'(5) rest cs(4) by (intro exI [of _ cs] exI [of _ "t\<lparr>callout := r\<rparr>"]) simp
  qed
qed

text \<open>A function that has itself called again after seven ticks.\<close>

definition demo_again :: "nat \<Rightarrow> int \<Rightarrow> kst \<Rightarrow> kst" where
  "demo_again f a s = (case timeout f a 7 (callout s) of Done cs \<Rightarrow> s\<lparr>callout := cs\<rparr> | _ \<Rightarrow> s)"

lemma demo_again_polite: "polite demo_again (\<lambda>f a s. Some (7, f, a))"
  unfolding polite_def
proof (intro allI impI)
  fix f a and s :: kst
  assume "in_order (callout s) \<and> length (callout s) = NCALL \<and> entries (callout s) + 1 < NCALL"
  then obtain cs where "timeout f a 7 (callout s) = Done cs" using timeout_enters_due [of "callout s" 7 f a] by auto
  then show "enters (Some (7, f, a)) (callout s) (callout (demo_again f a s))" by (simp add: enters_def demo_again_def)
qed

theorem clock_fires_due_witness:
  "\<exists>s'. clock_callouts demo_again (bss\<lparr>callout := \<lparr>c_time = 1, c_arg = 6, c_func = Some 3\<rparr> # butlast demo_table\<rparr>) = Done s'
    \<and> due 0 (callout s') = [(2, 1, 7), (5, 2, 8), (7, 3, 6)]"
proof -
  let ?cs = "\<lparr>c_time = 1, c_arg = 6, c_func = Some 3\<rparr> # butlast demo_table"
  have w: "in_order ?cs" "length ?cs = NCALL" "entries ?cs = 3" "due 0 ?cs = [(1, 3, 6), (3, 1, 7), (6, 2, 8)]"
    by (simp_all add: demo_table_def zero_callo_def numeral_eq_Suc)
  show ?thesis
    using clock_fires_due [OF demo_again_polite, of "bss\<lparr>callout := ?cs\<rparr>"] w by (auto simp: enter_def)
qed

text \<open>
  The overflow check of \<open>timeout\<close> looks at the place of the new entry and not at the
  end of the table: with nineteen entries in use a request before the last one is not refused,
  and the move of the end mark writes behind the array.
\<close>

theorem timeout_overrun:
  "timeout f a 0 (replicate 19 \<lparr>c_time = 1, c_arg = 0, c_func = Some 1\<rparr> @ [zero_callo]) = Overrun"
  by (simp add: timeout_def zero_callo_def numeral_eq_Suc)

end
