(* ===== verification/Userio.thy ===== *)
theory Userio
  imports Kernel_State Bytes
begin

text \<open>
  Access to user memory and to the kernel objects that \<open>u_base\<close> may point to: the page table
  (\<open>usr/sys/bcm283x/page_tables.c\<close>), the block moves of \<open>bcm283x_machdep.c\<close>, and \<open>passc\<close>,
  \<open>cpass\<close> and \<open>bcopy\<close> of \<open>usr/sys/sys/subr.c\<close>. User memory is what the page table makes of the
  physical pages \<open>core\<close>; the kernel reads and writes it with ordinary loads and stores, so an
  access to an unmapped page is a data abort in kernel mode, which panics. Caches and the
  translation buffer are taken to be coherent.
\<close>

section \<open>Pages\<close>

definition setup_one_page_mapping :: "int \<Rightarrow> int \<Rightarrow> int \<Rightarrow> 'z kst_scheme \<Rightarrow> (unit, 'z kst_scheme) res" where
  "setup_one_page_mapping srcpg dstpg a s =
     (if dstpg AND 0xfff00000 \<noteq> 0 \<or> srcpg AND 0xfff00000 \<noteq> 0
      then Panic ''setup_one_page_mapping: bad page'' s
      else Ok () (s\<lparr>pgmap := (pgmap s)(dstpg := u32 (srcpg * PGSZ) OR a)\<rparr>))"

definition page_is_mapped :: "int \<Rightarrow> 'z kst_scheme \<Rightarrow> (bool, 'z kst_scheme) res" where
  "page_is_mapped dstpg s =
     (if dstpg AND 0xfff00000 \<noteq> 0 then Panic ''page_is_mapped: bad page'' s
      else Ok (pgmap s dstpg \<noteq> 0) s)"

text \<open>
  The translation of an address: page and offset. An entry whose two low bits are zero is
  a fault; a store needs the entry's read-only bit to be off.
\<close>

definition translate :: "bool \<Rightarrow> int \<Rightarrow> 'z kst_scheme \<Rightarrow> (int \<times> int) option" where
  "translate store a s =
     (let e = pgmap s (drop_bit 12 (u32 a)) in
      if e AND 3 = 0 \<or> (store \<and> e AND 0x200 \<noteq> 0) then None else Some (drop_bit 12 e, u32 a AND 0xfff))"

definition fubyte :: "int \<Rightarrow> 'z kst_scheme \<Rightarrow> (int, 'z kst_scheme) res" where
  "fubyte a s =
     (case translate False a s of
        None \<Rightarrow> Panic ''data abort in kernel mode'' s
      | Some (p, off) \<Rightarrow> Ok (core s p off) s)"

definition subyte :: "int \<Rightarrow> int \<Rightarrow> 'z kst_scheme \<Rightarrow> (int, 'z kst_scheme) res" where
  "subyte a v s =
     (case translate True a s of
        None \<Rightarrow> Panic ''data abort in kernel mode'' s
      | Some (p, off) \<Rightarrow> Ok 0 (s\<lparr>core := (core s)(p := (core s p)(off := u8 v))\<rparr>))"

text \<open>A pointer of the kernel: an address in its own memory or in the memory of the user.\<close>

datatype space = Kern | Usr

type_synonym ptr = "space \<times> int"

abbreviation (input) padd :: "ptr \<Rightarrow> int \<Rightarrow> ptr" where
  "padd p n \<equiv> (fst p, snd p + n)"

text \<open>
  The loads and stores of the block moves. \<open>k\<close> holds the bytes of the kernel object that is read or
  filled, by address. A word in a register is given by its four bytes; one access to a word that is aligned stays
  on the page of its first byte.
\<close>

definition ld8 :: "ptr \<Rightarrow> (int \<Rightarrow> int) \<Rightarrow> 'z kst_scheme \<Rightarrow> (int, 'z kst_scheme) res" where
  "ld8 p k s = (case fst p of Kern \<Rightarrow> Ok (k (snd p)) s | Usr \<Rightarrow> fubyte (snd p) s)"

definition st8 :: "ptr \<Rightarrow> int \<Rightarrow> (int \<Rightarrow> int) \<Rightarrow> 'z kst_scheme \<Rightarrow> (int \<Rightarrow> int, 'z kst_scheme) res" where
  "st8 p v k s =
     (case fst p of Kern \<Rightarrow> Ok (k(snd p := v)) s | Usr \<Rightarrow> bnd (subyte (snd p) v s) (\<lambda>_ s. Ok k s))"

definition ld32 :: "ptr \<Rightarrow> (int \<Rightarrow> int) \<Rightarrow> 'z kst_scheme \<Rightarrow> (int \<times> int \<times> int \<times> int, 'z kst_scheme) res" where
  "ld32 p k s =
     (case fst p of
        Kern \<Rightarrow> Ok (k (snd p), k (snd p + 1), k (snd p + 2), k (snd p + 3)) s
      | Usr \<Rightarrow>
          (case translate False (snd p) s of
             None \<Rightarrow> Panic ''data abort in kernel mode'' s
           | Some (g, q) \<Rightarrow> Ok (core s g q, core s g (q + 1), core s g (q + 2), core s g (q + 3)) s))"

definition st32 :: "ptr \<Rightarrow> int \<times> int \<times> int \<times> int \<Rightarrow> (int \<Rightarrow> int) \<Rightarrow> 'z kst_scheme \<Rightarrow> (int \<Rightarrow> int, 'z kst_scheme) res" where
  "st32 p v k s =
     (case v of (v0, v1, v2, v3) \<Rightarrow>
       (case fst p of
          Kern \<Rightarrow> Ok (k(snd p := v0, snd p + 1 := v1, snd p + 2 := v2, snd p + 3 := v3)) s
        | Usr \<Rightarrow>
            (case translate True (snd p) s of
               None \<Rightarrow> Panic ''data abort in kernel mode'' s
             | Some (g, q) \<Rightarrow>
                 Ok k (s\<lparr>core := (core s)(g := (core s g)(q := u8 v0, q + 1 := u8 v1, q + 2 := u8 v2, q + 3 := u8 v3))\<rparr>))))"

text \<open>
  \<open>while (sz) { *dst++ = *src++; sz -= NBPW; }\<close> and the loop over bytes. The size is unsigned and wraps, so a
  size that is not a multiple of the step would not end the loop; the count of rounds is the fuel.
\<close>

fun copy_words :: "nat \<Rightarrow> ptr \<Rightarrow> ptr \<Rightarrow> int \<Rightarrow> (int \<Rightarrow> int) \<Rightarrow> 'z kst_scheme \<Rightarrow> (int \<Rightarrow> int, 'z kst_scheme) res" where
  "copy_words 0 src dst sz k s = Stuck s"
| "copy_words (Suc n) src dst sz k s =
     (if sz = 0 then Ok k s
      else bnd (ld32 src k s) (\<lambda>w s. bnd (st32 dst w k s) (\<lambda>k s.
             copy_words n (padd src 4) (padd dst 4) (u32 (sz - 4)) k s)))"

fun copy_bytes :: "nat \<Rightarrow> ptr \<Rightarrow> ptr \<Rightarrow> int \<Rightarrow> (int \<Rightarrow> int) \<Rightarrow> 'z kst_scheme \<Rightarrow> (int \<Rightarrow> int, 'z kst_scheme) res" where
  "copy_bytes 0 src dst sz k s = Stuck s"
| "copy_bytes (Suc n) src dst sz k s =
     (if sz = 0 then Ok k s
      else bnd (ld8 src k s) (\<lambda>c s. bnd (st8 dst c k s) (\<lambda>k s.
             copy_bytes n (padd src 1) (padd dst 1) (u32 (sz - 1)) k s)))"

text \<open>The result and the kernel object afterwards. \<open>copyin\<close> and the other two call \<open>copyout\<close>.\<close>

definition copyout :: "ptr \<Rightarrow> ptr \<Rightarrow> int \<Rightarrow> (int \<Rightarrow> int) \<Rightarrow> 'z kst_scheme \<Rightarrow> (int \<times> (int \<Rightarrow> int), 'z kst_scheme) res" where
  "copyout src dst sz k s =
     bnd (if snd src AND 3 = 0 \<and> snd dst AND 3 = 0 \<and> sz mod 4 = 0
          then copy_words (nat sz + 1) src dst sz k s
          else copy_bytes (nat sz + 1) src dst sz k s)
       (\<lambda>k s. Ok (0, k) s)"

definition copyin :: "ptr \<Rightarrow> ptr \<Rightarrow> int \<Rightarrow> (int \<Rightarrow> int) \<Rightarrow> 'z kst_scheme \<Rightarrow> (int \<times> (int \<Rightarrow> int), 'z kst_scheme) res" where
  "copyin src dst sz k s = copyout src dst sz k s"

definition copyiin :: "ptr \<Rightarrow> ptr \<Rightarrow> int \<Rightarrow> (int \<Rightarrow> int) \<Rightarrow> 'z kst_scheme \<Rightarrow> (int \<times> (int \<Rightarrow> int), 'z kst_scheme) res" where
  "copyiin src dst sz k s = copyout src dst sz k s"

definition copyiout :: "ptr \<Rightarrow> ptr \<Rightarrow> int \<Rightarrow> (int \<Rightarrow> int) \<Rightarrow> 'z kst_scheme \<Rightarrow> (int \<times> (int \<Rightarrow> int), 'z kst_scheme) res" where
  "copyiout src dst sz k s = copyout src dst sz k s"

text \<open>
  The calls as the rest of the kernel makes them (address 0 stands for that of an object that is aligned): the object at the kernel address \<open>ka\<close> has the bytes \<open>bs\<close>, or
  receives \<open>n\<close> bytes.
\<close>

definition to_user :: "int \<Rightarrow> int list \<Rightarrow> int \<Rightarrow> 'z kst_scheme \<Rightarrow> (int, 'z kst_scheme) res" where
  "to_user ka bs a s =
     bnd (copyout (Kern, ka) (Usr, a) (int (length bs)) (\<lambda>i. bs ! nat (i - ka)) s) (\<lambda>(r, k) s. Ok r s)"

definition from_user :: "int \<Rightarrow> int \<Rightarrow> nat \<Rightarrow> 'z kst_scheme \<Rightarrow> (int \<times> int list, 'z kst_scheme) res" where
  "from_user ka a n s =
     bnd (copyin (Usr, a) (Kern, ka) (int n) (\<lambda>_. 0) s) (\<lambda>(r, k) s. Ok (r, map (\<lambda>i. k (ka + int i)) [0..<n]) s)"

section \<open>Words and copies\<close>

text \<open>The bytes at a user address, fetched and stored in order; \<open>fuword\<close> and \<open>suword\<close> take any address.\<close>

fun fetch_bytes :: "int \<Rightarrow> nat \<Rightarrow> 'z kst_scheme \<Rightarrow> (int list, 'z kst_scheme) res" where
  "fetch_bytes a 0 s = Ok [] s"
| "fetch_bytes a (Suc n) s =
     bnd (fubyte a s) (\<lambda>c s. bnd (fetch_bytes (a + 1) n s) (\<lambda>cs s. Ok (c # cs) s))"

fun store_bytes :: "int list \<Rightarrow> int \<Rightarrow> 'z kst_scheme \<Rightarrow> (int, 'z kst_scheme) res" where
  "store_bytes [] a s = Ok 0 s"
| "store_bytes (c # cs) a s = bnd (subyte a c s) (\<lambda>_ s. store_bytes cs (a + 1) s)"

definition fuword :: "int \<Rightarrow> 'z kst_scheme \<Rightarrow> (int, 'z kst_scheme) res" where
  "fuword a s = bnd (fetch_bytes a 4 s) (\<lambda>cs s. Ok (s32 (le32 (cs ! 0) (cs ! 1) (cs ! 2) (cs ! 3))) s)"

definition suword :: "int \<Rightarrow> int \<Rightarrow> 'z kst_scheme \<Rightarrow> (int, 'z kst_scheme) res" where
  "suword a v s = store_bytes (bytes32 v) a s"

text \<open>\<open>do *t++ = *f++; while(--count);\<close>: a count of zero wraps to the whole of the memory.\<close>

fun bcopy_loop :: "(nat \<Rightarrow> int) \<Rightarrow> nat \<Rightarrow> (nat \<Rightarrow> int) \<Rightarrow> nat \<Rightarrow> nat \<Rightarrow> nat \<Rightarrow> int" where
  "bcopy_loop src f dst t 0 = dst"
| "bcopy_loop src f dst t (Suc n) = bcopy_loop src (f + 1) (dst(t := src f)) (t + 1) n"

definition bcopy :: "(nat \<Rightarrow> int) \<Rightarrow> nat \<Rightarrow> (nat \<Rightarrow> int) \<Rightarrow> nat \<Rightarrow> nat \<Rightarrow> nat \<Rightarrow> int" where
  "bcopy src f dst t n = bcopy_loop src f dst t (if n = 0 then 4294967296 else n)"

section \<open>Kernel objects behind \<open>u_base\<close>\<close>

definition direct_bytes :: "direct \<Rightarrow> int list" where
  "direct_bytes d = bytes16 (d_ino d) @ d_name d"

definition direct_of :: "int list \<Rightarrow> direct" where
  "direct_of bs = \<lparr>d_ino = le16 (bs ! 0) (bs ! 1), d_name = drop 2 bs\<rparr>"

definition exdata_bytes :: "exdata_s \<Rightarrow> int list" where
  "exdata_bytes x = concat (map bytes32
     [ux_mag x, ux_tsize x, ux_dsize x, ux_bsize x, ux_ssize x, ux_entloc x, ux_unused x, ux_relflg x])"

definition exdata_of :: "int list \<Rightarrow> exdata_s" where
  "exdata_of bs =
     (let w = (\<lambda>k. le32 (bs ! (4 * k)) (bs ! (4 * k + 1)) (bs ! (4 * k + 2)) (bs ! (4 * k + 3))) in
      \<lparr>ux_mag = w 0, ux_tsize = w 1, ux_dsize = w 2, ux_bsize = w 3, ux_ssize = w 4, ux_entloc = w 5,
       ux_unused = w 6, ux_relflg = w 7\<rparr>)"

definition kget :: "int \<Rightarrow> 'z kst_scheme \<Rightarrow> int" where
  "kget a s =
     (let d = a - addr_of s Ch_dent; x = a - addr_of s Ch_exdata; c = a - addr_of s Ch_corename in
      if 0 \<le> d \<and> d < 16 then direct_bytes (u_dent (u s)) ! nat d
      else if 0 \<le> c \<and> c < 5 then map of_char (''core'' @ [CHR 0x00]) ! nat c
      else if 0 \<le> x \<and> x < 32 then exdata_bytes (u_exdata (u s)) ! nat x
      else kmem s a)"

definition kput :: "int \<Rightarrow> int \<Rightarrow> 'z kst_scheme \<Rightarrow> 'z kst_scheme" where
  "kput a v s =
     (let d = a - addr_of s Ch_dent; x = a - addr_of s Ch_exdata in
      if 0 \<le> d \<and> d < 16
      then upd_u (\<lambda>u. u\<lparr>u_dent := direct_of ((direct_bytes (u_dent u))[nat d := u8 v])\<rparr>) s
      else if 0 \<le> x \<and> x < 32
      then upd_u (\<lambda>u. u\<lparr>u_exdata := exdata_of ((exdata_bytes (u_exdata u))[nat x := u8 v])\<rparr>) s
      else s\<lparr>kmem := (kmem s)(a := u8 v)\<rparr>)"

section \<open>Passing characters\<close>

definition io_step :: "int \<Rightarrow> 'z kst_scheme \<Rightarrow> 'z kst_scheme" where
  "io_step n s = upd_u (\<lambda>u. u\<lparr>u_count := u16 (u_count u - n), u_offset := s32 (u_offset u + n),
     u_base := u32 (u_base u + n)\<rparr>) s"

definition passc :: "int \<Rightarrow> 'z kst_scheme \<Rightarrow> (int, 'z kst_scheme) res" where
  "passc c s =
     (let id = u_segflg (u s) in
      bnd (if id = 1 then Ok False (kput (u_base (u s)) c s)
           else bnd (subyte (u_base (u s)) c s) (\<lambda>r s. Ok (if id \<noteq> 0 then r \<noteq> 0 else r < 0) s))
        (\<lambda>fault s.
          if fault then Ok (-1) (set_error EFAULT s)
          else (let s = io_step 1 s in Ok (if u_count (u s) = 0 then -1 else 0) s)))"

definition cpass :: "'z kst_scheme \<Rightarrow> (int, 'z kst_scheme) res" where
  "cpass s =
     (if u_count (u s) = 0 then Ok (-1) s
      else
        (let id = u_segflg (u s) in
         bnd (if id = 1 then Ok (kget (u_base (u s)) s) s else fubyte (u_base (u s)) s) (\<lambda>c s.
           if id \<noteq> 1 \<and> c < 0 then Ok (-1) (set_error EFAULT s)
           else Ok (c AND 255) (io_step 1 s))))"

definition nodev :: "'z kst_scheme \<Rightarrow> 'z kst_scheme" where
  "nodev s = set_error ENODEV s"

section \<open>Lemmas\<close>

lemma bcopy_eq:
  assumes "0 < n"
  shows "bcopy src f dst t n = (\<lambda>k. if t \<le> k \<and> k < t + n then src (f + (k - t)) else dst k)"
proof -
  have "bcopy_loop src f dst t n = (\<lambda>k. if t \<le> k \<and> k < t + n then src (f + (k - t)) else dst k)"
  proof (induction n arbitrary: f t dst)
    case (Suc n)
    show ?case by (rule ext) (auto simp: Suc.IH intro!: arg_cong [of _ _ src])
  qed (simp add: fun_eq_iff)
  with assms show ?thesis by (simp add: bcopy_def)
qed

section \<open>Bytes in user memory\<close>

text \<open>A run of user addresses lies on writable pages, each address in a cell of its own.\<close>

definition writable_at :: "'z kst_scheme \<Rightarrow> int \<Rightarrow> nat \<Rightarrow> bool" where
  "writable_at s a n \<longleftrightarrow>
     (\<forall>i < n. translate True (a + int i) s \<noteq> None) \<and> inj_on (\<lambda>i. translate True (a + int i) s) {..<n}"

lemma translate_load: "translate True a s = Some x \<Longrightarrow> translate False a s = Some x"
  by (auto simp: translate_def Let_def split: if_splits)

lemma translate_core [simp]: "translate st a (s\<lparr>core := c\<rparr>) = translate st a s"
  by (simp add: translate_def)

lemma writable_core [simp]: "writable_at (s\<lparr>core := c\<rparr>) a n = writable_at s a n"
  by (simp add: writable_at_def)

lemma writable_Suc:
  assumes "writable_at s a (Suc n)"
  obtains p q where "translate True a s = Some (p, q)" "writable_at s (a + 1) n"
    "\<And>i. i < n \<Longrightarrow> translate True (a + 1 + int i) s \<noteq> Some (p, q)"
proof -
  have ok: "\<forall>i < Suc n. translate True (a + int i) s \<noteq> None" and inj: "inj_on (\<lambda>i. translate True (a + int i) s) {..<Suc n}"
    using assms by (auto simp: writable_at_def)
  have pq: "translate True a s \<noteq> None" using ok by force
  have sh: "a + 1 + int i = a + int (Suc i)" for i by simp
  have "translate True (a + 1 + int i) s \<noteq> translate True a s" if "i < n" for i
    using inj_onD [OF inj, of "Suc i" 0] that unfolding sh by auto
  moreover have "inj_on (\<lambda>i. translate True (a + 1 + int i) s) {..<n}"
    unfolding sh by (rule inj_onI) (use inj_onD [OF inj, of "Suc _" "Suc _"] in fastforce)
  moreover have "\<forall>i < n. translate True (a + 1 + int i) s \<noteq> None" using ok unfolding sh by blast
  ultimately show ?thesis using that pq by (auto simp: writable_at_def)
qed

text \<open>\<open>core_at s a\<close>: the byte a load from \<open>a\<close> gives, if the address is mapped.\<close>

definition core_at :: "'z kst_scheme \<Rightarrow> int \<Rightarrow> int" where
  "core_at s a = (case translate False a s of None \<Rightarrow> 0 | Some (p, q) \<Rightarrow> core s p q)"

lemma store_bytes_done:
  assumes "writable_at s a (length bs)" "\<forall>b \<in> set bs. 0 \<le> b \<and> b < 256"
  shows "\<exists>c. store_bytes bs a s = Ok 0 (s\<lparr>core := c\<rparr>)
    \<and> (\<forall>i < length bs. core_at (s\<lparr>core := c\<rparr>) (a + int i) = bs ! i)
    \<and> (\<forall>p q. (\<forall>i < length bs. translate True (a + int i) s \<noteq> Some (p, q)) \<longrightarrow> c p q = core s p q)"
  using assms
proof (induction bs arbitrary: a s)
  case Nil
  show ?case by (rule exI [of _ "core s"]) simp
next
  case (Cons b bs)
  obtain p q where pq: "translate True a s = Some (p, q)"
    and apart: "\<And>i. i < length bs \<Longrightarrow> translate True (a + 1 + int i) s \<noteq> Some (p, q)"
    and w: "writable_at s (a + 1) (length bs)"
    by (rule writable_Suc [of s a "length bs"]) (use Cons.prems(1) in simp_all)
  define s1 where "s1 = s\<lparr>core := (core s)(p := (core s p)(q := b))\<rparr>"
  have "store_bytes (b # bs) a s = store_bytes bs (a + 1) s1"
    using pq Cons.prems(2) by (simp add: subyte_def s1_def u8_id)
  moreover obtain c where c: "store_bytes bs (a + 1) s1 = Ok 0 (s1\<lparr>core := c\<rparr>)"
    "\<forall>i < length bs. core_at (s1\<lparr>core := c\<rparr>) (a + 1 + int i) = bs ! i"
    "\<forall>p q. (\<forall>i < length bs. translate True (a + 1 + int i) s1 \<noteq> Some (p, q)) \<longrightarrow> c p q = core s1 p q"
    using Cons.IH [of s1 "a + 1"] w Cons.prems(2) by (auto simp: s1_def)
  moreover have "s1\<lparr>core := c\<rparr> = s\<lparr>core := c\<rparr>" by (simp add: s1_def)
  moreover have "c p q = b" using c(3) apart by (simp add: s1_def)
  then have "core_at (s\<lparr>core := c\<rparr>) a = b" using translate_load [OF pq] by (simp add: core_at_def)
  moreover have "core_at (s\<lparr>core := c\<rparr>) (a + int i) = (b # bs) ! i" if "i < Suc (length bs)" for i
    using that c(2) \<open>core_at (s\<lparr>core := c\<rparr>) a = b\<close> \<open>s1\<lparr>core := c\<rparr> = s\<lparr>core := c\<rparr>\<close>
    by (cases i) (auto simp: algebra_simps)
  moreover have "c p' q' = core s p' q'"
    if out: "\<forall>i < Suc (length bs). translate True (a + int i) s \<noteq> Some (p', q')" for p' q'
  proof -
    have "(p', q') \<noteq> (p, q)" using out [rule_format, of 0] pq by auto
    moreover have "translate True (a + 1 + int i) s1 \<noteq> Some (p', q')" if "i < length bs" for i
      using out [rule_format, of "Suc i"] that by (simp add: s1_def algebra_simps)
    ultimately show ?thesis using c(3) by (auto simp: s1_def)
  qed
  ultimately show ?case by auto
qed

lemma fetch_bytes_reads:
  assumes "\<forall>i < n. translate False (a + int i) s \<noteq> None"
  shows "fetch_bytes a n s = Ok (map (\<lambda>i. core_at s (a + int i)) [0..<n]) s"
  using assms
proof (induction n arbitrary: a)
  case (Suc n)
  obtain p q where pq: "translate False a s = Some (p, q)" using Suc.prems by force
  have sh: "a + 1 + int i = a + int (Suc i)" for i by simp
  have "\<forall>i < n. translate False (a + 1 + int i) s \<noteq> None"
    using Suc.prems unfolding sh by blast
  from Suc.IH [OF this] pq show ?case
    by (simp add: fubyte_def core_at_def map_upt_Suc algebra_simps del: upt_Suc)
qed simp

section \<open>The block moves\<close>

lemma and_3: "(a :: int) AND 3 = a mod 4"
proof -
  have "(3 :: int) = mask 2" by (simp add: mask_eq_exp_minus_1)
  then show ?thesis by (simp only: take_bit_eq_mask [symmetric] take_bit_eq_mod) simp
qed

lemma and_4095: "(a :: int) AND 4095 = a mod 4096"
proof -
  have "(4095 :: int) = mask 12" by (simp add: mask_eq_exp_minus_1)
  then show ?thesis by (simp only: take_bit_eq_mask [symmetric] take_bit_eq_mod) simp
qed

text \<open>The bytes of an aligned word are on one page, in a row.\<close>

lemma translate_word:
  assumes "a mod 4 = 0" "0 \<le> i" "i < 4"
  shows "translate st (a + i) s = map_option (\<lambda>(g, q). (g, q + i)) (translate st a s)"
proof -
  define x where "x = u32 a"
  have "x mod 4 = 0" using assms(1) mod_mod_cancel [of 4 4294967296 a] by (simp add: x_def u32_def)
  then have x4: "x = 4 * (x div 4)" by presburger
  have r: "0 \<le> x" "x < 4294967296" by (simp_all add: x_def u32_def)
  have "u32 (a + i) = u32 (x + i)" by (simp add: x_def u32_def mod_simps)
  also have "x + i < 4294967296" using x4 r(2) assms(3) by presburger
  then have "u32 (x + i) = x + i" using r(1) assms(2) by (simp add: u32_id)
  finally have u: "u32 (a + i) = x + i" .
  have m: "x mod 4096 = 4 * (x div 4 mod 1024)" using x4 mult_mod_right [of 4 "x div 4" 1024] by simp
  moreover have "x div 4 mod 1024 \<le> 1023" using pos_mod_bound [of 1024 "x div 4"] by linarith
  ultimately have "x mod 4096 + i < 4096" using assms(3) by linarith
  moreover have "0 \<le> x mod 4096 + i" using assms(2) by simp
  moreover have "x + i = 4096 * (x div 4096) + (x mod 4096 + i)" by simp
  ultimately have d: "(x + i) div 4096 = x div 4096" "(x + i) mod 4096 = x mod 4096 + i"
    using int_div_pos_eq [of "x + i" 4096 "x div 4096" "x mod 4096 + i"] int_mod_pos_eq [of "x + i" 4096 "x div 4096" "x mod 4096 + i"]
    by simp_all
  show ?thesis
    unfolding translate_def u x_def [symmetric] by (simp add: Let_def drop_bit_eq_div and_4095 d)
qed

text \<open>
  The reference: byte after byte. The word loop and the byte loop both do this, whatever the alignment; also the
  page that is missing, and what has been stored when it is missed, are the same.
\<close>

fun moves :: "nat \<Rightarrow> ptr \<Rightarrow> ptr \<Rightarrow> (int \<Rightarrow> int) \<Rightarrow> 'z kst_scheme \<Rightarrow> (int \<Rightarrow> int, 'z kst_scheme) res" where
  "moves 0 src dst k s = Ok k s"
| "moves (Suc n) src dst k s =
     bnd (ld8 src k s) (\<lambda>c s. bnd (st8 dst c k s) (\<lambda>k s. moves n (padd src 1) (padd dst 1) k s))"

lemma moves_add:
  "moves (m + n) src dst k s =
   bnd (moves m src dst k s) (\<lambda>k s. moves n (padd src (int m)) (padd dst (int m)) k s)"
  for s :: "'z kst_scheme"
proof (induction m arbitrary: src dst k s)
  case (Suc m)
  have "moves (m + n) src dst =
      (\<lambda>k (s :: 'z kst_scheme). bnd (moves m src dst k s) (moves n (padd src (int m)) (padd dst (int m))))" for src dst :: ptr
    by (intro ext) (rule Suc.IH)
  then show ?case by (simp add: bnd_assoc add_ac)
qed simp

lemma copy_bytes_moves:
  "int n < 4294967296 \<Longrightarrow> n < f \<Longrightarrow> copy_bytes f src dst (int n) k s = moves n src dst k s"
  for s :: "'z kst_scheme"
proof (induction n arbitrary: f src dst k s)
  case 0 then show ?case by (cases f) auto
next
  case (Suc n)
  then obtain f' where f: "f = Suc f'" by (cases f) auto
  have "u32 (int (Suc n) - 1) = int n" using Suc.prems(1) by (simp add: u32_id)
  moreover have "copy_bytes f' src dst (int n) = (moves n src dst :: _ \<Rightarrow> 'z kst_scheme \<Rightarrow> _)" for src dst :: ptr
    using Suc.IH [of f'] Suc.prems f by (intro ext) simp
  ultimately show ?case using f by simp
qed

text \<open>One word is four bytes; the user's side and the kernel's side do not overlap.\<close>

lemma word_step:
  assumes "a mod 4 = 0"
  shows "bnd (ld32 (Kern, x) k s) (\<lambda>w s. st32 (Usr, a) w k s) = moves 4 (Kern, x) (Usr, a) k s"
    and "bnd (ld32 (Usr, a) k s) (\<lambda>w s. st32 (Kern, x) w k s) = moves 4 (Usr, a) (Kern, x) k s"
proof -
  have t: "translate st (a + 1) s = map_option (\<lambda>(g, q). (g, q + 1)) (translate st a s)"
    "translate st (a + 2) s = map_option (\<lambda>(g, q). (g, q + 2)) (translate st a s)"
    "translate st (a + 3) s = map_option (\<lambda>(g, q). (g, q + 3)) (translate st a s)" for st
    by (rule translate_word [OF assms]; simp)+
  have a: "a + 1 + 1 = a + 2" "a + 2 + 1 = a + 3" "x + 1 + 1 = x + 2" "x + 2 + 1 = x + 3" by simp_all
  show "bnd (ld32 (Kern, x) k s) (\<lambda>w s. st32 (Usr, a) w k s) = moves 4 (Kern, x) (Usr, a) k s"
    by (cases "translate True a s") (auto simp: ld32_def st32_def ld8_def st8_def subyte_def t a numeral_eq_Suc)
  show "bnd (ld32 (Usr, a) k s) (\<lambda>w s. st32 (Kern, x) w k s) = moves 4 (Usr, a) (Kern, x) k s"
    by (cases "translate False a s") (auto simp: ld32_def st32_def ld8_def st8_def fubyte_def t a numeral_eq_Suc)
qed

lemma copy_words_moves:
  fixes s :: "'z kst_scheme"
  assumes "fst src \<noteq> fst dst" "snd src mod 4 = 0" "snd dst mod 4 = 0" "int (4 * n) < 4294967296" "n < f"
  shows "copy_words f src dst (int (4 * n)) k s = moves (4 * n) src dst k s"
  using assms
proof (induction n arbitrary: f src dst k s)
  case 0 then show ?case by (cases f) auto
next
  case (Suc n)
  then obtain f' where f: "f = Suc f'" "n < f'" by (cases f) auto
  have "u32 (int (4 * Suc n) - 4) = int (4 * n)" using Suc.prems(4) by (simp add: u32_id)
  moreover have "(snd src + 4) mod 4 = 0" "(snd dst + 4) mod 4 = 0" using Suc.prems(2,3) by simp_all
  with Suc.IH [of "padd src 4" "padd dst 4" f'] Suc.prems(1,4) f(2)
  have IH: "copy_words f' (padd src 4) (padd dst 4) (int (4 * n)) = (moves (4 * n) (padd src 4) (padd dst 4) :: _ \<Rightarrow> 'z kst_scheme \<Rightarrow> _)"
    by (intro ext) simp
  ultimately have "copy_words f src dst (int (4 * Suc n)) k s
      = bnd (bnd (ld32 src k s) (\<lambda>w s. st32 dst w k s)) (\<lambda>k s. moves (4 * n) (padd src 4) (padd dst 4) k s)"
    unfolding f(1) bnd_assoc using IH Suc.prems(4) by simp
  also have "bnd (ld32 src k s) (\<lambda>w s. st32 dst w k s) = moves 4 src dst k s"
    using word_step(1) [where a = "snd dst" and x = "snd src"] word_step(2) [where a = "snd src" and x = "snd dst"] Suc.prems(1-3)
    by (cases src; cases dst; cases "fst src"; cases "fst dst") auto
  also have "bnd (moves 4 src dst k s) (\<lambda>k s. moves (4 * n) (padd src 4) (padd dst 4) k s) = moves (4 + 4 * n) src dst k s"
    by (simp only: moves_add of_nat_numeral)
  finally show ?case by simp
qed

lemma copyout_moves:
  assumes "fst src \<noteq> fst dst" "int n < 4294967296"
  shows "copyout src dst (int n) k s = bnd (moves n src dst k s) (\<lambda>k s. Ok (0, k) s)"
proof (cases "snd src AND 3 = 0 \<and> snd dst AND 3 = 0 \<and> int n mod 4 = 0")
  case True
  then obtain m where m: "n = 4 * m" by (metis dvd_def mod_0_imp_dvd of_nat_dvd_iff of_nat_numeral)
  show ?thesis
    unfolding copyout_def if_P [OF True] m using copy_words_moves [OF assms(1), of m "nat (int (4 * m)) + 1" k s] True assms(2) m
    by (simp add: and_3)
next
  case False
  then show ?thesis
    using copy_bytes_moves [OF assms(2), of "nat (int n) + 1" src dst k s] unfolding copyout_def if_not_P [OF False] by simp
qed

lemma moves_out:
  "moves n (Kern, x) (Usr, a) k s = bnd (store_bytes (map (\<lambda>i. k (x + int i)) [0..<n]) a s) (\<lambda>_ s. Ok k s)"
proof (induction n arbitrary: x a s)
  case (Suc n)
  have "map (\<lambda>i. k (x + int i)) [0..<Suc n] = k x # map (\<lambda>i. k (x + 1 + int i)) [0..<n]"
    by (simp add: map_upt_Suc add_ac del: upt_Suc)
  with Suc.IH [of "x + 1" "a + 1"] show ?case by (simp add: ld8_def st8_def bnd_assoc del: upt_Suc)
qed simp

lemma moves_in:
  "moves n (Usr, a) (Kern, x) k s =
   bnd (fetch_bytes a n s) (\<lambda>cs s. Ok (\<lambda>j. if x \<le> j \<and> j < x + int n then cs ! nat (j - x) else k j) s)"
proof (induction n arbitrary: x a k s)
  case (Suc n)
  have e: "(\<lambda>j. if x + 1 \<le> j \<and> j < x + 1 + int n then cs ! nat (j - (x + 1)) else (k(x := c)) j)
      = (\<lambda>j. if x \<le> j \<and> j < x + int (Suc n) then (c # cs) ! nat (j - x) else k j)" for c cs
  proof
    fix j
    have "nat (j - x) = Suc (nat (j - (x + 1)))" if "x < j" using that by simp
    then show "(if x + 1 \<le> j \<and> j < x + 1 + int n then cs ! nat (j - (x + 1)) else (k(x := c)) j)
      = (if x \<le> j \<and> j < x + int (Suc n) then (c # cs) ! nat (j - x) else k j)" by auto
  qed
  show ?case unfolding moves.simps ld8_def st8_def using Suc.IH [of "a + 1" "x + 1"] e by (simp add: bnd_assoc)
qed (auto simp: fun_eq_iff)

section \<open>Properties\<close>

text \<open>
  Claim C26. Bytes that \<open>copyout\<close> moves from a kernel object to writable pages, no two addresses on one cell, are the bytes that \<open>copyin\<close>
  then moves back, whatever the alignment of the three addresses and whether the words or the bytes are copied;
  every other cell of memory and of the two kernel objects keeps its contents.
\<close>

theorem copyout_copyin:
  assumes "writable_at s a n" "int n < 4294967296" "\<forall>i < n. 0 \<le> k (x + int i) \<and> k (x + int i) < 256"
  shows "\<exists>c. copyout (Kern, x) (Usr, a) (int n) k s = Ok (0, k) (s\<lparr>core := c\<rparr>)
    \<and> copyin (Usr, a) (Kern, y) (int n) k' (s\<lparr>core := c\<rparr>)
        = Ok (0, \<lambda>j. if y \<le> j \<and> j < y + int n then k (x + (j - y)) else k' j) (s\<lparr>core := c\<rparr>)
    \<and> (\<forall>p q. (\<forall>i < n. translate True (a + int i) s \<noteq> Some (p, q)) \<longrightarrow> c p q = core s p q)"
proof -
  let ?bs = "map (\<lambda>i. k (x + int i)) [0..<n]"
  obtain c where c: "store_bytes ?bs a s = Ok 0 (s\<lparr>core := c\<rparr>)" "\<forall>i < n. core_at (s\<lparr>core := c\<rparr>) (a + int i) = ?bs ! i"
    "\<forall>p q. (\<forall>i < n. translate True (a + int i) s \<noteq> Some (p, q)) \<longrightarrow> c p q = core s p q"
    using store_bytes_done [of s a ?bs] assms(1,3) by auto
  have "map (\<lambda>i. core_at (s\<lparr>core := c\<rparr>) (a + int i)) [0..<n] = ?bs"
    using c(2) by (intro nth_equalityI) auto
  moreover have "\<forall>i < n. translate False (a + int i) (s\<lparr>core := c\<rparr>) \<noteq> None"
    using assms(1) translate_load by (fastforce simp: writable_at_def)
  ultimately have "fetch_bytes a n (s\<lparr>core := c\<rparr>) = Ok ?bs (s\<lparr>core := c\<rparr>)" using fetch_bytes_reads [of n a "s\<lparr>core := c\<rparr>"] by simp
  moreover have "(\<lambda>j. if y \<le> j \<and> j < y + int n then ?bs ! nat (j - y) else k' j)
    = (\<lambda>j. if y \<le> j \<and> j < y + int n then k (x + (j - y)) else k' j)" by (rule ext) (auto simp: nat_less_iff)
  ultimately have "copyin (Usr, a) (Kern, y) (int n) k' (s\<lparr>core := c\<rparr>)
        = Ok (0, \<lambda>j. if y \<le> j \<and> j < y + int n then k (x + (j - y)) else k' j) (s\<lparr>core := c\<rparr>)"
    using assms(2) by (simp add: copyin_def copyout_moves moves_in)
  moreover have "copyout (Kern, x) (Usr, a) (int n) k s = Ok (0, k) (s\<lparr>core := c\<rparr>)"
    using assms(2) c(1) by (simp add: copyout_moves moves_out)
  ultimately show ?thesis using c(3) by blast
qed

text \<open>Page 1 of the address space on page 7 of memory, writable.\<close>

definition page_world :: world where
  "page_world = bss_world\<lparr>pgmap := (\<lambda>_. 0)(1 := 0x7c5f)\<rparr>"

text \<open>Four bytes at an aligned address, so one word, and back to an address that is not aligned.\<close>

theorem copyout_copyin_witness:
  "\<exists>c. copyout (Kern, 0) (Usr, 4100) 4 (\<lambda>i. 65 + i mod 8) page_world = Ok (0, \<lambda>i. 65 + i mod 8) (page_world\<lparr>core := c\<rparr>)
     \<and> copyin (Usr, 4100) (Kern, 1) 4 (\<lambda>_. 0) (page_world\<lparr>core := c\<rparr>)
         = Ok (0, \<lambda>j. if 1 \<le> j \<and> j < 5 then 65 + (0 + (j - 1)) mod 8 else 0) (page_world\<lparr>core := c\<rparr>)"
proof -
  have "translate True (4100 + int i) page_world = Some (7, 4 + int i)" if "i < 4" for i
  proof -
    have "translate True 4100 page_world = Some (7, 4)" by (simp add: translate_def page_world_def u32_def Let_def)
    then show ?thesis using translate_word [of 4100 "int i" True page_world] that by simp
  qed
  then have "writable_at page_world 4100 4" by (auto simp: writable_at_def inj_on_def)
  moreover have "\<forall>i < 4. 0 \<le> (\<lambda>i. 65 + i mod 8) (0 + int i) \<and> (\<lambda>i. 65 + i mod 8) (0 + int i) < (256 :: int)"
    by (auto intro: order.strict_trans1 [of _ "65 + 8"])
  ultimately obtain c where
    "copyout (Kern, 0) (Usr, 4100) (int 4) (\<lambda>i. 65 + i mod 8) page_world = Ok (0, \<lambda>i. 65 + i mod 8) (page_world\<lparr>core := c\<rparr>)"
    "copyin (Usr, 4100) (Kern, 1) (int 4) (\<lambda>_. 0) (page_world\<lparr>core := c\<rparr>)
         = Ok (0, \<lambda>j. if 1 \<le> j \<and> j < 1 + int 4 then 65 + (0 + (j - 1)) mod 8 else 0) (page_world\<lparr>core := c\<rparr>)"
    using copyout_copyin [of page_world 4100 4 "\<lambda>i. 65 + i mod 8" 0 1 "\<lambda>_. 0"] by auto
  then show ?thesis by (intro exI [of _ c]) simp
qed

end
