(* ===== verification/Sync.thy ===== *)
theory Sync
  imports Proc
begin

text \<open>
  Waiting for a condition: the kernel's idiom of a loop that marks its interest and sleeps until
  a condition goes away. Every sleep uses up one element of \<open>env\<close>, so the loop ends or leaves
  the process blocked.
\<close>

fun sleep_while :: "nat \<Rightarrow> (world \<Rightarrow> bool) \<Rightarrow> (world \<Rightarrow> world) \<Rightarrow> int \<Rightarrow> int \<Rightarrow> world \<Rightarrow> (unit, world) res" where
  "sleep_while 0 c mark chan pri w = Stuck w"
| "sleep_while (Suc n) c mark chan pri w =
     (if c w then bnd (sleep chan pri (mark w)) (\<lambda>_ w. sleep_while n c mark chan pri w) else Ok () w)"

definition await :: "(world \<Rightarrow> bool) \<Rightarrow> (world \<Rightarrow> world) \<Rightarrow> int \<Rightarrow> int \<Rightarrow> world \<Rightarrow> (unit, world) res" where
  "await c mark chan pri w = sleep_while (Suc (length (env w))) c mark chan pri w"

section \<open>What waking leaves alone\<close>

text \<open>The part of the state that the queue operations never touch, as a whole.\<close>

definition same_but_queues :: "'z kst_scheme \<Rightarrow> 'z kst_scheme \<Rightarrow> bool" where
  "same_but_queues s t \<longleftrightarrow>
     t = s\<lparr>proc := proc t, slpque := slpque t, runq := runq t, runrun := runrun t, runout := runout t,
           runin := runin t, printed := printed t\<rparr>"

definition outcome :: "('s \<Rightarrow> bool) \<Rightarrow> ('a, 's) res \<Rightarrow> bool" where
  "outcome P r = (case r of Ok x s \<Rightarrow> P s | Jump s \<Rightarrow> P s | Blocked c p s \<Rightarrow> P s | Panic m s \<Rightarrow> P s | Stuck s \<Rightarrow> P s)"

lemma outcome_simps [simp]:
  "outcome P (Ok x s) = P s" "outcome P (Jump s) = P s" "outcome P (Blocked c p s) = P s"
  "outcome P (Panic m s) = P s" "outcome P (Stuck s) = P s"
  by (simp_all add: outcome_def)

lemma outcome_bnd:
  "outcome P m \<Longrightarrow> (\<And>x s. m = Ok x s \<Longrightarrow> P s \<Longrightarrow> outcome P (f x s)) \<Longrightarrow> outcome P (bnd m f)"
  by (cases m) auto

lemma outcome_mono: "outcome P m \<Longrightarrow> (\<And>s. P s \<Longrightarrow> Q s) \<Longrightarrow> outcome Q m"
  by (cases m) auto

lemma same_refl [simp]: "same_but_queues s s"
  by (simp add: same_but_queues_def)

lemma same_trans: "same_but_queues s t \<Longrightarrow> same_but_queues t r \<Longrightarrow> same_but_queues s r"
  unfolding same_but_queues_def by (cases s; cases t; cases r) simp

lemma same_updI [simp]:
  "same_but_queues s (upd_proc p f s)" "same_but_queues s (slp_unlink i q l s)" "same_but_queues s (kprintf m s)"
  "same_but_queues s (s\<lparr>runrun := rr\<rparr>)" "same_but_queues s (s\<lparr>runq := rq\<rparr>)" "same_but_queues s (s\<lparr>runout := ro\<rparr>)"
  "same_but_queues s (s\<lparr>runin := ri\<rparr>)" "same_but_queues s (s\<lparr>slpque := sq\<rparr>)"
  by (simp_all add: same_but_queues_def slp_unlink_def upd_defs split: option.splits)

lemma setrq_same: "outcome (same_but_queues s) (setrq p s)"
proof (cases "on_queue qfuel (proc s) (runq s) p")
  case (Some b)
  then show ?thesis by (cases b) (simp_all add: setrq_def same_but_queues_def upd_proc_def kprintf_def)
qed (simp add: setrq_def)

lemma outcome_same_pre: "same_but_queues s t \<Longrightarrow> outcome (same_but_queues t) m \<Longrightarrow> outcome (same_but_queues s) m"
  by (erule outcome_mono) (rule same_trans)

lemma outcome_same_bnd:
  "outcome (same_but_queues s) m \<Longrightarrow> (\<And>x t. outcome (same_but_queues t) (f x t)) \<Longrightarrow> outcome (same_but_queues s) (bnd m f)"
  by (rule outcome_bnd) (auto intro: outcome_same_pre)

lemma wakeup_same_n:
  "(\<forall>chan i p q s. outcome (same_but_queues (s :: 'z kst_scheme)) (wakeup_loop n chan i p q s)) \<and>
   (\<forall>r s. outcome (same_but_queues (s :: 'z kst_scheme)) (setrun_n n r s))"
proof (induction n)
  case (Suc n)
  then have IH: "outcome (same_but_queues s) (wakeup_loop n chan i p q s)" "outcome (same_but_queues s) (setrun_n n r s)"
    for chan i p q r and s :: "'z kst_scheme" by auto
  have "outcome (same_but_queues s) (wakeup_loop (Suc n) chan i p q s)" for chan i p q and s :: "'z kst_scheme"
    by (auto simp: Let_def IH split: option.splits
        intro!: outcome_same_bnd outcome_same_pre [OF _ IH(2)] same_trans [OF same_updI(2) same_updI(1)])
  moreover have "outcome (same_but_queues s) (setrun_n (Suc n) r s)" for r and s :: "'z kst_scheme"
  proof -
    define tail where "tail t =
        (let t = (if p_pri (proc t r) < curpri t then t\<lparr>runrun := u8 (runrun t + 1)\<rparr> else t) in
         if runout t \<noteq> 0 \<and> SLOAD \<notin> p_flag (proc t r) then
           (let t = t\<lparr>runout := 0\<rparr>; c = addr_of t Ch_runout in wakeup_loop n c (HASH c) (slpque t (HASH c)) None t)
         else Ok () t)" for t :: "'z kst_scheme"
    have tail: "outcome (same_but_queues t) (tail t)" for t
      by (auto simp: Let_def tail_def intro!: outcome_same_pre [OF _ IH(1)] intro: same_trans [OF same_updI(4) same_updI(6)])
    have "setrun_n (Suc n) r s =
      (if p_stat (proc s r) = 0 \<or> p_stat (proc s r) = SZOMB then Panic ''Running a dead proc'' s
       else if p_wchan (proc s r) \<noteq> 0
       then wakeup_loop n (p_wchan (proc s r)) (HASH (p_wchan (proc s r))) (slpque s (HASH (p_wchan (proc s r)))) None s
       else bnd (setrq r (upd_proc r (\<lambda>r. r\<lparr>p_stat := SRUN\<rparr>) s)) (\<lambda>_. tail))"
      by (simp add: tail_def [abs_def] Let_def)
    then show ?thesis
      by (auto simp: IH(1) tail intro!: outcome_same_bnd outcome_same_pre [OF _ setrq_same])
  qed
  ultimately show ?case by blast
qed simp

lemma wakeup_same: "outcome (same_but_queues s) (wakeup chan s)"
  unfolding wakeup_def by (rule wakeup_same_n [THEN conjunct1, rule_format])

lemma setrun_same: "outcome (same_but_queues s) (setrun p s)"
  unfolding setrun_def by (rule wakeup_same_n [THEN conjunct2, rule_format])

lemma psignal_same: "outcome (same_but_queues s) (psignal p sig s)"
  by (auto simp: psignal_def Let_def intro!: outcome_same_pre [OF _ setrun_same] intro: same_trans [OF same_updI(1) same_updI(1)])

lemma issig_loop_same: "outcome (same_but_queues s) (issig_loop k s)"
proof (induction k arbitrary: s)
  case (Suc k)
  show ?case by (auto simp: Let_def intro!: outcome_same_pre [OF _ Suc])
qed simp

lemma issig_same: "outcome (same_but_queues s) (issig s)"
  by (simp add: issig_def issig_loop_same)

lemma sameD:
  assumes "same_but_queues s t"
  shows "u t = u s" "inode t = inode s" "file_t t = file_t s" "buf t = buf s" "text_t t = text_t s"
    "mount t = mount s" "addr_of t = addr_of s" "callout t = callout s" "cl t = cl s" "tty t = tty s"
    "core t = core s" "pgmap t = pgmap s" "kmem t = kmem s" "coremap t = coremap s" "swapmap t = swapmap s"
    "time t = time s" "nblkdev t = nblkdev s" "updlock t = updlock s" "ipc t = ipc s"
  using assms by (cases s; cases t; simp add: same_but_queues_def)+

lemma same_world:
  assumes "same_but_queues (s :: world) t"
  shows "env t = env s" "d_tab t = d_tab s" "d_strategy t = d_strategy s"
  using assms by (cases s; cases t; simp add: same_but_queues_def)+

section \<open>Waiting ends\<close>

lemma swtch_env: "swtch chan pri w = Ok () w' \<Longrightarrow> Suc (length (env w')) = length (env w)"
  by (auto simp: swtch_def split: list.splits)

lemma outcome_Ok: "outcome P m \<Longrightarrow> m = Ok x t \<Longrightarrow> P t"
  by simp

lemma sleep_env: "sleep chan pri w = Ok () w' \<Longrightarrow> Suc (length (env w')) = length (env w)"
  by (auto simp: sleep_def bnd_Ok_iff Let_def upd_proc_def split: if_splits
      dest!: swtch_env outcome_Ok [OF issig_same, THEN same_world(1)] outcome_Ok [OF wakeup_same, THEN same_world(1)])

lemma sleep_while_stops:
  "sleep_while n c mark chan pri w = Ok () w' \<Longrightarrow> \<not> c w'"
  by (induction n arbitrary: w) (auto simp: bnd_Ok_iff split: if_splits)

lemma sleep_while_fuel:
  assumes "\<forall>w. env (mark w) = env w" "\<forall>w t. c w \<longrightarrow> sleep chan pri (mark w) \<noteq> Stuck t"
  shows "length (env w) < n \<Longrightarrow> sleep_while n c mark chan pri w \<noteq> Stuck t"
proof (induction n arbitrary: w)
  case (Suc n)
  show ?case
  proof (cases "c w")
    case True
    with assms(2) have ns: "sleep chan pri (mark w) \<noteq> Stuck t" for t by blast
    show ?thesis
    proof (cases "sleep chan pri (mark w)")
      case (Ok x w')
      then have "length (env w') < n" using sleep_env [of chan pri "mark w" w'] Suc.prems assms(1) by simp
      with Suc.IH Ok True show ?thesis by simp
    qed (use True ns in auto)
  qed simp
qed simp

lemma await_stops: "await c mark chan pri w = Ok () w' \<Longrightarrow> \<not> c w'"
  unfolding await_def by (rule sleep_while_stops)

lemma await_ends:
  "\<forall>w. env (mark w) = env w \<Longrightarrow> \<forall>w t. c w \<longrightarrow> sleep chan pri (mark w) \<noteq> Stuck t \<Longrightarrow> await c mark chan pri w \<noteq> Stuck t"
  using sleep_while_fuel unfolding await_def by blast

lemma await_now [simp]: "\<not> c w \<Longrightarrow> await c mark chan pri w = Ok () w"
  by (simp add: await_def)

section \<open>Locks\<close>

text \<open>
  A lock that is waited for by sleeping. The client is any routine that works between \<open>lock\<close> and
  \<open>unlock\<close>; the provider promises that \<open>lock\<close> returns only with the lock taken, at once if it is free
  and only after another process has run if it is not.
\<close>

locale sleep_lock =
  fixes lock unlock :: "world \<Rightarrow> (unit, world) res"
    and held :: "world \<Rightarrow> bool"
  assumes lock_held: "lock w = Ok () w' \<Longrightarrow> held w' \<and> length (env w') \<le> length (env w)"
    and lock_free: "\<not> held w \<Longrightarrow> \<exists>w'. lock w = Ok () w'"
    and lock_waits: "held w \<Longrightarrow> lock w = Ok () w' \<Longrightarrow> length (env w') < length (env w)"
    and unlock_free: "unlock w = Ok () w' \<Longrightarrow> \<not> held w'"
begin

lemma held_alone: "held w \<Longrightarrow> env w = [] \<Longrightarrow> lock w \<noteq> Ok () w'"
  using lock_waits by force

lemma relock_never: "env w = [] \<Longrightarrow> bnd (lock w) (\<lambda>_ w. lock w) \<noteq> Ok () w'"
proof
  assume "env w = []" "bnd (lock w) (\<lambda>_ w. lock w) = Ok () w'"
  then obtain s where s: "lock w = Ok () s" "lock s = Ok () w'" by (auto simp: bnd_Ok_iff)
  from lock_held [OF s(1)] \<open>env w = []\<close> have "held s" "env s = []" by simp_all
  with s(2) held_alone show False by blast
qed

lemma critical_section:
  assumes "bnd (lock w) (\<lambda>_ w. bnd (body w) (\<lambda>x w. bnd (unlock w) (\<lambda>_ w. Ok x w))) = Ok x w'"
  shows "\<not> held w' \<and> (\<exists>w1 w2. held w1 \<and> body w1 = Ok x w2)"
  using assms lock_held unlock_free by (auto simp: bnd_Ok_iff)

lemma free_again: "bnd (lock w) (\<lambda>_ w. unlock w) = Ok () w' \<Longrightarrow> \<exists>w''. lock w' = Ok () w''"
  using unlock_free lock_free by (auto simp: bnd_Ok_iff)

end

lemma sleep_while_env:
  assumes "\<forall>w. env (mark w) = env w"
  shows "sleep_while n c mark chan pri w = Ok () w' \<Longrightarrow> length (env w') \<le> length (env w) \<and> (c w \<longrightarrow> length (env w') < length (env w))"
proof (induction n arbitrary: w)
  case (Suc n)
  show ?case
  proof (cases "c w")
    case True
    then obtain w1 where w1: "sleep chan pri (mark w) = Ok () w1" "sleep_while n c mark chan pri w1 = Ok () w'"
      using Suc.prems by (auto simp: bnd_Ok_iff)
    from Suc.IH [OF w1(2)] sleep_env [OF w1(1)] assms show ?thesis by simp
  qed (use Suc.prems in simp)
qed simp

lemma await_env:
  assumes "await c mark chan pri w = Ok () w'" "\<forall>w. env (mark w) = env w"
  shows "length (env w') \<le> length (env w)" "c w \<Longrightarrow> length (env w') < length (env w)"
  using sleep_while_env [OF assms(2)] assms(1) unfolding await_def by blast+

end
