(* ===== verification/Prf.thy ===== *)
theory Prf
  imports Kernel_State
begin

text \<open>
  Diagnostic output (\<open>usr/sys/sys/prf.c\<close>): number conversion, the format interpreter of the
  kernel's \<open>printf\<close>, and the messages about devices. The characters sent to the console are
  collected in the field \<open>printed\<close>.
\<close>

section \<open>Model\<close>

text \<open>The bases used are 8, 10 and 16; the first branch only makes the recursion well-founded.\<close>

function printn :: "nat \<Rightarrow> nat \<Rightarrow> string" where
  "printn n b =
     (if b < 2 then []
      else (if n div b \<noteq> 0 then printn (n div b) b else []) @ [''0123456789abcdef'' ! (n mod b)])"
  by pat_completeness auto

termination
proof (relation "measure fst")
  fix n b :: nat
  assume "\<not> b < 2" "n div b \<noteq> 0"
  then have "n div b < n" by (intro div_less_dividend) (auto intro: gr0I)
  then show "((n div b, b), n, b) \<in> measure fst" by simp
qed simp

declare printn.simps [simp del]

datatype parg = PInt int | PStr string

text \<open>
  \<open>None\<close> is a format that asks for an argument that is not there or of the other type, or that
  ends in a single percent sign, where the code reads behind the string.
\<close>

fun vprintf :: "string \<Rightarrow> parg list \<Rightarrow> string option" where
  "vprintf [] va = Some []"
| "vprintf (c # fmt) va =
     (if c \<noteq> CHR ''%'' then map_option (Cons c) (vprintf fmt va)
      else
        (case fmt of
           [] \<Rightarrow> None
         | d # fmt' \<Rightarrow>
             if d \<in> set ''duoxD'' then
               (case va of
                  PInt a # va' \<Rightarrow>
                    map_option (append (printn (nat (u32 a)) (if d = CHR ''o'' then 8 else if d = CHR ''x'' then 16 else 10)))
                      (vprintf fmt' va')
                | _ \<Rightarrow> None)
             else if d = CHR ''s'' then
               (case va of PStr t # va' \<Rightarrow> map_option (append t) (vprintf fmt' va') | _ \<Rightarrow> None)
             else vprintf fmt' va))"

definition printf :: "string \<Rightarrow> parg list \<Rightarrow> 'z kst_scheme \<Rightarrow> 'z kst_scheme" where
  "printf fmt va s = (case vprintf fmt va of None \<Rightarrow> s | Some m \<Rightarrow> kprintf m s)"

definition prdev :: "string \<Rightarrow> int \<Rightarrow> 'z kst_scheme \<Rightarrow> 'z kst_scheme" where
  "prdev str dev s = printf ''%s on dev %u/%u\<newline>'' [PStr str, PInt (major dev), PInt (minor dev)] s"

definition deverror :: "nat \<Rightarrow> int \<Rightarrow> int \<Rightarrow> 'z kst_scheme \<Rightarrow> 'z kst_scheme" where
  "deverror bp o1 o2 s =
     (let s = prdev ''err'' (b_dev (buf s bp)) s
      in printf ''bn=%D er=%o,%o\<newline>'' [PInt (b_blkno (buf s bp)), PInt o1, PInt o2] s)"

section \<open>Numbers read back\<close>

definition digit_val :: "char \<Rightarrow> nat" where
  "digit_val c = (if of_char c < (58 :: nat) then of_char c - 48 else of_char c - 87)"

definition number_val :: "nat \<Rightarrow> string \<Rightarrow> nat" where
  "number_val b cs = foldl (\<lambda>v c. b * v + digit_val c) 0 cs"

lemma digit_val_nth: "d < 16 \<Longrightarrow> digit_val (''0123456789abcdef'' ! d) = d"
proof -
  assume "d < 16"
  then have "d \<in> set [0..<16]" by simp
  then show ?thesis by (simp add: upt_rec digit_val_def) (elim disjE; simp)
qed

text \<open>
  \<open>printn\<close> ends and prints the number: read back in the same base the digits give the
  number, there is at least one, and no leading zero unless the number is zero.
\<close>

theorem printn_value:
  assumes "2 \<le> b" "b \<le> 16"
  shows "number_val b (printn n b) = n \<and> printn n b \<noteq> [] \<and> (n > 0 \<longrightarrow> digit_val (hd (printn n b)) > 0)"
  using assms
proof (induction n b rule: printn.induct)
  case (1 n b)
  have "n mod b < b" using "1.prems" by (intro mod_less_divisor) simp
  define c where "c = ''0123456789abcdef'' ! (n mod b)"
  note step = printn.simps [of n b, folded c_def]
  have d: "digit_val c = n mod b"
    unfolding c_def using \<open>n mod b < b\<close> "1.prems" by (intro digit_val_nth) linarith
  show ?case
  proof (cases "n div b = 0")
    case True
    then have "n mod b = n" using "1.prems" by (simp add: div_eq_0_iff)
    with True d "1.prems" show ?thesis by (simp add: step number_val_def)
  next
    case False
    with "1.IH" "1.prems" have IH: "number_val b (printn (n div b) b) = n div b" "printn (n div b) b \<noteq> []"
      "digit_val (hd (printn (n div b) b)) > 0" by auto
    with False d "1.prems" show ?thesis by (simp add: step number_val_def)
  qed
qed

theorem printn_value_witness: "number_val 10 (printn 1979 10) = 1979 \<and> printn 1979 10 = ''1979''"
  using printn_value [of 10 1979] by (simp add: printn.simps)

end
