(* ===== verification/Bio.thy ===== *)
theory Bio
  imports Sync Userio
begin

text \<open>
  The buffer cache (\<open>usr/sys/sys/bio.c\<close>, \<open>binit\<close> of \<open>main.c\<close>). The table \<open>buf\<close> holds the pool
  (numbers below \<open>NBUF\<close>), the list head \<open>bfreelist\<close>, the swap headers and, above them, the device
  tables that \<open>d_tab\<close> names. A buffer is linked through \<open>b_forw\<close> and \<open>b_back\<close> to its device and,
  when free, through \<open>av_forw\<close> and \<open>av_back\<close> to \<open>bfreelist\<close>. A device driver is the function
  \<open>d_strategy\<close>; what it does later, at interrupt time, is part of the environment.
\<close>

section \<open>Model\<close>

abbreviation (input) bfreelist :: nat where "bfreelist \<equiv> 29"
abbreviation (input) swbuf1 :: nat where "swbuf1 \<equiv> 30"
abbreviation (input) swbuf2 :: nat where "swbuf2 \<equiv> 31"

abbreviation bflag_of :: "'z kst_scheme \<Rightarrow> nat \<Rightarrow> bflag set" where
  "bflag_of s bp \<equiv> b_flags (buf s bp)"

definition set_bflags :: "nat \<Rightarrow> bflag set \<Rightarrow> 'z kst_scheme \<Rightarrow> 'z kst_scheme" where
  "set_bflags bp F s = upd_buf bp (\<lambda>b. b\<lparr>b_flags := F\<rparr>) s"

definition io_count :: "(io_info_s \<Rightarrow> io_info_s) \<Rightarrow> 'z kst_scheme \<Rightarrow> 'z kst_scheme" where
  "io_count f s = s\<lparr>io_info := f (io_info s)\<rparr>"

definition strategy :: "nat \<Rightarrow> int \<Rightarrow> world \<Rightarrow> world" where
  "strategy bp dev w = on_kst (d_strategy w (major dev) bp) w"

definition geterror :: "nat \<Rightarrow> 'z kst_scheme \<Rightarrow> 'z kst_scheme" where
  "geterror bp s =
     (if B_ERROR \<in> bflag_of s bp then set_error (if b_error (buf s bp) = 0 then EIO else b_error (buf s bp)) s
      else s)"

definition notavail :: "nat \<Rightarrow> 'z kst_scheme \<Rightarrow> 'z kst_scheme" where
  "notavail bp s =
     (let s = upd_buf (av_back (buf s bp)) (\<lambda>b. b\<lparr>av_forw := av_forw (buf s bp)\<rparr>) s;
          s = upd_buf (av_forw (buf s bp)) (\<lambda>b. b\<lparr>av_back := av_back (buf s bp)\<rparr>) s
      in set_bflags bp (bflag_of s bp \<union> {B_BUSY}) s)"

definition iowait :: "nat \<Rightarrow> world \<Rightarrow> (unit, world) res" where
  "iowait bp w =
     bnd (await (\<lambda>w. B_DONE \<notin> bflag_of w bp) id (addr_of w (Ch_buf bp)) PRIBIO w) (\<lambda>_ w. Ok () (geterror bp w))"

text \<open>The walk along a device's buffers: \<open>Some None\<close> when the block is not there.\<close>

fun find_blk :: "nat \<Rightarrow> (nat \<Rightarrow> buf) \<Rightarrow> nat \<Rightarrow> nat \<Rightarrow> int \<Rightarrow> int \<Rightarrow> nat option option" where
  "find_blk 0 bs dp bp dev blkno = None"
| "find_blk (Suc n) bs dp bp dev blkno =
     (if bp = dp then Some None
      else if b_blkno (bs bp) \<noteq> blkno \<or> b_dev (bs bp) \<noteq> dev then find_blk n bs dp (b_forw (bs bp)) dev blkno
      else Some (Some bp))"

definition incore :: "int \<Rightarrow> int \<Rightarrow> world \<Rightarrow> (bool, world) res" where
  "incore dev blkno w =
     (case d_tab w (major dev) of
        None \<Rightarrow> Stuck w
      | Some dp \<Rightarrow>
          (case find_blk (NBUF + 1) (buf w) dp (b_forw (buf w dp)) dev blkno of
             None \<Rightarrow> Stuck w
           | Some r \<Rightarrow> Ok (r \<noteq> None) w))"

text \<open>The end of \<open>brelse\<close>: the buffer goes to the front of the free list or to its end.\<close>

definition enqueue :: "nat \<Rightarrow> 'z kst_scheme \<Rightarrow> 'z kst_scheme" where
  "enqueue bp s =
     (if B_AGE \<in> bflag_of s bp then
        (let backp = av_forw (buf s bfreelist);
             s = upd_buf backp (\<lambda>b. b\<lparr>av_back := bp\<rparr>) s;
             s = upd_buf bp (\<lambda>b. b\<lparr>av_forw := backp\<rparr>) s;
             s = upd_buf bfreelist (\<lambda>b. b\<lparr>av_forw := bp\<rparr>) s
         in upd_buf bp (\<lambda>b. b\<lparr>av_back := bfreelist\<rparr>) s)
      else
        (let backp = av_back (buf s bfreelist);
             s = upd_buf backp (\<lambda>b. b\<lparr>av_forw := bp\<rparr>) s;
             s = upd_buf bp (\<lambda>b. b\<lparr>av_back := backp\<rparr>) s;
             s = upd_buf bfreelist (\<lambda>b. b\<lparr>av_back := bp\<rparr>) s
         in upd_buf bp (\<lambda>b. b\<lparr>av_forw := bfreelist\<rparr>) s))"

definition brelse :: "nat \<Rightarrow> 'z kst_scheme \<Rightarrow> (unit, 'z kst_scheme) res" where
  "brelse bp s =
     bnd (if B_WANTED \<in> bflag_of s bp then wakeup (addr_of s (Ch_buf bp)) s else Ok () s) (\<lambda>_ s.
     bnd (if B_WANTED \<in> bflag_of s bfreelist
          then wakeup (addr_of s Ch_bfreelist) (set_bflags bfreelist (bflag_of s bfreelist - {B_WANTED}) s)
          else Ok () s) (\<lambda>_ s.
       (let s = (if B_ERROR \<in> bflag_of s bp then upd_buf bp (\<lambda>b. b\<lparr>b_dev := NODEV\<rparr>) s else s);
            s = enqueue bp s
        in Ok () (set_bflags bp (bflag_of s bp - {B_WANTED, B_BUSY, B_ASYNC, B_AGE}) s))))"

definition bwrite :: "nat \<Rightarrow> world \<Rightarrow> (unit, world) res" where
  "bwrite bp w =
     (let flag = bflag_of w bp;
          w = set_bflags bp (flag - {B_READ, B_DONE, B_ERROR, B_DELWRI, B_AGE}) w;
          w = upd_buf bp (\<lambda>b. b\<lparr>b_bcount := BSIZE\<rparr>) w;
          w = io_count (\<lambda>i. i\<lparr>nwrite := s32 (nwrite i + 1)\<rparr>) w;
          w = strategy bp (b_dev (buf w bp)) w
      in if B_ASYNC \<notin> flag then bnd (iowait bp w) (\<lambda>_ w. brelse bp w)
         else if B_DELWRI \<in> flag then Ok () (set_bflags bp (bflag_of w bp \<union> {B_AGE}) w)
         else Ok () (geterror bp w))"

definition bawrite :: "nat \<Rightarrow> world \<Rightarrow> (unit, world) res" where
  "bawrite bp w = bwrite bp (set_bflags bp (bflag_of w bp \<union> {B_ASYNC}) w)"

definition bdwrite :: "nat \<Rightarrow> world \<Rightarrow> (unit, world) res" where
  "bdwrite bp w =
     (case d_tab w (major (b_dev (buf w bp))) of
        None \<Rightarrow> Stuck w
      | Some dp \<Rightarrow>
          if B_TAPE \<in> bflag_of w dp then bawrite bp w
          else brelse bp (set_bflags bp (bflag_of w bp \<union> {B_DELWRI, B_DONE}) w))"

text \<open>How far from the end of the free list a block was found, for the statistics.\<close>

fun av_count :: "nat \<Rightarrow> (nat \<Rightarrow> buf) \<Rightarrow> nat \<Rightarrow> nat" where
  "av_count 0 bs dp = 0"
| "av_count (Suc n) bs dp = (if dp = bfreelist then 0 else Suc (av_count n bs (av_forw (bs dp))))"

definition note_hit :: "nat \<Rightarrow> 'z kst_scheme \<Rightarrow> 'z kst_scheme" where
  "note_hit bp s =
     (let i = av_count (NBUF + 1) (buf s) (av_forw (buf s bp)) in
      if i < NBUF then io_count (\<lambda>x. x\<lparr>bufcount := (bufcount x)(i := s32 (bufcount x i + 1))\<rparr>) s else s)"

text \<open>A buffer taken for a new purpose: the flags, and the move to the chain of \<open>dp\<close>.\<close>

definition rechain :: "nat \<Rightarrow> nat \<Rightarrow> 'z kst_scheme \<Rightarrow> 'z kst_scheme" where
  "rechain bp dp s =
     (let s = set_bflags bp {B_BUSY} s;
          s = upd_buf (b_back (buf s bp)) (\<lambda>b. b\<lparr>b_forw := b_forw (buf s bp)\<rparr>) s;
          s = upd_buf (b_forw (buf s bp)) (\<lambda>b. b\<lparr>b_back := b_back (buf s bp)\<rparr>) s;
          s = upd_buf bp (\<lambda>b. b\<lparr>b_forw := b_forw (buf s dp)\<rparr>) s;
          s = upd_buf bp (\<lambda>b. b\<lparr>b_back := dp\<rparr>) s;
          s = upd_buf (b_forw (buf s dp)) (\<lambda>b. b\<lparr>b_back := bp\<rparr>) s
      in upd_buf dp (\<lambda>b. b\<lparr>b_forw := bp\<rparr>) s)"

text \<open>
  Between two sleeps a round of \<open>getblk\<close> that does not return writes out one delayed buffer, which
  leaves the free list; so \<open>NBUF + 1\<close> rounds for every sleep are enough.
\<close>

definition bfuel :: "world \<Rightarrow> nat" where
  "bfuel w = (length (env w) + 1) * (NBUF + 1)"

fun getblk_loop :: "nat \<Rightarrow> int \<Rightarrow> int \<Rightarrow> world \<Rightarrow> (nat, world) res" where
  "getblk_loop 0 dev blkno w = Stuck w"
| "getblk_loop (Suc n) dev blkno w =
     (case d_tab w (major dev) of
        None \<Rightarrow> Panic ''devtab'' w
      | Some dp \<Rightarrow>
          (case find_blk (NBUF + 1) (buf w) dp (b_forw (buf w dp)) dev blkno of
             None \<Rightarrow> Stuck w
           | Some (Some bp) \<Rightarrow>
               if B_BUSY \<in> bflag_of w bp then
                 bnd (sleep (addr_of w (Ch_buf bp)) (PRIBIO + 1) (set_bflags bp (bflag_of w bp \<union> {B_WANTED}) w))
                   (\<lambda>_ w. getblk_loop n dev blkno w)
               else Ok bp (notavail bp (note_hit bp w))
           | Some None \<Rightarrow>
               if av_forw (buf w bfreelist) = bfreelist then
                 bnd (sleep (addr_of w Ch_bfreelist) (PRIBIO + 1)
                        (set_bflags bfreelist (bflag_of w bfreelist \<union> {B_WANTED}) w))
                   (\<lambda>_ w. getblk_loop n dev blkno w)
               else
                 (let bp = av_forw (buf w bfreelist); w = notavail bp w in
                  if B_DELWRI \<in> bflag_of w bp then
                    bnd (bwrite bp (set_bflags bp (bflag_of w bp \<union> {B_ASYNC}) w)) (\<lambda>_ w. getblk_loop n dev blkno w)
                  else Ok bp (upd_buf bp (\<lambda>b. b\<lparr>b_dev := dev, b_blkno := blkno\<rparr>) (rechain bp dp w)))))"

definition getblk :: "int \<Rightarrow> int \<Rightarrow> world \<Rightarrow> (nat, world) res" where
  "getblk dev blkno w =
     (if major dev \<ge> nblkdev w then Panic ''blkdev'' w else getblk_loop (bfuel w) dev blkno w)"

fun geteblk_loop :: "nat \<Rightarrow> world \<Rightarrow> (nat, world) res" where
  "geteblk_loop 0 w = Stuck w"
| "geteblk_loop (Suc n) w =
     bnd (await (\<lambda>w. av_forw (buf w bfreelist) = bfreelist)
            (\<lambda>w. set_bflags bfreelist (bflag_of w bfreelist \<union> {B_WANTED}) w)
            (addr_of w Ch_bfreelist) (PRIBIO + 1) w) (\<lambda>_ w.
       (let bp = av_forw (buf w bfreelist); w = notavail bp w in
        if B_DELWRI \<in> bflag_of w bp then
          bnd (bwrite bp (set_bflags bp (bflag_of w bp \<union> {B_ASYNC}) w)) (\<lambda>_ w. geteblk_loop n w)
        else Ok bp (upd_buf bp (\<lambda>b. b\<lparr>b_dev := NODEV\<rparr>) (rechain bp bfreelist w))))"

definition geteblk :: "world \<Rightarrow> (nat, world) res" where
  "geteblk w = geteblk_loop (bfuel w) w"

definition bread :: "int \<Rightarrow> int \<Rightarrow> world \<Rightarrow> (nat, world) res" where
  "bread dev blkno w =
     bnd (getblk dev blkno w) (\<lambda>bp w.
       if B_DONE \<in> bflag_of w bp then Ok bp (io_count (\<lambda>i. i\<lparr>ncache := s32 (ncache i + 1)\<rparr>) w)
       else
         (let w = set_bflags bp (bflag_of w bp \<union> {B_READ}) w;
              w = upd_buf bp (\<lambda>b. b\<lparr>b_bcount := BSIZE\<rparr>) w;
              w = strategy bp dev w;
              w = io_count (\<lambda>i. i\<lparr>nread := s32 (nread i + 1)\<rparr>) w
          in bnd (iowait bp w) (\<lambda>_ w. Ok bp w)))"

text \<open>\<open>breada\<close> in its three steps: the block itself, the block after it, the wait.\<close>

definition breada_first :: "int \<Rightarrow> int \<Rightarrow> world \<Rightarrow> (nat option, world) res" where
  "breada_first dev blkno w =
     bnd (incore dev blkno w) (\<lambda>there w.
       if there then Ok None w
       else
         bnd (getblk dev blkno w) (\<lambda>bp w.
           if B_DONE \<in> bflag_of w bp then Ok (Some bp) w
           else
             (let w = set_bflags bp (bflag_of w bp \<union> {B_READ}) w;
                  w = upd_buf bp (\<lambda>b. b\<lparr>b_bcount := BSIZE\<rparr>) w;
                  w = strategy bp dev w
              in Ok (Some bp) (io_count (\<lambda>i. i\<lparr>nread := s32 (nread i + 1)\<rparr>) w))))"

definition breada_ahead :: "int \<Rightarrow> int \<Rightarrow> world \<Rightarrow> (unit, world) res" where
  "breada_ahead dev rablkno w =
     (if rablkno = 0 then Ok () w
      else
        bnd (incore dev rablkno w) (\<lambda>there w.
          if there then Ok () w
          else
            bnd (getblk dev rablkno w) (\<lambda>rabp w.
              if B_DONE \<in> bflag_of w rabp then brelse rabp w
              else
                (let w = set_bflags rabp (bflag_of w rabp \<union> {B_READ, B_ASYNC}) w;
                     w = upd_buf rabp (\<lambda>b. b\<lparr>b_bcount := BSIZE\<rparr>) w;
                     w = strategy rabp dev w
                 in Ok () (io_count (\<lambda>i. i\<lparr>nreada := s32 (nreada i + 1)\<rparr>) w)))))"

definition breada :: "int \<Rightarrow> int \<Rightarrow> int \<Rightarrow> world \<Rightarrow> (nat, world) res" where
  "breada dev blkno rablkno w =
     bnd (breada_first dev blkno w) (\<lambda>obp w.
     bnd (breada_ahead dev rablkno w) (\<lambda>_ w.
       (case obp of None \<Rightarrow> bread dev blkno w | Some bp \<Rightarrow> bnd (iowait bp w) (\<lambda>_ w. Ok bp w))))"

text \<open>\<open>mapfree\<close> does nothing on this machine.\<close>

definition iodone :: "nat \<Rightarrow> 'z kst_scheme \<Rightarrow> (unit, 'z kst_scheme) res" where
  "iodone bp s =
     (let s = set_bflags bp (bflag_of s bp \<union> {B_DONE}) s in
      if B_ASYNC \<in> bflag_of s bp then brelse bp s
      else wakeup (addr_of s (Ch_buf bp)) (set_bflags bp (bflag_of s bp - {B_WANTED}) s))"

definition clrbuf :: "nat \<Rightarrow> 'z kst_scheme \<Rightarrow> 'z kst_scheme" where
  "clrbuf bp s = upd_buf bp (\<lambda>b. b\<lparr>b_data := (\<lambda>k. if k < 512 then 0 else b_data b k), b_resid := 0\<rparr>) s"

section \<open>Swapping\<close>

text \<open>The transfer loop of \<open>swap\<close>; every round moves at least one click, so \<open>count\<close> rounds are enough.\<close>

fun swap_loop :: "nat \<Rightarrow> nat \<Rightarrow> int \<Rightarrow> int \<Rightarrow> int \<Rightarrow> bflag set \<Rightarrow> world \<Rightarrow> (unit, world) res" where
  "swap_loop 0 bp blkno coreaddr count rdflg w = (if count = 0 then Ok () w else Stuck w)"
| "swap_loop (Suc n) bp blkno coreaddr count rdflg w =
     (if count = 0 then Ok () w
      else
        (let tcount = (if count \<ge> 960 then 960 else count);
             w = upd_buf bp (\<lambda>b. b\<lparr>b_flags := {B_BUSY, B_PHYS} \<union> rdflg, b_dev := swapdev w,
                   b_bcount := u16 (ctob tcount), b_blkno := s32 (swplo w + blkno),
                   b_addr := u32 (push_bit 6 coreaddr), b_xmem := u8 (drop_bit 10 coreaddr AND 63)\<rparr>) w;
             w = strategy bp (swapdev w) w
         in bnd (await (\<lambda>w. B_DONE \<notin> bflag_of w bp) id (addr_of w (Ch_buf bp)) PSWP w) (\<lambda>_ w.
              swap_loop n bp (blkno + ctod tcount) (coreaddr + tcount) (count - tcount) rdflg w)))"

definition swap :: "int \<Rightarrow> int \<Rightarrow> int \<Rightarrow> bflag set \<Rightarrow> world \<Rightarrow> (unit, world) res" where
  "swap blkno coreaddr count rdflg w =
     (let bp = (if B_BUSY \<in> bflag_of w swbuf1 \<and> B_WANTED \<notin> bflag_of w swbuf2 then swbuf2 else swbuf1) in
      bnd (await (\<lambda>w. B_BUSY \<in> bflag_of w bp) (\<lambda>w. set_bflags bp (bflag_of w bp \<union> {B_WANTED}) w)
             (addr_of w (Ch_buf bp)) (PSWP + 1) w) (\<lambda>_ w.
      bnd (swap_loop (nat count) bp blkno coreaddr count rdflg w) (\<lambda>_ w.
      bnd (if B_WANTED \<in> bflag_of w bp then wakeup (addr_of w (Ch_buf bp)) w else Ok () w) (\<lambda>_ w.
        (let w = set_bflags bp (bflag_of w bp - {B_BUSY, B_WANTED}) w in
         if B_ERROR \<in> bflag_of w bp then Panic ''IO err in swap'' w else Ok () w)))))"

section \<open>Flushing and initialisation\<close>

fun find_dirty :: "nat \<Rightarrow> (nat \<Rightarrow> buf) \<Rightarrow> nat \<Rightarrow> int \<Rightarrow> nat option option" where
  "find_dirty 0 bs bp dev = None"
| "find_dirty (Suc n) bs bp dev =
     (if bp = bfreelist then Some None
      else if B_DELWRI \<in> b_flags (bs bp) \<and> (dev = NODEV \<or> dev = b_dev (bs bp)) then Some (Some bp)
      else find_dirty n bs (av_forw (bs bp)) dev)"

fun bflush_loop :: "nat \<Rightarrow> int \<Rightarrow> world \<Rightarrow> (unit, world) res" where
  "bflush_loop 0 dev w = Stuck w"
| "bflush_loop (Suc n) dev w =
     (case find_dirty (NBUF + 1) (buf w) (av_forw (buf w bfreelist)) dev of
        None \<Rightarrow> Stuck w
      | Some None \<Rightarrow> Ok () w
      | Some (Some bp) \<Rightarrow>
          bnd (bwrite bp (notavail bp (set_bflags bp (bflag_of w bp \<union> {B_ASYNC}) w))) (\<lambda>_ w. bflush_loop n dev w))"

definition bflush :: "int \<Rightarrow> world \<Rightarrow> (unit, world) res" where
  "bflush dev w = bflush_loop (bfuel w) dev w"

fun binit_pool :: "int \<Rightarrow> nat list \<Rightarrow> 'z kst_scheme \<Rightarrow> (unit, 'z kst_scheme) res" where
  "binit_pool buffers [] s = Ok () s"
| "binit_pool buffers (i # is) s =
     (let s = upd_buf i (\<lambda>b. b\<lparr>b_dev := NODEV, b_addr := buffers + 514 * int i, b_back := bfreelist,
                              b_forw := b_forw (buf s bfreelist)\<rparr>) s;
          s = upd_buf (b_forw (buf s bfreelist)) (\<lambda>b. b\<lparr>b_back := i\<rparr>) s;
          s = upd_buf bfreelist (\<lambda>b. b\<lparr>b_forw := i\<rparr>) s;
          s = set_bflags i {B_BUSY} s
      in bnd (brelse i s) (\<lambda>_ s. binit_pool buffers is s))"

fun binit_devs :: "int list \<Rightarrow> world \<Rightarrow> world" where
  "binit_devs [] w = w"
| "binit_devs (maj # majs) w =
     (let w = (case d_tab w maj of
                 None \<Rightarrow> w
               | Some dp \<Rightarrow> upd_buf dp (\<lambda>b. b\<lparr>b_back := dp\<rparr>) (upd_buf dp (\<lambda>b. b\<lparr>b_forw := dp\<rparr>) w))
      in binit_devs majs (w\<lparr>nblkdev := nblkdev w + 1\<rparr>))"

text \<open>\<open>rows\<close> is the number of entries of \<open>bdevsw\<close>, \<open>buffers\<close> the address of the pool's memory.\<close>

definition binit :: "int \<Rightarrow> nat \<Rightarrow> world \<Rightarrow> (unit, world) res" where
  "binit buffers rows w =
     bnd (binit_pool buffers [0..<NBUF] (upd_buf bfreelist (\<lambda>b. b\<lparr>b_forw := bfreelist, b_back := bfreelist,
            av_forw := bfreelist, av_back := bfreelist\<rparr>) w)) (\<lambda>_ w.
       Ok () (binit_devs (map int [0..<rows]) w))"

section \<open>The free list as a list\<close>

text \<open>A doubly linked path from \<open>x\<close> through \<open>ys\<close> to \<open>z\<close>, and a ring with its head.\<close>

fun linked :: "(nat \<Rightarrow> nat) \<Rightarrow> (nat \<Rightarrow> nat) \<Rightarrow> nat \<Rightarrow> nat list \<Rightarrow> nat \<Rightarrow> bool" where
  "linked f b x [] z = (f x = z \<and> b z = x)"
| "linked f b x (y # ys) z = (f x = y \<and> b y = x \<and> linked f b y ys z)"

definition avail :: "'z kst_scheme \<Rightarrow> nat list \<Rightarrow> bool" where
  "avail s xs \<longleftrightarrow> distinct (bfreelist # xs)
     \<and> linked (\<lambda>i. av_forw (buf s i)) (\<lambda>i. av_back (buf s i)) bfreelist xs bfreelist"

lemma linked_append: "linked f b x (as @ y # bs) z \<longleftrightarrow> linked f b x as y \<and> linked f b y bs z"
  by (induction as arbitrary: x) auto

lemma linked_cong:
  "linked f b x ys z \<Longrightarrow> (\<And>v. v \<in> set (x # ys) \<Longrightarrow> f' v = f v) \<Longrightarrow> (\<And>v. v \<in> set (z # ys) \<Longrightarrow> b' v = b v)
   \<Longrightarrow> linked f' b' x ys z"
  by (induction ys arbitrary: x) auto

lemma linked_last: "linked f b x ys z \<Longrightarrow> b z = last (x # ys)"
  by (induction ys arbitrary: x) auto

lemma linked_first: "linked f b x ys z \<Longrightarrow> f x = hd (ys @ [z])"
  by (cases ys) auto

lemma linked_remove:
  "linked f b x as y \<Longrightarrow> linked f b y bs z \<Longrightarrow> distinct (as @ y # bs) \<Longrightarrow> x \<notin> set (as @ y # bs) \<Longrightarrow> z \<notin> set (as @ y # bs)
   \<Longrightarrow> linked (f(b y := f y)) (b(f y := b y)) x (as @ bs) z"
proof (induction as arbitrary: x)
  case Nil
  then show ?case by (cases bs) (auto intro: linked_cong)
next
  case (Cons a as)
  then have "b y = last (a # as)" by (auto dest: linked_last)
  then have "b y \<in> set (a # as)" using last_in_set [of "a # as"] by simp
  moreover have "f y \<in> insert z (set bs)" using Cons.prems(2) by (cases bs) auto
  ultimately have "b y \<noteq> x" "f y \<noteq> a" using Cons.prems by auto
  with Cons show ?case by auto
qed

lemma linked_insert_last:
  assumes "linked f b x ys z" "distinct (y # ys)" "x \<notin> set (y # ys)" "z \<notin> set (y # ys)"
  shows "linked (f(b z := y, y := z)) (b(z := y, y := b z)) x (ys @ [y]) z"
  using assms
proof (induction ys arbitrary: x)
  case (Cons a ys)
  have "b z = last (a # ys)" using Cons.prems(1) by (auto dest: linked_last)
  then have "b z \<noteq> x" using last_in_set [of "a # ys"] Cons.prems(3) by auto
  with Cons show ?case by auto
qed auto

lemma linked_insert_first:
  assumes "linked f b x ys z" "distinct (y # ys)" "x \<notin> set (y # ys)" "z \<notin> set (y # ys)"
  shows "linked (f(y := f x, x := y)) (b(f x := y, y := x)) x (y # ys) z"
  using assms by (cases ys) (auto elim!: linked_cong)

lemma avail_cong:
  "avail s xs \<Longrightarrow> (\<And>i. av_forw (buf t i) = av_forw (buf s i)) \<Longrightarrow> (\<And>i. av_back (buf t i) = av_back (buf s i)) \<Longrightarrow> avail t xs"
  by (simp add: avail_def)

lemma set_bflags_links [simp]:
  "av_forw (buf (set_bflags bp F s) i) = av_forw (buf s i)" "av_back (buf (set_bflags bp F s) i) = av_back (buf s i)"
  by (simp_all add: set_bflags_def upd_buf_def)

lemma notavail_links:
  assumes "av_back (buf s bp) \<noteq> bp"
  shows "(\<lambda>i. av_forw (buf (notavail bp s) i)) = (\<lambda>i. av_forw (buf s i))(av_back (buf s bp) := av_forw (buf s bp))"
    "(\<lambda>i. av_back (buf (notavail bp s) i)) = (\<lambda>i. av_back (buf s i))(av_forw (buf s bp) := av_back (buf s bp))"
  using assms by (auto simp: notavail_def Let_def set_bflags_def upd_buf_def fun_eq_iff)

lemma notavail_avail:
  assumes "avail s xs" "bp \<in> set xs"
  shows "avail (notavail bp s) (remove1 bp xs)"
proof -
  obtain as bs where xs: "xs = as @ bp # bs" "bp \<notin> set as" using assms(2) by (meson split_list_first)
  let ?f = "\<lambda>i. av_forw (buf s i)" and ?b = "\<lambda>i. av_back (buf s i)"
  have l: "linked ?f ?b bfreelist as bp" "linked ?f ?b bp bs bfreelist" and d: "distinct (as @ bp # bs)"
    "bfreelist \<notin> set (as @ bp # bs)"
    using assms(1) by (auto simp: avail_def xs linked_append)
  have "?b bp \<noteq> bp" using linked_last [OF l(1)] d last_in_set [of "bfreelist # as"] by (auto split: if_splits)
  from linked_remove [OF l d(1) d(2) d(2)] show ?thesis
    using d by (auto simp: avail_def xs(1) notavail_links [OF \<open>?b bp \<noteq> bp\<close>] remove1_append xs(2))
qed

lemma enqueue_links:
  assumes "bp \<noteq> bfreelist" "av_forw (buf s bfreelist) \<noteq> bp" "av_back (buf s bfreelist) \<noteq> bp"
  shows "(\<lambda>i. av_forw (buf (enqueue bp s) i)) =
      (if B_AGE \<in> bflag_of s bp then (\<lambda>i. av_forw (buf s i))(bp := av_forw (buf s bfreelist), bfreelist := bp)
       else (\<lambda>i. av_forw (buf s i))(av_back (buf s bfreelist) := bp, bp := bfreelist))"
    "(\<lambda>i. av_back (buf (enqueue bp s) i)) =
      (if B_AGE \<in> bflag_of s bp then (\<lambda>i. av_back (buf s i))(av_forw (buf s bfreelist) := bp, bp := bfreelist)
       else (\<lambda>i. av_back (buf s i))(bfreelist := bp, bp := av_back (buf s bfreelist)))"
  using assms by (auto simp: enqueue_def Let_def upd_buf_def fun_eq_iff)

lemma enqueue_avail:
  assumes "avail s xs" "bp \<notin> set xs" "bp \<noteq> bfreelist"
  shows "avail (enqueue bp s) (if B_AGE \<in> bflag_of s bp then bp # xs else xs @ [bp])"
proof -
  let ?f = "\<lambda>i. av_forw (buf s i)" and ?b = "\<lambda>i. av_back (buf s i)"
  have l: "linked ?f ?b bfreelist xs bfreelist" and d: "distinct (bp # xs)" "bfreelist \<notin> set (bp # xs)"
    using assms by (auto simp: avail_def)
  have nb: "?b bfreelist \<noteq> bp"
    using linked_last [OF l] d assms(3) last_in_set [of "bfreelist # xs"] by (auto split: if_splits)
  have nf: "?f bfreelist \<noteq> bp"
    using linked_first [OF l] d assms(3) by (cases xs) auto
  note e = enqueue_links [OF assms(3) nf nb]
  show ?thesis
    using linked_insert_first [OF l d(1) d(2) d(2)] linked_insert_last [OF l d(1) d(2) d(2)] d
    by (auto simp: avail_def e)
qed

lemma wakeup_links: "wakeup c s = Ok r t \<Longrightarrow> buf t = buf s"
  using outcome_Ok [OF wakeup_same] sameD(4) by metis


lemma brelse_stages:
  assumes "brelse bp s = Ok r t"
  shows "\<exists>s'. (\<forall>i. av_forw (buf s' i) = av_forw (buf s i) \<and> av_back (buf s' i) = av_back (buf s i))
      \<and> (bp \<noteq> bfreelist \<longrightarrow> bflag_of s' bp = bflag_of s bp)
      \<and> t = set_bflags bp (bflag_of (enqueue bp s') bp - {B_WANTED, B_BUSY, B_ASYNC, B_AGE}) (enqueue bp s')"
proof -
  obtain s1 where 1: "(if B_WANTED \<in> bflag_of s bp then wakeup (addr_of s (Ch_buf bp)) s else Ok () s) = Ok () s1"
    using assms by (auto simp: brelse_def bnd_Ok_iff)
  from 1 have b1: "buf s1 = buf s" by (auto split: if_splits dest: wakeup_links)
  obtain s2 where 2: "(if B_WANTED \<in> bflag_of s1 bfreelist
          then wakeup (addr_of s1 Ch_bfreelist) (set_bflags bfreelist (bflag_of s1 bfreelist - {B_WANTED}) s1)
          else Ok () s1) = Ok () s2"
    using assms unfolding brelse_def bnd_Ok_iff 1 by (auto simp: bnd_Ok_iff)
  from 2 have b2: "buf s2 = buf s1 \<or> buf s2 = buf (set_bflags bfreelist (bflag_of s1 bfreelist - {B_WANTED}) s1)"
    by (auto split: if_splits dest: wakeup_links)
  define s3 where "s3 = (if B_ERROR \<in> bflag_of s2 bp then upd_buf bp (\<lambda>b. b\<lparr>b_dev := NODEV\<rparr>) s2 else s2)"
  have t: "t = set_bflags bp (bflag_of (enqueue bp s3) bp - {B_WANTED, B_BUSY, B_ASYNC, B_AGE}) (enqueue bp s3)"
    using assms unfolding brelse_def 1 bnd.simps 2 Let_def s3_def by simp
  have "av_forw (buf s2 i) = av_forw (buf s1 i) \<and> av_back (buf s2 i) = av_back (buf s1 i)
      \<and> (i \<noteq> bfreelist \<longrightarrow> bflag_of s2 i = bflag_of s1 i)" for i
    using b2 by (auto simp: set_bflags_def upd_buf_def)
  then have "(\<forall>i. av_forw (buf s3 i) = av_forw (buf s i) \<and> av_back (buf s3 i) = av_back (buf s i))
      \<and> (bp \<noteq> bfreelist \<longrightarrow> bflag_of s3 bp = bflag_of s bp)"
    unfolding s3_def b1 [symmetric] by (auto simp: upd_buf_def)
  with t show ?thesis by blast
qed

lemma brelse_avail:
  assumes "brelse bp s = Ok r t" "avail s xs" "bp \<notin> set xs" "bp \<noteq> bfreelist"
  shows "avail t (if B_AGE \<in> bflag_of s bp then bp # xs else xs @ [bp])" "B_BUSY \<notin> bflag_of t bp"
proof -
  obtain s' where s': "\<And>i. av_forw (buf s' i) = av_forw (buf s i)" "\<And>i. av_back (buf s' i) = av_back (buf s i)"
    "bflag_of s' bp = bflag_of s bp"
    and t: "t = set_bflags bp (bflag_of (enqueue bp s') bp - {B_WANTED, B_BUSY, B_ASYNC, B_AGE}) (enqueue bp s')"
    using brelse_stages [OF assms(1)] assms(4) by auto
  have "avail s' xs" using avail_cong [OF assms(2)] s' by blast
  from enqueue_avail [OF this assms(3,4)] show "avail t (if B_AGE \<in> bflag_of s bp then bp # xs else xs @ [bp])"
    unfolding t s'(3) by (rule avail_cong) simp_all
  show "B_BUSY \<notin> bflag_of t bp" unfolding t by (simp add: set_bflags_def upd_buf_def)
qed

lemma find_blk_hit: "find_blk n bs dp bp dev blkno = Some (Some x) \<Longrightarrow> b_dev (bs x) = dev \<and> b_blkno (bs x) = blkno \<and> x \<noteq> dp"
  by (induction n arbitrary: bp) (auto split: if_splits)

definition holds_block :: "nat \<Rightarrow> int \<Rightarrow> int \<Rightarrow> 'z kst_scheme \<Rightarrow> bool" where
  "holds_block bp dev blkno s \<longleftrightarrow>
     b_dev (buf s bp) = dev \<and> b_blkno (buf s bp) = blkno \<and> B_BUSY \<in> bflag_of s bp"

lemma notavail_simps [simp]:
  "b_dev (buf (notavail bp s) i) = b_dev (buf s i)" "b_blkno (buf (notavail bp s) i) = b_blkno (buf s i)"
  "b_data (buf (notavail bp s) i) = b_data (buf s i)"
  "bflag_of (notavail bp s) i = (if i = bp then bflag_of s bp \<union> {B_BUSY} else bflag_of s i)"
  by (simp_all add: notavail_def Let_def set_bflags_def upd_buf_def)

lemma note_hit_simps [simp]: "buf (note_hit bp s) = buf s"
  by (simp add: note_hit_def io_count_def Let_def)

lemma rechain_simps [simp]: "bflag_of (rechain bp dp s) bp = {B_BUSY}" 
  by (simp add: rechain_def Let_def set_bflags_def upd_buf_def)

lemma getblk_loop_right: "getblk_loop n dev blkno w = Ok bp w' \<Longrightarrow> holds_block bp dev blkno w'"
proof (induction n arbitrary: w)
  case (Suc n)
  obtain dp where dp: "d_tab w (major dev) = Some dp" using Suc.prems by (auto split: option.splits)
  obtain r where r: "find_blk (NBUF + 1) (buf w) dp (b_forw (buf w dp)) dev blkno = Some r"
    using Suc.prems dp by (auto split: option.splits simp del: find_blk.simps)
  show ?case
  proof (cases r)
    case None
    with Suc.prems dp r show ?thesis
      by (auto simp: bnd_Ok_iff Let_def holds_block_def upd_buf_def simp del: find_blk.simps split: if_splits dest: Suc.IH)
  next
    case (Some x)
    show ?thesis
    proof (cases "B_BUSY \<in> bflag_of w x")
      case True
      then obtain s where "getblk_loop n dev blkno s = Ok bp w'"
        using Suc.prems dp r Some by (auto simp: bnd_Ok_iff simp del: find_blk.simps)
      then show ?thesis by (rule Suc.IH)
    next
      case False
      with Suc.prems dp r Some find_blk_hit [OF r [unfolded Some]] show ?thesis
        by (auto simp: holds_block_def simp del: find_blk.simps)
    qed
  qed
qed simp

lemma linked_head: "avail w (bp # xs) \<Longrightarrow> av_forw (buf w bfreelist) = bp \<and> bp \<noteq> bfreelist"
  by (simp add: avail_def)

definition same_av :: "'z kst_scheme \<Rightarrow> 'z kst_scheme \<Rightarrow> bool" where
  "same_av s t \<longleftrightarrow> (\<forall>i. av_forw (buf t i) = av_forw (buf s i) \<and> av_back (buf t i) = av_back (buf s i))"

lemma same_av_Let: "same_av s a \<Longrightarrow> (\<And>x. same_av s x \<Longrightarrow> same_av s (f x)) \<Longrightarrow> same_av s (let x = a in f x)"
  by (simp add: Let_def)

lemma same_av_upd: "same_av s t \<Longrightarrow> (\<And>b. av_forw (f b) = av_forw b \<and> av_back (f b) = av_back b) \<Longrightarrow> same_av s (upd_buf k f t)"
  by (simp add: same_av_def upd_buf_def)

lemma same_av_bflags: "same_av s t \<Longrightarrow> same_av s (set_bflags bp F t)"
  by (simp add: same_av_def)

lemma same_av_refl: "same_av s s"
  by (simp add: same_av_def)

lemma same_av_rechain: "same_av s (rechain bp dp s)"
  unfolding rechain_def by (intro same_av_Let same_av_upd same_av_bflags same_av_refl) simp_all

lemma same_av_avail: "same_av s t \<Longrightarrow> avail s xs \<Longrightarrow> avail t xs"
  by (simp add: same_av_def avail_def)

lemma getblk_miss:
  assumes "avail w (bp # xs)" "major dev < nblkdev w" "d_tab w (major dev) = Some dp"
    "find_blk (NBUF + 1) (buf w) dp (b_forw (buf w dp)) dev blkno = Some None" "B_DELWRI \<notin> bflag_of w bp"
  shows "\<exists>w'. getblk dev blkno w = Ok bp w' \<and> avail w' xs \<and> b_dev (buf w' bp) = dev \<and> b_blkno (buf w' bp) = blkno
    \<and> bflag_of w' bp = {B_BUSY}"
proof -
  define w' where "w' = upd_buf bp (\<lambda>b. b\<lparr>b_dev := dev, b_blkno := blkno\<rparr>) (rechain bp dp (notavail bp w))"
  obtain k where k: "bfuel w = Suc k" by (cases "bfuel w") (simp_all add: bfuel_def)
  have "getblk dev blkno w = Ok bp w'"
    using assms linked_head [OF assms(1)] by (simp add: getblk_def w'_def k Let_def del: find_blk.simps)
  moreover have "avail w' xs"
    using notavail_avail [OF assms(1), of bp] unfolding w'_def
    by (auto intro!: same_av_avail [OF same_av_upd [OF same_av_rechain]])
  ultimately show ?thesis by (auto simp: w'_def upd_buf_def)
qed

lemma brelse_now:
  "B_WANTED \<notin> bflag_of s bp \<Longrightarrow> B_WANTED \<notin> bflag_of s bfreelist \<Longrightarrow> \<exists>t. brelse bp s = Ok () t"
  by (simp add: brelse_def Let_def)

lemma binit_pool_avail:
  assumes "avail s xs" "distinct (xs @ is)" "bfreelist \<notin> set is" "B_WANTED \<notin> bflag_of s bfreelist"
  shows "\<exists>t. binit_pool buffers is s = Ok () t \<and> avail t (xs @ is)"
  using assms
proof (induction "is" arbitrary: s xs)
  case (Cons i "is")
  define s1 where "s1 = upd_buf i (\<lambda>b. b\<lparr>b_dev := NODEV, b_addr := buffers + 514 * int i, b_back := bfreelist,
                              b_forw := b_forw (buf s bfreelist)\<rparr>) s"
  define s2 where "s2 = set_bflags i {B_BUSY} (upd_buf bfreelist (\<lambda>b. b\<lparr>b_forw := i\<rparr>)
    (upd_buf (b_forw (buf s1 bfreelist)) (\<lambda>b. b\<lparr>b_back := i\<rparr>) s1))"
  have s2: "avail s2 xs" by (rule avail_cong [OF Cons.prems(1)]) (simp_all add: s2_def s1_def upd_buf_def)
  have fl: "bflag_of s2 i = {B_BUSY}" "B_WANTED \<notin> bflag_of s2 bfreelist"
    using Cons.prems(3,4) by (simp_all add: s2_def s1_def upd_buf_def set_bflags_def)
  obtain t where t: "brelse i s2 = Ok () t" using brelse_now [of s2 i] fl by auto
  have "avail t (xs @ [i])" using brelse_avail(1) [OF t s2, of] Cons.prems(2,3) fl by auto
  moreover have "B_WANTED \<notin> bflag_of t bfreelist"
  proof -
    have "t = set_bflags i (bflag_of (enqueue i s2) i - {B_WANTED, B_BUSY, B_ASYNC, B_AGE}) (enqueue i s2)"
      using t fl by (simp add: brelse_def Let_def)
    then show ?thesis using fl Cons.prems(3) by (auto simp: set_bflags_def enqueue_def Let_def upd_buf_def)
  qed
  ultimately obtain t' where "binit_pool buffers is t = Ok () t'" "avail t' ((xs @ [i]) @ is)"
    using Cons.IH [of t "xs @ [i]"] Cons.prems(2,3) by auto
  moreover have "binit_pool buffers (i # is) s = bnd (brelse i s2) (\<lambda>_ s. binit_pool buffers is s)"
    by (simp add: s2_def s1_def Let_def)
  ultimately show ?case using t by simp
qed auto

lemma binit_devs_avail: "avail w xs \<Longrightarrow> avail (binit_devs majs w) xs"
proof (induction majs arbitrary: w)
  case (Cons m majs)
  show ?case by (auto intro!: Cons.IH avail_cong [OF Cons.prems] simp: Let_def upd_buf_def split: option.split)
qed simp


section \<open>Properties\<close>

text \<open>A buffer that \<open>getblk\<close> returns is busy and assigned to the block asked for.\<close>

theorem getblk_right_block:
  assumes "getblk dev blkno w = Ok bp w'"
  shows "b_dev (buf w' bp) = dev \<and> b_blkno (buf w' bp) = blkno \<and> B_BUSY \<in> bflag_of w' bp"
  using assms getblk_loop_right [of "bfuel w" dev blkno w bp w'] by (simp add: getblk_def holds_block_def split: if_splits)

text \<open>One buffer, free, and one device, numbered 0.\<close>

definition one_buf :: world where
  "one_buf = bss_world\<lparr>buf := (\<lambda>_. zero_buf)(29 := zero_buf\<lparr>av_forw := 0, av_back := 0\<rparr>,
     0 := zero_buf\<lparr>av_forw := 29, av_back := 29, b_forw := 29, b_back := 29, b_dev := -1\<rparr>,
     40 := zero_buf\<lparr>b_forw := 40, b_back := 40\<rparr>), nblkdev := 1, d_tab := (\<lambda>_. None)(0 := Some 40)\<rparr>"

lemma major_0 [simp]: "major 0 = 0"
  by (simp add: major_def u32_def s16_def)

lemma one_buf_avail: "avail one_buf [0]"
  by (simp add: avail_def one_buf_def zero_buf_def)

lemma one_buf_miss:
  "d_tab one_buf (major 0) = Some 40" "major 0 < nblkdev one_buf" "B_DELWRI \<notin> bflag_of one_buf 0"
  "find_blk (NBUF + 1) (buf one_buf) 40 (b_forw (buf one_buf 40)) 0 7 = Some None"
  by (simp_all add: one_buf_def zero_buf_def eval_nat_numeral)

theorem getblk_right_block_witness:
  "\<exists>w'. getblk 0 7 one_buf = Ok 0 w' \<and> b_dev (buf w' 0) = 0 \<and> b_blkno (buf w' 0) = 7 \<and> B_BUSY \<in> bflag_of w' 0"
proof -
  obtain w' where "getblk 0 7 one_buf = Ok 0 w'"
    using getblk_miss [OF one_buf_avail one_buf_miss(2,1,4,3)] by blast
  with getblk_right_block [OF this] show ?thesis by blast
qed

text \<open>
  When the block is not in the cache and the buffer at the front of the free list has nothing
  left to write, \<open>getblk\<close> takes that buffer, the one released longest ago.
\<close>

theorem getblk_takes_oldest:
  assumes "avail w (bp # xs)" "major dev < nblkdev w" "d_tab w (major dev) = Some dp"
    "find_blk (NBUF + 1) (buf w) dp (b_forw (buf w dp)) dev blkno = Some None" "B_DELWRI \<notin> bflag_of w bp"
  shows "\<exists>w'. getblk dev blkno w = Ok bp w' \<and> avail w' xs \<and> b_dev (buf w' bp) = dev \<and> b_blkno (buf w' bp) = blkno
    \<and> bflag_of w' bp = {B_BUSY}"
  using assms by (rule getblk_miss)

theorem getblk_takes_oldest_witness:
  "\<exists>w'. getblk 0 7 one_buf = Ok 0 w' \<and> avail w' [] \<and> bflag_of w' 0 = {B_BUSY}"
  using getblk_takes_oldest [OF one_buf_avail one_buf_miss(2,1,4,3)] by blast

text \<open>
  Claim C14. The free list is a list of buffers: \<open>notavail\<close> takes a buffer out of it from wherever it
  is, and \<open>brelse\<close> puts one at its end, or at its front when the buffer is marked \<open>B_AGE\<close>.
\<close>

theorem free_list_is_queue:
  assumes "avail s xs"
  shows "(\<forall>bp \<in> set xs. avail (notavail bp s) (remove1 bp xs) \<and> B_BUSY \<in> bflag_of (notavail bp s) bp)
    \<and> (\<forall>bp t. bp \<notin> set xs \<longrightarrow> bp \<noteq> bfreelist \<longrightarrow> brelse bp s = Ok () t \<longrightarrow>
         avail t (if B_AGE \<in> bflag_of s bp then bp # xs else xs @ [bp]) \<and> B_BUSY \<notin> bflag_of t bp)"
  using notavail_avail [OF assms] brelse_avail [OF _ assms] by simp

theorem free_list_is_queue_witness:
  "avail (notavail 0 one_buf) [] \<and> (\<exists>t. brelse 5 one_buf = Ok () t \<and> avail t [0, 5])"
proof -
  obtain t where "brelse 5 one_buf = Ok () t"
    using brelse_now [of one_buf 5] by (auto simp: one_buf_def zero_buf_def)
  moreover have "B_AGE \<notin> bflag_of one_buf 5" by (simp add: one_buf_def zero_buf_def)
  ultimately have "avail t [0, 5]"
    using free_list_is_queue [OF one_buf_avail, THEN conjunct2, rule_format, of 5 t] by simp
  then show ?thesis
    using free_list_is_queue [OF one_buf_avail, THEN conjunct1, rule_format, of 0] \<open>brelse 5 one_buf = Ok () t\<close> by auto
qed

text \<open>\<open>binit\<close> puts every buffer of the pool on the free list, in order.\<close>

theorem binit_fills_free_list:
  assumes "B_WANTED \<notin> bflag_of w bfreelist"
  shows "\<exists>w'. binit buffers rows w = Ok () w' \<and> avail w' [0..<NBUF]"
proof -
  define w1 where "w1 = upd_buf bfreelist (\<lambda>b. b\<lparr>b_forw := bfreelist, b_back := bfreelist,
            av_forw := bfreelist, av_back := bfreelist\<rparr>) w"
  have "avail w1 []" "B_WANTED \<notin> bflag_of w1 bfreelist" using assms by (simp_all add: avail_def w1_def upd_buf_def)
  then obtain t where "binit_pool buffers [0..<NBUF] w1 = Ok () t" "avail t ([] @ [0..<NBUF])"
    using binit_pool_avail [of w1 "[]" "[0..<NBUF]"] by auto
  then show ?thesis using binit_devs_avail by (auto simp: binit_def w1_def simp del: upt_rec_numeral)
qed

theorem binit_fills_free_list_witness: "\<exists>w'. binit 4096 1 bss_world = Ok () w' \<and> avail w' [0..<NBUF]"
  by (rule binit_fills_free_list) (simp add: zero_buf_def)

end
