(* ===== verification/Blocks.thy ===== *)
theory Blocks
  imports Bio Prf
begin

text \<open>
  Free blocks and free inodes of a file system (\<open>usr/sys/sys/alloc.c\<close>). The super block in core is
  the field \<open>m_fs\<close> of the mount table; a file system pointer is an index into that table. The
  superblock remembers up to \<open>NICFREE\<close> free blocks, the first of which holds the next batch.
\<close>

section \<open>Layout of disk structures\<close>

fun put32s :: "nat \<Rightarrow> int list \<Rightarrow> (nat \<Rightarrow> int) \<Rightarrow> nat \<Rightarrow> int" where
  "put32s i [] m = m"
| "put32s i (v # vs) m = put32s (i + 4) vs (put32 i v m)"

text \<open>\<open>struct fblk\<close>: the count and, aligned to four bytes, the addresses.\<close>

definition fblk_put :: "filsys \<Rightarrow> (nat \<Rightarrow> int) \<Rightarrow> nat \<Rightarrow> int" where
  "fblk_put fs m = put32s 4 (map (s_free fs) [0..<NICFREE]) (put16 0 (s_nfree fs) m)"

definition fblk_get :: "(nat \<Rightarrow> int) \<Rightarrow> filsys \<Rightarrow> filsys" where
  "fblk_get m fs =
     fs\<lparr>s_nfree := s16 (get16 m 0), s_free := (\<lambda>i. if i < NICFREE then get32 m (4 + 4 * i) else s_free fs i)\<rparr>"

section \<open>Model\<close>

abbreviation fs_of :: "'z kst_scheme \<Rightarrow> nat \<Rightarrow> filsys" where
  "fs_of s fp \<equiv> m_fs (mount s fp)"

definition badblock :: "nat \<Rightarrow> int \<Rightarrow> int \<Rightarrow> 'z kst_scheme \<Rightarrow> bool \<times> 'z kst_scheme" where
  "badblock fp bn dev s =
     (if bn < s_isize (fs_of s fp) \<or> bn \<ge> s_fsize (fs_of s fp) then (True, prdev ''bad block'' dev s) else (False, s))"

definition getfs :: "int \<Rightarrow> 'z kst_scheme \<Rightarrow> (nat, 'z kst_scheme) res" where
  "getfs dev s =
     (case find (\<lambda>mp. m_bufp (mount s mp) \<noteq> None \<and> m_dev (mount s mp) = dev) [0..<NMOUNT] of
        None \<Rightarrow> Panic ''no fs'' s
      | Some fp \<Rightarrow>
          if s_nfree (fs_of s fp) > int NICFREE \<or> s_ninode (fs_of s fp) > int NICINOD
          then Ok fp (upd_fs fp (\<lambda>f. f\<lparr>s_nfree := 0, s_ninode := 0\<rparr>) (prdev ''bad count'' dev s))
          else Ok fp s)"

definition await_flock :: "nat \<Rightarrow> world \<Rightarrow> (unit, world) res" where
  "await_flock fp w = await (\<lambda>w. s_flock (fs_of w fp) \<noteq> 0) id (addr_of w (Ch_flock fp)) PINOD w"

text \<open>\<open>free\<close> when the superblock's list is full: the list moves into the block being freed.\<close>

definition free_spill :: "nat \<Rightarrow> int \<Rightarrow> int \<Rightarrow> world \<Rightarrow> (unit, world) res" where
  "free_spill fp dev bno w =
     bnd (getblk dev bno (upd_fs fp (\<lambda>f. f\<lparr>s_flock := u8 (s_flock f + 1)\<rparr>) w)) (\<lambda>bp w.
       (let w = upd_buf bp (\<lambda>b. b\<lparr>b_data := fblk_put (fs_of w fp) (b_data b)\<rparr>) w;
            w = upd_fs fp (\<lambda>f. f\<lparr>s_nfree := 0\<rparr>) w
        in bnd (bwrite bp w) (\<lambda>_ w.
             wakeup (addr_of w (Ch_flock fp)) (upd_fs fp (\<lambda>f. f\<lparr>s_flock := 0\<rparr>) w))))"

definition free :: "int \<Rightarrow> int \<Rightarrow> world \<Rightarrow> (unit, world) res" where
  "free dev bno w =
     bnd (getfs dev w) (\<lambda>fp w.
     bnd (await_flock fp (upd_fs fp (\<lambda>f. f\<lparr>s_fmod := 1\<rparr>) w)) (\<lambda>_ w.
       (case badblock fp bno dev w of
          (True, w) \<Rightarrow> Ok () w
        | (False, w) \<Rightarrow>
            (let w = (if s_nfree (fs_of w fp) \<le> 0
                      then upd_fs fp (\<lambda>f. f\<lparr>s_nfree := 1, s_free := (s_free f)(0 := 0)\<rparr>) w else w)
             in bnd (if s_nfree (fs_of w fp) \<ge> int NICFREE then free_spill fp dev bno w else Ok () w) (\<lambda>_ w.
                  Ok () (upd_fs fp (\<lambda>f. f\<lparr>s_free := (s_free f)(nat (s_nfree f) := bno), s_nfree := s_nfree f + 1,
                                          s_fmod := 1\<rparr>) w))))))"

text \<open>The loop that takes block numbers off the superblock's list: \<open>None\<close> is the label \<open>nospace\<close>.\<close>

fun alloc_pop :: "nat \<Rightarrow> nat \<Rightarrow> int \<Rightarrow> 'z kst_scheme \<Rightarrow> (int option, 'z kst_scheme) res" where
  "alloc_pop 0 fp dev s = Stuck s"
| "alloc_pop (Suc n) fp dev s =
     (if s_nfree (fs_of s fp) \<le> 0 then Ok None s
      else if s_nfree (fs_of s fp) > int NICFREE then Ok None (prdev ''Bad free count'' dev s)
      else
        (let s = upd_fs fp (\<lambda>f. f\<lparr>s_nfree := s_nfree f - 1\<rparr>) s;
             bno = s_free (fs_of s fp) (nat (s_nfree (fs_of s fp)))
         in if bno = 0 then Ok None s
            else
              (case badblock fp bno dev s of
                 (True, s) \<Rightarrow> alloc_pop n fp dev s
               | (False, s) \<Rightarrow> Ok (Some bno) s)))"

definition nospace :: "nat \<Rightarrow> int \<Rightarrow> 'z kst_scheme \<Rightarrow> (nat option, 'z kst_scheme) res" where
  "nospace fp dev s = Ok None (set_error ENOSPC (prdev ''no space'' dev (upd_fs fp (\<lambda>f. f\<lparr>s_nfree := 0\<rparr>) s)))"

text \<open>\<open>alloc\<close> when the list has become empty: the block taken last holds the next one.\<close>

definition alloc_refill :: "nat \<Rightarrow> int \<Rightarrow> int \<Rightarrow> world \<Rightarrow> (unit, world) res" where
  "alloc_refill fp dev bno w =
     bnd (bread dev bno (upd_fs fp (\<lambda>f. f\<lparr>s_flock := u8 (s_flock f + 1)\<rparr>) w)) (\<lambda>bp w.
       (let w = (if B_ERROR \<notin> bflag_of w bp then upd_fs fp (fblk_get (b_data (buf w bp))) w else w)
        in bnd (brelse bp w) (\<lambda>_ w.
             wakeup (addr_of w (Ch_flock fp)) (upd_fs fp (\<lambda>f. f\<lparr>s_flock := 0\<rparr>) w))))"

definition alloc :: "int \<Rightarrow> world \<Rightarrow> (nat option, world) res" where
  "alloc dev w =
     bnd (getfs dev w) (\<lambda>fp w.
     bnd (await_flock fp w) (\<lambda>_ w.
     bnd (alloc_pop (NICFREE + 1) fp dev w) (\<lambda>r w.
       (case r of
          None \<Rightarrow> nospace fp dev w
        | Some bno \<Rightarrow>
            bnd (if s_nfree (fs_of w fp) \<le> 0 then alloc_refill fp dev bno w else Ok () w) (\<lambda>_ w.
              if s_nfree (fs_of w fp) \<le> 0 then nospace fp dev w
              else bnd (getblk dev bno w) (\<lambda>bp w.
                     Ok (Some bp) (upd_fs fp (\<lambda>f. f\<lparr>s_fmod := 1\<rparr>) (clrbuf bp w))))))))"

definition ifree :: "int \<Rightarrow> int \<Rightarrow> 'z kst_scheme \<Rightarrow> (unit, 'z kst_scheme) res" where
  "ifree dev ino s =
     bnd (getfs dev s) (\<lambda>fp s.
       if s_ilock (fs_of s fp) \<noteq> 0 then Ok () s
       else if s_ninode (fs_of s fp) \<ge> int NICINOD then Ok () s
       else Ok () (upd_fs fp (\<lambda>f. f\<lparr>s_inode := (s_inode f)(nat (s_ninode f) := u16 ino), s_ninode := s_ninode f + 1,
                                   s_fmod := 1\<rparr>) s))"

section \<open>Words in blocks\<close>

lemma put32s_out: "k < i \<or> i + 4 * length vs \<le> k \<Longrightarrow> put32s i vs m k = m k"
  by (induction vs arbitrary: i m) (auto simp: put32_def put8s_out)

lemma get32_put32s_out: "j + 4 \<le> i \<or> i + 4 * length vs \<le> j \<Longrightarrow> get32 (put32s i vs m) j = get32 m j"
  by (auto simp: get32_def put32s_out)

lemma get16_put32s_out: "j + 2 \<le> i \<or> i + 4 * length vs \<le> j \<Longrightarrow> get16 (put32s i vs m) j = get16 m j"
  by (auto simp: get16_def put32s_out)

lemma get32_put32s: "k < length vs \<Longrightarrow> get32 (put32s i vs m) (i + 4 * k) = s32 (vs ! k)"
proof (induction vs arbitrary: i m k)
  case (Cons v vs)
  show ?case
  proof (cases k)
    case 0
    then show ?thesis using get32_put32s_out [of i "i + 4" vs "put32 i v m"] by (simp add: get32_put32)
  next
    case (Suc l)
    then show ?thesis using Cons.IH [of l "i + 4"] Cons.prems by (simp add: algebra_simps)
  qed
qed simp

text \<open>
  The list of free blocks written to a block and read back is the list that was written,
  whatever the block and the super block held before.
\<close>

theorem fblk_round_trip:
  assumes "- 32768 \<le> s_nfree f" "s_nfree f < 32768" "\<forall>i < NICFREE. - 2147483648 \<le> s_free f i \<and> s_free f i < 2147483648"
  shows "fblk_get (fblk_put f m) g = g\<lparr>s_nfree := s_nfree f, s_free := (\<lambda>i. if i < NICFREE then s_free f i else s_free g i)\<rparr>"
proof -
  have "get16 (fblk_put f m) 0 = u16 (s_nfree f)"
    by (simp add: fblk_put_def get16_put32s_out get16_put16 del: upt_rec_numeral)
  moreover have "get32 (fblk_put f m) (4 + 4 * i) = s_free f i" if "i < NICFREE" for i
    using that get32_put32s [of i "map (s_free f) [0..<NICFREE]" 4] assms(3)
    by (simp add: fblk_put_def s32_id del: upt_rec_numeral)
  moreover have "s16 (u16 (s_nfree f)) = s_nfree f"
    using assms(1,2) by (simp add: s16_def u16_def mod_simps)
  ultimately show ?thesis by (auto simp: fblk_get_def fun_eq_iff)
qed

theorem fblk_round_trip_witness:
  "s_free (fblk_get (fblk_put (zero_filsys\<lparr>s_nfree := 2, s_free := (\<lambda>i. if i = 1 then 77 else 0)\<rparr>) (\<lambda>_. 255)) zero_filsys) 1 = 77"
  by (subst fblk_round_trip) (simp_all add: zero_filsys_def)

section \<open>Taking blocks off the list\<close>

text \<open>A number that \<open>alloc\<close> may not hand out.\<close>

definition outside :: "filsys \<Rightarrow> int \<Rightarrow> bool" where
  "outside f bn \<longleftrightarrow> bn < s_isize f \<or> bn \<ge> s_fsize f"

lemma prdev_simps [simp]: "mount (prdev m dev s) = mount s" "u (prdev m dev s) = u s"
  by (simp_all add: prdev_def printf_def kprintf_def split: option.split del: vprintf.simps)

lemma fs_upd [simp]: "fs_of (upd_fs fp g s) q = (if q = fp then g (fs_of s fp) else fs_of s q)"
  by (simp add: upd_fs_def)

definition popped :: "filsys \<Rightarrow> int option \<Rightarrow> filsys \<Rightarrow> bool" where
  "popped f r f' \<longleftrightarrow>
     (case r of
        Some bno \<Rightarrow> (\<exists>k. 0 \<le> k \<and> k < s_nfree f \<and> f' = f\<lparr>s_nfree := k\<rparr> \<and> bno = s_free f (nat k) \<and> bno \<noteq> 0 \<and> \<not> outside f bno
                     \<and> (\<forall>j. k < j \<and> j < s_nfree f \<longrightarrow> s_free f (nat j) \<noteq> 0 \<and> outside f (s_free f (nat j))))
      | None \<Rightarrow> (\<exists>k. f' = f\<lparr>s_nfree := k\<rparr> \<and> k \<le> s_nfree f)
          \<and> (\<forall>j. 0 \<le> j \<and> j < s_nfree f \<and> (\<forall>i. j < i \<and> i < s_nfree f \<longrightarrow> s_free f (nat i) \<noteq> 0) \<longrightarrow>
                s_free f (nat j) = 0 \<or> outside f (s_free f (nat j))))"

lemma alloc_pop_takes:
  "s_nfree (fs_of s fp) \<le> int NICFREE \<Longrightarrow> nat (s_nfree (fs_of s fp)) < n \<Longrightarrow>
   \<exists>r t. alloc_pop n fp dev s = Ok r t \<and> popped (fs_of s fp) r (fs_of t fp)"
proof (induction n arbitrary: s)
  case (Suc n)
  define f where "f = fs_of s fp"
  define k where "k = s_nfree f - 1"
  show ?case
  proof (cases "s_nfree f \<le> 0")
    case True
    then show ?thesis by (auto simp: f_def popped_def intro!: exI [of _ "s_nfree f"])
  next
    case pos: False
    define s1 where "s1 = upd_fs fp (\<lambda>f. f\<lparr>s_nfree := s_nfree f - 1\<rparr>) s"
    have f1: "fs_of s1 fp = f\<lparr>s_nfree := k\<rparr>" by (simp add: s1_def f_def k_def)
    define bno where "bno = s_free f (nat k)"
    have step: "alloc_pop (Suc n) fp dev s =
      (if bno = 0 then Ok None s1 else (case badblock fp bno dev s1 of (True, s) \<Rightarrow> alloc_pop n fp dev s | (False, s) \<Rightarrow> Ok (Some bno) s))"
    proof -
      have e: "s_free (fs_of s1 fp) (nat (s_nfree (fs_of s1 fp))) = bno" by (simp add: f1 bno_def)
      show ?thesis
        using pos Suc.prems(1) unfolding alloc_pop.simps Let_def s1_def [symmetric] e by (simp add: f_def)
    qed
    consider "bno = 0" | "bno \<noteq> 0" "\<not> outside f bno" | "bno \<noteq> 0" "outside f bno" by blast
    then show ?thesis
    proof cases
      case 1
      have "s_free f (nat j) = 0 \<or> outside f (s_free f (nat j))"
        if "0 \<le> j" "j < s_nfree f" "\<forall>i. j < i \<and> i < s_nfree f \<longrightarrow> s_free f (nat i) \<noteq> 0" for j
      proof (cases "j = k")
        case False
        with that(2,3) have "s_free f (nat k) \<noteq> 0" by (simp add: k_def)
        with 1 show ?thesis by (simp add: bno_def)
      qed (use 1 bno_def in simp)
      moreover have "k \<le> s_nfree f" by (simp add: k_def)
      ultimately have "popped f None (fs_of s1 fp)" unfolding popped_def f1 by auto
      with 1 show ?thesis by (simp only: step) (auto simp: f_def)
    next
      case 2
      then have "alloc_pop (Suc n) fp dev s = Ok (Some bno) s1"
        unfolding step by (auto simp: badblock_def outside_def f1)
      moreover have "popped f (Some bno) (fs_of s1 fp)"
        using 2 pos by (auto simp: popped_def f1 bno_def k_def intro!: exI [of _ k])
      ultimately show ?thesis unfolding f_def by blast
    next
      case 3
      define s2 where "s2 = prdev ''bad block'' dev s1"
      have f2: "fs_of s2 fp = f\<lparr>s_nfree := k\<rparr>" by (simp add: s2_def f1)
      have eq: "alloc_pop (Suc n) fp dev s = alloc_pop n fp dev s2"
        using 3 unfolding step by (auto simp: badblock_def outside_def f1 s2_def)
      obtain r t where rt: "alloc_pop n fp dev s2 = Ok r t" "popped (f\<lparr>s_nfree := k\<rparr>) r (fs_of t fp)"
      proof -
        have "nat k < n" using Suc.prems(2) pos by (simp add: k_def f_def nat_diff_distrib)
        then show ?thesis using that Suc.IH [of s2] Suc.prems(1) by (auto simp: f2 k_def f_def)
      qed
      have "popped f r (fs_of t fp)"
      proof (cases r)
        case None
        with rt(2) 3 show ?thesis
          by (simp add: popped_def outside_def) (smt (verit) bno_def k_def)
      next
        case (Some b)
        with rt(2) 3 show ?thesis
          by (simp add: popped_def outside_def) (smt (verit) bno_def k_def)
      qed
      with eq rt(1) show ?thesis unfolding f_def by auto
    qed
  qed
qed simp

text \<open>
  The loop of \<open>alloc\<close> ends. It takes the last entry of the list that names a block of the
  file system's data area; the entries dropped on the way are outside that area. It reports no
  space exactly when there is no such entry above the last zero.
\<close>

theorem alloc_pop_last_good:
  assumes "s_nfree (fs_of s fp) \<le> int NICFREE"
  shows "\<exists>r t. alloc_pop (NICFREE + 1) fp dev s = Ok r t \<and> popped (fs_of s fp) r (fs_of t fp)"
  using assms by (intro alloc_pop_takes) simp_all

definition list_fs :: filsys where
  "list_fs = zero_filsys\<lparr>s_isize := 10, s_fsize := 100, s_nfree := 3, s_free := (\<lambda>_. 0)(1 := 20, 2 := 500)\<rparr>"

text \<open>A mounted file system whose list has a good block below a bad one.\<close>

definition list_world :: world where
  "list_world = bss_world\<lparr>mount := (\<lambda>_. zero_mount)(0 := zero_mount\<lparr>m_bufp := Some 3, m_dev := 7, m_fs := list_fs\<rparr>)\<rparr>"

lemma list_world_fs [simp]: "fs_of list_world 0 = list_fs"
  by (simp add: list_world_def zero_mount_def)

theorem alloc_pop_last_good_witness:
  "\<exists>t. alloc_pop (NICFREE + 1) 0 7 list_world = Ok (Some 20) t \<and> s_nfree (fs_of t 0) = 1"
proof -
  obtain r t where rt: "alloc_pop (NICFREE + 1) 0 7 list_world = Ok r t" "popped list_fs r (fs_of t 0)"
    using alloc_pop_last_good [of list_world 0 7] by (auto simp: list_fs_def)
  have "r = Some 20 \<and> s_nfree (fs_of t 0) = 1"
  proof (cases r)
    case None
    have "s_free list_fs (nat i) \<noteq> 0" if "1 < i \<and> i < 3" for i
      using that by (cases "i = 2") (simp_all add: list_fs_def)
    with rt(2) None have "s_free list_fs 1 = 0 \<or> outside list_fs (s_free list_fs 1)"
      by (auto simp: popped_def list_fs_def dest!: spec [of _ "1 :: int"])
    then show ?thesis by (simp add: list_fs_def outside_def)
  next
    case (Some b)
    with rt(2) obtain k where k: "0 \<le> k" "k < 3" "fs_of t 0 = list_fs\<lparr>s_nfree := k\<rparr>" "b = s_free list_fs (nat k)" "b \<noteq> 0"
      "\<not> outside list_fs b" by (auto simp: popped_def list_fs_def)
    then have "k = 0 \<or> k = 1 \<or> k = 2" by auto
    with k Some show ?thesis by (auto simp: list_fs_def outside_def zero_filsys_def)
  qed
  with rt(1) show ?thesis by simp
qed

section \<open>Releasing and taking\<close>

lemma getfs_again:
  assumes "getfs dev w = Ok fp w" "s_nfree (g (fs_of w fp)) \<le> int NICFREE" "s_ninode (g (fs_of w fp)) = s_ninode (fs_of w fp)"
  shows "getfs dev (upd_fs fp g w) = Ok fp (upd_fs fp g w)"
proof -
  let ?P = "\<lambda>s mp. m_bufp (mount s mp) \<noteq> None \<and> m_dev (mount s mp) = dev"
  have f: "find (?P w) [0..<NMOUNT] = Some fp"
    using assms(1) by (auto simp: getfs_def split: option.splits if_splits)
  have "\<not> s_ninode (fs_of w fp) > int NICINOD"
  proof
    assume "s_ninode (fs_of w fp) > int NICINOD"
    with assms(1) f have "upd_fs fp (\<lambda>f. f\<lparr>s_nfree := 0, s_ninode := 0\<rparr>) (prdev ''bad count'' dev w) = w" by (simp add: getfs_def)
    then have "s_ninode (fs_of w fp) = 0"
      by (drule_tac arg_cong [where f = "\<lambda>w. s_ninode (fs_of w fp)"]) simp
    with \<open>s_ninode (fs_of w fp) > int NICINOD\<close> show False by simp
  qed
  moreover have "?P (upd_fs fp g w) = ?P w" by (auto simp: fun_eq_iff upd_fs_def)
  ultimately show ?thesis using f assms(2,3) by (simp add: getfs_def del: upt_rec_numeral)
qed

text \<open>
  Claim C21. A block that is released to a list with room is the next one allocated, and the list is
  then as it was.
\<close>

theorem alloc_after_free:
  assumes "getfs dev w = Ok fp w" "s_flock (fs_of w fp) = 0" "0 < s_nfree (fs_of w fp)" "s_nfree (fs_of w fp) < int NICFREE"
    "bno \<noteq> 0" "s_isize (fs_of w fp) \<le> bno" "bno < s_fsize (fs_of w fp)"
  defines "w' \<equiv> upd_fs fp (\<lambda>f. f\<lparr>s_free := (s_free f)(nat (s_nfree f) := bno), s_fmod := 1\<rparr>) w"
  shows "bnd (free dev bno w) (\<lambda>_ w. alloc dev w) =
    bnd (getblk dev bno w') (\<lambda>bp w. Ok (Some bp) (upd_fs fp (\<lambda>f. f\<lparr>s_fmod := 1\<rparr>) (clrbuf bp w)))"
proof -
  let ?n = "s_nfree (fs_of w fp)"
  define w1 where "w1 = upd_fs fp (\<lambda>f. f\<lparr>s_free := (s_free f)(nat (s_nfree f) := bno), s_nfree := s_nfree f + 1, s_fmod := 1\<rparr>) w"
  have uu: "upd_fs fp g (upd_fs fp h s) = upd_fs fp (\<lambda>f. g (h f)) s" for g h and s :: world
    by (simp add: upd_fs_def)
  have "free dev bno w = Ok () w1"
    using assms(1-7) by (simp add: free_def await_flock_def badblock_def w1_def uu)
  moreover have "getfs dev w1 = Ok fp w1"
    unfolding w1_def using assms(1,4) by (intro getfs_again) simp_all
  moreover have "alloc_pop (Suc k) fp dev w1 = Ok (Some bno) w'" for k
  proof -
    have "upd_fs fp (\<lambda>f. f\<lparr>s_nfree := s_nfree f - 1\<rparr>) w1 = w'" by (simp add: w1_def w'_def uu)
    then show ?thesis using assms(3-7) by (simp add: w1_def w'_def badblock_def Let_def)
  qed
  note this [of 50, simplified]
  ultimately show ?thesis
    using assms(2,3) by (simp add: alloc_def await_flock_def w1_def w'_def del: alloc_pop.simps)
qed

theorem alloc_after_free_witness:
  "bnd (free 7 30 list_world) (\<lambda>_ w. alloc 7 w) =
    bnd (getblk 7 30 (upd_fs 0 (\<lambda>f. f\<lparr>s_free := (s_free f)(nat (s_nfree f) := 30), s_fmod := 1\<rparr>) list_world))
      (\<lambda>bp w. Ok (Some bp) (upd_fs 0 (\<lambda>f. f\<lparr>s_fmod := 1\<rparr>) (clrbuf bp w)))"
proof (rule alloc_after_free)
  show "getfs 7 list_world = Ok 0 list_world"
  proof -
    have "find (\<lambda>mp. m_bufp (mount list_world mp) \<noteq> None \<and> m_dev (mount list_world mp) = 7) [0..<NMOUNT] = Some 0"
      by (subst upt_conv_Cons) (simp_all add: list_world_def)
    then show ?thesis unfolding getfs_def by (simp add: list_fs_def zero_filsys_def)
  qed
qed (simp_all add: list_fs_def zero_filsys_def)

end
