(* ===== verification/Inodes.thy ===== *)
theory Inodes
  imports Blocks
begin

text \<open>
  Inodes (\<open>usr/sys/sys/iget.c\<close>, \<open>plock\<close> and \<open>prele\<close> of \<open>pipe.c\<close>, \<open>ialloc\<close> and \<open>update\<close> of \<open>alloc.c\<close>):
  the table of inodes in core, their transfer from and to the disk, reference counts and locks,
  truncation, the search for free inodes, and the periodic update of the disks. An inode pointer
  is an index into the table \<open>inode\<close>.
\<close>

section \<open>Disk inodes and super blocks\<close>

text \<open>
  \<open>struct dinode\<close>: mode, links, owner, group at 0, 2, 4, 6, the size at 8, thirteen addresses of
  three bytes each from 12 on, the times at 52, 56 and 60.
\<close>

definition addr_bytes :: "(nat \<Rightarrow> int) \<Rightarrow> int list" where
  "addr_bytes a = concat (map (\<lambda>i. [byte_of 0 (a i), byte_of 1 (a i), byte_of 2 (a i)]) [0..<NADDR])"

definition dinode_put :: "nat \<Rightarrow> inode \<Rightarrow> (nat \<Rightarrow> int) \<Rightarrow> nat \<Rightarrow> int" where
  "dinode_put dp ip m =
     put8s (dp + 12) (addr_bytes (i_addr ip))
      (put32 (dp + 8) (i_size ip) (put16 (dp + 6) (i_gid ip) (put16 (dp + 4) (i_uid ip)
        (put16 (dp + 2) (i_nlink ip) (put16 dp (i_mode ip) m)))))"

definition iexpand :: "nat \<Rightarrow> (nat \<Rightarrow> int) \<Rightarrow> inode \<Rightarrow> inode" where
  "iexpand dp m ip =
     ip\<lparr>i_mode := get16 m dp, i_nlink := s16 (get16 m (dp + 2)), i_uid := s16 (get16 m (dp + 4)),
       i_gid := s16 (get16 m (dp + 6)), i_size := get32 m (dp + 8),
       i_addr := (\<lambda>i. if i < NADDR
                      then le32 (m (dp + 12 + 3 * i)) (m (dp + 13 + 3 * i)) (m (dp + 14 + 3 * i)) 0
                      else i_addr ip i)\<rparr>"

fun put16s :: "nat \<Rightarrow> int list \<Rightarrow> (nat \<Rightarrow> int) \<Rightarrow> nat \<Rightarrow> int" where
  "put16s i [] m = m"
| "put16s i (v # vs) m = put16s (i + 2) vs (put16 i v m)"

text \<open>\<open>struct filsys\<close> as a block; \<open>s_rest\<close> are the bytes this system does not interpret.\<close>

definition fs_put :: "filsys \<Rightarrow> nat \<Rightarrow> int" where
  "fs_put f =
     put32 420 (s_time f) (put8s 414 [s_flock f, s_ilock f, s_fmod f, s_ronly f]
       (put16s 214 (map (s_inode f) [0..<NICINOD]) (put16 212 (s_ninode f)
         (put32s 12 (map (s_free f) [0..<NICFREE]) (put16 8 (s_nfree f) (put32 4 (s_fsize f)
           (put16 0 (s_isize f) (s_rest f))))))))"

definition fs_get :: "(nat \<Rightarrow> int) \<Rightarrow> filsys" where
  "fs_get m =
     \<lparr>s_isize = get16 m 0, s_fsize = get32 m 4, s_nfree = s16 (get16 m 8), s_free = (\<lambda>i. get32 m (12 + 4 * i)),
      s_ninode = s16 (get16 m 212), s_inode = (\<lambda>i. get16 m (214 + 2 * i)), s_flock = m 414, s_ilock = m 415,
      s_fmod = m 416, s_ronly = m 417, s_time = get32 m 420, s_rest = m\<rparr>"

section \<open>Locks\<close>

definition set_iflags :: "nat \<Rightarrow> iflag set \<Rightarrow> 'z kst_scheme \<Rightarrow> 'z kst_scheme" where
  "set_iflags ip F s = upd_inode ip (\<lambda>i. i\<lparr>i_flag := F\<rparr>) s"

abbreviation iflag_of :: "'z kst_scheme \<Rightarrow> nat \<Rightarrow> iflag set" where
  "iflag_of s ip \<equiv> i_flag (inode s ip)"

definition plock :: "nat \<Rightarrow> world \<Rightarrow> (unit, world) res" where
  "plock ip w =
     bnd (await (\<lambda>w. ILOCK \<in> iflag_of w ip) (\<lambda>w. set_iflags ip (iflag_of w ip \<union> {IWANT}) w)
            (addr_of w (Ch_inode ip)) PINOD w) (\<lambda>_ w. Ok () (set_iflags ip (iflag_of w ip \<union> {ILOCK}) w))"

definition prele :: "nat \<Rightarrow> 'z kst_scheme \<Rightarrow> (unit, 'z kst_scheme) res" where
  "prele ip s =
     (let s = set_iflags ip (iflag_of s ip - {ILOCK}) s in
      if IWANT \<in> iflag_of s ip
      then wakeup (addr_of s (Ch_inode ip)) (set_iflags ip (iflag_of s ip - {IWANT}) s) else Ok () s)"

section \<open>Truncation\<close>

text \<open>
  The loop of \<open>tloop\<close> over the entries of an indirect block; \<open>rec\<close> is the recursive call, \<open>None\<close>
  the return on a read error, \<open>Some bp\<close> the buffer held at the end of the loop.
\<close>

fun tloop_scan :: "(int \<Rightarrow> int \<Rightarrow> world \<Rightarrow> (unit, world) res) \<Rightarrow> bool \<Rightarrow> int \<Rightarrow> int \<Rightarrow> nat list \<Rightarrow> nat option
    \<Rightarrow> world \<Rightarrow> (nat option option, world) res" where
  "tloop_scan rec f1 dev bn [] bp w = Ok (Some bp) w"
| "tloop_scan rec f1 dev bn (i # is) bp w =
     bnd (case bp of
            Some b \<Rightarrow> Ok (Some b) w
          | None \<Rightarrow>
              bnd (bread dev bn w) (\<lambda>b w.
                if B_ERROR \<in> bflag_of w b then bnd (brelse b w) (\<lambda>_ w. Ok None w) else Ok (Some b) w)) (\<lambda>r w.
       (case r of
          None \<Rightarrow> Ok None w
        | Some b \<Rightarrow>
            (let nb = get32 (b_data (buf w b)) (4 * i) in
             if nb = 0 then tloop_scan rec f1 dev bn is (Some b) w
             else if f1 then
               bnd (brelse b w) (\<lambda>_ w. bnd (rec dev nb w) (\<lambda>_ w. tloop_scan rec f1 dev bn is None w))
             else bnd (free dev nb w) (\<lambda>_ w. tloop_scan rec f1 dev bn is (Some b) w))))"

definition tloop_body :: "(int \<Rightarrow> int \<Rightarrow> world \<Rightarrow> (unit, world) res) \<Rightarrow> bool \<Rightarrow> int \<Rightarrow> int \<Rightarrow> world \<Rightarrow> (unit, world) res" where
  "tloop_body rec f1 dev bn w =
     bnd (tloop_scan rec f1 dev bn (rev [0..<NINDIR]) None w) (\<lambda>r w.
       (case r of
          None \<Rightarrow> Ok () w
        | Some bp \<Rightarrow>
            bnd (case bp of None \<Rightarrow> Ok () w | Some b \<Rightarrow> brelse b w) (\<lambda>_ w. free dev bn w)))"

text \<open>
  The number is how many of the flags \<open>f1\<close>, \<open>f2\<close> are set: \<open>tloop(dev, bn, 0, 0)\<close>, \<open>(1, 0)\<close> and \<open>(1, 1)\<close>.
\<close>

primrec tloop :: "nat \<Rightarrow> int \<Rightarrow> int \<Rightarrow> world \<Rightarrow> (unit, world) res" where
  "tloop 0 dev bn w = tloop_body (\<lambda>_ _ w. Ok () w) False dev bn w"
| "tloop (Suc f) dev bn w = tloop_body (tloop f) True dev bn w"

fun itrunc_loop :: "nat list \<Rightarrow> nat \<Rightarrow> int \<Rightarrow> world \<Rightarrow> (unit, world) res" where
  "itrunc_loop [] ip dev w = Ok () w"
| "itrunc_loop (i # is) ip dev w =
     (let bn = i_addr (inode w ip) i in
      if bn = 0 then itrunc_loop is ip dev w
      else
        (let w = upd_inode ip (\<lambda>r. r\<lparr>i_addr := (i_addr r)(i := 0)\<rparr>) w in
         bnd (if i = NADDR - 3 then tloop 0 dev bn w
              else if i = NADDR - 2 then tloop 1 dev bn w
              else if i = NADDR - 1 then tloop 2 dev bn w
              else free dev bn w) (\<lambda>_ w. itrunc_loop is ip dev w)))"

definition itrunc :: "nat \<Rightarrow> world \<Rightarrow> (unit, world) res" where
  "itrunc ip w =
     (let i = i_mode (inode w ip) AND IFMT in
      if i \<noteq> IFREG \<and> i \<noteq> IFDIR then Ok () w
      else
        bnd (itrunc_loop (rev [0..<NADDR]) ip (i_dev (inode w ip)) w) (\<lambda>_ w.
          Ok () (upd_inode ip (\<lambda>r. r\<lparr>i_size := 0, i_flag := i_flag r \<union> {ICHG, IUPD}\<rparr>) w)))"

section \<open>Writing and releasing\<close>

text \<open>The times are passed by address and read after the block has arrived.\<close>

definition iupdat :: "nat \<Rightarrow> (world \<Rightarrow> int) \<Rightarrow> (world \<Rightarrow> int) \<Rightarrow> world \<Rightarrow> (unit, world) res" where
  "iupdat ip ta tm w =
     (if iflag_of w ip \<inter> {IUPD, IACC, ICHG} = {} then Ok () w
      else
        bnd (getfs (i_dev (inode w ip)) w) (\<lambda>fp w.
          if s_ronly (fs_of w fp) \<noteq> 0 then Ok () w
          else
            bnd (bread (i_dev (inode w ip)) (itod (i_number (inode w ip))) w) (\<lambda>bp w.
              if B_ERROR \<in> bflag_of w bp then brelse bp w
              else
                (let r = inode w ip; dp = 64 * itoo (i_number r);
                     m = dinode_put dp r (b_data (buf w bp));
                     w = fold (\<lambda>i w. if i_addr r i > 0xffffff then kprintf ''iaddress > 2^24\<newline>'' w else w) [0..<NADDR] w;
                     m = (if IACC \<in> i_flag r then put32 (dp + 52) (ta w) m else m);
                     m = (if IUPD \<in> i_flag r then put32 (dp + 56) (tm w) m else m);
                     m = (if ICHG \<in> i_flag r then put32 (dp + 60) (time w) m else m);
                     w = upd_buf bp (\<lambda>b. b\<lparr>b_data := m\<rparr>) w;
                     w = set_iflags ip (i_flag r - {IUPD, IACC, ICHG}) w
                 in bdwrite bp w))))"

definition iput :: "nat \<Rightarrow> world \<Rightarrow> (unit, world) res" where
  "iput ip w =
     bnd (if i_count (inode w ip) = 1 then
            (let w = set_iflags ip (iflag_of w ip \<union> {ILOCK}) w in
             bnd (if i_nlink (inode w ip) \<le> 0 then
                    bnd (itrunc ip w) (\<lambda>_ w.
                      (let w = upd_inode ip (\<lambda>i. i\<lparr>i_mode := 0, i_flag := i_flag i \<union> {IUPD, ICHG}\<rparr>) w
                       in ifree (i_dev (inode w ip)) (i_number (inode w ip)) w))
                  else Ok () w) (\<lambda>_ w.
             bnd (iupdat ip time time w) (\<lambda>_ w.
             bnd (prele ip w) (\<lambda>_ w. Ok () (upd_inode ip (\<lambda>i. i\<lparr>i_flag := {}, i_number := 0\<rparr>) w)))))
          else Ok () w) (\<lambda>_ w.
       prele ip (upd_inode ip (\<lambda>i. i\<lparr>i_count := u8 (i_count i - 1)\<rparr>) w))"

section \<open>Fetching\<close>

text \<open>A round that does not return sleeps or goes down through one mounted file system.\<close>

definition ifuel :: "world \<Rightarrow> nat" where
  "ifuel w = (length (env w) + 1) * (NMOUNT + 1)"

fun iget_loop :: "nat \<Rightarrow> int \<Rightarrow> int \<Rightarrow> world \<Rightarrow> (nat option, world) res" where
  "iget_loop 0 dev ino w = Stuck w"
| "iget_loop (Suc n) dev ino w =
     (case find (\<lambda>ip. i_number (inode w ip) = ino \<and> i_dev (inode w ip) = dev) [0..<NINODE] of
        Some ip \<Rightarrow>
          if ILOCK \<in> iflag_of w ip then
            bnd (sleep (addr_of w (Ch_inode ip)) PINOD (set_iflags ip (iflag_of w ip \<union> {IWANT}) w))
              (\<lambda>_ w. iget_loop n dev ino w)
          else if IMOUNT \<in> iflag_of w ip then
            (case find (\<lambda>mp. m_inodp (mount w mp) = Some ip) [0..<NMOUNT] of
               Some mp \<Rightarrow> iget_loop n (m_dev (mount w mp)) ROOTINO w
             | None \<Rightarrow> Panic ''no imt'' w)
          else Ok (Some ip) (upd_inode ip (\<lambda>i. i\<lparr>i_count := u8 (i_count i + 1), i_flag := i_flag i \<union> {ILOCK}\<rparr>) w)
      | None \<Rightarrow>
          (case find (\<lambda>ip. i_count (inode w ip) = 0) [0..<NINODE] of
             None \<Rightarrow> Ok None (set_error ENFILE (kprintf ''Inode table overflow\<newline>'' w))
           | Some ip \<Rightarrow>
               (let w = upd_inode ip (\<lambda>i. i\<lparr>i_dev := dev, i_number := ino, i_flag := {ILOCK},
                          i_count := u8 (i_count i + 1), i_lastr := 0\<rparr>) w
                in bnd (bread dev (itod ino) w) (\<lambda>bp w.
                     if B_ERROR \<in> bflag_of w bp then
                       bnd (brelse bp w) (\<lambda>_ w. bnd (iput ip w) (\<lambda>_ w. Ok None w))
                     else
                       bnd (brelse bp (upd_inode ip (iexpand (64 * itoo ino) (b_data (buf w bp))) w))
                         (\<lambda>_ w. Ok (Some ip) w)))))"

definition iget :: "int \<Rightarrow> int \<Rightarrow> world \<Rightarrow> (nat option, world) res" where
  "iget dev ino w = iget_loop (ifuel w) dev ino w"

section \<open>Allocating an inode\<close>

text \<open>The entries of one block of the inode list; the list of numbers ends early when the superblock is full.\<close>

fun iscan_block :: "nat list \<Rightarrow> int \<Rightarrow> int \<Rightarrow> nat \<Rightarrow> (nat \<Rightarrow> int) \<Rightarrow> 'z kst_scheme \<Rightarrow> int \<times> 'z kst_scheme" where
  "iscan_block [] ino dev fp m s = (ino, s)"
| "iscan_block (i # is) ino dev fp m s =
     (if get16 m (64 * i) \<noteq> 0
         \<or> list_ex (\<lambda>ip. i_dev (inode s ip) = dev \<and> i_number (inode s ip) = ino) [0..<NINODE]
      then iscan_block is (u16 (ino + 1)) dev fp m s
      else
        (let s = upd_fs fp (\<lambda>f. f\<lparr>s_inode := (s_inode f)(nat (s_ninode f) := ino), s_ninode := s_ninode f + 1\<rparr>) s in
         if s_ninode (fs_of s fp) \<ge> int NICINOD then (ino, s)
         else iscan_block is (u16 (ino + 1)) dev fp m s))"

text \<open>The i-list ends at \<open>s_isize\<close>, a 16-bit number.\<close>

fun iscan :: "nat \<Rightarrow> int \<Rightarrow> int \<Rightarrow> int \<Rightarrow> nat \<Rightarrow> world \<Rightarrow> (unit, world) res" where
  "iscan 0 adr ino dev fp w = Stuck w"
| "iscan (Suc n) adr ino dev fp w =
     (if adr \<ge> s_isize (fs_of w fp) then Ok () w
      else
        bnd (bread dev adr w) (\<lambda>bp w.
          if B_ERROR \<in> bflag_of w bp then
            bnd (brelse bp w) (\<lambda>_ w. iscan n (adr + 1) (u16 (ino + 8)) dev fp w)
          else
            (case iscan_block [0..<8] ino dev fp (b_data (buf w bp)) w of
               (ino, w) \<Rightarrow>
                 bnd (brelse bp w) (\<lambda>_ w.
                   if s_ninode (fs_of w fp) \<ge> int NICINOD then Ok () w
                   else iscan n (adr + 1) ino dev fp w))))"

text \<open>Between two sleeps the superblock's numbers are used up twice at most.\<close>

definition ialloc_fuel :: "world \<Rightarrow> nat" where
  "ialloc_fuel w = (length (env w) + 1) * (2 * NICINOD + 2)"

fun ialloc_loop :: "nat \<Rightarrow> int \<Rightarrow> nat \<Rightarrow> world \<Rightarrow> (nat option, world) res" where
  "ialloc_loop 0 dev fp w = Stuck w"
| "ialloc_loop (Suc n) dev fp w =
     (if s_ninode (fs_of w fp) > 0 then
        (let w = upd_fs fp (\<lambda>f. f\<lparr>s_ninode := s_ninode f - 1\<rparr>) w;
             ino = s_inode (fs_of w fp) (nat (s_ninode (fs_of w fp)))
         in if ino < ROOTINO then ialloc_loop n dev fp w
            else
              bnd (iget dev ino w) (\<lambda>oip w.
                (case oip of
                   None \<Rightarrow> Ok None w
                 | Some ip \<Rightarrow>
                     if i_mode (inode w ip) = 0 then
                       Ok (Some ip) (upd_fs fp (\<lambda>f. f\<lparr>s_fmod := 1\<rparr>)
                         (upd_inode ip (\<lambda>r. r\<lparr>i_addr := (\<lambda>i. if i < NADDR then 0 else i_addr r i)\<rparr>) w))
                     else bnd (iput ip w) (\<lambda>_ w. ialloc_loop n dev fp w))))
      else
        bnd (iscan 65536 (SUPERB + 1) 1 dev fp (upd_fs fp (\<lambda>f. f\<lparr>s_ilock := u8 (s_ilock f + 1)\<rparr>) w)) (\<lambda>_ w.
        bnd (wakeup (addr_of w (Ch_ilock fp)) (upd_fs fp (\<lambda>f. f\<lparr>s_ilock := 0\<rparr>) w)) (\<lambda>_ w.
          if s_ninode (fs_of w fp) > 0 then ialloc_loop n dev fp w
          else Ok None (set_error ENOSPC (prdev ''Out of inodes'' dev w)))))"

definition ialloc :: "int \<Rightarrow> world \<Rightarrow> (nat option, world) res" where
  "ialloc dev w =
     bnd (getfs dev w) (\<lambda>fp w.
     bnd (await (\<lambda>w. s_ilock (fs_of w fp) \<noteq> 0) id (addr_of w (Ch_ilock fp)) PINOD w) (\<lambda>_ w.
       ialloc_loop (ialloc_fuel w) dev fp w))"

section \<open>Update\<close>

fun update_fs :: "nat list \<Rightarrow> world \<Rightarrow> (unit, world) res" where
  "update_fs [] w = Ok () w"
| "update_fs (mp # mps) w =
     (let f = fs_of w mp in
      if m_bufp (mount w mp) = None \<or> s_fmod f = 0 \<or> s_ilock f \<noteq> 0 \<or> s_flock f \<noteq> 0 \<or> s_ronly f \<noteq> 0
      then update_fs mps w
      else
        bnd (getblk (m_dev (mount w mp)) SUPERB w) (\<lambda>bp w.
          if B_ERROR \<in> bflag_of w bp then update_fs mps w
          else
            (let w = upd_fs mp (\<lambda>f. f\<lparr>s_fmod := 0, s_time := time w\<rparr>) w;
                 w = upd_buf bp (\<lambda>b. b\<lparr>b_data := bcopy (fs_put (fs_of w mp)) 0 (b_data b) 0 512\<rparr>) w
             in bnd (bwrite bp w) (\<lambda>_ w. update_fs mps w))))"

fun update_inodes :: "nat list \<Rightarrow> world \<Rightarrow> (unit, world) res" where
  "update_inodes [] w = Ok () w"
| "update_inodes (ip # ips) w =
     (if ILOCK \<notin> iflag_of w ip \<and> i_count (inode w ip) \<noteq> 0 then
        (let w = upd_inode ip (\<lambda>i. i\<lparr>i_flag := i_flag i \<union> {ILOCK}, i_count := u8 (i_count i + 1)\<rparr>) w
         in bnd (iupdat ip time time w) (\<lambda>_ w. bnd (iput ip w) (\<lambda>_ w. update_inodes ips w)))
      else update_inodes ips w)"

definition update :: "world \<Rightarrow> (unit, world) res" where
  "update w =
     (if updlock w \<noteq> 0 then Ok () w
      else
        bnd (update_fs [0..<NMOUNT] (w\<lparr>updlock := updlock w + 1\<rparr>)) (\<lambda>_ w.
        bnd (update_inodes [0..<NINODE] w) (\<lambda>_ w. bflush NODEV (w\<lparr>updlock := 0\<rparr>))))"

section \<open>Round trips\<close>

lemma triples:
  "length (concat (map (\<lambda>i. [f i, g i, h i]) [0..<n])) = 3 * n"
  "i < n \<Longrightarrow> concat (map (\<lambda>i. [f i, g i, h i]) [0..<n]) ! (3 * i) = f i"
  "i < n \<Longrightarrow> concat (map (\<lambda>i. [f i, g i, h i]) [0..<n]) ! (3 * i + 1) = g i"
  "i < n \<Longrightarrow> concat (map (\<lambda>i. [f i, g i, h i]) [0..<n]) ! (3 * i + 2) = h i"
proof -
  let ?l = "\<lambda>n. concat (map (\<lambda>i. [f i, g i, h i]) [0..<n])"
  have len: "length (?l n) = 3 * n" for n by (induction n) simp_all
  show "length (?l n) = 3 * n" by (rule len)
  have "i < n \<Longrightarrow> ?l n ! (3 * i) = f i \<and> ?l n ! (3 * i + 1) = g i \<and> ?l n ! (3 * i + 2) = h i"
    by (induction n) (auto simp: nth_append len less_Suc_eq)
  then show "i < n \<Longrightarrow> ?l n ! (3 * i) = f i" "i < n \<Longrightarrow> ?l n ! (3 * i + 1) = g i" "i < n \<Longrightarrow> ?l n ! (3 * i + 2) = h i"
    by auto
qed

lemma le24_bytes: "0 \<le> v \<Longrightarrow> v < 16777216 \<Longrightarrow> le32 (byte_of 0 v) (byte_of 1 v) (byte_of 2 v) 0 = v"
  using le32_bytes [of v] by (simp add: byte_of_def u8_def drop_bit_eq_div le32_def u32_def)

lemma addr_bytes_length [simp]: "length (addr_bytes a) = 39"
  unfolding addr_bytes_def triples(1) by simp

lemma addr_bytes_nth:
  assumes "i < NADDR"
  shows "addr_bytes a ! (3 * i) = byte_of 0 (a i)" "addr_bytes a ! (3 * i + 1) = byte_of 1 (a i)"
    "addr_bytes a ! (3 * i + 2) = byte_of 2 (a i)"
  unfolding addr_bytes_def using triples(2-4) [OF assms, of "\<lambda>i. byte_of 0 (a i)" "\<lambda>i. byte_of 1 (a i)" "\<lambda>i. byte_of 2 (a i)"]
  by simp_all

lemma get16_put8s_out: "j + 2 \<le> i \<or> i + length cs \<le> j \<Longrightarrow> get16 (put8s i cs m) j = get16 m j"
  by (auto simp: get16_def put8s_out)

lemma get32_put8s_out: "j + 4 \<le> i \<or> i + length cs \<le> j \<Longrightarrow> get32 (put8s i cs m) j = get32 m j"
  by (auto simp: get32_def put8s_out)

lemma get16_put16_out: "j + 2 \<le> i \<or> i + 2 \<le> j \<Longrightarrow> get16 (put16 i v m) j = get16 m j"
  by (simp add: put16_def get16_put8s_out)

lemma get16_put32_out: "j + 2 \<le> i \<or> i + 4 \<le> j \<Longrightarrow> get16 (put32 i v m) j = get16 m j"
  by (simp add: put32_def get16_put8s_out)

lemma get32_put16_out: "j + 4 \<le> i \<or> i + 2 \<le> j \<Longrightarrow> get32 (put16 i v m) j = get32 m j"
  by (simp add: put16_def get32_put8s_out)

lemmas words_apart = get16_put8s_out get32_put8s_out get16_put16_out get16_put32_out get32_put16_out
  get32_put32_other get16_put16 get32_put32 get16_put32s_out get32_put32s_out

lemma s16_u16 [simp]: "s16 (u16 x) = s16 x"
  by (simp add: s16_def u16_def mod_simps)

text \<open>What an inode may hold for its image on the disk to be faithful.\<close>

definition storable :: "inode \<Rightarrow> bool" where
  "storable ip \<longleftrightarrow> 0 \<le> i_mode ip \<and> i_mode ip < 65536 \<and> (\<forall>v \<in> {i_nlink ip, i_uid ip, i_gid ip}. - 32768 \<le> v \<and> v < 32768)
     \<and> - 2147483648 \<le> i_size ip \<and> i_size ip < 2147483648 \<and> (\<forall>i < NADDR. 0 \<le> i_addr ip i \<and> i_addr ip i < 16777216)"

lemma dinode_fields:
  assumes "storable ip"
  shows "iexpand dp (dinode_put dp ip m) x = x\<lparr>i_mode := i_mode ip, i_nlink := i_nlink ip, i_uid := i_uid ip, i_gid := i_gid ip,
      i_size := i_size ip, i_addr := (\<lambda>i. if i < NADDR then i_addr ip i else i_addr x i)\<rparr>"
proof -
  let ?m = "dinode_put dp ip m"
  have "get16 ?m dp = i_mode ip" "s16 (get16 ?m (dp + 2)) = i_nlink ip" "s16 (get16 ?m (dp + 4)) = i_uid ip"
    "s16 (get16 ?m (dp + 6)) = i_gid ip" "get32 ?m (dp + 8) = i_size ip"
    using assms by (simp_all add: dinode_put_def words_apart storable_def u16_id s16_id s32_id)
  moreover have "le32 (?m (dp + 12 + 3 * i)) (?m (dp + 13 + 3 * i)) (?m (dp + 14 + 3 * i)) 0 = i_addr ip i" if "i < NADDR" for i
  proof -
    have "?m (dp + 12 + 3 * i) = byte_of 0 (i_addr ip i)" "?m (dp + 13 + 3 * i) = byte_of 1 (i_addr ip i)"
      "?m (dp + 14 + 3 * i) = byte_of 2 (i_addr ip i)"
      using that addr_bytes_nth [OF that, of "i_addr ip"] by (simp_all add: dinode_put_def put8s_in ac_simps)
    with le24_bytes [of "i_addr ip i"] that assms show ?thesis by (simp add: storable_def)
  qed
  ultimately show ?thesis by (auto simp: iexpand_def fun_eq_iff)
qed

lemma dinode_put_out: "k < dp \<or> dp + 51 \<le> k \<Longrightarrow> dinode_put dp ip m k = m k"
  by (auto simp: dinode_put_def put16_def put32_def put8s_out)

text \<open>
  Claim C22. An inode written to its block by \<open>iupdat\<close> and read back by \<open>iexpand\<close> has its mode, links,
  owners, size and all thirteen addresses again, if the addresses fit in three bytes; the times
  and the other inodes of the block are not touched.
\<close>

theorem dinode_round_trip:
  assumes "storable ip"
  shows "iexpand dp (dinode_put dp ip m) x = x\<lparr>i_mode := i_mode ip, i_nlink := i_nlink ip, i_uid := i_uid ip, i_gid := i_gid ip,
      i_size := i_size ip, i_addr := (\<lambda>i. if i < NADDR then i_addr ip i else i_addr x i)\<rparr>
    \<and> (\<forall>k. k < dp \<or> dp + 51 \<le> k \<longrightarrow> dinode_put dp ip m k = m k)"
  using dinode_fields [OF assms] dinode_put_out by blast

theorem dinode_round_trip_witness:
  "i_size (iexpand 64 (dinode_put 64 (zero_inode\<lparr>i_size := 70000, i_addr := (\<lambda>i. 1000 + int i)\<rparr>) (\<lambda>_. 7)) zero_inode) = 70000"
  by (subst dinode_round_trip [THEN conjunct1]) (simp_all add: storable_def zero_inode_def)

lemma put16s_out: "k < i \<or> i + 2 * length vs \<le> k \<Longrightarrow> put16s i vs m k = m k"
  by (induction vs arbitrary: i m) (auto simp: put16_def put8s_out)

lemma put16s_apart:
  "j + 2 \<le> i \<or> i + 2 * length vs \<le> j \<Longrightarrow> get16 (put16s i vs m) j = get16 m j"
  "j + 4 \<le> i \<or> i + 2 * length vs \<le> j \<Longrightarrow> get32 (put16s i vs m) j = get32 m j"
  by (auto simp: get16_def get32_def put16s_out)

lemma get16_put16s: "k < length vs \<Longrightarrow> get16 (put16s i vs m) (i + 2 * k) = u16 (vs ! k)"
proof (induction vs arbitrary: i m k)
  case (Cons v vs)
  show ?case
  proof (cases k)
    case 0
    then show ?thesis using put16s_apart(1) [of i "i + 2" vs "put16 i v m"] by (simp add: get16_put16)
  next
    case (Suc l)
    then show ?thesis using Cons.IH [of l "i + 2"] Cons.prems by (simp add: algebra_simps)
  qed
qed simp

text \<open>What a super block in core may hold for its image on the disk to be faithful.\<close>

definition fs_storable :: "filsys \<Rightarrow> bool" where
  "fs_storable f \<longleftrightarrow> 0 \<le> s_isize f \<and> s_isize f < 65536 \<and> (\<forall>v \<in> {s_nfree f, s_ninode f}. - 32768 \<le> v \<and> v < 32768)
     \<and> (\<forall>v \<in> {s_fsize f, s_time f}. - 2147483648 \<le> v \<and> v < 2147483648)
     \<and> (\<forall>i < NICFREE. - 2147483648 \<le> s_free f i \<and> s_free f i < 2147483648)
     \<and> (\<forall>i < NICINOD. 0 \<le> s_inode f i \<and> s_inode f i < 65536)"

lemma fs_words:
  assumes "fs_storable f"
  shows "get16 (fs_put f) 0 = s_isize f" "get32 (fs_put f) 4 = s_fsize f" "s16 (get16 (fs_put f) 8) = s_nfree f"
    "s16 (get16 (fs_put f) 212) = s_ninode f" "get32 (fs_put f) 420 = s_time f"
  using assms by (simp_all add: fs_put_def words_apart put16s_apart fs_storable_def u16_id s16_id s32_id
      del: upt_rec_numeral)

lemma fs_bytes: "fs_put f 414 = s_flock f" "fs_put f 415 = s_ilock f" "fs_put f 416 = s_fmod f" "fs_put f 417 = s_ronly f"
  by (simp_all add: fs_put_def put32_def put8s_def del: upt_rec_numeral)

lemma fs_lists:
  assumes "fs_storable f"
  shows "i < NICFREE \<Longrightarrow> get32 (fs_put f) (12 + 4 * i) = s_free f i"
    "i < NICINOD \<Longrightarrow> get16 (fs_put f) (214 + 2 * i) = s_inode f i"
  using assms get32_put32s [of i "map (s_free f) [0..<NICFREE]" 12] get16_put16s [of i "map (s_inode f) [0..<NICINOD]" 214]
  by (simp_all add: fs_put_def words_apart put16s_apart fs_storable_def u16_id s32_id del: upt_rec_numeral)

text \<open>
  A super block that \<open>update\<close> writes is read back by \<open>iinit\<close> and \<open>smount\<close> with the same sizes,
  counts, lists, locks and time.
\<close>

theorem super_block_round_trip:
  assumes "fs_storable f"
  shows "\<exists>fr ino. fs_get (fs_put f) = f\<lparr>s_free := fr, s_inode := ino, s_rest := fs_put f\<rparr>
    \<and> (\<forall>i < NICFREE. fr i = s_free f i) \<and> (\<forall>i < NICINOD. ino i = s_inode f i)"
proof (intro exI conjI allI impI)
  show "fs_get (fs_put f) = f\<lparr>s_free := (\<lambda>i. get32 (fs_put f) (12 + 4 * i)),
      s_inode := (\<lambda>i. get16 (fs_put f) (214 + 2 * i)), s_rest := fs_put f\<rparr>"
    using fs_words [OF assms] fs_bytes [of f] by (intro filsys.equality) (simp_all add: fs_get_def)
qed (use fs_lists [OF assms] in auto)

theorem super_block_round_trip_witness:
  "s_fsize (fs_get (fs_put (zero_filsys\<lparr>s_fsize := 4000, s_nfree := 2, s_free := (\<lambda>_. 77)\<rparr>))) = 4000"
proof -
  have "fs_storable (zero_filsys\<lparr>s_fsize := 4000, s_nfree := 2, s_free := (\<lambda>_. 77)\<rparr>)"
    by (simp add: fs_storable_def zero_filsys_def)
  from super_block_round_trip [OF this] show ?thesis by auto
qed

section \<open>The lock of an inode\<close>

lemma set_iflags_simps [simp]:
  "env (set_iflags ip F w) = env w" "iflag_of (set_iflags ip F s) jp = (if jp = ip then F else iflag_of s jp)"
  "addr_of (set_iflags ip F s) = addr_of s" "u (set_iflags ip F s) = u s" "file_t (set_iflags ip F s) = file_t s"
  "core (set_iflags ip F s) = core s"
  by (simp_all add: set_iflags_def upd_inode_def)

lemma prele_unlocks: "prele ip s = Ok () s' \<Longrightarrow> ILOCK \<notin> iflag_of s' ip"
  by (auto simp: prele_def Let_def split: if_splits dest!: outcome_Ok [OF wakeup_same] dest: sameD(2))

interpretation ilock: sleep_lock "plock ip" "prele ip" "\<lambda>w. ILOCK \<in> iflag_of w ip" for ip
proof (unfold_locales, goal_cases)
  case (1 w w')
  then show ?case by (auto simp: plock_def bnd_Ok_iff dest: await_env(1))
next
  case (2 w)
  then show ?case by (simp add: plock_def)
next
  case (3 w w')
  then show ?case by (auto simp: plock_def bnd_Ok_iff dest: await_env(2))
next
  case (4 w w')
  then show ?case by (rule prele_unlocks)
qed

text \<open>
  An inode that is locked cannot be locked again before another process has run; the work
  done between \<open>plock\<close> and \<open>prele\<close> starts with the lock taken and leaves it free; and a lock that has
  been released can be taken at once.
\<close>

theorem inode_lock_excludes:
  "(\<forall>w w'. ILOCK \<in> iflag_of w ip \<and> env w = [] \<longrightarrow> plock ip w \<noteq> Ok () w')
   \<and> (\<forall>w body x w'. bnd (plock ip w) (\<lambda>_ w. bnd (body w) (\<lambda>x w. bnd (prele ip w) (\<lambda>_ w. Ok x w))) = Ok x w' \<longrightarrow>
        ILOCK \<notin> iflag_of w' ip \<and> (\<exists>w1 w2. ILOCK \<in> iflag_of w1 ip \<and> body w1 = Ok x w2))
   \<and> (\<forall>w w'. bnd (plock ip w) (\<lambda>_ w. prele ip w) = Ok () w' \<longrightarrow> (\<exists>w''. plock ip w' = Ok () w''))"
proof (intro conjI allI impI, goal_cases)
  case (1 w w')
  then show ?case by (elim conjE) (rule ilock.held_alone)
next
  case (2 w body x w')
  then show ?case by (rule ilock.critical_section [THEN conjunct1])
next
  case (3 w body x w')
  then show ?case by (rule ilock.critical_section [THEN conjunct2])
next
  case (4 w w')
  then show ?case by (rule ilock.free_again)
qed

theorem inode_lock_excludes_witness:
  "plock 3 (set_iflags 3 {ILOCK} bss_world) \<noteq> Ok () bss_world
   \<and> (\<exists>w''. plock 3 (set_iflags 3 {} bss_world) = Ok () w'')"
proof -
  have "bnd (plock 3 bss_world) (\<lambda>_ w. prele 3 w) = Ok () (set_iflags 3 {} bss_world)"
    by (simp add: plock_def prele_def Let_def zero_inode_def) (simp add: set_iflags_def upd_inode_def)
  then show ?thesis
    using inode_lock_excludes [of 3, THEN conjunct1, rule_format, of "set_iflags 3 {ILOCK} bss_world"]
      inode_lock_excludes [of 3, THEN conjunct2, THEN conjunct2, rule_format] by simp
qed

end
