(* ===== verification/Fileio.thy ===== *)
theory Fileio
  imports Inodes
begin

text \<open>
  Reading and writing files: the map from the blocks of a file to the blocks of its device
  (\<open>bmap\<close> of \<open>usr/sys/sys/subr.c\<close>), the transfers of \<open>rdwri.c\<close>, directory entries and new files
  (\<open>wdir\<close>, \<open>maknode\<close> of \<open>iget.c\<close>) and pipes (\<open>pipe.c\<close>). A character device is reached through
  \<open>cd_read\<close> and \<open>cd_write\<close>.
\<close>

section \<open>Blocks of a file\<close>

text \<open>A fresh block, already cleared and on its way out; its number, or \<open>None\<close> without space.\<close>

definition bmap_new :: "int \<Rightarrow> world \<Rightarrow> (int option, world) res" where
  "bmap_new dev w =
     bnd (alloc dev w) (\<lambda>obp w.
       (case obp of
          None \<Rightarrow> Ok None w
        | Some bp \<Rightarrow> (let nb = b_blkno (buf w bp) in bnd (bdwrite bp w) (\<lambda>_ w. Ok (Some nb) w))))"

text \<open>The address in slot \<open>i\<close> of the inode, filled in if it is zero and the file is being written.\<close>

definition bmap_slot :: "nat \<Rightarrow> nat \<Rightarrow> bool \<Rightarrow> world \<Rightarrow> (int option, world) res" where
  "bmap_slot ip i reading w =
     (let nb = i_addr (inode w ip) i in
      if nb \<noteq> 0 then Ok (Some nb) w
      else if reading then Ok None w
      else
        bnd (bmap_new (i_dev (inode w ip)) w) (\<lambda>r w.
          (case r of
             None \<Rightarrow> Ok None w
           | Some nb \<Rightarrow>
               Ok (Some nb) (upd_inode ip (\<lambda>x. x\<lparr>i_addr := (i_addr x)(i := nb), i_flag := i_flag x \<union> {IUPD, ICHG}\<rparr>) w))))"

text \<open>\<open>for(j=3; j>0; j--)\<close>: how many levels of indirection reach the block.\<close>

fun bmap_level :: "nat \<Rightarrow> nat \<Rightarrow> int \<Rightarrow> int \<Rightarrow> nat \<times> nat \<times> int" where
  "bmap_level 0 sh nb bn = (0, sh, bn)"
| "bmap_level (Suc j) sh nb bn =
     (let sh = sh + 7; nb = nb * 128 in
      if bn < nb then (Suc j, sh, bn) else bmap_level j sh nb (bn - nb))"

text \<open>
  The walk through the indirect blocks; the last one and the entry used in it are kept for the
  read-ahead, which looks at the buffer again after it has been released.
\<close>

fun bmap_walk :: "nat \<Rightarrow> bool \<Rightarrow> int \<Rightarrow> nat \<Rightarrow> int \<Rightarrow> int \<Rightarrow> nat \<times> nat \<Rightarrow> world \<Rightarrow> (int, world) res" where
  "bmap_walk 0 reading dev sh bn nb (bp, i) w =
     Ok nb (if i < NINDIR - 1 then w\<lparr>rablock := get32 (b_data (buf w bp)) (4 * (i + 1))\<rparr> else w)"
| "bmap_walk (Suc n) reading dev sh bn nb bpi w =
     bnd (bread dev nb w) (\<lambda>bp w.
       if B_ERROR \<in> bflag_of w bp then bnd (brelse bp w) (\<lambda>_ w. Ok 0 w)
       else
         (let sh = sh - 7; i = nat (drop_bit sh bn AND 127); nb = get32 (b_data (buf w bp)) (4 * i) in
          if nb \<noteq> 0 then bnd (brelse bp w) (\<lambda>_ w. bmap_walk n reading dev sh bn nb (bp, i) w)
          else if reading then bnd (brelse bp w) (\<lambda>_ w. Ok (-1) w)
          else
            bnd (bmap_new dev w) (\<lambda>r w.
              (case r of
                 None \<Rightarrow> bnd (brelse bp w) (\<lambda>_ w. Ok (-1) w)
               | Some nb \<Rightarrow>
                   bnd (bdwrite bp (upd_buf bp (\<lambda>b. b\<lparr>b_data := put32 (4 * i) nb (b_data b)\<rparr>) w))
                     (\<lambda>_ w. bmap_walk n reading dev sh bn nb (bp, i) w)))))"

definition bmap :: "nat \<Rightarrow> int \<Rightarrow> bool \<Rightarrow> world \<Rightarrow> (int, world) res" where
  "bmap ip bn reading w =
     (if bn < 0 then Ok 0 (set_error EFBIG w)
      else
        (let dev = i_dev (inode w ip); w = w\<lparr>rablock := 0\<rparr> in
         if bn < int NADDR - 3 then
           bnd (bmap_slot ip (nat bn) reading w) (\<lambda>r w.
             (case r of
                None \<Rightarrow> Ok (-1) w
              | Some nb \<Rightarrow>
                  Ok nb (if bn < int NADDR - 4 then w\<lparr>rablock := i_addr (inode w ip) (nat bn + 1)\<rparr> else w)))
         else
           (case bmap_level 3 0 1 (bn - (int NADDR - 3)) of
              (j, sh, bn) \<Rightarrow>
                if j = 0 then Ok 0 (set_error EFBIG w)
                else
                  bnd (bmap_slot ip (NADDR - j) reading w) (\<lambda>r w.
                    (case r of
                       None \<Rightarrow> Ok (-1) w
                     | Some nb \<Rightarrow> bmap_walk (4 - j) reading dev sh bn nb (0, 0) w)))))"

section \<open>Moving bytes\<close>

fun iomove_in :: "nat \<Rightarrow> nat \<Rightarrow> nat \<Rightarrow> 'z kst_scheme \<Rightarrow> (unit, 'z kst_scheme) res" where
  "iomove_in bp cp 0 s = Ok () s"
| "iomove_in bp cp (Suc n) s =
     bnd (cpass s) (\<lambda>t s.
       if t < 0 then Ok () s
       else iomove_in bp (cp + 1) n (upd_buf bp (\<lambda>b. b\<lparr>b_data := (b_data b)(cp := u8 t)\<rparr>) s))"

fun iomove_out :: "nat \<Rightarrow> nat \<Rightarrow> nat \<Rightarrow> 'z kst_scheme \<Rightarrow> (unit, 'z kst_scheme) res" where
  "iomove_out bp cp 0 s = Ok () s"
| "iomove_out bp cp (Suc n) s =
     bnd (passc (b_data (buf s bp) cp) s) (\<lambda>r s. if r < 0 then Ok () s else iomove_out bp (cp + 1) n s)"

definition iomove :: "nat \<Rightarrow> nat \<Rightarrow> nat \<Rightarrow> bool \<Rightarrow> 'z kst_scheme \<Rightarrow> (unit, 'z kst_scheme) res" where
  "iomove bp cp n reading s =
     (if n = 0 then Ok () s
      else if u_segflg (u s) \<noteq> 1 \<and> n mod 4 = 0 \<and> (b_addr (buf s bp) + int cp) mod 4 = 0 \<and> u_base (u s) mod 4 = 0
      then
        (if reading then
           bnd (to_user (b_addr (buf s bp) + int cp) (map (b_data (buf s bp)) [cp..<cp + n]) (u_base (u s)) s) (\<lambda>t s.
             if t \<noteq> 0 then Ok () (set_error EFAULT s) else Ok () (io_step (int n) s))
         else
           bnd (from_user (b_addr (buf s bp) + int cp) (u_base (u s)) n s) (\<lambda>(t, cs) s.
             let s = upd_buf bp (\<lambda>b. b\<lparr>b_data := put8s cp cs (b_data b)\<rparr>) s in
             if t \<noteq> 0 then Ok () (set_error EFAULT s) else Ok () (io_step (int n) s)))
      else if reading then iomove_out bp cp n s
      else iomove_in bp cp n s)"

definition umin :: "int \<Rightarrow> int \<Rightarrow> int" where
  "umin a b = (if u32 a < u32 b then u32 a else u32 b)"

section \<open>readi and writei\<close>

text \<open>Every round of either loop that is not the last moves at least one byte, so \<open>u_count\<close> rounds are enough.\<close>

fun readi_loop :: "nat \<Rightarrow> nat \<Rightarrow> int \<Rightarrow> int \<Rightarrow> world \<Rightarrow> (unit, world) res" where
  "readi_loop 0 ip dev type w = Stuck w"
| "readi_loop (Suc k) ip dev type w =
     (let off = u_offset (u w); lbn = drop_bit 9 off; on = off AND BMASK; n = umin (BSIZE - on) (u_count (u w));
          diff = i_size (inode w ip) - off
      in if type \<noteq> IFBLK \<and> diff \<le> 0 then Ok () w
         else
           bnd (if type \<noteq> IFBLK then bmap ip lbn True w else Ok lbn (w\<lparr>rablock := lbn + 1\<rparr>)) (\<lambda>bn w.
             if type \<noteq> IFBLK \<and> u_error (u w) \<noteq> 0 then Ok () w
             else
               (let n = (if type \<noteq> IFBLK \<and> diff < n then diff else n);
                    dev = (if type \<noteq> IFBLK then i_dev (inode w ip) else dev)
                in bnd (if bn < 0 then bnd (geteblk w) (\<lambda>bp w. Ok bp (clrbuf bp w))
                        else if i_lastr (inode w ip) + 1 = lbn then breada dev bn (rablock w) w
                        else bread dev bn w) (\<lambda>bp w.
                     (let w = upd_inode ip (\<lambda>i. i\<lparr>i_lastr := lbn\<rparr>) w;
                          n = umin n (BSIZE - b_resid (buf w bp))
                      in bnd (if n \<noteq> 0 then iomove bp (nat on) (nat n) True w else Ok () w) (\<lambda>_ w.
                         bnd (brelse bp w) (\<lambda>_ w.
                           if u_error (u w) = 0 \<and> u_count (u w) \<noteq> 0 \<and> n > 0 then readi_loop k ip dev type w
                           else Ok () w)))))))"

definition readi :: "nat \<Rightarrow> world \<Rightarrow> (unit, world) res" where
  "readi ip w =
     (if u_count (u w) = 0 then Ok () w
      else if u_offset (u w) < 0 then Ok () (set_error EINVAL w)
      else
        (let w = set_iflags ip (iflag_of w ip \<union> {IACC}) w;
             dev = s16 (i_addr (inode w ip) 0); type = i_mode (inode w ip) AND IFMT
         in if type = IFCHR then Ok () (on_kst (cd_read w (major dev) dev) w)
            else readi_loop (Suc (nat (u_count (u w)))) ip dev type w))"

fun writei_loop :: "nat \<Rightarrow> nat \<Rightarrow> int \<Rightarrow> int \<Rightarrow> world \<Rightarrow> (unit, world) res" where
  "writei_loop 0 ip dev type w = Stuck w"
| "writei_loop (Suc k) ip dev type w =
     (let off = u_offset (u w); on = off AND BMASK; n = umin (BSIZE - on) (u_count (u w))
      in bnd (if type \<noteq> IFBLK then bmap ip (drop_bit 9 off) False w else Ok (drop_bit 9 off) w) (\<lambda>bn w.
           if type \<noteq> IFBLK \<and> bn < 0 then Ok () w
           else
             (let dev = (if type \<noteq> IFBLK then i_dev (inode w ip) else dev) in
              bnd (if n = BSIZE then getblk dev bn w else bread dev bn w) (\<lambda>bp w.
              bnd (iomove bp (nat on) (nat n) False w) (\<lambda>_ w.
              bnd (if u_error (u w) \<noteq> 0 then brelse bp w else bdwrite bp w) (\<lambda>_ w.
                (let w = (if u_offset (u w) > i_size (inode w ip) \<and> (type = IFDIR \<or> type = IFREG)
                          then upd_inode ip (\<lambda>i. i\<lparr>i_size := u_offset (u w)\<rparr>) w else w);
                     w = set_iflags ip (iflag_of w ip \<union> {IUPD, ICHG}) w
                 in if u_error (u w) = 0 \<and> u_count (u w) \<noteq> 0 then writei_loop k ip dev type w else Ok () w)))))))"

definition writei :: "nat \<Rightarrow> world \<Rightarrow> (unit, world) res" where
  "writei ip w =
     (if u_offset (u w) < 0 then Ok () (set_error EINVAL w)
      else
        (let dev = s16 (i_addr (inode w ip) 0); type = i_mode (inode w ip) AND IFMT in
         if type = IFCHR then
           (let w = set_iflags ip (iflag_of w ip \<union> {IUPD, ICHG}) w in Ok () (on_kst (cd_write w (major dev) dev) w))
         else if u_count (u w) = 0 then Ok () w
         else writei_loop (Suc (nat (u_count (u w)))) ip dev type w))"

section \<open>Directory entries and new files\<close>

definition wdir :: "nat \<Rightarrow> world \<Rightarrow> (unit, world) res" where
  "wdir ip w =
     bnd (if i_nlink (inode w (u_pdir (u w))) \<le> 0 then Ok () (set_error ENOTDIR w)
          else
            writei (u_pdir (u w))
              (upd_u (\<lambda>x. x\<lparr>u_dent := \<lparr>d_ino = i_number (inode w ip), d_name = u_dbuf x\<rparr>, u_count := 16, u_segflg := 1,
                            u_base := addr_of w Ch_dent\<rparr>) w)) (\<lambda>_ w.
       iput (u_pdir (u w)) w)"

definition maknode :: "int \<Rightarrow> world \<Rightarrow> (nat option, world) res" where
  "maknode mode w =
     bnd (ialloc (i_dev (inode w (u_pdir (u w)))) w) (\<lambda>oip w.
       (case oip of
          None \<Rightarrow> bnd (iput (u_pdir (u w)) w) (\<lambda>_ w. Ok None w)
        | Some ip \<Rightarrow>
            (let mode = (if mode AND IFMT = 0 then mode OR IFREG else mode);
                 w = upd_inode ip (\<lambda>i. i\<lparr>i_flag := i_flag i \<union> {IACC, IUPD, ICHG},
                       i_mode := u16 (mode AND NOT (u_cmask (u w))), i_nlink := 1,
                       i_uid := u_uid (u w), i_gid := u_gid (u w)\<rparr>) w
             in bnd (wdir ip w) (\<lambda>_ w. Ok (Some ip) w))))"

section \<open>Pipes\<close>

abbreviation (input) PIPSIZ :: int where "PIPSIZ \<equiv> 4096"

fun readp_loop :: "nat \<Rightarrow> nat \<Rightarrow> nat \<Rightarrow> world \<Rightarrow> (unit, world) res" where
  "readp_loop 0 fp ip w = Stuck w"
| "readp_loop (Suc n) fp ip w =
     bnd (plock ip w) (\<lambda>_ w.
       if i_size (inode w ip) = 0 then
         bnd (prele ip w) (\<lambda>_ w.
           if i_count (inode w ip) < 2 then Ok () w
           else
             bnd (sleep (addr_of w (Ch_inode2 ip)) PPIPE (upd_inode ip (\<lambda>i. i\<lparr>i_mode := i_mode i OR IREAD\<rparr>) w))
               (\<lambda>_ w. readp_loop n fp ip w))
       else
         bnd (readi ip (upd_u (\<lambda>x. x\<lparr>u_offset := f_offset (file_t w fp)\<rparr>) w)) (\<lambda>_ w.
           (let w = upd_file fp (\<lambda>f. f\<lparr>f_offset := u_offset (u w)\<rparr>) w in
            bnd (if f_offset (file_t w fp) = i_size (inode w ip) then
                   (let w = upd_file fp (\<lambda>f. f\<lparr>f_offset := 0\<rparr>) w;
                        w = upd_inode ip (\<lambda>i. i\<lparr>i_size := 0\<rparr>) w
                    in if i_mode (inode w ip) AND IWRITE \<noteq> 0 then
                         wakeup (addr_of w (Ch_inode1 ip)) (upd_inode ip (\<lambda>i. i\<lparr>i_mode := i_mode i AND NOT IWRITE\<rparr>) w)
                       else Ok () w)
                 else Ok () w) (\<lambda>_ w. prele ip w))))"

definition readp :: "nat \<Rightarrow> world \<Rightarrow> (unit, world) res" where
  "readp fp w = readp_loop (Suc (length (env w))) fp (f_inode (file_t w fp)) w"

text \<open>A count has sixteen bits, so at most sixteen rounds of \<open>writep\<close> write; the others sleep.\<close>

fun writep_loop :: "nat \<Rightarrow> nat \<Rightarrow> int \<Rightarrow> world \<Rightarrow> (unit, world) res" where
  "writep_loop 0 ip c w = Stuck w"
| "writep_loop (Suc n) ip c w =
     bnd (plock ip w) (\<lambda>_ w.
       if c = 0 then bnd (prele ip w) (\<lambda>_ w. Ok () (upd_u (\<lambda>x. x\<lparr>u_count := 0\<rparr>) w))
       else if i_count (inode w ip) < 2 then
         bnd (prele ip w) (\<lambda>_ w. psignal (u_procp (u w)) 13 (set_error EPIPE w))
       else if i_size (inode w ip) \<ge> PIPSIZ then
         bnd (prele ip (upd_inode ip (\<lambda>i. i\<lparr>i_mode := i_mode i OR IWRITE\<rparr>) w)) (\<lambda>_ w.
         bnd (sleep (addr_of w (Ch_inode1 ip)) PPIPE w) (\<lambda>_ w. writep_loop n ip c w))
       else
         (let w = upd_u (\<lambda>x. x\<lparr>u_offset := i_size (inode w ip), u_count := umin c PIPSIZ\<rparr>) w;
              c = c - u_count (u w)
          in bnd (writei ip w) (\<lambda>_ w.
             bnd (prele ip w) (\<lambda>_ w.
             bnd (if i_mode (inode w ip) AND IREAD \<noteq> 0 then
                    wakeup (addr_of w (Ch_inode2 ip)) (upd_inode ip (\<lambda>i. i\<lparr>i_mode := i_mode i AND NOT IREAD\<rparr>) w)
                  else Ok () w) (\<lambda>_ w. writep_loop n ip c w)))))"

definition writep :: "nat \<Rightarrow> world \<Rightarrow> (unit, world) res" where
  "writep fp w = writep_loop (length (env w) + 18) (f_inode (file_t w fp)) (u_count (u w)) w"

section \<open>Properties\<close>

lemma bmap_level_cases:
  "bmap_level 3 0 1 b =
     (if b < 128 then (3, 7, b) else if b < 16512 then (2, 14, b - 128)
      else if b < 2113664 then (1, 21, b - 16512) else (0, 21, b - 2113664))"
  by (simp add: numeral_3_eq_3 numeral_2_eq_2)

text \<open>
  The place of block \<open>bn\<close> of a file: the slot of the inode, and the entries used in the indirect
  blocks from the outermost to the innermost. Slots 0 to 9 hold blocks, slot 10 a block of 128
  addresses, slot 11 a block of 128 such blocks, slot 12 a block of 128 of those.
\<close>

definition block_path :: "int \<Rightarrow> nat \<times> int list" where
  "block_path bn =
     (if bn < 10 then (nat bn, [])
      else if bn < 138 then (10, [bn - 10])
      else if bn < 16522 then (11, [(bn - 138) div 128, (bn - 138) mod 128])
      else (12, [(bn - 16522) div 16384, (bn - 16522) div 128 mod 128, (bn - 16522) mod 128]))"

text \<open>The code computes the same entries with its shifts and its mask.\<close>

lemma block_path_code:
  assumes "10 \<le> bn" "bn < 2113674" "bmap_level 3 0 1 (bn - 10) = (j, sh, b)"
  shows "j \<noteq> 0 \<and> sh = 7 * (4 - j)
    \<and> block_path bn = (NADDR - j, map (\<lambda>k. drop_bit (sh - 7 * (k + 1)) b AND 127) [0..<4 - j])"
proof -
  consider "bn < 138" | "138 \<le> bn" "bn < 16522" | "16522 \<le> bn" by linarith
  then show ?thesis
  proof cases
    case 1
    with assms show ?thesis by (auto simp: bmap_level_cases block_path_def and_127 mod_pos_pos_trivial)
  next
    case 2
    then have "(bn - 138) div 128 mod 128 = (bn - 138) div 128" by (intro mod_pos_pos_trivial) auto
    with assms 2 show ?thesis
      by (auto simp: bmap_level_cases block_path_def and_127 drop_bit_eq_div upt_conv_Cons)
  next
    case 3
    with assms(2) have "(bn - 16522) div 16384 mod 128 = (bn - 16522) div 16384" by (intro mod_pos_pos_trivial) auto
    with assms 3 show ?thesis
      by (auto simp: bmap_level_cases block_path_def and_127 drop_bit_eq_div upt_conv_Cons)
  qed
qed

text \<open>The block that a path leads to.\<close>

fun path_block :: "nat \<times> int list \<Rightarrow> int" where
  "path_block (k, []) = int k"
| "path_block (k, [d]) = 10 + d"
| "path_block (k, [c, d]) = 138 + 128 * c + d"
| "path_block (k, b # c # d # ds) = 16522 + 16384 * b + 128 * c + d"

lemma path_block_path:
  assumes "0 \<le> bn" "bn < 2113674"
  shows "path_block (block_path bn) = bn"
proof -
  have "x = 16384 * (x div 16384) + 128 * (x div 128 mod 128) + x mod 128" for x :: int
  proof -
    have "x div 16384 = x div 128 div 128" using zdiv_zmult2_eq [of 128 x 128] by simp
    with div_mult_mod_eq [of x 128] div_mult_mod_eq [of "x div 128" 128] show ?thesis by linarith
  qed
  from this [of "bn - 16522"] assms(1) show ?thesis by (simp add: block_path_def)
qed

text \<open>The walk along given entries of indirect blocks.\<close>

fun walk_path :: "int list \<Rightarrow> bool \<Rightarrow> int \<Rightarrow> int \<Rightarrow> nat \<times> nat \<Rightarrow> world \<Rightarrow> (int, world) res" where
  "walk_path [] reading dev nb (bp, i) w =
     Ok nb (if i < NINDIR - 1 then w\<lparr>rablock := get32 (b_data (buf w bp)) (4 * (i + 1))\<rparr> else w)"
| "walk_path (d # ds) reading dev nb bpi w =
     bnd (bread dev nb w) (\<lambda>bp w.
       if B_ERROR \<in> bflag_of w bp then bnd (brelse bp w) (\<lambda>_ w. Ok 0 w)
       else
         (let i = nat d; nb = get32 (b_data (buf w bp)) (4 * i) in
          if nb \<noteq> 0 then bnd (brelse bp w) (\<lambda>_ w. walk_path ds reading dev nb (bp, i) w)
          else if reading then bnd (brelse bp w) (\<lambda>_ w. Ok (-1) w)
          else
            bnd (bmap_new dev w) (\<lambda>r w.
              (case r of
                 None \<Rightarrow> bnd (brelse bp w) (\<lambda>_ w. Ok (-1) w)
               | Some nb \<Rightarrow>
                   bnd (bdwrite bp (upd_buf bp (\<lambda>b. b\<lparr>b_data := put32 (4 * i) nb (b_data b)\<rparr>) w))
                     (\<lambda>_ w. walk_path ds reading dev nb (bp, i) w)))))"

lemma bmap_walk_path:
  "bmap_walk n reading dev (7 * n) b nb bpi w =
   walk_path (map (\<lambda>k. drop_bit (7 * n - 7 * (k + 1)) b AND 127) [0..<n]) reading dev nb bpi w"
proof (induction n arbitrary: nb bpi w)
  case 0
  then show ?case by (cases bpi) simp
next
  case (Suc n)
  have l: "map (\<lambda>k. drop_bit (7 * Suc n - 7 * (k + 1)) b AND 127) [0..<Suc n] =
    (drop_bit (7 * n) b AND 127) # map (\<lambda>k. drop_bit (7 * n - 7 * (k + 1)) b AND 127) [0..<n]"
    by (simp add: map_upt_Suc del: upt_Suc)
  have e: "7 * Suc n - 7 = 7 * n" by simp
  have IH: "bmap_walk n reading dev (7 * n) b =
      walk_path (map (\<lambda>k. drop_bit (7 * n - 7 * (k + 1)) b AND 127) [0..<n]) reading dev"
    by (intro ext) (rule Suc.IH)
  show ?case unfolding l by (simp only: bmap_walk.simps walk_path.simps Let_def e IH)
qed

text \<open>What \<open>bmap\<close> does with a direct block.\<close>

lemma bmap_direct:
  assumes "0 \<le> bn" "bn < 10"
  shows "bmap ip bn reading w =
    bnd (bmap_slot ip (nat bn) reading (w\<lparr>rablock := 0\<rparr>)) (\<lambda>r w.
      (case r of None \<Rightarrow> Ok (-1) w
       | Some nb \<Rightarrow> Ok nb (if bn < 9 then w\<lparr>rablock := i_addr (inode w ip) (nat bn + 1)\<rparr> else w)))"
proof -
  have e: "int NADDR - 3 = 10" "int NADDR - 4 = 9" by simp_all
  show ?thesis using assms unfolding bmap_def Let_def e by simp
qed

lemma bmap_direct_kept:
  assumes "0 \<le> bn" "bn < 10" "bmap ip bn False w = Ok nb w'" "nb \<noteq> -1"
  shows "i_addr (inode w' ip) (nat bn) = nb"
proof -
  obtain r w1 where 1: "bmap_slot ip (nat bn) False (w\<lparr>rablock := 0\<rparr>) = Ok r w1"
    "(case r of None \<Rightarrow> Ok (-1) w1
      | Some nb \<Rightarrow> Ok nb (if bn < 9 then w1\<lparr>rablock := i_addr (inode w1 ip) (nat bn + 1)\<rparr> else w1)) = Ok nb w'"
    using assms(3) unfolding bmap_direct [OF assms(1,2)] bnd_Ok_iff by blast
  with assms(4) have r: "r = Some nb" and w': "inode w' = inode w1" by (auto split: option.splits if_splits)
  let ?w = "w\<lparr>rablock := 0\<rparr>"
  show ?thesis
  proof (cases "i_addr (inode ?w ip) (nat bn) = 0")
    case True
    with 1(1) [unfolded r bmap_slot_def Let_def] obtain r' w2 where
      "(case r' of None \<Rightarrow> Ok None w2
        | Some nb \<Rightarrow> Ok (Some nb) (upd_inode ip (\<lambda>x. x\<lparr>i_addr := (i_addr x)(nat bn := nb), i_flag := i_flag x \<union> {IUPD, ICHG}\<rparr>) w2))
       = Ok (Some nb) w1" by (auto simp only: bnd_Ok_iff if_False simp_thms)
    then show ?thesis unfolding w' by (cases r') (auto simp: upd_inode_def)
  next
    case False
    with 1(1) [unfolded r bmap_slot_def Let_def] show ?thesis unfolding w' by auto
  qed
qed

lemma bmap_direct_set:
  assumes "0 \<le> bn" "bn < 10" "i_addr (inode w ip) (nat bn) \<noteq> 0"
  shows "\<exists>ra. bmap ip bn reading w = Ok (i_addr (inode w ip) (nat bn)) (w\<lparr>rablock := ra\<rparr>)"
proof -
  have "bmap ip bn reading w = Ok (i_addr (inode w ip) (nat bn))
    (if bn < 9 then w\<lparr>rablock := i_addr (inode w ip) (nat bn + 1)\<rparr> else w\<lparr>rablock := 0\<rparr>)"
    using assms(3) unfolding bmap_direct [OF assms(1,2)] bmap_slot_def Let_def by simp
  then show ?thesis by (cases "bn < 9") auto
qed

lemma bmap_direct_hole:
  assumes "0 \<le> bn" "bn < 10" "i_addr (inode w ip) (nat bn) = 0"
  shows "bmap ip bn True w = Ok (-1) (w\<lparr>rablock := 0\<rparr>)"
  using assms(3) unfolding bmap_direct [OF assms(1,2)] bmap_slot_def Let_def by simp

lemma bmap_refused:
  assumes "bn < 0 \<or> 2113674 \<le> bn"
  shows "bmap ip bn reading w = Ok 0 (set_error EFBIG (if bn < 0 then w else w\<lparr>rablock := 0\<rparr>))"
proof (cases "bn < 0")
  case False
  with assms have "bmap_level 3 0 1 (bn - (int NADDR - 3)) = (0, 21, bn - 10 - 2113664)" by (simp add: bmap_level_cases)
  with False assms show ?thesis by (simp add: bmap_def)
qed (simp add: bmap_def)

text \<open>
  Claim C3. Which block of the device holds block \<open>bn\<close> of a file is found along the path of \<open>bn\<close>: the slot
  of the inode and then one entry of each indirect block; a path leads to one block of the file only. For a
  direct block, when the slot has an address that is the answer and nothing but the read-ahead block changes; when it
  has none a reader gets -1, and the block that a writer gets is the one the slot holds afterwards. A number beyond
  the triple indirect block, or below zero, is refused with \<open>EFBIG\<close>.
\<close>

theorem bmap_follows_path:
  "(\<forall>bn. 0 \<le> bn \<and> bn < 2113674 \<longrightarrow> bmap ip bn reading w =
      bnd (bmap_slot ip (fst (block_path bn)) reading (w\<lparr>rablock := 0\<rparr>)) (\<lambda>r w'.
        (case r of None \<Rightarrow> Ok (-1) w'
         | Some nb \<Rightarrow>
             if snd (block_path bn) = [] then Ok nb (if bn < 9 then w'\<lparr>rablock := i_addr (inode w' ip) (nat bn + 1)\<rparr> else w')
             else walk_path (snd (block_path bn)) reading (i_dev (inode w ip)) nb (0, 0) w')))
   \<and> (\<forall>bn. 0 \<le> bn \<and> bn < 2113674 \<longrightarrow> path_block (block_path bn) = bn)
   \<and> (\<forall>bn. 0 \<le> bn \<and> bn < 10 \<longrightarrow>
        (if i_addr (inode w ip) (nat bn) \<noteq> 0
         then \<exists>ra. bmap ip bn reading w = Ok (i_addr (inode w ip) (nat bn)) (w\<lparr>rablock := ra\<rparr>)
         else bmap ip bn True w = Ok (-1) (w\<lparr>rablock := 0\<rparr>)
           \<and> (\<forall>nb w'. bmap ip bn False w = Ok nb w' \<and> nb \<noteq> -1 \<longrightarrow> i_addr (inode w' ip) (nat bn) = nb)))
   \<and> (\<forall>bn. bn < 0 \<or> 2113674 \<le> bn \<longrightarrow>
        (\<exists>w'. bmap ip bn reading w = Ok 0 w' \<and> u_error (u w') = EFBIG \<and> inode w' = inode w \<and> buf w' = buf w))"
proof (intro conjI allI impI)
  fix bn :: int assume bn: "0 \<le> bn \<and> bn < 2113674"
  show "path_block (block_path bn) = bn" using bn path_block_path by simp
  show "bmap ip bn reading w =
      bnd (bmap_slot ip (fst (block_path bn)) reading (w\<lparr>rablock := 0\<rparr>)) (\<lambda>r w'.
        (case r of None \<Rightarrow> Ok (-1) w'
         | Some nb \<Rightarrow>
             if snd (block_path bn) = [] then Ok nb (if bn < 9 then w'\<lparr>rablock := i_addr (inode w' ip) (nat bn + 1)\<rparr> else w')
             else walk_path (snd (block_path bn)) reading (i_dev (inode w ip)) nb (0, 0) w'))"
  proof (cases "bn < 10")
    case True
    then have "block_path bn = (nat bn, [])" by (simp add: block_path_def)
    then show ?thesis unfolding \<open>block_path bn = (nat bn, [])\<close> fst_conv snd_conv if_P [OF refl] using True bn bmap_direct by simp
  next
    case False
    obtain j sh b where l: "bmap_level 3 0 1 (bn - 10) = (j, sh, b)" by (cases "bmap_level 3 0 1 (bn - 10)")
    with block_path_code [of bn] bn False have j: "j \<noteq> 0" "sh = 7 * (4 - j)"
      and p: "block_path bn = (NADDR - j, map (\<lambda>k. drop_bit (7 * (4 - j) - 7 * (k + 1)) b AND 127) [0..<4 - j])" by auto
    have ne: "snd (block_path bn) \<noteq> []" using False by (simp add: block_path_def)
    show ?thesis
      unfolding if_not_P [OF ne] unfolding p fst_conv snd_conv bmap_walk_path [symmetric]
      using False l j by (simp add: bmap_def Let_def)
  qed
next
  fix bn :: int assume bn: "0 \<le> bn \<and> bn < 10"
  then show "if i_addr (inode w ip) (nat bn) \<noteq> 0
         then \<exists>ra. bmap ip bn reading w = Ok (i_addr (inode w ip) (nat bn)) (w\<lparr>rablock := ra\<rparr>)
         else bmap ip bn True w = Ok (-1) (w\<lparr>rablock := 0\<rparr>)
           \<and> (\<forall>nb w'. bmap ip bn False w = Ok nb w' \<and> nb \<noteq> -1 \<longrightarrow> i_addr (inode w' ip) (nat bn) = nb)"
    using bmap_direct_kept [of bn ip w] bmap_direct_set [of bn w ip reading] bmap_direct_hole [of bn w ip] by auto
next
  fix bn :: int assume "bn < 0 \<or> 2113674 \<le> bn"
  then have "bmap ip bn reading w = Ok 0 (set_error EFBIG (if bn < 0 then w else w\<lparr>rablock := 0\<rparr>))"
    by (rule bmap_refused)
  then show "\<exists>w'. bmap ip bn reading w = Ok 0 w' \<and> u_error (u w') = EFBIG \<and> inode w' = inode w \<and> buf w' = buf w"
    by (simp add: set_error_def)
qed

theorem bmap_follows_path_witness:
  "(\<exists>w'. bmap 3 2113674 False bss_world = Ok 0 w' \<and> u_error (u w') = EFBIG)
   \<and> bmap 3 4 True bss_world = Ok (-1) (bss_world\<lparr>rablock := 0\<rparr>)
   \<and> bmap 3 138 True bss_world = bnd (bmap_slot 3 11 True (bss_world\<lparr>rablock := 0\<rparr>)) (\<lambda>r w'.
        (case r of None \<Rightarrow> Ok (-1) w' | Some nb \<Rightarrow> walk_path [0, 0] True (i_dev (inode bss_world 3)) nb (0, 0) w'))"
proof -
  have p: "block_path 138 = (11, [0, 0])" by (simp add: block_path_def)
  have ne: "([0, 0 :: int] = []) = False" by simp
  have z: "i_addr (inode bss_world 3) 4 = 0" by (simp add: zero_inode_def)
  show ?thesis
    using bmap_follows_path [of 3 True bss_world, THEN conjunct1, rule_format, of 138, unfolded p fst_conv snd_conv ne if_False]
      bmap_follows_path [of 3 True bss_world, THEN conjunct2, THEN conjunct2, THEN conjunct1, rule_format, of 4]
      bmap_follows_path [of 3 False bss_world, THEN conjunct2, THEN conjunct2, THEN conjunct2, rule_format, of 2113674] z
    by auto
qed

end
