(* ===== verification/Image.thy ===== *)
theory Image
  imports Fileio
begin

text \<open>
  Process images: segmentation and pages (\<open>usr/sys/bcm283x/bcm283x_machdep.c\<close>) and shared text
  (\<open>usr/sys/sys/text.c\<close>). An image is a run of physical pages, the first of which is the \<open>u\<close>
  area; the running process's \<open>u\<close> is the field \<open>u\<close> of the state. Cache and translation buffer
  maintenance and the two pages through which \<open>copyseg\<close> and \<open>clearseg\<close> see physical memory have
  no counterpart here.
\<close>

section \<open>Core and swap space\<close>

definition core_alloc :: "int \<Rightarrow> 'z kst_scheme \<Rightarrow> (int, 'z kst_scheme) res" where
  "core_alloc sz s =
     (case malloc (coremap s) sz of None \<Rightarrow> Stuck s | Some (a, mp) \<Rightarrow> Ok a (s\<lparr>coremap := mp\<rparr>))"

definition swap_alloc :: "int \<Rightarrow> 'z kst_scheme \<Rightarrow> (int, 'z kst_scheme) res" where
  "swap_alloc sz s =
     (case malloc (swapmap s) sz of None \<Rightarrow> Stuck s | Some (a, mp) \<Rightarrow> Ok a (s\<lparr>swapmap := mp\<rparr>))"

text \<open>Releasing core wakes the swapper first.\<close>

definition core_free :: "int \<Rightarrow> int \<Rightarrow> 'z kst_scheme \<Rightarrow> (unit, 'z kst_scheme) res" where
  "core_free sz a s =
     bnd (if runin s \<noteq> 0 then wakeup (addr_of s Ch_runin) (s\<lparr>runin := 0\<rparr>) else Ok () s) (\<lambda>_ s.
       (case mfree (coremap s) sz a of None \<Rightarrow> Stuck s | Some mp \<Rightarrow> Ok () (s\<lparr>coremap := mp\<rparr>)))"

definition swap_free :: "int \<Rightarrow> int \<Rightarrow> 'z kst_scheme \<Rightarrow> (unit, 'z kst_scheme) res" where
  "swap_free sz a s =
     (case mfree (swapmap s) sz a of None \<Rightarrow> Stuck s | Some mp \<Rightarrow> Ok () (s\<lparr>swapmap := mp\<rparr>))"

section \<open>Segmentation\<close>

abbreviation (input) RO :: int where "RO \<equiv> 2"
abbreviation (input) RW :: int where "RW \<equiv> 6"
abbreviation (input) ED :: int where "ED \<equiv> 8"
abbreviation (input) TX :: int where "TX \<equiv> 16"

definition ureg_attr :: "int \<Rightarrow> int" where
  "ureg_attr a =
     (if a AND TX \<noteq> 0 then (if a AND RW \<noteq> 0 then 0xc5e else 0xe1e)
      else if a AND RW \<noteq> 0 \<or> a AND ED \<noteq> 0 then 0xc5f
      else if a \<noteq> 0 then 0xe1f else 0)"

fun map_pages :: "nat \<Rightarrow> int \<Rightarrow> int \<Rightarrow> int \<Rightarrow> 'z kst_scheme \<Rightarrow> (unit, 'z kst_scheme) res" where
  "map_pages 0 srcpg dstpg attr s = Ok () s"
| "map_pages (Suc n) srcpg dstpg attr s =
     bnd (setup_one_page_mapping srcpg dstpg attr s) (\<lambda>_ s. map_pages n (srcpg + 1) (dstpg + 1) attr s)"

definition setup_ureg :: "int \<Rightarrow> int \<Rightarrow> int \<Rightarrow> int \<Rightarrow> 'z kst_scheme \<Rightarrow> (int, 'z kst_scheme) res" where
  "setup_ureg srcpg dstpg n a s =
     bnd (map_pages (nat n) srcpg dstpg (ureg_attr a) s) (\<lambda>_ s. Ok (u32 (dstpg + n)) s)"

definition sureg :: "'z kst_scheme \<Rightarrow> (unit, 'z kst_scheme) res" where
  "sureg s =
     (let i0 = u_uisa (u s) 0; i1 = u_uisa (u s) 1;
          ns = i0 AND 255; nd = drop_bit 8 i0 AND 255; nt = drop_bit 16 i0 AND 255;
          sa = i1 AND 255; da = drop_bit 8 i1 AND 255; ta = drop_bit 16 i1 AND 255;
          cb = u32 (128 - nt - nd - ns);
          dirty = (u_uisa (u s) 2 \<noteq> 0); realised = (u_uisa (u s) 3 = 42);
          pp = u_procp (u s); s = s\<lparr>asid := int pp\<rparr>;
          data = p_addr (proc s pp) + 1
      in bnd (case p_textp (proc s pp) of
                Some tp \<Rightarrow> bnd (setup_ureg (u32 (x_caddr (text_t s tp))) 0 nt ta s) (\<lambda>v s. Ok (v, data) s)
              | None \<Rightarrow> bnd (setup_ureg data 0 nt ta s) (\<lambda>v s. Ok (v, data + nt) s)) (\<lambda>(virtpg, physpg) s.
         bnd (setup_ureg physpg virtpg nd da s) (\<lambda>v s.
         bnd (setup_ureg 0 (u32 (virtpg + v)) cb 0 s) (\<lambda>_ s.
         bnd (setup_ureg (physpg + nd) (USERTOP div PGSZ - ns) ns sa s) (\<lambda>_ s.
           (let s = (if dirty then upd_u (\<lambda>x. x\<lparr>u_uisa := (u_uisa x)(2 := 0)\<rparr>) s else s)
            in Ok () (if \<not> realised then upd_u (\<lambda>x. x\<lparr>u_uisa := (u_uisa x)(3 := 42)\<rparr>) s else s)))))))"

definition estabur :: "int \<Rightarrow> int \<Rightarrow> int \<Rightarrow> int \<Rightarrow> int \<Rightarrow> 'z kst_scheme \<Rightarrow> (int, 'z kst_scheme) res" where
  "estabur nt nd ns sep xrw s =
     (if u32 (nt + nd + ns + 1) > u32 (maxmem s) then Ok (-1) (set_error ENOMEM s)
      else if nt > 128 \<or> nd > 128 \<or> ns > 128 then Ok (-1) (set_error ENOMEM s)
      else
        (let i0 = push_bit 16 nt OR push_bit 8 nd OR ns;
             i1 = (if sep \<noteq> 0 then push_bit 16 (xrw OR TX) OR push_bit 8 RW OR (RW OR ED)
                   else push_bit 16 (RW OR TX) OR push_bit 8 (RW OR TX) OR (RW OR ED));
             changed = (i0 \<noteq> u_uisa (u s) 0 \<or> i1 \<noteq> u_uisa (u s) 1);
             s = upd_u (\<lambda>x. x\<lparr>u_uisa := (u_uisa x)(0 := i0, 1 := i1, 2 := (if changed then 1 else 0))\<rparr>) s
         in bnd (sureg s) (\<lambda>_ s. Ok 0 s)))"

definition bad_page :: "int \<Rightarrow> bool" where
  "bad_page pg = (u32 pg AND 0xfff00000 \<noteq> 0)"

definition copyseg :: "int \<Rightarrow> int \<Rightarrow> 'z kst_scheme \<Rightarrow> (unit, 'z kst_scheme) res" where
  "copyseg src dst s =
     (if bad_page src \<or> bad_page dst then Panic ''page_is_mapped: bad page'' s
      else Ok () (s\<lparr>core := (core s)(dst := core s src)\<rparr>))"

definition clearseg :: "int \<Rightarrow> 'z kst_scheme \<Rightarrow> (unit, 'z kst_scheme) res" where
  "clearseg a s =
     (if bad_page a then Panic ''page_is_mapped: bad page'' s
      else Ok () (s\<lparr>core := (core s)(a := (\<lambda>_. 0))\<rparr>))"

text \<open>\<open>n\<close> pages copied upwards from the lowest, or downwards from the highest; pages cleared downwards.\<close>

fun copy_up :: "nat \<Rightarrow> int \<Rightarrow> int \<Rightarrow> 'z kst_scheme \<Rightarrow> (unit, 'z kst_scheme) res" where
  "copy_up 0 a1 a2 s = Ok () s"
| "copy_up (Suc n) a1 a2 s = bnd (copyseg a1 a2 s) (\<lambda>_ s. copy_up n (a1 + 1) (a2 + 1) s)"

fun copy_down :: "nat \<Rightarrow> int \<Rightarrow> int \<Rightarrow> 'z kst_scheme \<Rightarrow> (unit, 'z kst_scheme) res" where
  "copy_down 0 d a s = Ok () s"
| "copy_down (Suc n) d a s = bnd (copyseg (a - 1 - d) (a - 1) s) (\<lambda>_ s. copy_down n d (a - 1) s)"

fun clear_down :: "nat \<Rightarrow> int \<Rightarrow> 'z kst_scheme \<Rightarrow> (unit, 'z kst_scheme) res" where
  "clear_down 0 a s = Ok () s"
| "clear_down (Suc n) a s = bnd (clearseg (a - 1) s) (\<lambda>_ s. clear_down n (a - 1) s)"

section \<open>Shared text\<close>

definition set_xflags :: "nat \<Rightarrow> xflag set \<Rightarrow> 'z kst_scheme \<Rightarrow> 'z kst_scheme" where
  "set_xflags xp F s = upd_text xp (\<lambda>x. x\<lparr>x_flag := F\<rparr>) s"

abbreviation xflag_of :: "'z kst_scheme \<Rightarrow> nat \<Rightarrow> xflag set" where
  "xflag_of s xp \<equiv> x_flag (text_t s xp)"

definition xlock :: "nat \<Rightarrow> world \<Rightarrow> (unit, world) res" where
  "xlock xp w =
     bnd (await (\<lambda>w. XLOCK \<in> xflag_of w xp) (\<lambda>w. set_xflags xp (xflag_of w xp \<union> {XWANT}) w)
            (addr_of w (Ch_text xp)) PSWP w) (\<lambda>_ w. Ok () (set_xflags xp (xflag_of w xp \<union> {XLOCK}) w))"

definition xunlock :: "nat \<Rightarrow> 'z kst_scheme \<Rightarrow> (unit, 'z kst_scheme) res" where
  "xunlock xp s =
     bnd (if XWANT \<in> xflag_of s xp then wakeup (addr_of s (Ch_text xp)) s else Ok () s) (\<lambda>_ s.
       Ok () (set_xflags xp (xflag_of s xp - {XLOCK, XWANT}) s))"

definition xccdec :: "nat option \<Rightarrow> world \<Rightarrow> (unit, world) res" where
  "xccdec oxp w =
     (case oxp of
        None \<Rightarrow> Ok () w
      | Some xp \<Rightarrow>
          if x_ccount (text_t w xp) = 0 then Ok () w
          else
            bnd (xlock xp w) (\<lambda>_ w.
              (let w = upd_text xp (\<lambda>x. x\<lparr>x_ccount := u8 (x_ccount x - 1)\<rparr>) w in
               bnd (if x_ccount (text_t w xp) = 0 then
                      bnd (if XWRIT \<in> xflag_of w xp then
                             (let x = text_t w xp
                              in swap (x_daddr x) (x_caddr x) (x_size x) {} (set_xflags xp (xflag_of w xp - {XWRIT}) w))
                           else Ok () w) (\<lambda>_ w. core_free (x_size (text_t w xp)) (x_caddr (text_t w xp)) w)
                    else Ok () w) (\<lambda>_ w. xunlock xp w))))"

definition set_pflags :: "nat \<Rightarrow> pflag set \<Rightarrow> pflag set \<Rightarrow> 'z kst_scheme \<Rightarrow> 'z kst_scheme" where
  "set_pflags p off on s = upd_proc p (\<lambda>r. r\<lparr>p_flag := (p_flag r - off) \<union> on\<rparr>) s"

definition xswap :: "nat \<Rightarrow> bool \<Rightarrow> int \<Rightarrow> world \<Rightarrow> (unit, world) res" where
  "xswap p ff os w =
     (let os = (if os = 0 then p_size (proc w p) else os) in
      bnd (swap_alloc (ctod (p_size (proc w p))) w) (\<lambda>a w.
        if a = 0 then Panic ''out of swap space'' w
        else
          bnd (xccdec (p_textp (proc w p)) (set_pflags p {} {SLOCK} w)) (\<lambda>_ w.
          bnd (swap a (p_addr (proc w p)) os {} w) (\<lambda>_ w.
          bnd (if ff then core_free os (p_addr (proc w p)) w else Ok () w) (\<lambda>_ w.
            (let w = upd_proc p (\<lambda>r. r\<lparr>p_addr := a, p_flag := p_flag r - {SLOAD, SLOCK}, p_time := 0\<rparr>) w
             in if runout w \<noteq> 0 then wakeup (addr_of w Ch_runout) (w\<lparr>runout := 0\<rparr>) else Ok () w))))))"

text \<open>The reference to the inode of a text that goes away.\<close>

definition xdrop :: "nat \<Rightarrow> world \<Rightarrow> (unit, world) res" where
  "xdrop ip w =
     (let w = set_iflags ip (iflag_of w ip - {ITEXT}) w in
      if ILOCK \<in> iflag_of w ip then Ok () (upd_inode ip (\<lambda>i. i\<lparr>i_count := u8 (i_count i - 1)\<rparr>) w) else iput ip w)"

definition xfree :: "world \<Rightarrow> (unit, world) res" where
  "xfree w =
     (case p_textp (proc w (u_procp (u w))) of
        None \<Rightarrow> Ok () w
      | Some xp \<Rightarrow>
          bnd (xlock xp w) (\<lambda>_ w.
            (let w = set_xflags xp (xflag_of w xp - {XLOCK}) w;
                 w = upd_proc (u_procp (u w)) (\<lambda>r. r\<lparr>p_textp := None\<rparr>) w
             in case x_iptr (text_t w xp) of
                  None \<Rightarrow> Stuck w
                | Some ip \<Rightarrow>
                    (let w = upd_text xp (\<lambda>x. x\<lparr>x_count := u8 (x_count x - 1)\<rparr>) w; x = text_t w xp in
                     if x_count x = 0 \<and> i_mode (inode w ip) AND ISVTX = 0 then
                       bnd (swap_free (ctod (x_size x)) (x_daddr x) (upd_text xp (\<lambda>x. x\<lparr>x_iptr := None\<rparr>) w)) (\<lambda>_ w.
                       bnd (core_free (x_size x) (x_caddr x) w) (\<lambda>_ w. xdrop ip w))
                     else xccdec (Some xp) w))))"

text \<open>
  A process swapped out here continues behind its \<open>save(u.u_ssav)\<close>, with \<open>sureg\<close> and a return.
\<close>

definition swapped_out :: "world \<Rightarrow> (unit, world) res" where
  "swapped_out w = bnd (qswtch (set_pflags (u_procp (u w)) {} {SSWAP} w)) (\<lambda>_ w. sureg w)"

definition xexpand :: "nat \<Rightarrow> world \<Rightarrow> (unit, world) res" where
  "xexpand xp w =
     bnd (core_alloc (x_size (text_t w xp)) w) (\<lambda>a w.
       (let w = upd_text xp (\<lambda>x. x\<lparr>x_caddr := s16 a\<rparr>) w in
        if x_caddr (text_t w xp) \<noteq> 0 then
          bnd (if XLOAD \<notin> xflag_of w xp then
                 (let x = text_t w xp in swap (x_daddr x) (x_caddr x) (x_size x) {B_READ} w)
               else Ok () w) (\<lambda>_ w. xunlock xp (upd_text xp (\<lambda>x. x\<lparr>x_ccount := u8 (x_ccount x + 1)\<rparr>) w))
        else
          bnd (xswap (u_procp (u w)) True 0 w) (\<lambda>_ w. bnd (xunlock xp w) (\<lambda>_ w. swapped_out w))))"

definition xalloc_new :: "nat \<Rightarrow> nat \<Rightarrow> world \<Rightarrow> (unit, world) res" where
  "xalloc_new xp ip w =
     (let ts = btoc (ux_tsize (u_exdata (u w)));
          w = upd_inode ip (\<lambda>i. i\<lparr>i_flag := i_flag i \<union> {ITEXT}, i_count := u8 (i_count i + 1)\<rparr>) w
      in bnd (swap_alloc (ctod ts) w) (\<lambda>a w.
           (let w = upd_text xp (\<lambda>x. x\<lparr>x_flag := {XLOAD, XLOCK}, x_count := 1, x_ccount := 0, x_iptr := Some ip,
                      x_size := s16 ts, x_daddr := s16 a\<rparr>) w
            in if x_daddr (text_t w xp) = 0 then Panic ''out of swap space'' w
               else
                 bnd (xexpand xp (upd_proc (u_procp (u w)) (\<lambda>r. r\<lparr>p_textp := Some xp\<rparr>) w)) (\<lambda>_ w.
                 bnd (estabur ts 0 0 0 RW w) (\<lambda>_ w.
                   (let w = upd_u (\<lambda>x. x\<lparr>u_count := u16 (ux_tsize (u_exdata x)), u_offset := 32, u_base := 0,
                              u_segflg := 2\<rparr>) w;
                        w = set_pflags (u_procp (u w)) {} {SLOCK} w
                    in bnd (readi ip w) (\<lambda>_ w.
                         (let w = set_pflags (u_procp (u w)) {SLOCK} {} w;
                              w = upd_u (\<lambda>x. x\<lparr>u_segflg := 0\<rparr>) w
                          in Ok () (set_xflags xp {XWRIT} w)))))))))"

definition xalloc :: "nat \<Rightarrow> world \<Rightarrow> (unit, world) res" where
  "xalloc ip w =
     (if ux_tsize (u_exdata (u w)) = 0 then Ok () w
      else
        (case find (\<lambda>xp. x_iptr (text_t w xp) = Some ip) [0..<NTEXT] of
           Some xp \<Rightarrow>
             bnd (xlock xp w) (\<lambda>_ w.
               (let w = upd_text xp (\<lambda>x. x\<lparr>x_count := u8 (x_count x + 1)\<rparr>) w;
                    w = upd_proc (u_procp (u w)) (\<lambda>r. r\<lparr>p_textp := Some xp\<rparr>) w
                in bnd (if x_ccount (text_t w xp) = 0 then xexpand xp w
                        else Ok () (upd_text xp (\<lambda>x. x\<lparr>x_ccount := u8 (x_ccount x + 1)\<rparr>) w)) (\<lambda>_ w. xunlock xp w)))
         | None \<Rightarrow>
             (case find (\<lambda>xp. x_iptr (text_t w xp) = None) [0..<NTEXT] of
                None \<Rightarrow> psignal (u_procp (u w)) 9 (kprintf ''out of text'' w)
              | Some xp \<Rightarrow> xalloc_new xp ip w)))"

definition xuntext :: "nat \<Rightarrow> world \<Rightarrow> (unit, world) res" where
  "xuntext xp w =
     bnd (xlock xp w) (\<lambda>_ w.
       if x_count (text_t w xp) \<noteq> 0 then xunlock xp w
       else
         (case x_iptr (text_t w xp) of
            None \<Rightarrow> Stuck w
          | Some ip \<Rightarrow>
              (let w = upd_text xp (\<lambda>x. x\<lparr>x_flag := x_flag x - {XLOCK}, x_iptr := None\<rparr>) w; x = text_t w xp
               in bnd (swap_free (ctod (x_size x)) (x_daddr x) w) (\<lambda>_ w. xdrop ip w))))"

fun xuntext_all :: "(world \<Rightarrow> nat \<Rightarrow> bool) \<Rightarrow> nat list \<Rightarrow> world \<Rightarrow> (unit, world) res" where
  "xuntext_all c [] w = Ok () w"
| "xuntext_all c (xp # xps) w =
     bnd (if c w xp then xuntext xp w else Ok () w) (\<lambda>_ w. xuntext_all c xps w)"

definition xumount :: "int \<Rightarrow> world \<Rightarrow> (unit, world) res" where
  "xumount dev w =
     xuntext_all (\<lambda>w xp. case x_iptr (text_t w xp) of None \<Rightarrow> False | Some ip \<Rightarrow> dev = i_dev (inode w ip)) [0..<NTEXT] w"

definition xrele :: "nat \<Rightarrow> world \<Rightarrow> (unit, world) res" where
  "xrele ip w =
     (if ITEXT \<notin> iflag_of w ip then Ok () w
      else xuntext_all (\<lambda>w xp. x_iptr (text_t w xp) = Some ip) [0..<NTEXT] w)"

section \<open>The lock of a text segment\<close>

lemma set_xflags_simps [simp]:
  "env (set_xflags xp F w) = env w" "xflag_of (set_xflags xp F s) yp = (if yp = xp then F else xflag_of s yp)"
  by (simp_all add: set_xflags_def upd_text_def)

interpretation xlock: sleep_lock "xlock xp" "xunlock xp" "\<lambda>w. XLOCK \<in> xflag_of w xp" for xp
proof (unfold_locales, goal_cases)
  case (1 w w')
  then show ?case by (auto simp: xlock_def bnd_Ok_iff dest: await_env(1))
next
  case (2 w)
  then show ?case by (simp add: xlock_def)
next
  case (3 w w')
  then show ?case by (auto simp: xlock_def bnd_Ok_iff dest: await_env(2))
next
  case (4 w w')
  then show ?case by (auto simp: xunlock_def bnd_Ok_iff)
qed

text \<open>
  A text segment whose lock is held cannot be locked again before another process has run;
  the work done between \<open>xlock\<close> and \<open>xunlock\<close> starts with the lock taken and leaves it free.
\<close>

theorem text_lock_excludes:
  "(\<forall>w w'. XLOCK \<in> xflag_of w xp \<and> env w = [] \<longrightarrow> xlock xp w \<noteq> Ok () w')
   \<and> (\<forall>w body x w'. bnd (xlock xp w) (\<lambda>_ w. bnd (body w) (\<lambda>x w. bnd (xunlock xp w) (\<lambda>_ w. Ok x w))) = Ok x w' \<longrightarrow>
        XLOCK \<notin> xflag_of w' xp \<and> (\<exists>w1 w2. XLOCK \<in> xflag_of w1 xp \<and> body w1 = Ok x w2))"
proof (intro conjI allI impI, goal_cases)
  case (1 w w')
  then show ?case by (elim conjE) (rule xlock.held_alone)
next
  case (2 w body x w')
  then show ?case by (rule xlock.critical_section [THEN conjunct1])
next
  case (3 w body x w')
  then show ?case by (rule xlock.critical_section [THEN conjunct2])
qed

theorem text_lock_excludes_witness:
  "XLOCK \<notin> xflag_of (set_xflags 3 {} bss_world) 3
   \<and> xlock 3 (set_xflags 3 {XLOCK} bss_world) \<noteq> Ok () (set_xflags 3 {XLOCK} bss_world)"
  using text_lock_excludes [of 3, THEN conjunct1, rule_format, of "set_xflags 3 {XLOCK} bss_world"] by simp

end
