(* ===== verification/Swapper.thy ===== *)
theory Swapper
  imports Image
begin

text \<open>
  The swapper, process creation and changes of size (\<open>usr/sys/sys/slp.c\<close>, \<open>grow\<close> of \<open>sig.c\<close>,
  \<open>sbreak\<close> of \<open>sys1.c\<close>). A routine that saves its context and gives up the processor continues,
  when it is resumed, at the \<open>save\<close>; the definitions below contain that continuation.
\<close>

section \<open>Swapping in and out\<close>

definition swapin :: "nat \<Rightarrow> world \<Rightarrow> (bool, world) res" where
  "swapin p w =
     bnd (core_alloc (p_size (proc w p)) w) (\<lambda>a w.
       if a = 0 then Ok False w
       else
         bnd (case p_textp (proc w p) of
                None \<Rightarrow> Ok True w
              | Some xp \<Rightarrow>
                  bnd (xlock xp w) (\<lambda>_ w.
                  bnd (if x_ccount (text_t w xp) = 0 then
                         bnd (core_alloc (x_size (text_t w xp)) w) (\<lambda>x w.
                           if x = 0 then
                             bnd (xunlock xp w) (\<lambda>_ w.
                             bnd (core_free (p_size (proc w p)) a w) (\<lambda>_ w. Ok False w))
                           else
                             (let w = upd_text xp (\<lambda>t. t\<lparr>x_caddr := s16 x\<rparr>) w in
                              bnd (if XLOAD \<notin> xflag_of w xp
                                   then swap (x_daddr (text_t w xp)) x (x_size (text_t w xp)) {B_READ} w else Ok () w)
                                (\<lambda>_ w. Ok True w)))
                       else Ok True w) (\<lambda>got w.
                    if got then
                      bnd (xunlock xp (upd_text xp (\<lambda>t. t\<lparr>x_ccount := u8 (x_ccount t + 1)\<rparr>) w)) (\<lambda>_ w. Ok True w)
                    else Ok False w))) (\<lambda>got w.
           if \<not> got then Ok False w
           else
             bnd (swap (p_addr (proc w p)) a (p_size (proc w p)) {B_READ} w) (\<lambda>_ w.
             bnd (swap_free (ctod (p_size (proc w p))) (p_addr (proc w p)) w) (\<lambda>_ w.
               Ok True (upd_proc p (\<lambda>r. r\<lparr>p_addr := a, p_flag := p_flag r \<union> {SLOAD}, p_time := 0\<rparr>) w)))))"

definition out_age :: "proc \<Rightarrow> int" where
  "out_age r = p_time r - (p_nice r - NZERO) * 8"

definition in_age :: "proc \<Rightarrow> int" where
  "in_age r = p_time r + p_nice r - NZERO"

text \<open>The process that has been out longest, weighted by its nice value; \<open>-20000\<close> if none is.\<close>

fun sched_in :: "nat list \<Rightarrow> (nat \<Rightarrow> proc) \<Rightarrow> int \<times> nat option \<Rightarrow> int \<times> nat option" where
  "sched_in [] pr b = b"
| "sched_in (rp # rps) pr (outage, p) =
     (if p_stat (pr rp) = SRUN \<and> SLOAD \<notin> p_flag (pr rp) \<and> out_age (pr rp) > outage
      then sched_in rps pr (out_age (pr rp), Some rp) else sched_in rps pr (outage, p))"

text \<open>The process to swap out: the largest of those asleep at bad priority, else the oldest.\<close>

definition out_step :: "'z kst_scheme \<Rightarrow> nat \<Rightarrow> nat option \<times> int \<times> int \<Rightarrow> nat option \<times> int \<times> int" where
  "out_step s rp b =
     (let r = proc s rp; maxsize = fst (snd b); inage = snd (snd b) in
      if p_stat r = SZOMB \<or> p_flag r \<inter> {SSYS, SLOCK, SULOCK, SLOAD} \<noteq> {SLOAD} then b
      else if (case p_textp r of None \<Rightarrow> False | Some xp \<Rightarrow> XLOCK \<in> xflag_of s xp) then b
      else if (p_stat r = SSLEEP \<and> p_pri r \<ge> PZERO) \<or> p_stat r = SSTOP then
        (if maxsize < p_size r then (Some rp, p_size r, inage) else b)
      else if maxsize < 0 \<and> (p_stat r = SRUN \<or> p_stat r = SSLEEP) then
        (if in_age r > inage then (Some rp, maxsize, in_age r) else b)
      else b)"

primrec sched_out :: "nat list \<Rightarrow> 'z kst_scheme \<Rightarrow> nat option \<times> int \<times> int \<Rightarrow> nat option \<times> int \<times> int" where
  "sched_out [] s b = b"
| "sched_out (rp # rps) s b = sched_out rps s (out_step s rp b)"

text \<open>One pass of the swapper from its label \<open>loop\<close> back to it.\<close>

definition sched_round :: "world \<Rightarrow> (unit, world) res" where
  "sched_round w =
     (case sched_in [0..<NPROC] (proc w) (-20000, None) of
        (outage, None) \<Rightarrow> sleep (addr_of w Ch_runout) PSWP (w\<lparr>runout := u8 (runout w + 1)\<rparr>)
      | (outage, Some p) \<Rightarrow>
          bnd (swapin p w) (\<lambda>ok w.
            if ok then Ok () w
            else
              (case sched_out [0..<NPROC] w (None, -1, -1) of
                 (q, maxsize, inage) \<Rightarrow>
                   if maxsize \<ge> 0 \<or> (outage \<ge> 3 \<and> inage \<ge> 2) then
                     (case q of None \<Rightarrow> Stuck w | Some p \<Rightarrow> xswap p True 0 (set_pflags p {SLOAD} {} w))
                   else sleep (addr_of w Ch_runin) PSWP (w\<lparr>runin := u8 (runin w + 1)\<rparr>))))"

text \<open>The loop never ends; the number bounds the passes looked at.\<close>

primrec sched :: "nat \<Rightarrow> world \<Rightarrow> (unit, world) res" where
  "sched 0 w = Ok () w"
| "sched (Suc n) w = bnd (sched_round w) (\<lambda>_ w. sched n w)"

section \<open>Creating a process\<close>

text \<open>Process numbers run to 30000; one of the first 301 tried is not in use by 150 processes.\<close>

fun pick_pid :: "nat \<Rightarrow> 'z kst_scheme \<Rightarrow> (unit, 'z kst_scheme) res" where
  "pick_pid 0 s = Stuck s"
| "pick_pid (Suc n) s =
     (let s = s\<lparr>mpid := mpid s + 1\<rparr> in
      if mpid s \<ge> 30000 then pick_pid n (s\<lparr>mpid := 0\<rparr>)
      else if list_ex (\<lambda>r. p_pid (proc s r) = mpid s \<or> p_pgrp (proc s r) = mpid s) [0..<NPROC] then pick_pid n s
      else Ok () s)"

definition child_proc :: "int \<Rightarrow> proc \<Rightarrow> proc \<Rightarrow> proc" where
  "child_proc pid rip r =
     r\<lparr>p_stat := SRUN, p_clktim := 0, p_flag := {SLOAD}, p_uid := p_uid rip, p_pgrp := p_pgrp rip,
       p_nice := p_nice rip, p_textp := p_textp rip, p_pid := s16 pid, p_ppid := p_pid rip, p_time := 0, p_cpu := 0\<rparr>"

text \<open>The references that the new process shares: open files, text, directories.\<close>

fun dup_files :: "nat list \<Rightarrow> 'z kst_scheme \<Rightarrow> 'z kst_scheme" where
  "dup_files [] s = s"
| "dup_files (n # ns) s =
     dup_files ns (case u_ofile (u s) n of None \<Rightarrow> s | Some fp \<Rightarrow> upd_file fp (\<lambda>f. f\<lparr>f_count := u8 (f_count f + 1)\<rparr>) s)"

definition dup_refs :: "nat \<Rightarrow> 'z kst_scheme \<Rightarrow> 'z kst_scheme" where
  "dup_refs up s =
     (let s = dup_files [0..<NOFILE] s;
          s = (case p_textp (proc s up) of
                 None \<Rightarrow> s
               | Some xp \<Rightarrow> upd_text xp (\<lambda>x. x\<lparr>x_count := u8 (x_count x + 1), x_ccount := u8 (x_ccount x + 1)\<rparr>) s);
          s = upd_inode (u_cdir (u s)) (\<lambda>i. i\<lparr>i_count := u8 (i_count i + 1)\<rparr>) s
      in case u_rdir (u s) of None \<Rightarrow> s | Some ip \<Rightarrow> upd_inode ip (\<lambda>i. i\<lparr>i_count := u8 (i_count i + 1)\<rparr>) s)"

text \<open>
  The result in the parent: the slot of the child and the \<open>u\<close> area of its image.
\<close>

definition newproc :: "world \<Rightarrow> (nat \<times> user, world) res" where
  "newproc w =
     bnd (pick_pid 30301 w) (\<lambda>_ w.
       (case find (\<lambda>r. p_stat (proc w r) = 0) [0..<NPROC] of
          None \<Rightarrow> Panic ''no procs'' w
        | Some rpp \<Rightarrow>
            (let rip = u_procp (u w);
                 w = upd_proc rpp (child_proc (mpid w) (proc w rip)) w;
                 w = dup_refs rip w;
                 w = upd_u (\<lambda>x. x\<lparr>u_procp := rpp\<rparr>) w;
                 n = p_size (proc w rip); a1 = p_addr (proc w rip);
                 w = upd_proc rpp (\<lambda>r. r\<lparr>p_size := n\<rparr>) w;
                 cu = u w
             in bnd (core_alloc n w) (\<lambda>a2 w.
                bnd (if a2 = 0 then
                       bnd (xswap rpp False 0 (upd_proc rpp (\<lambda>r. r\<lparr>p_addr := a1\<rparr>) (upd_proc rip (\<lambda>r. r\<lparr>p_stat := SIDL\<rparr>) w)))
                         (\<lambda>_ w. Ok () (upd_proc rip (\<lambda>r. r\<lparr>p_stat := SRUN\<rparr>) w))
                     else copy_up (nat n) a1 a2 (upd_proc rpp (\<lambda>r. r\<lparr>p_addr := a2\<rparr>) w)) (\<lambda>_ w.
                  (let w = upd_u (\<lambda>x. x\<lparr>u_procp := rip\<rparr>) w in
                   bnd (setrq rpp w) (\<lambda>_ w. Ok (rpp, cu) (set_pflags rpp {} {SSWAP} w))))))))"

text \<open>What the child does first when it is resumed in its own image: its return from \<open>newproc\<close>.\<close>

definition newproc_child :: "user \<Rightarrow> world \<Rightarrow> (unit, world) res" where
  "newproc_child cu w = sureg (w\<lparr>u := cu\<lparr>u_uisa := (u_uisa cu)(3 := 0)\<rparr>\<rparr>)"

section \<open>Changing the size\<close>

definition expand :: "int \<Rightarrow> world \<Rightarrow> (unit, world) res" where
  "expand newsize w =
     (let p = u_procp (u w); n = p_size (proc w p); w = upd_proc p (\<lambda>r. r\<lparr>p_size := s16 newsize\<rparr>) w;
          a1 = p_addr (proc w p)
      in if n \<ge> newsize then core_free (n - newsize) (a1 + newsize) w
         else
           bnd (core_alloc newsize w) (\<lambda>a2 w.
             if a2 = 0 then bnd (xswap p True n w) (\<lambda>_ w. swapped_out w)
             else
               bnd (copy_up (nat n) a1 a2 (upd_proc p (\<lambda>r. r\<lparr>p_addr := a2\<rparr>) w)) (\<lambda>_ w.
               bnd (core_free n a1 w) (\<lambda>_ w. sureg w))))"

definition grow :: "int \<Rightarrow> world \<Rightarrow> (bool, world) res" where
  "grow sp w =
     (if sp \<ge> u32 (USERTOP - ctob (u_ssize (u w))) then Ok False w
      else
        (let si = s32 (u32 (u32 (USERTOP - sp + 4095) AND NOT 4095) div PGSZ - u_ssize (u w) + 1) in
         if si \<le> 0 then Ok False w
         else
           bnd (estabur (u_tsize (u w)) (u_dsize (u w)) (u32 (u_ssize (u w) + si)) (u_sep (u w)) RO w) (\<lambda>r w.
             if r \<noteq> 0 then Ok False w
             else
               (let p = u_procp (u w) in
                bnd (expand (p_size (proc w p) + si) w) (\<lambda>_ w.
                  (let a = p_addr (proc w p) + p_size (proc w p) in
                   bnd (copy_down (nat (u_ssize (u w))) si a w) (\<lambda>_ w.
                   bnd (clear_down (nat si) (a - u_ssize (u w)) w) (\<lambda>_ w.
                     Ok True (upd_u (\<lambda>x. x\<lparr>u_ssize := u32 (u_ssize x + si)\<rparr>) w)))))))))"

definition ctos :: "int \<Rightarrow> int" where
  "ctos x = u32 (x + 127) div 128"

definition sbreak :: "world \<Rightarrow> (unit, world) res" where
  "sbreak w =
     (let n = btoc (u_arg (u w) 0);
          n = (if u_sep (u w) = 0 then s32 (n - ctos (u_tsize (u w)) * 128) else n);
          n = (if n < 0 then 0 else n);
          d = s32 (n - u_dsize (u w));
          n = s32 (n + 1 + u_ssize (u w))
      in bnd (estabur (u_tsize (u w)) (u32 (u_dsize (u w) + d)) (u_ssize (u w)) (u_sep (u w)) RO w) (\<lambda>r w.
           if r \<noteq> 0 then Ok () w
           else
             (let w = upd_u (\<lambda>x. x\<lparr>u_dsize := u32 (u_dsize x + d)\<rparr>) w; ss = u_ssize (u w) in
              if d > 0 then
                bnd (expand n w) (\<lambda>_ w.
                  (let a = p_addr (proc w (u_procp (u w))) + n in
                   bnd (copy_down (nat ss) d a w) (\<lambda>_ w. clear_down (nat d) (a - ss) w)))
              else
                (let a = p_addr (proc w (u_procp (u w))) + n - ss in
                 bnd (copy_up (nat ss) (a - d) a w) (\<lambda>_ w. expand n w)))))"

end
