(* ===== verification/Namei.thy ===== *)
theory Namei
  imports Swapper
begin

text \<open>
  Descriptors, permissions and path names (\<open>usr/sys/sys/fio.c\<close>, \<open>nami.c\<close>). A descriptor is an
  index of \<open>u_ofile\<close>, which names an entry of the table \<open>file_t\<close>. A path name is read character
  by character at \<open>u_dirp\<close>, from user memory or from the kernel's.
\<close>

section \<open>Descriptors\<close>

definition getf :: "int \<Rightarrow> 'z kst_scheme \<Rightarrow> nat option \<times> 'z kst_scheme" where
  "getf f s =
     (if 0 \<le> f \<and> f < int NOFILE \<and> u_ofile (u s) (nat f) \<noteq> None then (u_ofile (u s) (nat f), s)
      else (None, set_error EBADF s))"

definition ufalloc :: "'z kst_scheme \<Rightarrow> int \<times> 'z kst_scheme" where
  "ufalloc s =
     (case find (\<lambda>i. u_ofile (u s) i = None) [0..<NOFILE] of
        Some i \<Rightarrow> (int i, upd_u (\<lambda>x. x\<lparr>u_r_val1 := int i, u_pofile := (u_pofile x)(i := 0)\<rparr>) s)
      | None \<Rightarrow> (-1, set_error EMFILE s))"

definition falloc :: "'z kst_scheme \<Rightarrow> nat option \<times> 'z kst_scheme" where
  "falloc s =
     (case ufalloc s of
        (i, s) \<Rightarrow>
          if i < 0 then (None, s)
          else
            (case find (\<lambda>fp. f_count (file_t s fp) = 0) [0..<NFILE] of
               Some fp \<Rightarrow>
                 (Some fp, upd_file fp (\<lambda>f. f\<lparr>f_count := u8 (f_count f + 1), f_offset := 0\<rparr>)
                   (upd_u (\<lambda>x. x\<lparr>u_ofile := (u_ofile x)(nat i := Some fp)\<rparr>) s))
             | None \<Rightarrow> (None, set_error ENFILE (kprintf ''no file\<newline>'' s))))"

definition closef :: "nat option \<Rightarrow> world \<Rightarrow> (unit, world) res" where
  "closef ofp w =
     (case ofp of
        None \<Rightarrow> Ok () w
      | Some fp \<Rightarrow>
          if f_count (file_t w fp) > 1 then Ok () (upd_file fp (\<lambda>f. f\<lparr>f_count := f_count f - 1\<rparr>) w)
          else
            (let ip = f_inode (file_t w fp); flag = f_flag (file_t w fp);
                 dev = s16 (i_addr (inode w ip) 0); mode = i_mode (inode w ip)
             in bnd (plock ip w) (\<lambda>_ w.
                  (let w = upd_file fp (\<lambda>f. f\<lparr>f_count := 0\<rparr>) w in
                   bnd (if FPIPE \<in> flag then
                          (let w = upd_inode ip (\<lambda>i. i\<lparr>i_mode := i_mode i AND NOT (IREAD OR IWRITE)\<rparr>) w in
                           bnd (wakeup (addr_of w (Ch_inode1 ip)) w) (\<lambda>_ w. wakeup (addr_of w (Ch_inode2 ip)) w))
                        else Ok () w) (\<lambda>_ w.
                   bnd (iput ip w) (\<lambda>_ w.
                     if mode AND IFMT \<noteq> IFCHR \<and> mode AND IFMT \<noteq> IFBLK then Ok () w
                     else if list_ex (\<lambda>fp. f_count (file_t w fp) \<noteq> 0 \<and> f_inode (file_t w fp) = ip) [0..<NFILE]
                     then Ok () w
                     else if mode AND IFMT = IFCHR then Ok () (on_kst (cd_close w (major dev) dev flag) w)
                     else Ok () (on_kst (bd_close w (major dev) dev flag) w)))))))"

definition openi :: "nat \<Rightarrow> int \<Rightarrow> world \<Rightarrow> world" where
  "openi ip rw w =
     (let dev = s16 (i_addr (inode w ip) 0); maj = u16 (major dev); type = i_mode (inode w ip) AND IFMT in
      if type = IFCHR then
        (if maj \<ge> nchrdev w then set_error ENXIO w else on_kst (cd_open w maj dev rw) w)
      else if type = IFBLK then
        (if maj \<ge> nblkdev w then set_error ENXIO w else on_kst (bd_open w maj dev rw) w)
      else w)"

section \<open>Permissions\<close>

definition suser :: "'z kst_scheme \<Rightarrow> bool \<times> 'z kst_scheme" where
  "suser s =
     (if u_uid (u s) = 0 then (True, upd_u (\<lambda>x. x\<lparr>u_acflag := u_acflag x \<union> {ASU}\<rparr>) s)
      else (False, set_error EPERM s))"

text \<open>The check of the mode bits, from the test for user 0 on. \<^const>\<open>True\<close> means no permission.\<close>

definition access_bits :: "nat \<Rightarrow> int \<Rightarrow> 'z kst_scheme \<Rightarrow> bool \<times> 'z kst_scheme" where
  "access_bits ip m s =
     (if u_uid (u s) = 0 then (False, s)
      else
        (let m = (if u_uid (u s) \<noteq> i_uid (inode s ip)
                  then (let m = drop_bit 3 m in if u_gid (u s) \<noteq> i_gid (inode s ip) then drop_bit 3 m else m)
                  else m)
         in if i_mode (inode s ip) AND m \<noteq> 0 then (False, s) else (True, set_error EACCES s)))"

definition access :: "nat \<Rightarrow> int \<Rightarrow> world \<Rightarrow> (bool, world) res" where
  "access ip mode w =
     (if mode = IWRITE then
        bnd (getfs (i_dev (inode w ip)) w) (\<lambda>fp w.
          if s_ronly (fs_of w fp) \<noteq> 0 then Ok True (set_error EROFS w)
          else
            bnd (if ITEXT \<in> iflag_of w ip then xrele ip w else Ok () w) (\<lambda>_ w.
              if ITEXT \<in> iflag_of w ip then Ok True (set_error ETXTBSY w)
              else (case access_bits ip mode w of (r, w) \<Rightarrow> Ok r w)))
      else (case access_bits ip mode w of (r, w) \<Rightarrow> Ok r w))"

section \<open>Path names\<close>

text \<open>A name space: \<open>True\<close> for names in user memory (\<open>uchar\<close>), \<open>False\<close> for the kernel's (\<open>schar\<close>).\<close>

definition uchar :: "'z kst_scheme \<Rightarrow> (int, 'z kst_scheme) res" where
  "uchar s =
     bnd (fubyte (u_dirp (u s)) (upd_u (\<lambda>x. x\<lparr>u_dirp := u32 (u_dirp x + 1)\<rparr>) s)) (\<lambda>c s.
       Ok c (if c = -1 then set_error EFAULT s else s))"

definition schar :: "'z kst_scheme \<Rightarrow> (int, 'z kst_scheme) res" where
  "schar s = Ok (kget (u_dirp (u s)) s AND 255) (upd_u (\<lambda>x. x\<lparr>u_dirp := u32 (u_dirp x + 1)\<rparr>) s)"

definition nchar :: "bool \<Rightarrow> 'z kst_scheme \<Rightarrow> (int, 'z kst_scheme) res" where
  "nchar user s = (if user then uchar s else schar s)"

text \<open>The address space has \<open>2 ^ 32\<close> bytes; no name is longer.\<close>

definition name_fuel :: nat where
  "name_fuel = 4294967296"

abbreviation (input) slash :: int where "slash \<equiv> 47"

fun skip_slashes :: "nat \<Rightarrow> bool \<Rightarrow> int \<Rightarrow> 'z kst_scheme \<Rightarrow> (int, 'z kst_scheme) res" where
  "skip_slashes 0 user c s = Stuck s"
| "skip_slashes (Suc n) user c s =
     (if c = slash then bnd (nchar user s) (\<lambda>c s. skip_slashes n user c s) else Ok c s)"

text \<open>The characters of a component; those beyond \<open>DIRSIZ\<close> are read and dropped.\<close>

fun gather_name :: "nat \<Rightarrow> bool \<Rightarrow> int \<Rightarrow> int list \<Rightarrow> 'z kst_scheme \<Rightarrow> (int \<times> int list, 'z kst_scheme) res" where
  "gather_name 0 user c cs s = Stuck s"
| "gather_name (Suc n) user c cs s =
     (if c \<noteq> slash \<and> c \<noteq> 0 \<and> u_error (u s) = 0 then
        (let cs = (if length cs < DIRSIZ then cs @ [u8 c] else cs)
         in bnd (nchar user s) (\<lambda>c s. gather_name n user c cs s))
      else Ok (c, cs) s)"

definition component :: "bool \<Rightarrow> int \<Rightarrow> 'z kst_scheme \<Rightarrow> (int, 'z kst_scheme) res" where
  "component user c s =
     bnd (gather_name name_fuel user c [] s) (\<lambda>(c, cs) s.
       skip_slashes name_fuel user c (upd_u (\<lambda>x. x\<lparr>u_dbuf := cs @ replicate (DIRSIZ - length cs) 0\<rparr>) s))"

text \<open>
  The search of a directory from the label \<open>eloop\<close> on: the end with the buffer held and the
  end of the first empty slot, an I/O error, or a match.
\<close>

datatype dirsearch = DEnd "nat option" int | DError | DMatch "nat option"

definition brelse_opt :: "nat option \<Rightarrow> world \<Rightarrow> (unit, world) res" where
  "brelse_opt bp w = (case bp of None \<Rightarrow> Ok () w | Some b \<Rightarrow> brelse b w)"

fun eloop :: "nat \<Rightarrow> nat \<Rightarrow> int \<Rightarrow> nat option \<Rightarrow> world \<Rightarrow> (dirsearch, world) res" where
  "eloop 0 dp eo bp w = Stuck w"
| "eloop (Suc n) dp eo bp w =
     (let off = u_offset (u w) in
      if off \<ge> i_size (inode w dp) then Ok (DEnd bp eo) w
      else
        bnd (if off AND BMASK = 0 then
               bnd (brelse_opt bp w) (\<lambda>_ w.
               bnd (bmap dp (drop_bit 9 off) True w) (\<lambda>bn w.
               bnd (bread (i_dev (inode w dp)) bn w) (\<lambda>b w.
                 if B_ERROR \<in> bflag_of w b then bnd (brelse b w) (\<lambda>_ w. Ok None w) else Ok (Some b) w)))
             else Ok bp w) (\<lambda>bp w.
          (case bp of
             None \<Rightarrow> Ok DError w
           | Some b \<Rightarrow>
               (let k = nat (off AND BMASK);
                    w = upd_u (\<lambda>x. x\<lparr>u_dent := direct_of (map (b_data (buf w b)) [k..<k + 16]), u_offset := off + 16\<rparr>) w
                in if d_ino (u_dent (u w)) = 0 then eloop n dp (if eo = 0 then off + 16 else eo) bp w
                   else if u_dbuf (u w) \<noteq> d_name (u_dent (u w)) then eloop n dp eo bp w
                   else Ok (DMatch bp) w))))"

text \<open>The ways on from a component: return, the label \<open>out\<close>, the label \<open>seloop\<close>, the label \<open>cloop\<close>.\<close>

datatype nstep = Return "nat option" | Out | Seloop nat | Cloop nat

definition dot_dot_mount :: "nat \<Rightarrow> int \<Rightarrow> 'z kst_scheme \<Rightarrow> nat option" where
  "dot_dot_mount dp d s =
     (if d_ino (u_dent (u s)) = ROOTINO \<and> i_number (inode s dp) = ROOTINO \<and> d_name (u_dent (u s)) ! 1 = 46
      then find (\<lambda>i. m_bufp (mount s i) \<noteq> None \<and> m_dev (mount s i) = d) [1..<NMOUNT] else None)"

definition seloop :: "nat \<Rightarrow> int \<Rightarrow> int \<Rightarrow> world \<Rightarrow> (nstep, world) res" where
  "seloop dp c flag w =
     bnd (access dp IEXEC (if i_mode (inode w dp) AND IFMT \<noteq> IFDIR then set_error ENOTDIR w else w)) (\<lambda>_ w.
       if u_error (u w) \<noteq> 0 then Ok Out w
       else
         bnd (eloop (nat (i_size (inode w dp)) + 1) dp 0 None (upd_u (\<lambda>x. x\<lparr>u_offset := 0, u_segflg := 1\<rparr>) w)) (\<lambda>r w.
           (case r of
              DError \<Rightarrow> Ok Out w
            | DEnd bp eo \<Rightarrow>
                bnd (brelse_opt bp w) (\<lambda>_ w.
                  if flag = 1 \<and> c = 0 then
                    bnd (access dp IWRITE w) (\<lambda>no w.
                      if no then Ok Out w
                      else
                        (let w = upd_u (\<lambda>x. x\<lparr>u_pdir := dp\<rparr>) w in
                         Ok (Return None)
                           (if eo \<noteq> 0 then upd_u (\<lambda>x. x\<lparr>u_offset := eo - 16\<rparr>) w
                            else set_iflags dp (iflag_of w dp \<union> {IUPD, ICHG}) w)))
                  else Ok Out (set_error ENOENT w))
            | DMatch bp \<Rightarrow>
                bnd (brelse_opt bp w) (\<lambda>_ w.
                  if flag = 2 \<and> c = 0 then
                    bnd (access dp IWRITE w) (\<lambda>no w. Ok (if no then Out else Return (Some dp)) w)
                  else
                    (let d = i_dev (inode w dp) in
                     case dot_dot_mount dp d w of
                       Some i \<Rightarrow>
                         bnd (iput dp w) (\<lambda>_ w.
                           (case m_inodp (mount w i) of
                              None \<Rightarrow> Stuck w
                            | Some dp \<Rightarrow>
                                bnd (plock dp (upd_inode dp (\<lambda>x. x\<lparr>i_count := u8 (i_count x + 1)\<rparr>) w))
                                  (\<lambda>_ w. Ok (Seloop dp) w)))
                     | None \<Rightarrow>
                         bnd (iput dp w) (\<lambda>_ w.
                         bnd (iget d (d_ino (u_dent (u w))) w) (\<lambda>odp w.
                           (case odp of None \<Rightarrow> Ok (Return None) w | Some dp \<Rightarrow> Ok (Cloop dp) w))))))))"

definition name_out :: "nat \<Rightarrow> world \<Rightarrow> (nat option, world) res" where
  "name_out dp w = bnd (iput dp w) (\<lambda>_ w. Ok None w)"

text \<open>\<open>at_sel\<close>: the component in \<open>u_dbuf\<close> is to be looked up again.\<close>

fun cloop :: "nat \<Rightarrow> bool \<Rightarrow> int \<Rightarrow> bool \<Rightarrow> nat \<Rightarrow> int \<Rightarrow> world \<Rightarrow> (nat option, world) res" where
  "cloop 0 user flag at_sel dp c w = Stuck w"
| "cloop (Suc n) user flag at_sel dp c w =
     (if \<not> at_sel \<and> u_error (u w) \<noteq> 0 then name_out dp w
      else if \<not> at_sel \<and> c = 0 then Ok (Some dp) w
      else
        bnd (if at_sel then Ok c w else component user c w) (\<lambda>c w.
        bnd (seloop dp c flag w) (\<lambda>r w.
          (case r of
             Return x \<Rightarrow> Ok x w
           | Out \<Rightarrow> name_out dp w
           | Seloop dp \<Rightarrow> cloop n user flag True dp c w
           | Cloop dp \<Rightarrow> cloop n user flag False dp c w))))"

definition namei :: "bool \<Rightarrow> int \<Rightarrow> world \<Rightarrow> (nat option, world) res" where
  "namei user flag w =
     bnd (nchar user w) (\<lambda>c w.
       (let dp = (if c = slash then (case u_rdir (u w) of None \<Rightarrow> rootdir w | Some r \<Rightarrow> r) else u_cdir (u w)) in
        bnd (iget (i_dev (inode w dp)) (i_number (inode w dp)) w) (\<lambda>_ w.
        bnd (skip_slashes name_fuel user c w) (\<lambda>c w.
          cloop name_fuel user flag False dp c (if c = 0 \<and> flag \<noteq> 0 then set_error ENOENT w else w)))))"

definition owner :: "world \<Rightarrow> (nat option, world) res" where
  "owner w =
     bnd (namei True 0 w) (\<lambda>oip w.
       (case oip of
          None \<Rightarrow> Ok None w
        | Some ip \<Rightarrow>
            if u_uid (u w) = i_uid (inode w ip) then Ok (Some ip) w
            else
              (case suser w of
                 (True, w) \<Rightarrow> Ok (Some ip) w
               | (False, w) \<Rightarrow> bnd (iput ip w) (\<lambda>_ w. Ok None w))))"

section \<open>Properties\<close>

text \<open>The class of the current user for an inode: owner, group or other; and whether bit \<open>b\<close> of that class is set.\<close>

definition class_shift :: "nat \<Rightarrow> 'z kst_scheme \<Rightarrow> nat" where
  "class_shift ip s = (if u_uid (u s) = i_uid (inode s ip) then 0 else if u_gid (u s) = i_gid (inode s ip) then 3 else 6)"

definition may :: "nat \<Rightarrow> nat \<Rightarrow> 'z kst_scheme \<Rightarrow> bool" where
  "may ip b s \<longleftrightarrow> u_uid (u s) = 0 \<or> bit (i_mode (inode s ip)) (b - class_shift ip s)"

lemma drop_bit_pow: "k \<le> n \<Longrightarrow> drop_bit k (2 ^ n :: int) = 2 ^ (n - k)"
  by (simp add: drop_bit_eq_div power_diff)

lemma access_bits_may:
  assumes "b \<in> {6, 7, 8}"
  shows "access_bits ip (2 ^ b) s = (\<not> may ip b s, if may ip b s then s else set_error EACCES s)"
proof -
  have "drop_bit 3 (2 ^ b :: int) = 2 ^ (b - 3)" "drop_bit 3 (2 ^ (b - 3) :: int) = 2 ^ (b - 6)"
    using assms by (auto simp: drop_bit_pow)
  then show ?thesis
    by (auto simp: access_bits_def may_def class_shift_def Let_def and_exp_eq_0_iff_not_bit)
qed

lemma may_error [simp]: "may ip b (set_error e s) = may ip b s"
  by (simp add: may_def class_shift_def set_error_def)

text \<open>
  Claim C27. Reading and executing are allowed exactly to the super-user and to those whose class -
  owner, group or other, the first that fits - has the bit; otherwise the error is \<open>EACCES\<close> and
  nothing else changes. Writing also needs a writable file system and a text that is not in use.
\<close>

theorem access_decides:
  "access ip IREAD w = Ok (\<not> may ip 8 w) (if may ip 8 w then w else set_error EACCES w)
   \<and> access ip IEXEC w = Ok (\<not> may ip 6 w) (if may ip 6 w then w else set_error EACCES w)
   \<and> (\<forall>w'. access ip IWRITE w = Ok False w' \<longrightarrow> may ip 7 w' \<and> ITEXT \<notin> iflag_of w' ip)
   \<and> (\<forall>w'. access ip IWRITE w = Ok True w' \<longrightarrow> u_error (u w') \<in> {EROFS, ETXTBSY, EACCES})"
proof (intro conjI allI impI)
  show "access ip IREAD w = Ok (\<not> may ip 8 w) (if may ip 8 w then w else set_error EACCES w)"
    using access_bits_may [of 8 ip w] by (simp add: access_def)
  show "access ip IEXEC w = Ok (\<not> may ip 6 w) (if may ip 6 w then w else set_error EACCES w)"
    using access_bits_may [of 6 ip w] by (simp add: access_def)
next
  fix w' assume "access ip IWRITE w = Ok False w'"
  then obtain w1 where "ITEXT \<notin> iflag_of w1 ip" "access_bits ip IWRITE w1 = (False, w')"
    by (auto simp: access_def bnd_Ok_iff split: if_splits prod.splits)
  then show "may ip 7 w'" "ITEXT \<notin> iflag_of w' ip" using access_bits_may [of 7 ip w1] by (auto split: if_splits)
next
  fix w' assume "access ip IWRITE w = Ok True w'"
  moreover have den: "u_error (u w') = EACCES" if "(case access_bits ip 128 s of (r, w) \<Rightarrow> Ok r w) = Ok True w'" for s
    using that access_bits_may [of 7 ip s] by (auto simp: set_error_def split: if_splits)
  ultimately show "u_error (u w') \<in> {EROFS, ETXTBSY, EACCES}"
    by (auto simp: access_def bnd_Ok_iff set_error_def split: if_splits dest: den)
qed

theorem access_decides_witness:
  "access 4 IREAD (bss_world\<lparr>u := zero_user\<lparr>u_uid := 5\<rparr>, inode := (\<lambda>_. zero_inode\<lparr>i_uid := 5, i_mode := 0x100\<rparr>)\<rparr>)
     = Ok False (bss_world\<lparr>u := zero_user\<lparr>u_uid := 5\<rparr>, inode := (\<lambda>_. zero_inode\<lparr>i_uid := 5, i_mode := 0x100\<rparr>)\<rparr>)"
  by (subst access_decides [THEN conjunct1]) (simp add: may_def class_shift_def bit_iff_odd)

lemma ufalloc_cases:
  obtains (full) "\<forall>i < NOFILE. u_ofile (u s) i \<noteq> None" "ufalloc s = (-1, set_error EMFILE s)"
  | (free) i where "i < NOFILE" "u_ofile (u s) i = None" "\<forall>j < i. u_ofile (u s) j \<noteq> None"
      "ufalloc s = (int i, upd_u (\<lambda>x. x\<lparr>u_r_val1 := int i, u_pofile := (u_pofile x)(i := 0)\<rparr>) s)"
proof (cases "find (\<lambda>i. u_ofile (u s) i = None) [0..<NOFILE]")
  case None
  moreover from None have "\<forall>i < NOFILE. u_ofile (u s) i \<noteq> None" unfolding find_None_iff by (simp add: ball_Un)
  ultimately show ?thesis using full by (simp add: ufalloc_def del: upt_rec_numeral)
next
  case (Some i)
  then have "i < NOFILE" "u_ofile (u s) i = None" "\<forall>j < i. u_ofile (u s) j \<noteq> None"
    by (auto simp: find_Some_iff)
  with Some show ?thesis using free by (simp add: ufalloc_def del: upt_rec_numeral)
qed

text \<open>
  \<open>falloc\<close> opens the lowest unused descriptor on an unused entry of the file table, whose
  reference count becomes one and whose offset zero, and disturbs no descriptor or entry in use.
  It fails with \<open>EMFILE\<close> when the process has no descriptor left, with \<open>ENFILE\<close> when the system
  has no entry left, and then opens nothing.
\<close>

theorem falloc_takes_unused:
  "case falloc s of
     (Some fp, t) \<Rightarrow>
       (\<exists>i < NOFILE. u_ofile (u s) i = None \<and> (\<forall>j < i. u_ofile (u s) j \<noteq> None) \<and> fp < NFILE
          \<and> f_count (file_t s fp) = 0 \<and> u_ofile (u t) = (u_ofile (u s))(i := Some fp) \<and> u_r_val1 (u t) = int i
          \<and> u_pofile (u t) i = 0
          \<and> file_t t = (file_t s)(fp := (file_t s fp)\<lparr>f_count := 1, f_offset := 0\<rparr>))
   | (None, t) \<Rightarrow> u_ofile (u t) = u_ofile (u s) \<and> file_t t = file_t s
       \<and> (u_error (u t) = EMFILE \<and> (\<forall>i < NOFILE. u_ofile (u s) i \<noteq> None)
          \<or> u_error (u t) = ENFILE \<and> (\<forall>fp < NFILE. f_count (file_t s fp) \<noteq> 0))"
proof (rule ufalloc_cases [of s])
  assume "\<forall>i < NOFILE. u_ofile (u s) i \<noteq> None" "ufalloc s = (-1, set_error EMFILE s)"
  then show ?thesis by (simp add: falloc_def set_error_def)
next
  fix i
  let ?t = "upd_u (\<lambda>x. x\<lparr>u_r_val1 := int i, u_pofile := (u_pofile x)(i := 0)\<rparr>) s"
  assume i: "i < NOFILE" "u_ofile (u s) i = None" "\<forall>j < i. u_ofile (u s) j \<noteq> None" "ufalloc s = (int i, ?t)"
  have ft: "file_t ?t = file_t s" by (simp add: upd_u_def)
  show ?thesis
  proof (cases "find (\<lambda>fp. f_count (file_t s fp) = 0) [0..<NFILE]")
    case None
    then have "\<forall>fp < NFILE. f_count (file_t s fp) \<noteq> 0" by (auto simp: find_None_iff simp del: upt_rec_numeral)
    with None i(4) show ?thesis by (simp add: falloc_def ft set_error_def kprintf_def upd_u_def del: upt_rec_numeral)
  next
    case (Some fp)
    then have "fp < NFILE" "f_count (file_t s fp) = 0" by (auto simp: find_Some_iff)
    with Some i show ?thesis
      by (simp add: falloc_def ft upd_u_def upd_file_def u8_def fun_eq_iff del: upt_rec_numeral)
  qed
qed

theorem falloc_takes_unused_witness:
  "\<exists>fp t. falloc bss_world = (Some fp, t) \<and> u_ofile (u t) 0 = Some fp \<and> f_count (file_t t fp) = 1"
proof -
  obtain r t where rt: "falloc bss_world = (r, t)" by (cases "falloc bss_world")
  with falloc_takes_unused [of bss_world] show ?thesis
    by (cases r) (auto simp: zero_user_def zero_file_ent_def dest: spec [of _ "0 :: nat"])
qed

end
