(* ===== verification/Filecalls.thy ===== *)
theory Filecalls
  imports Namei
begin

text \<open>
  The system calls on files and file systems (\<open>usr/sys/sys/sys2.c\<close>, \<open>sys3.c\<close>, part of \<open>sys4.c\<close>,
  \<open>pipe\<close> of \<open>pipe.c\<close>) and accounting (\<open>acct.c\<close>). A call finds its arguments in \<open>u_arg\<close>, reports an
  error in \<open>u_error\<close> and leaves its results in \<open>u_r_val1\<close> and \<open>u_r_val2\<close>.
\<close>

section \<open>Reading and writing\<close>

definition arg :: "nat \<Rightarrow> 'z kst_scheme \<Rightarrow> int" where
  "arg i s = u_arg (u s) i"

definition rdwr :: "fflag \<Rightarrow> world \<Rightarrow> (unit, world) res" where
  "rdwr mode w =
     (case getf (arg 0 w) w of
        (None, w) \<Rightarrow> Ok () w
      | (Some fp, w) \<Rightarrow>
          if mode \<notin> f_flag (file_t w fp) then Ok () (set_error EBADF w)
          else
            (let count = u32 (arg 2 w);
                 w = upd_u (\<lambda>x. x\<lparr>u_base := u32 (arg 1 w), u_count := u16 count, u_segflg := 0\<rparr>) w
             in bnd (if FPIPE \<in> f_flag (file_t w fp) then (if mode = FREAD then readp fp w else writep fp w)
                     else
                       (let ip = f_inode (file_t w fp); w = upd_u (\<lambda>x. x\<lparr>u_offset := f_offset (file_t w fp)\<rparr>) w in
                        bnd (if i_mode (inode w ip) AND 0x2000 = 0 then plock ip w else Ok () w) (\<lambda>_ w.
                        bnd (if mode = FREAD then readi ip w else writei ip w) (\<lambda>_ w.
                        bnd (if i_mode (inode w ip) AND 0x2000 = 0 then prele ip w else Ok () w) (\<lambda>_ w.
                          Ok () (upd_file fp (\<lambda>f. f\<lparr>f_offset := s32 (f_offset f + (count - u_count (u w)))\<rparr>) w))))))
                  (\<lambda>_ w. Ok () (upd_u (\<lambda>x. x\<lparr>u_r_val1 := s32 (count - u_count x)\<rparr>) w))))"

definition read_call :: "world \<Rightarrow> (unit, world) res" where
  "read_call w = rdwr FREAD w"

definition write_call :: "world \<Rightarrow> (unit, world) res" where
  "write_call w = rdwr FWRITE w"

section \<open>Opening and closing\<close>

definition mode_flags :: "int \<Rightarrow> fflag set" where
  "mode_flags m = (if m AND 1 \<noteq> 0 then {FREAD} else {}) \<union> (if m AND 2 \<noteq> 0 then {FWRITE} else {})"

definition open1 :: "nat \<Rightarrow> int \<Rightarrow> int \<Rightarrow> world \<Rightarrow> (unit, world) res" where
  "open1 ip mode trf w =
     bnd (if trf \<noteq> 2 then
            bnd (if mode AND 1 \<noteq> 0 then access ip IREAD w else Ok False w) (\<lambda>_ w.
              if mode AND 2 \<noteq> 0 then
                bnd (access ip IWRITE w) (\<lambda>_ w.
                  Ok () (if i_mode (inode w ip) AND IFMT = IFDIR then set_error EISDIR w else w))
              else Ok () w)
          else Ok () w) (\<lambda>_ w.
       if u_error (u w) \<noteq> 0 then iput ip w
       else
         bnd (if trf = 1 then itrunc ip w else Ok () w) (\<lambda>_ w.
         bnd (prele ip w) (\<lambda>_ w.
           (case falloc w of
              (None, w) \<Rightarrow> iput ip w
            | (Some fp, w) \<Rightarrow>
                (let w = upd_file fp (\<lambda>f. f\<lparr>f_flag := mode_flags mode, f_inode := ip\<rparr>) w;
                     i = u_r_val1 (u w);
                     w = openi ip (mode AND 2) w
                 in if u_error (u w) = 0 then Ok () w
                    else
                      (let w = upd_u (\<lambda>x. x\<lparr>u_ofile := (u_ofile x)(nat i := None)\<rparr>) w;
                           w = upd_file fp (\<lambda>f. f\<lparr>f_count := u8 (f_count f - 1)\<rparr>) w
                       in iput ip w))))))"

definition open_call :: "world \<Rightarrow> (unit, world) res" where
  "open_call w =
     bnd (namei True 0 w) (\<lambda>oip w.
       (case oip of
          None \<Rightarrow> Ok () w
        | Some ip \<Rightarrow>
            (let w = upd_u (\<lambda>x. x\<lparr>u_arg := (u_arg x)(1 := s32 (u_arg x 1 + 1))\<rparr>) w in open1 ip (arg 1 w) 0 w)))"

definition creat :: "world \<Rightarrow> (unit, world) res" where
  "creat w =
     bnd (namei True 1 w) (\<lambda>oip w.
       (case oip of
          None \<Rightarrow>
            if u_error (u w) \<noteq> 0 then Ok () w
            else
              bnd (maknode (arg 1 w AND 4095 AND NOT ISVTX) w) (\<lambda>oip w.
                (case oip of None \<Rightarrow> Ok () w | Some ip \<Rightarrow> open1 ip 2 2 w))
        | Some ip \<Rightarrow> open1 ip 2 1 w))"

definition close_call :: "world \<Rightarrow> (unit, world) res" where
  "close_call w =
     (case getf (arg 0 w) w of
        (None, w) \<Rightarrow> Ok () w
      | (Some fp, w) \<Rightarrow> closef (Some fp) (upd_u (\<lambda>x. x\<lparr>u_ofile := (u_ofile x)(nat (arg 0 w) := None)\<rparr>) w))"

definition seek :: "world \<Rightarrow> (unit, world) res" where
  "seek w =
     (case getf (arg 0 w) w of
        (None, w) \<Rightarrow> Ok () w
      | (Some fp, w) \<Rightarrow>
          if FPIPE \<in> f_flag (file_t w fp) then Ok () (set_error ESPIPE w)
          else
            (let off = (if arg 2 w = 1 then s32 (arg 1 w + f_offset (file_t w fp))
                        else if arg 2 w = 2 then s32 (arg 1 w + i_size (inode w (f_inode (file_t w fp))))
                        else arg 1 w);
                 w = upd_u (\<lambda>x. x\<lparr>u_arg := (u_arg x)(1 := off)\<rparr>) w;
                 w = upd_file fp (\<lambda>f. f\<lparr>f_offset := off\<rparr>) w
             in Ok () (upd_u (\<lambda>x. x\<lparr>u_r_val1 := off\<rparr>) w)))"

definition dup :: "world \<Rightarrow> (unit, world) res" where
  "dup w =
     (let m = arg 0 w AND NOT 63;
          w = upd_u (\<lambda>x. x\<lparr>u_arg := (u_arg x)(0 := u_arg x 0 AND 63)\<rparr>) w
      in case getf (arg 0 w) w of
           (None, w) \<Rightarrow> Ok () w
         | (Some fp, w) \<Rightarrow>
             (case (if m AND 64 = 0 then ufalloc w
                    else if arg 1 w < 0 \<or> arg 1 w \<ge> int NOFILE then (-1, set_error EBADF w)
                    else (arg 1 w, upd_u (\<lambda>x. x\<lparr>u_r_val1 := arg 1 w\<rparr>) w)) of
                (i, w) \<Rightarrow>
                  if i < 0 then Ok () w
                  else if i \<noteq> arg 0 w then
                    bnd (closef (u_ofile (u w) (nat i)) w) (\<lambda>_ w.
                      Ok () (upd_file fp (\<lambda>f. f\<lparr>f_count := u8 (f_count f + 1)\<rparr>)
                        (upd_u (\<lambda>x. x\<lparr>u_ofile := (u_ofile x)(nat i := Some fp)\<rparr>) w)))
                  else Ok () w))"

definition pipe :: "world \<Rightarrow> (unit, world) res" where
  "pipe w =
     bnd (ialloc (pipedev w) w) (\<lambda>oip w.
       (case oip of
          None \<Rightarrow> Ok () w
        | Some ip \<Rightarrow>
            (case falloc w of
               (None, w) \<Rightarrow> iput ip w
             | (Some rd_fp, w) \<Rightarrow>
                 (let r = u_r_val1 (u w) in
                  case falloc w of
                    (None, w) \<Rightarrow>
                      iput ip (upd_u (\<lambda>x. x\<lparr>u_ofile := (u_ofile x)(nat r := None)\<rparr>)
                        (upd_file rd_fp (\<lambda>f. f\<lparr>f_count := 0\<rparr>) w))
                  | (Some wr_fp, w) \<Rightarrow>
                      (let w = upd_u (\<lambda>x. x\<lparr>u_r_val2 := u_r_val1 x, u_r_val1 := r\<rparr>) w;
                           w = upd_file wr_fp (\<lambda>f. f\<lparr>f_flag := {FWRITE, FPIPE}, f_inode := ip\<rparr>) w;
                           w = upd_file rd_fp (\<lambda>f. f\<lparr>f_flag := {FREAD, FPIPE}, f_inode := ip\<rparr>) w
                       in Ok () (upd_inode ip (\<lambda>i. i\<lparr>i_count := 2, i_mode := IFREG, i_flag := {IACC, IUPD, ICHG}\<rparr>) w))))))"

section \<open>Names\<close>

definition link :: "world \<Rightarrow> (unit, world) res" where
  "link w =
     bnd (namei True 0 w) (\<lambda>oip w.
       (case oip of
          None \<Rightarrow> Ok () w
        | Some ip \<Rightarrow>
            (case (if i_mode (inode w ip) AND IFMT = IFDIR then suser w else (True, w)) of
               (False, w) \<Rightarrow> iput ip w
             | (True, w) \<Rightarrow>
                 bnd (prele ip w) (\<lambda>_ w.
                 bnd (namei True 1 (upd_u (\<lambda>x. x\<lparr>u_dirp := u32 (u_arg x 1)\<rparr>) w)) (\<lambda>oxp w.
                   (case oxp of
                      Some xp \<Rightarrow> bnd (iput xp (set_error EEXIST w)) (\<lambda>_ w. iput ip w)
                    | None \<Rightarrow>
                        if u_error (u w) \<noteq> 0 then iput ip w
                        else if i_dev (inode w (u_pdir (u w))) \<noteq> i_dev (inode w ip) then
                          bnd (iput (u_pdir (u w)) w) (\<lambda>_ w. iput ip (set_error EXDEV w))
                        else
                          bnd (wdir ip w) (\<lambda>_ w.
                            iput ip (if u_error (u w) = 0
                                     then upd_inode ip (\<lambda>i. i\<lparr>i_nlink := s16 (i_nlink i + 1), i_flag := i_flag i \<union> {ICHG}\<rparr>) w
                                     else w))))))))"

definition unlink_entry :: "nat \<Rightarrow> nat \<Rightarrow> world \<Rightarrow> (unit, world) res" where
  "unlink_entry pp ip w =
     bnd (if ITEXT \<in> iflag_of w ip then xrele ip w else Ok () w) (\<lambda>_ w.
       if ITEXT \<in> iflag_of w ip \<and> i_nlink (inode w ip) = 1 then Ok () (set_error ETXTBSY w)
       else
         bnd (writei pp (upd_u (\<lambda>x. x\<lparr>u_offset := u_offset x - 16, u_base := addr_of w Ch_dent, u_count := 16,
                            u_dent := (u_dent x)\<lparr>d_ino := 0\<rparr>\<rparr>) w)) (\<lambda>_ w.
           Ok () (upd_inode ip (\<lambda>i. i\<lparr>i_nlink := s16 (i_nlink i - 1), i_flag := i_flag i \<union> {ICHG}\<rparr>) w)))"

definition unlink :: "world \<Rightarrow> (unit, world) res" where
  "unlink w =
     bnd (namei True 2 w) (\<lambda>opp w.
       (case opp of
          None \<Rightarrow> Ok () w
        | Some pp \<Rightarrow>
            bnd (if i_number (inode w pp) = d_ino (u_dent (u w))
                 then Ok (Some pp) (upd_inode pp (\<lambda>i. i\<lparr>i_count := u8 (i_count i + 1)\<rparr>) w)
                 else iget (i_dev (inode w pp)) (d_ino (u_dent (u w))) w) (\<lambda>oip w.
              (case oip of
                 None \<Rightarrow> iput pp w
               | Some ip \<Rightarrow>
                   bnd (case (if i_mode (inode w ip) AND IFMT = IFDIR then suser w else (True, w)) of
                          (False, w) \<Rightarrow> Ok () w
                        | (True, w) \<Rightarrow>
                            if i_dev (inode w ip) \<noteq> i_dev (inode w pp) then Ok () (set_error EBUSY w)
                            else unlink_entry pp ip w) (\<lambda>_ w.
                   bnd (iput ip w) (\<lambda>_ w. iput pp w))))))"

definition mknod :: "world \<Rightarrow> (unit, world) res" where
  "mknod w =
     (case suser w of
        (False, w) \<Rightarrow> Ok () w
      | (True, w) \<Rightarrow>
          bnd (namei True 1 w) (\<lambda>oip w.
            (case oip of
               Some ip \<Rightarrow> iput ip (set_error EEXIST w)
             | None \<Rightarrow>
                 if u_error (u w) \<noteq> 0 then Ok () w
                 else
                   bnd (maknode (arg 1 w) w) (\<lambda>oip w.
                     (case oip of
                        None \<Rightarrow> Ok () w
                      | Some ip \<Rightarrow> iput ip (upd_inode ip (\<lambda>i. i\<lparr>i_addr := (i_addr i)(0 := s16 (arg 2 w))\<rparr>) w))))))"

definition saccess :: "world \<Rightarrow> (unit, world) res" where
  "saccess w =
     (let svuid = u_uid (u w); svgid = u_gid (u w);
          w = upd_u (\<lambda>x. x\<lparr>u_uid := u_ruid x, u_gid := u_rgid x\<rparr>) w
      in bnd (namei True 0 w) (\<lambda>oip w.
         bnd (case oip of
                None \<Rightarrow> Ok () w
              | Some ip \<Rightarrow>
                  bnd (if arg 1 w AND 4 \<noteq> 0 then access ip IREAD w else Ok False w) (\<lambda>_ w.
                  bnd (if arg 1 w AND 2 \<noteq> 0 then access ip IWRITE w else Ok False w) (\<lambda>_ w.
                  bnd (if arg 1 w AND 1 \<noteq> 0 then access ip IEXEC w else Ok False w) (\<lambda>_ w. iput ip w)))) (\<lambda>_ w.
           Ok () (upd_u (\<lambda>x. x\<lparr>u_uid := svuid, u_gid := svgid\<rparr>) w))))"

text \<open>\<open>chdirec\<close> with the address of \<open>u_rdir\<close> or of \<open>u_cdir\<close>.\<close>

definition chdirec :: "bool \<Rightarrow> world \<Rightarrow> (unit, world) res" where
  "chdirec root w =
     bnd (namei True 0 w) (\<lambda>oip w.
       (case oip of
          None \<Rightarrow> Ok () w
        | Some ip \<Rightarrow>
            if i_mode (inode w ip) AND IFMT \<noteq> IFDIR then iput ip (set_error ENOTDIR w)
            else
              bnd (access ip IEXEC w) (\<lambda>no w.
                if no then iput ip w
                else
                  bnd (prele ip w) (\<lambda>_ w.
                  bnd (case (if root then u_rdir (u w) else Some (u_cdir (u w))) of
                         None \<Rightarrow> Ok () w
                       | Some old \<Rightarrow> bnd (plock old w) (\<lambda>_ w. iput old w)) (\<lambda>_ w.
                    Ok () (upd_u (\<lambda>x. if root then x\<lparr>u_rdir := Some ip\<rparr> else x\<lparr>u_cdir := ip\<rparr>) w))))))"

definition chdir :: "world \<Rightarrow> (unit, world) res" where
  "chdir w = chdirec False w"

definition chroot :: "world \<Rightarrow> (unit, world) res" where
  "chroot w = (case suser w of (False, w) \<Rightarrow> Ok () w | (True, w) \<Rightarrow> chdirec True w)"

definition chmod :: "world \<Rightarrow> (unit, world) res" where
  "chmod w =
     bnd (owner w) (\<lambda>oip w.
       (case oip of
          None \<Rightarrow> Ok () w
        | Some ip \<Rightarrow>
            (let w = upd_inode ip (\<lambda>i. i\<lparr>i_mode := i_mode i AND NOT 4095\<rparr>) w;
                 w = (if u_uid (u w) \<noteq> 0 then upd_u (\<lambda>x. x\<lparr>u_arg := (u_arg x)(1 := u_arg x 1 AND NOT ISVTX)\<rparr>) w else w);
                 w = upd_inode ip (\<lambda>i. i\<lparr>i_mode := i_mode i OR (arg 1 w AND 4095), i_flag := i_flag i \<union> {ICHG}\<rparr>) w
             in bnd (if ITEXT \<in> iflag_of w ip \<and> i_mode (inode w ip) AND ISVTX = 0 then xrele ip w else Ok () w)
                  (\<lambda>_ w. iput ip w))))"

definition chown :: "world \<Rightarrow> (unit, world) res" where
  "chown w =
     (case suser w of
        (False, w) \<Rightarrow> Ok () w
      | (True, w) \<Rightarrow>
          bnd (owner w) (\<lambda>oip w.
            (case oip of
               None \<Rightarrow> Ok () w
             | Some ip \<Rightarrow>
                 iput ip (upd_inode ip (\<lambda>i. i\<lparr>i_uid := s16 (arg 1 w), i_gid := s16 (arg 2 w), i_flag := i_flag i \<union> {ICHG}\<rparr>) w))))"

definition utime :: "world \<Rightarrow> (unit, world) res" where
  "utime w =
     bnd (owner w) (\<lambda>oip w.
       (case oip of
          None \<Rightarrow> Ok () w
        | Some ip \<Rightarrow>
            bnd (fuword (u32 (arg 1 w)) w) (\<lambda>ta w.
            bnd (fuword (u32 (arg 1 w + 4)) w) (\<lambda>tm w.
            bnd (iupdat ip (\<lambda>_. ta) (\<lambda>_. tm) (set_iflags ip (iflag_of w ip \<union> {IACC, IUPD, ICHG}) w)) (\<lambda>_ w. iput ip w)))))"

section \<open>Status\<close>

text \<open>\<open>struct stat\<close>; \<open>pad\<close> are the two bytes of padding behind \<open>st_rdev\<close>, which the code does not set.\<close>

definition stat_bytes :: "inode \<Rightarrow> int \<Rightarrow> int list \<Rightarrow> (nat \<Rightarrow> int) \<Rightarrow> nat \<Rightarrow> int list" where
  "stat_bytes r pipeadj pad m dp =
     concat (map bytes16 [i_dev r, i_number r, i_mode r, i_nlink r, i_uid r, i_gid r, s16 (i_addr r 0)]) @ pad
     @ concat (map bytes32 [s32 (i_size r - pipeadj), get32 m (dp + 52), get32 m (dp + 56), get32 m (dp + 60)])"

definition stat1 :: "nat \<Rightarrow> int \<Rightarrow> int \<Rightarrow> world \<Rightarrow> (unit, world) res" where
  "stat1 ip ub pipeadj w =
     bnd (iupdat ip time time w) (\<lambda>_ w.
       (let r = inode w ip in
        bnd (bread (i_dev r) (itod (i_number r)) w) (\<lambda>bp w.
          (let ds = stat_bytes r pipeadj [junk w 0, junk w 1] (b_data (buf w bp)) (64 * itoo (i_number (inode w ip))) in
           bnd (brelse bp w) (\<lambda>_ w.
           bnd (to_user 0 ds ub w) (\<lambda>t w. Ok () (if t < 0 then set_error EFAULT w else w)))))))"

definition fstat :: "world \<Rightarrow> (unit, world) res" where
  "fstat w =
     (case getf (arg 0 w) w of
        (None, w) \<Rightarrow> Ok () w
      | (Some fp, w) \<Rightarrow>
          (let f = file_t w fp in stat1 (f_inode f) (u32 (arg 1 w)) (if FPIPE \<in> f_flag f then f_offset f else 0) w))"

definition stat :: "world \<Rightarrow> (unit, world) res" where
  "stat w =
     bnd (namei True 0 w) (\<lambda>oip w.
       (case oip of
          None \<Rightarrow> Ok () w
        | Some ip \<Rightarrow> bnd (stat1 ip (u32 (arg 1 w)) 0 w) (\<lambda>_ w. iput ip w)))"

section \<open>Mounting\<close>

definition getmdev :: "world \<Rightarrow> (int, world) res" where
  "getmdev w =
     bnd (namei True 0 w) (\<lambda>oip w.
       (case oip of
          None \<Rightarrow> Ok NODEV w
        | Some ip \<Rightarrow>
            (let w = (if i_mode (inode w ip) AND IFMT \<noteq> IFBLK then set_error ENOTBLK w else w);
                 dev = s16 (i_addr (inode w ip) 0);
                 w = (if major dev \<ge> nblkdev w then set_error ENXIO w else w)
             in bnd (iput ip w) (\<lambda>_ w. Ok dev w))))"

definition smount_on :: "int \<Rightarrow> nat \<Rightarrow> nat \<Rightarrow> world \<Rightarrow> (unit, world) res" where
  "smount_on dev ip mp w =
     bnd (bread dev SUPERB w) (\<lambda>bp w.
       if u_error (u w) \<noteq> 0 then bnd (brelse bp w) (\<lambda>_ w. iput ip w)
       else
         bnd (geteblk (w\<lparr>mount := (mount w)(mp := (mount w mp)\<lparr>m_inodp := Some ip, m_dev := dev\<rparr>)\<rparr>)) (\<lambda>mb w.
           (let data = bcopy (b_data (buf w bp)) 0 (b_data (buf w mb)) 0 512;
                w = upd_buf mb (\<lambda>b. b\<lparr>b_data := data\<rparr>) w;
                f = (fs_get data)\<lparr>s_ilock := 0, s_flock := 0, s_ronly := arg 2 w AND 1\<rparr>;
                w = w\<lparr>mount := (mount w)(mp := (mount w mp)\<lparr>m_bufp := Some mb, m_fs := f\<rparr>)\<rparr>
            in bnd (brelse bp w) (\<lambda>_ w. prele ip (set_iflags ip (iflag_of w ip \<union> {IMOUNT}) w)))))"

definition smount :: "world \<Rightarrow> (unit, world) res" where
  "smount w =
     bnd (getmdev w) (\<lambda>dev w.
       if u_error (u w) \<noteq> 0 then Ok () w
       else
         bnd (namei True 0 (upd_u (\<lambda>x. x\<lparr>u_dirp := u32 (u_arg x 1)\<rparr>) w)) (\<lambda>oip w.
           (case oip of
              None \<Rightarrow> Ok () w
            | Some ip \<Rightarrow>
                if i_count (inode w ip) \<noteq> 1 \<or> i_mode (inode w ip) AND 0x2000 \<noteq> 0
                   \<or> list_ex (\<lambda>mp. m_bufp (mount w mp) \<noteq> None \<and> m_dev (mount w mp) = dev) [0..<NMOUNT]
                then iput ip (set_error EBUSY w)
                else
                  (case find (\<lambda>mp. m_bufp (mount w mp) = None) [0..<NMOUNT] of
                     None \<Rightarrow> iput ip (set_error EBUSY w)
                   | Some mp \<Rightarrow>
                       (let w = on_kst (bd_open w (major dev) dev (if arg 2 w = 0 then 1 else 0)) w in
                        if u_error (u w) \<noteq> 0 then iput ip (set_error EBUSY w) else smount_on dev ip mp w)))))"

definition sumount :: "world \<Rightarrow> (unit, world) res" where
  "sumount w =
     bnd (getmdev w) (\<lambda>dev w.
       if u_error (u w) \<noteq> 0 then Ok () w
       else
         bnd (xumount dev w) (\<lambda>_ w.
         bnd (update w) (\<lambda>_ w.
           (case find (\<lambda>mp. m_bufp (mount w mp) \<noteq> None \<and> dev = m_dev (mount w mp)) [0..<NMOUNT] of
              None \<Rightarrow> Ok () (set_error EINVAL w)
            | Some mp \<Rightarrow>
                if list_ex (\<lambda>ip. i_number (inode w ip) \<noteq> 0 \<and> dev = i_dev (inode w ip)) [0..<NINODE]
                then Ok () (set_error EBUSY w)
                else
                  (let w = on_kst (bd_close w (major dev) dev {}) w in
                   case (m_inodp (mount w mp), m_bufp (mount w mp)) of
                     (Some ip, Some bp) \<Rightarrow>
                       bnd (plock ip (set_iflags ip (iflag_of w ip - {IMOUNT}) w)) (\<lambda>_ w.
                       bnd (iput ip w) (\<lambda>_ w.
                         brelse bp (w\<lparr>mount := (mount w)(mp := (mount w mp)\<lparr>m_bufp := None\<rparr>)\<rparr>)))
                   | _ \<Rightarrow> Stuck w)))))"

section \<open>Accounting\<close>

text \<open>The loop of \<open>compress\<close>: exponent, value and the last bit shifted out of the fraction.\<close>

function compress_loop :: "int \<Rightarrow> int \<Rightarrow> int \<Rightarrow> int \<times> int \<times> int" where
  "compress_loop t e r = (if t \<ge> 8192 then compress_loop (drop_bit 3 t) (u16 (e + 1)) (t AND 4) else (t, e, r))"
  by auto

termination
  by (relation "measure (\<lambda>(t, _). nat t)") (auto simp: drop_bit_eq_div)

declare compress_loop.simps [simp del]

definition compress :: "int \<Rightarrow> int" where
  "compress t =
     (case compress_loop t 0 0 of
        (t, e, r) \<Rightarrow>
          (let (t, e) = (if r \<noteq> 0 then (if t + 1 \<ge> 8192 then (drop_bit 3 (t + 1), u16 (e + 1)) else (t + 1, e)) else (t, e))
           in u16 (push_bit 13 e + t)))"

text \<open>\<open>struct acct\<close>: the name at 0, three times at 10, 12, 14, the start at 16, then two-byte fields.\<close>

definition acct_bytes :: "int \<Rightarrow> user \<Rightarrow> int list" where
  "acct_bytes now x =
     map (\<lambda>i. u_comm x ! i) [0..<10]
     @ concat (map bytes16 [compress (u_utime x), compress (u_stime x), compress (s32 (now - u_start x))])
     @ bytes32 (u_start x) @ concat (map bytes16 [u_ruid x, u_rgid x, 0, 0, u_ttyd x])
     @ [(if AFORK \<in> u_acflag x then 1 else 0) + (if ASU \<in> u_acflag x then 2 else 0)]"

definition acct :: "world \<Rightarrow> (unit, world) res" where
  "acct w =
     (case acctp w of
        None \<Rightarrow> Ok () w
      | Some ip \<Rightarrow>
          bnd (plock ip w) (\<lambda>_ w.
            (let base = addr_of w Ch_acctbuf;
                 w = fold (\<lambda>(i, c) w. kput (base + int i) c w) (enumerate 0 (acct_bytes (time w) (u w))) w;
                 siz = i_size (inode w ip);
                 w = upd_u (\<lambda>x. x\<lparr>u_offset := siz, u_base := base, u_count := 32, u_segflg := 1, u_error := 0\<rparr>) w
             in bnd (writei ip w) (\<lambda>_ w.
                  prele ip (if u_error (u w) \<noteq> 0 then upd_inode ip (\<lambda>i. i\<lparr>i_size := siz\<rparr>) w else w)))))"

definition sysacct :: "world \<Rightarrow> (unit, world) res" where
  "sysacct w =
     (case suser w of
        (False, w) \<Rightarrow> Ok () w
      | (True, w) \<Rightarrow>
          if arg 0 w = 0 then
            (case acctp w of
               None \<Rightarrow> Ok () w
             | Some ip \<Rightarrow> bnd (plock ip w) (\<lambda>_ w. bnd (iput ip w) (\<lambda>_ w. Ok () (w\<lparr>acctp := None\<rparr>))))
          else if acctp w \<noteq> None then Ok () (set_error EBUSY w)
          else
            bnd (namei True 0 w) (\<lambda>oip w.
              (case oip of
                 None \<Rightarrow> Ok () w
               | Some ip \<Rightarrow>
                   if i_mode (inode w ip) AND IFMT \<noteq> IFREG then iput ip (set_error EACCES w)
                   else prele ip (w\<lparr>acctp := Some ip\<rparr>))))"

definition syslock :: "world \<Rightarrow> (unit, world) res" where
  "syslock w =
     (case suser w of
        (False, w) \<Rightarrow> Ok () w
      | (True, w) \<Rightarrow>
          Ok () (set_pflags (u_procp (u w)) {SULOCK} (if arg 0 w \<noteq> 0 then {SULOCK} else {}) w))"

section \<open>Compressed times\<close>

lemma compress_loop_digits:
  assumes "0 \<le> t0" "t0 < 2147483648"
  shows "n \<le> 6 \<Longrightarrow> \<exists>m. compress_loop (t0 div 8 ^ n) (int n) r
      = (t0 div 8 ^ m, int m, if m = n then r else t0 div 8 ^ (m - 1) AND 4)
    \<and> n \<le> m \<and> m \<le> 6 \<and> t0 div 8 ^ m < 8192"
proof (induction "6 - n" arbitrary: n r)
  case 0
  then have "n = 6" by simp
  moreover have "t0 div 8 ^ 6 < 8192" using assms by simp
  ultimately show ?case by (intro exI [of _ 6]) (simp add: compress_loop.simps)
next
  case (Suc k)
  show ?case
  proof (cases "t0 div 8 ^ n < 8192")
    case True
    then show ?thesis using Suc.prems by (intro exI [of _ n]) (simp add: compress_loop.simps)
  next
    case False
    have "t0 div 8 ^ Suc n = t0 div 8 ^ n div 8" using zdiv_zmult2_eq [of 8 t0 "8 ^ n"] by (simp add: mult.commute)
    then have s: "compress_loop (t0 div 8 ^ n) (int n) r = compress_loop (t0 div 8 ^ Suc n) (int (Suc n)) (t0 div 8 ^ n AND 4)"
      using False Suc.prems by (subst compress_loop.simps) (simp add: drop_bit_eq_div u16_id add.commute)
    have "k = 6 - Suc n" "Suc n \<le> 6" using Suc.hyps(2) by simp_all
    from Suc.hyps(1) [OF this, of "t0 div 8 ^ n AND 4"] obtain m where m:
      "compress_loop (t0 div 8 ^ Suc n) (int (Suc n)) (t0 div 8 ^ n AND 4)
        = (t0 div 8 ^ m, int m, if m = Suc n then t0 div 8 ^ n AND 4 else t0 div 8 ^ (m - 1) AND 4)"
      "Suc n \<le> m" "m \<le> 6" "t0 div 8 ^ m < 8192" by blast
    then show ?thesis unfolding s by (intro exI [of _ m]) auto
  qed
qed

text \<open>The value a compressed time stands for: thirteen bits of fraction, an exponent to base 8.\<close>

definition expand_comp :: "int \<Rightarrow> int" where
  "expand_comp c = (c mod 8192) * 8 ^ nat (c div 8192)"

lemma expand_comp: "0 \<le> f \<Longrightarrow> f < 8192 \<Longrightarrow> expand_comp (8192 * int e + f) = f * 8 ^ e"
  by (simp add: expand_comp_def)

lemma round_digit:
  fixes t :: int
  assumes "0 < m"
  shows "(t div 8 ^ (m - 1) AND 4 \<noteq> 0) = (4 * 8 ^ (m - 1) \<le> t mod 8 ^ m)"
proof -
  define p where "p = t div 8 ^ (m - 1)"
  define x :: int where "x = 8 ^ (m - 1)"
  have x: "0 < x" "8 ^ m = x * 8" using assms by (simp add: x_def, cases m, simp_all add: x_def)
  have t: "t mod 8 ^ m = x * (p mod 8) + t mod x"
    unfolding x(2) p_def x_def [symmetric] using zmod_zmult2_eq [of 8 t x] by simp
  have lo: "0 \<le> t mod x" "t mod x < x" using x(1) by simp_all
  have "(p AND 4 \<noteq> 0) = bit p 2"
    using and_exp_eq_0_iff_not_bit [of p 2] by simp
  also have "\<dots> = (4 \<le> p mod 8)"
  proof -
    have "odd (p div 4) = (4 \<le> p mod 8)" by presburger
    then show ?thesis by (simp add: bit_iff_odd)
  qed
  also have "\<dots> = (4 * x \<le> x * (p mod 8) + t mod x)"
  proof
    assume "4 \<le> p mod 8"
    then have "x * 4 \<le> x * (p mod 8)" using x(1) by (intro mult_left_mono) simp_all
    with lo(1) show "4 * x \<le> x * (p mod 8) + t mod x" by linarith
  next
    assume a: "4 * x \<le> x * (p mod 8) + t mod x"
    show "4 \<le> p mod 8"
    proof (rule ccontr)
      assume "\<not> 4 \<le> p mod 8"
      then have "x * (p mod 8) \<le> x * 3" using x(1) by (intro mult_left_mono) simp_all
      with a lo(2) show False by linarith
    qed
  qed
  finally have "(p AND 4 \<noteq> 0) = (4 * x \<le> t mod 8 ^ m)" unfolding t .
  then show ?thesis unfolding p_def x_def .
qed

lemma near:
  fixes h r :: int
  shows "h \<le> r \<Longrightarrow> r < 2 * h \<Longrightarrow> 2 * \<bar>2 * h - r\<bar> \<le> 2 * h" "0 \<le> r \<Longrightarrow> r < h \<Longrightarrow> 2 * \<bar>- r\<bar> \<le> 2 * h"
  by arith+

text \<open>The digits dropped round up: a number of them, and more than half of their range.\<close>

definition rounds_up :: "int \<Rightarrow> nat \<Rightarrow> bool" where
  "rounds_up t m \<longleftrightarrow> m \<noteq> 0 \<and> 4 * 8 ^ (m - 1) \<le> t mod 8 ^ m"

lemma compress_form:
  assumes "0 \<le> t" "t < 2147483648"
  obtains m q where "m \<le> 6" "q = t div 8 ^ m" "0 \<le> q" "q < 8192" "m \<noteq> 0 \<longleftrightarrow> 8192 \<le> t"
    "compress t = (if rounds_up t m then (if q + 1 \<ge> 8192 then 8192 * int (Suc m) + 1024 else 8192 * int m + (q + 1))
       else 8192 * int m + q)"
proof -
  obtain m where m: "compress_loop t 0 0 = (t div 8 ^ m, int m, if m = 0 then 0 else t div 8 ^ (m - 1) AND 4)"
    "m \<le> 6" "t div 8 ^ m < 8192"
    using compress_loop_digits [OF assms, of 0 0] by auto
  define q where "q = t div 8 ^ m"
  have q: "0 \<le> q" "q < 8192" using m(3) assms(1) by (simp_all add: q_def pos_imp_zdiv_nonneg_iff)
  have r: "((if m = 0 then 0 else t div 8 ^ (m - 1) AND 4) \<noteq> 0) = rounds_up t m"
    using round_digit [of m t] by (simp add: rounds_up_def)
  have "drop_bit 3 (q + 1) = 1024" if "q + 1 \<ge> 8192"
    using that q by (simp add: drop_bit_eq_div)
  moreover have "u16 (int m + 1) = int (Suc m)" using m(2) by (simp add: u16_id)
  ultimately have "compress t = (if rounds_up t m then (if q + 1 \<ge> 8192 then 8192 * int (Suc m) + 1024 else 8192 * int m + (q + 1))
       else 8192 * int m + q)"
    using q m(2) r by (simp add: compress_def m(1) q_def [symmetric] push_bit_eq_mult u16_id Let_def)
  moreover have "m \<noteq> 0 \<longleftrightarrow> 8192 \<le> t"
  proof (cases "t < 8192")
    case True
    then have "compress_loop t 0 0 = (t, 0, 0)" by (simp add: compress_loop.simps)
    with m(1) True show ?thesis by simp
  qed (use m(3) in \<open>cases m; simp\<close>)
  ultimately show ?thesis using that q m(2) q_def by blast
qed

text \<open>
  Claim C29. A time in the accounting record is never off by more than half a unit of its last digit, is
  exact below 8192 ticks, and always fits the sixteen bits of the field.
\<close>

theorem compress_nearest:
  assumes "0 \<le> t" "t < 2147483648"
  shows "0 \<le> compress t \<and> compress t < 65536 \<and> 2 * \<bar>expand_comp (compress t) - t\<bar> \<le> 8 ^ nat (compress t div 8192)
    \<and> (t < 8192 \<longrightarrow> compress t = t)"
proof -
  obtain m q where m: "m \<le> 6" "m \<noteq> 0 \<longleftrightarrow> 8192 \<le> t" and qd: "q = t div 8 ^ m" and q: "0 \<le> q" "q < 8192"
    and c: "compress t = (if rounds_up t m then (if q + 1 \<ge> 8192 then 8192 * int (Suc m) + 1024 else 8192 * int m + (q + 1))
       else 8192 * int m + q)"
    using compress_form [OF assms] .
  define y :: int where "y = 8 ^ m"
  define h :: int where "h = 4 * 8 ^ (m - 1)"
  have t: "t = q * y + t mod y" "0 \<le> t mod y" "t mod y < y"
    unfolding qd y_def [symmetric] by (rule div_mult_mod_eq [symmetric]) (simp_all add: y_def)
  have half: "m \<noteq> 0 \<Longrightarrow> y = 2 * h" by (cases m) (simp_all add: y_def h_def)
  have off: "2 * \<bar>(if rounds_up t m then y - t mod y else - (t mod y))\<bar> \<le> y"
  proof (cases "m = 0")
    case False
    then have "rounds_up t m = (h \<le> t mod y)" by (simp add: rounds_up_def y_def h_def)
    with near [of h "t mod y"] half [OF False] t(2,3) show ?thesis by auto
  qed (simp add: rounds_up_def y_def)
  consider "rounds_up t m" "q = 8191" | "rounds_up t m" "q + 1 < 8192" | "\<not> rounds_up t m" using q(2) by linarith
  then show ?thesis
  proof cases
    case 1
    then have e: "compress t = 8192 * int (Suc m) + 1024" using c by simp
    have "expand_comp (compress t) = 1024 * 8 ^ Suc m" unfolding e by (rule expand_comp) simp_all
    then have "expand_comp (compress t) - t = y - t mod y" using 1(2) t(1) by (simp add: y_def [symmetric])
    moreover have "nat (compress t div 8192) = Suc m" unfolding e by simp
    moreover have "2 * \<bar>y - t mod y\<bar> \<le> 8 ^ Suc m" using t(2,3) by (simp add: y_def [symmetric])
    ultimately show ?thesis using e m 1(1) by (simp add: rounds_up_def)
  next
    case 2
    then have e: "compress t = 8192 * int m + (q + 1)" using c by simp
    have "expand_comp (compress t) = (q + 1) * y" unfolding e y_def using 2 q by (intro expand_comp) simp_all
    then have "expand_comp (compress t) - t = y - t mod y" using t(1) by (simp add: algebra_simps)
    moreover have "nat (compress t div 8192) = m" unfolding e using q 2 by simp
    ultimately show ?thesis using off e q 2 m by (simp add: y_def rounds_up_def)
  next
    case 3
    then have e: "compress t = 8192 * int m + q" using c by simp
    have "expand_comp (compress t) = q * y" unfolding e y_def using q by (intro expand_comp) simp_all
    then have "expand_comp (compress t) - t = - (t mod y)" using t(1) by (simp add: algebra_simps)
    moreover have "nat (compress t div 8192) = m" unfolding e using q by simp
    moreover have "t < 8192 \<longrightarrow> compress t = t" using e m(2) qd by auto
    ultimately show ?thesis using off e q 3 m(1) by (simp add: y_def)
  qed
qed

theorem compress_nearest_witness: "2 * \<bar>expand_comp (compress 100000) - 100000\<bar> \<le> 64 \<and> compress 8000 = 8000"
proof -
  have "compress_loop 100000 0 0 = (1562, 2, 4)"
    by (simp add: compress_loop.simps drop_bit_eq_div u16_def)
  then have "compress 100000 div 8192 = 2" by (simp add: compress_def u16_def push_bit_eq_mult)
  with compress_nearest [of 100000] compress_nearest [of 8000] show ?thesis by simp
qed

section \<open>Long transfers\<close>

lemma plock_free: "ILOCK \<notin> iflag_of w ip \<Longrightarrow> plock ip w = Ok () (set_iflags ip (iflag_of w ip \<union> {ILOCK}) w)"
  by (simp add: plock_def)

lemma prele_quiet:
  "IWANT \<notin> iflag_of s ip \<Longrightarrow> prele ip s = Ok () (set_iflags ip (iflag_of s ip - {ILOCK}) s)"
  by (simp add: prele_def Let_def)

lemma upd_u_parts [simp]:
  "u (upd_u f s) = f (u s)" "inode (upd_u f s) = inode s" "file_t (upd_u f s) = file_t s" "core (upd_u f s) = core s"
  by (simp_all add: upd_u_def)

lemma upd_file_parts [simp]:
  "u (upd_file fp f s) = u s" "inode (upd_file fp f s) = inode s" "core (upd_file fp f s) = core s"
  "file_t (upd_file fp f s) = (file_t s)(fp := f (file_t s fp))"
  by (simp_all add: upd_file_def)

text \<open>
  The count of a transfer is kept in sixteen bits but the result is computed from all of it:
  reading or writing 65536 bytes of an ordinary file moves nothing, reports 65536 bytes moved, and
  moves the file offset by 65536.
\<close>

theorem rdwr_64K_moves_nothing:
  assumes "0 \<le> arg 0 w" "arg 0 w < int NOFILE" "u_ofile (u w) (nat (arg 0 w)) = Some fp" "arg 2 w = 65536"
    "mode \<in> f_flag (file_t w fp)" "FPIPE \<notin> f_flag (file_t w fp)" "i_mode (inode w (f_inode (file_t w fp))) = 0x81B6"
    "iflag_of w (f_inode (file_t w fp)) = {}" "0 \<le> f_offset (file_t w fp)" "f_offset (file_t w fp) < 2000000000"
  shows "\<exists>w'. rdwr mode w = Ok () w' \<and> u_r_val1 (u w') = 65536 \<and> u_error (u w') = u_error (u w) \<and> core w' = core w
    \<and> f_offset (file_t w' fp) = f_offset (file_t w fp) + 65536"
proof -
  let ?ip = "f_inode (file_t w fp)"
  define w1 where "w1 = upd_u (\<lambda>x. x\<lparr>u_offset := f_offset (file_t w fp)\<rparr>)
    (upd_u (\<lambda>x. x\<lparr>u_base := u32 (arg (Suc 0) w), u_count := 0, u_segflg := 0\<rparr>) w)"
  define w2 where "w2 = set_iflags ?ip {ILOCK} w1"
  have m0: "i_mode (inode w ?ip) AND 0x2000 = 0" using assms(7) by simp
  have m: "i_mode (inode w1 ?ip) AND 0x2000 = 0" "i_mode (inode w2 ?ip) AND 0x2000 = 0" "i_mode (inode w2 ?ip) AND IFMT = IFREG"
    using assms(7) by (simp_all add: w1_def w2_def set_iflags_def upd_inode_def)
  have f1: "iflag_of w1 ?ip = {}" "file_t w1 = file_t w" using assms(8) by (simp_all add: w1_def)
  have "plock ?ip w1 = Ok () w2" using plock_free [of w1 ?ip] by (simp add: f1 w2_def)
  moreover have "(if mode = FREAD then readi ?ip w2 else writei ?ip w2) = Ok () w2"
    using assms(9) m(3) by (auto simp: readi_def writei_def w1_def w2_def Let_def)
  moreover have "prele ?ip w2 = Ok () (set_iflags ?ip {} w2)" using prele_quiet [of w2 ?ip] by (simp add: w2_def)
  moreover have "getf (arg 0 w) w = (Some fp, w)" using assms(1-3) by (simp add: getf_def)
  moreover have cnt: "u_count (u w2) = 0" by (simp add: w2_def w1_def)
  moreover have "u16 65536 = 0" "u32 65536 = 65536" by (simp_all add: u16_def u32_def)
  ultimately have "rdwr mode w = Ok () (upd_u (\<lambda>x. x\<lparr>u_r_val1 := s32 (65536 - u_count x)\<rparr>)
      (upd_file fp (\<lambda>f. f\<lparr>f_offset := s32 (f_offset f + 65536)\<rparr>) (set_iflags ?ip {} w2)))"
    using assms(4-6) m m0 f1(2) by (simp add: rdwr_def Let_def w1_def [symmetric] cnt)
  then show ?thesis
    using assms(9,10) cnt by (simp add: w1_def w2_def s32_id)
qed

theorem rdwr_64K_moves_nothing_witness:
  "\<exists>w'. rdwr FREAD (bss_world\<lparr>u := zero_user\<lparr>u_ofile := (\<lambda>_. Some 3), u_arg := (\<lambda>_. 0)(2 := 65536)\<rparr>,
       file_t := (\<lambda>_. zero_file_ent\<lparr>f_flag := {FREAD}\<rparr>), inode := (\<lambda>_. zero_inode\<lparr>i_mode := 0x81B6\<rparr>)\<rparr>) = Ok () w'
     \<and> u_r_val1 (u w') = 65536"
  using rdwr_64K_moves_nothing [of "bss_world\<lparr>u := zero_user\<lparr>u_ofile := (\<lambda>_. Some 3), u_arg := (\<lambda>_. 0)(2 := 65536)\<rparr>,
       file_t := (\<lambda>_. zero_file_ent\<lparr>f_flag := {FREAD}\<rparr>), inode := (\<lambda>_. zero_inode\<lparr>i_mode := 0x81B6\<rparr>)\<rparr>" 3 FREAD]
  by (auto simp: arg_def zero_file_ent_def zero_inode_def)

end
