(* ===== verification/Lifecycle.thy ===== *)
theory Lifecycle
  imports Filecalls
begin

text \<open>
  The life of a process (\<open>usr/sys/sys/sys1.c\<close>): fork, exec, exit and wait. A process that has exited does not
  return from \<open>swtch\<close>; the outcome is \<open>Blocked\<close> on channel 0. Floating point registers have no counterpart.
\<close>

section \<open>Exit and wait\<close>

fun close_all :: "nat list \<Rightarrow> world \<Rightarrow> (unit, world) res" where
  "close_all [] w = Ok () w"
| "close_all (i # is) w =
     (let f = u_ofile (u w) i in
      bnd (closef f (upd_u (\<lambda>x. x\<lparr>u_ofile := (u_ofile x)(i := None)\<rparr>) w)) (\<lambda>_ w. close_all is w))"

fun exit_orphans :: "nat list \<Rightarrow> nat \<Rightarrow> world \<Rightarrow> (unit, world) res" where
  "exit_orphans [] p w = Ok () w"
| "exit_orphans (q # qs) p w =
     (if p_ppid (proc w q) = p_pid (proc w p) then
        bnd (wakeup (addr_of w (Ch_proc 1)) w) (\<lambda>_ w.
          (let w = upd_proc q (\<lambda>r. r\<lparr>p_ppid := 1\<rparr>) w in
           bnd (if p_stat (proc w q) = SSTOP then setrun q w else Ok () w) (\<lambda>_ w. exit_orphans qs p w)))
      else exit_orphans qs p w)"

definition gone :: "world \<Rightarrow> ('a, world) res" where
  "gone w = Blocked 0 0 w"

definition exit :: "int \<Rightarrow> world \<Rightarrow> ('a, world) res" where
  "exit rv w =
     (let p = u_procp (u w);
          w = upd_proc p (\<lambda>r. r\<lparr>p_flag := p_flag r - {STRC, SULOCK}, p_clktim := 0\<rparr>) w
      in if p_pid (proc w p) = 1 then Panic ''init process died'' w
         else
           bnd (close_all [0..<NOFILE] (upd_u (\<lambda>x. x\<lparr>u_signal := (\<lambda>i. if int i < NSIG then 1 else u_signal x i)\<rparr>) w)) (\<lambda>_ w.
           bnd (plock (u_cdir (u w)) w) (\<lambda>_ w.
           bnd (iput (u_cdir (u w)) w) (\<lambda>_ w.
           bnd (case u_rdir (u w) of None \<Rightarrow> Ok () w | Some r \<Rightarrow> bnd (plock r w) (\<lambda>_ w. iput r w)) (\<lambda>_ w.
           bnd (xfree w) (\<lambda>_ w.
           bnd (acct w) (\<lambda>_ w.
           bnd (core_free (p_size (proc w p)) (p_addr (proc w p)) w) (\<lambda>_ w.
             (let w = upd_proc p (\<lambda>r. r\<lparr>p_stat := SZOMB\<rparr>) w;
                  w = w\<lparr>xproc := (xproc w)(p := \<lparr>xp_xstat = s16 rv, xp_utime = s32 (u_cutime (u w) + u_utime (u w)),
                                                xp_stime = s32 (u_cstime (u w) + u_stime (u w))\<rparr>)\<rparr>
              in bnd (exit_orphans [0..<NPROC] p w) (\<lambda>_ w.
                   (case find (\<lambda>q. p_ppid (proc w p) = p_pid (proc w q)) [0..<NPROC] of
                      None \<Rightarrow> gone w
                    | Some q \<Rightarrow> bnd (wakeup (addr_of w (Ch_proc q)) w) (\<lambda>_ w. gone w))))))))))))"

definition rexit :: "world \<Rightarrow> (unit, world) res" where
  "rexit w = exit (push_bit 8 (arg 0 w AND 255)) w"

text \<open>\<open>f\<close>: a child has been seen in this or an earlier pass.\<close>

fun wait_loop :: "nat \<Rightarrow> bool \<Rightarrow> world \<Rightarrow> (unit, world) res" where
  "wait_loop 0 f w = Stuck w"
| "wait_loop (Suc n) f w =
     (let me = u_procp (u w); child = (\<lambda>p. p_ppid (proc w p) = p_pid (proc w me)) in
      case find (\<lambda>p. child p \<and> (p_stat (proc w p) = SZOMB \<or> p_stat (proc w p) = SSTOP \<and> SWTED \<notin> p_flag (proc w p)))
             [0..<NPROC] of
        Some p \<Rightarrow>
          if p_stat (proc w p) = SZOMB then
            (let z = xproc w p;
                 w = upd_u (\<lambda>x. x\<lparr>u_r_val1 := p_pid (proc w p), u_r_val2 := xp_xstat z,
                       u_cutime := s32 (u_cutime x + xp_utime z), u_cstime := s32 (u_cstime x + xp_stime z)\<rparr>) w
             in Ok () (upd_proc p (\<lambda>r. r\<lparr>p_pid := 0, p_ppid := 0, p_pgrp := 0, p_sig := 0, p_flag := {}, p_wchan := 0,
                          p_stat := 0\<rparr>) w))
          else
            (let w = set_pflags p {} {SWTED} w in
             Ok () (upd_u (\<lambda>x. x\<lparr>u_r_val1 := p_pid (proc w p), u_r_val2 := push_bit 8 (fsig p w) OR 127\<rparr>) w))
      | None \<Rightarrow>
          if f \<or> list_ex child [0..<NPROC] then
            bnd (sleep (addr_of w (Ch_proc me)) PWAIT w) (\<lambda>_ w. wait_loop n True w)
          else Ok () (set_error ECHILD w))"

definition wait :: "world \<Rightarrow> (unit, world) res" where
  "wait w = wait_loop (Suc (length (env w))) False w"

section \<open>Fork\<close>

abbreviation (input) MAXMEM :: int where "MAXMEM \<equiv> 129"
abbreviation (input) MAXUPRC :: nat where "MAXUPRC \<equiv> 25"
abbreviation (input) reg_PC :: nat where "reg_PC \<equiv> 15"
abbreviation (input) reg_SP :: nat where "reg_SP \<equiv> 13"
abbreviation (input) reg_FP :: nat where "reg_FP \<equiv> 11"
abbreviation (input) reg_LR :: nat where "reg_LR \<equiv> 14"
abbreviation (input) reg_RPS :: nat where "reg_RPS \<equiv> 16"

definition set_reg :: "nat \<Rightarrow> int \<Rightarrow> 'z kst_scheme \<Rightarrow> 'z kst_scheme" where
  "set_reg r v s = upd_u (\<lambda>x. x\<lparr>u_ar0 := (u_ar0 x)(r := s32 v)\<rparr>) s"

definition fork_out :: "world \<Rightarrow> world" where
  "fork_out w = set_reg reg_PC (u_ar0 (u w) reg_PC + 4) w"

text \<open>The result in the parent; with a new process also its slot and \<open>u\<close> area.\<close>

definition fork :: "world \<Rightarrow> ((nat \<times> user) option, world) res" where
  "fork w =
     bnd (swap_alloc (ctod MAXMEM) w) (\<lambda>a w.
       if a = 0 then Ok None (fork_out (set_error ENOMEM w))
       else
         bnd (swap_free (ctod MAXMEM) a w) (\<lambda>_ w.
           (let mine = length (filter (\<lambda>p. p_uid (proc w p) = u_uid (u w) \<and> p_stat (proc w p) \<noteq> 0) [0..<NPROC]) in
            case find (\<lambda>p. p_stat (proc w p) = 0) [0..<NPROC] of
              None \<Rightarrow> Ok None (fork_out (set_error EAGAIN w))
            | Some p2 \<Rightarrow>
                if u_uid (u w) \<noteq> 0 \<and> (p2 = NPROC - 1 \<or> mine > MAXUPRC) then Ok None (fork_out (set_error EAGAIN w))
                else
                  bnd (newproc w) (\<lambda>child w.
                    Ok (Some child) (fork_out (upd_u (\<lambda>x. x\<lparr>u_r_val1 := p_pid (proc w p2)\<rparr>) w))))))"

text \<open>The same call as it ends in the child; \<open>p1\<close> is the parent.\<close>

definition fork_child :: "nat \<Rightarrow> user \<Rightarrow> world \<Rightarrow> (unit, world) res" where
  "fork_child p1 cu w =
     bnd (newproc_child cu w) (\<lambda>_ w.
       Ok () (upd_u (\<lambda>x. x\<lparr>u_r_val1 := p_pid (proc w p1), u_start := time w, u_cstime := 0, u_stime := 0, u_cutime := 0,
                u_utime := 0, u_acflag := {AFORK}\<rparr>) w))"

section \<open>Exec\<close>

fun close_on_exec :: "nat list \<Rightarrow> world \<Rightarrow> (unit, world) res" where
  "close_on_exec [] w = Ok () w"
| "close_on_exec (i # is) w =
     (if u_pofile (u w) i AND 1 \<noteq> 0 then
        bnd (closef (u_ofile (u w) i) w) (\<lambda>_ w.
          close_on_exec is (upd_u (\<lambda>x. x\<lparr>u_ofile := (u_ofile x)(i := None),
                                      u_pofile := (u_pofile x)(i := u_pofile x i AND NOT 1)\<rparr>) w))
      else close_on_exec is w)"

definition setregs :: "world \<Rightarrow> (unit, world) res" where
  "setregs w =
     (let w = upd_u (\<lambda>x. x\<lparr>u_signal := (\<lambda>i. if int i < NSIG \<and> u_signal x i AND 1 = 0 then 0 else u_signal x i),
                          u_ar0 := (\<lambda>r. if r < reg_SP then 0 else u_ar0 x r)\<rparr>) w;
          w = set_reg reg_LR 0 w;
          w = set_reg reg_PC (ux_entloc (u_exdata (u w)) AND NOT 1) w
      in bnd (close_on_exec [0..<NOFILE] w) (\<lambda>_ w.
           Ok () (upd_u (\<lambda>x. x\<lparr>u_acflag := u_acflag x - {AFORK}, u_comm := u_dbuf x\<rparr>) w)))"

text \<open>
  The kinds of executable, and what the header says: text size, data size, separation, overlay.
  \<open>None\<close> is an error, already noted. The two tests for overflow compare a number with itself,
  because \<open>long\<close> and \<open>unsigned\<close> have the same 32 bits here.
\<close>

definition check_header :: "nat \<Rightarrow> world \<Rightarrow> (int \<times> bool) option \<times> world" where
  "check_header ip w =
     (let x = u_exdata (u w); mag = ux_mag x AND 0xffff;
          w = (if mag = 0x107
               then upd_u (\<lambda>v. v\<lparr>u_exdata := x\<lparr>ux_dsize := u32 (ux_dsize x + ux_tsize x), ux_tsize := 0\<rparr>\<rparr>) w else w)
      in if mag \<notin> {0x107, 0x109, 0x105, 0x108} then (None, set_error ENOEXEC w)
         else if ux_tsize (u_exdata (u w)) \<noteq> 0 \<and> ITEXT \<notin> iflag_of w ip \<and> i_count (inode w ip) \<noteq> 1
         then (None, set_error ETXTBSY w)
         else (Some (if mag = 0x109 then 1 else 0, mag = 0x105), w))"

definition set_sizes :: "int \<Rightarrow> int \<Rightarrow> int \<Rightarrow> int \<Rightarrow> world \<Rightarrow> (unit, world) res" where
  "set_sizes ts ds ss sep w =
     bnd (estabur ts ds ss sep RO (upd_u (\<lambda>x. x\<lparr>u_tsize := ts, u_dsize := ds, u_ssize := ss, u_sep := sep\<rparr>) w))
       (\<lambda>_ w. Ok () w)"

definition set_ids :: "nat \<Rightarrow> world \<Rightarrow> (unit, world) res" where
  "set_ids ip w =
     (let p = u_procp (u w) in
      if STRC \<in> p_flag (proc w p) then psignal p 5 w
      else
        (let w = (if i_mode (inode w ip) AND ISUID \<noteq> 0 \<and> u_uid (u w) \<noteq> 0
                  then upd_proc p (\<lambda>r. r\<lparr>p_uid := i_uid (inode w ip)\<rparr>)
                         (upd_u (\<lambda>x. x\<lparr>u_uid := i_uid (inode w ip)\<rparr>) w) else w)
         in Ok () (if i_mode (inode w ip) AND ISGID \<noteq> 0 then upd_u (\<lambda>x. x\<lparr>u_gid := i_gid (inode w ip)\<rparr>) w else w)))"

definition load_image :: "nat \<Rightarrow> int \<Rightarrow> int \<Rightarrow> int \<Rightarrow> int \<Rightarrow> world \<Rightarrow> (bool, world) res" where
  "load_image ip ts ds ss sep w =
     bnd (estabur ts ds ss sep RO w) (\<lambda>r w.
       if r \<noteq> 0 then Ok False w
       else
         bnd (xfree (upd_u (\<lambda>x. x\<lparr>u_prof := (u_prof x)\<lparr>pr_scale := 0\<rparr>\<rparr>) w)) (\<lambda>_ w.
         bnd (expand (1 + ds + ss) w) (\<lambda>_ w.
         bnd (clear_down (nat (ds + ss)) (p_addr (proc w (u_procp (u w))) + 1 + ds + ss) w) (\<lambda>_ w.
         bnd (xalloc ip w) (\<lambda>_ w.
         bnd (estabur 0 ds 0 0 RO w) (\<lambda>_ w.
           (let x = u_exdata (u w);
                w = upd_u (\<lambda>v. v\<lparr>u_base := 0, u_offset := s32 (32 + ux_tsize x), u_count := u16 (ux_dsize x)\<rparr>) w
            in bnd (readi ip w) (\<lambda>_ w. bnd (set_ids ip w) (\<lambda>_ w. Ok True w)))))))))"

definition getxfile :: "nat \<Rightarrow> int \<Rightarrow> world \<Rightarrow> (bool, world) res" where
  "getxfile ip nargc w =
     bnd (readi ip (upd_u (\<lambda>x. x\<lparr>u_base := addr_of w Ch_exdata, u_count := 32, u_offset := 0, u_segflg := 1\<rparr>) w)) (\<lambda>_ w.
       (let w = upd_u (\<lambda>x. x\<lparr>u_segflg := 0\<rparr>) w in
        if u_error (u w) \<noteq> 0 then Ok False w
        else if u_count (u w) \<noteq> 0 then Ok False (set_error ENOEXEC w)
        else
          (case check_header ip w of
             (None, w) \<Rightarrow> Ok (ux_mag (u_exdata (u w)) AND 0xffff = 0x105) w
           | (Some (sep, overlay), w) \<Rightarrow>
               (let x = u_exdata (u w); ts = btoc (ux_tsize x); ds = btoc (ux_dsize x + ux_bsize x);
                    ss = u32 (1 + btoc nargc);
                    w = upd_u (\<lambda>v. v\<lparr>u_uisa := (u_uisa v)(3 := 0)\<rparr>) w
                in if overlay then
                     (if (u_sep (u w) = 0 \<and> ctos ts \<noteq> ctos (u_tsize (u w))) \<or> nargc \<noteq> 0
                      then Ok True (set_error ENOMEM w)
                      else
                        (let ds = u_dsize (u w); ss = u_ssize (u w); sep = u_sep (u w) in
                         bnd (xfree w) (\<lambda>_ w.
                         bnd (xalloc ip w) (\<lambda>_ w.
                         bnd (set_sizes ts ds ss sep (set_reg reg_PC (ux_entloc (u_exdata (u w)) AND NOT 1) w))
                           (\<lambda>_ w. Ok True w)))))
                   else
                     bnd (load_image ip ts ds ss sep w) (\<lambda>ok w.
                       if ok then bnd (set_sizes ts ds ss sep w) (\<lambda>_ w. Ok False w) else Ok False w)))))"

text \<open>
  The collection of arguments in the swap area. \<open>nc\<close> counts characters, \<open>bp\<close> is the buffer held
  and \<open>cp\<close> the place in it. An argument ends at its zero byte or with an error; \<open>NCARGS\<close> bounds
  both the characters and the number of strings.
\<close>

abbreviation (input) NCARGS :: nat where "NCARGS \<equiv> 5120"

fun arg_chars :: "nat \<Rightarrow> int \<Rightarrow> int \<Rightarrow> int \<times> nat option \<times> nat \<Rightarrow> world \<Rightarrow> (bool \<times> int \<times> nat option \<times> nat, world) res" where
  "arg_chars 0 bno ap st w = Stuck w"
| "arg_chars (Suc n) bno ap (nc, bp, cp) w =
     bnd (fubyte ap (if nc \<ge> int NCARGS - 1 then set_error E2BIG w else w)) (\<lambda>c w.
       (let w = (if c < 0 then set_error EFAULT w else w) in
        if u_error (u w) \<noteq> 0 then Ok (False, nc, bp, cp) w
        else
          bnd (if nc AND BMASK = 0 then
                 bnd (case bp of None \<Rightarrow> Ok () w | Some b \<Rightarrow> bawrite b w) (\<lambda>_ w.
                 bnd (getblk (swapdev w) (s32 (swplo w + bno + drop_bit 9 nc)) w) (\<lambda>b w. Ok (Some b, 0) w))
               else Ok (bp, cp) w) (\<lambda>(bp, cp) w.
            (let w = (case bp of None \<Rightarrow> w | Some b \<Rightarrow> upd_buf b (\<lambda>x. x\<lparr>b_data := (b_data x)(cp := u8 c)\<rparr>) w) in
             if c > 0 then arg_chars n bno (u32 (ap + 1)) (nc + 1, bp, cp + 1) w
             else Ok (True, nc + 1, bp, cp + 1) w))))"

fun arg_list :: "nat \<Rightarrow> int \<Rightarrow> int \<times> int \<Rightarrow> int \<times> nat option \<times> nat \<Rightarrow> world
    \<Rightarrow> (bool \<times> (int \<times> int) \<times> int \<times> nat option \<times> nat, world) res" where
  "arg_list 0 bno nane st w = Stuck w"
| "arg_list (Suc n) bno (na, ne) st w =
     bnd (if arg 1 w \<noteq> 0 then
            bnd (fuword (u32 (arg 1 w)) w) (\<lambda>ap w.
              Ok ap (upd_u (\<lambda>x. x\<lparr>u_arg := (u_arg x)(1 := s32 (u_arg x 1 + 4))\<rparr>) w))
          else Ok 0 w) (\<lambda>ap w.
     bnd (if ap = 0 \<and> arg 2 w \<noteq> 0 then
            bnd (fuword (u32 (arg 2 w)) (upd_u (\<lambda>x. x\<lparr>u_arg := (u_arg x)(1 := 0)\<rparr>) w)) (\<lambda>ap w.
              if ap = 0 then Ok (0, ne) w
              else Ok (ap, ne + 1) (upd_u (\<lambda>x. x\<lparr>u_arg := (u_arg x)(2 := s32 (u_arg x 2 + 4))\<rparr>) w))
          else Ok (ap, ne) w) (\<lambda>(ap, ne) w.
       if ap = 0 then Ok (True, (na, ne), st) w
       else
         bnd (arg_chars (NCARGS + 1) bno (u32 ap) st (if ap = -1 then set_error EFAULT w else w)) (\<lambda>(ok, st) w.
           if ok then arg_list n bno (na + 1, ne) st w else Ok (False, (na + 1, ne), st) w)))"

text \<open>The way back: each string is copied from the swap area to the new stack.\<close>

fun put_chars :: "nat \<Rightarrow> int \<Rightarrow> int \<Rightarrow> int \<times> nat option \<times> nat \<Rightarrow> world \<Rightarrow> (int \<times> int \<times> nat option \<times> nat, world) res" where
  "put_chars 0 bno ucp st w = Stuck w"
| "put_chars (Suc n) bno ucp (nc, bp, cp) w =
     bnd (if nc AND BMASK = 0 then
            bnd (brelse_opt bp w) (\<lambda>_ w.
            bnd (bread (swapdev w) (s32 (swplo w + bno + drop_bit 9 nc)) w) (\<lambda>b w. Ok (Some b, 0) w))
          else Ok (bp, cp) w) (\<lambda>(bp, cp) w.
       (let c = (case bp of None \<Rightarrow> 0 | Some b \<Rightarrow> b_data (buf w b) cp) in
        bnd (subyte ucp c w) (\<lambda>_ w.
          if c AND 255 \<noteq> 0 then put_chars n bno (ucp + 1) (nc + 1, bp, cp + 1) w
          else Ok (ucp + 1, nc + 1, bp, cp + 1) w)))"

fun put_args :: "nat \<Rightarrow> int \<Rightarrow> int \<times> int \<Rightarrow> int \<Rightarrow> int \<Rightarrow> int \<times> nat option \<times> nat \<Rightarrow> world
    \<Rightarrow> (int \<times> int \<times> nat option, world) res" where
  "put_args 0 bno nane ap ucp st w = Stuck w"
| "put_args (Suc n) bno (na, ne) ap ucp st w =
     (let ap = ap + 4 in
      bnd (if na = ne then bnd (suword ap 0 w) (\<lambda>_ w. Ok (ap + 4) w) else Ok ap w) (\<lambda>ap w.
        if na - 1 < 0 then Ok (ap, ucp, fst (snd st)) w
        else
          bnd (suword ap ucp w) (\<lambda>_ w.
          bnd (put_chars (NCARGS + 1) bno ucp st w) (\<lambda>(ucp, st) w. put_args n bno (na - 1, ne) ap ucp st w))))"

definition exec_bad :: "nat option \<Rightarrow> int \<Rightarrow> nat \<Rightarrow> world \<Rightarrow> (unit, world) res" where
  "exec_bad bp bno ip w =
     bnd (brelse_opt bp w) (\<lambda>_ w.
     bnd (if bno \<noteq> 0 then swap_free 10 bno w else Ok () w) (\<lambda>_ w. iput ip w))"

definition exece :: "world \<Rightarrow> (unit, world) res" where
  "exece w =
     bnd (namei True 0 w) (\<lambda>oip w.
       (case oip of
          None \<Rightarrow> Ok () w
        | Some ip \<Rightarrow>
            bnd (access ip IEXEC w) (\<lambda>no w.
              if no then exec_bad None 0 ip w
              else if i_mode (inode w ip) AND IFMT \<noteq> IFREG \<or> i_mode (inode w ip) AND 73 = 0
              then exec_bad None 0 ip (set_error EACCES w)
              else
                bnd (swap_alloc 10 w) (\<lambda>bno w.
                  if bno = 0 then Panic ''Out of swap'' w
                  else
                    bnd (if arg 1 w \<noteq> 0 then arg_list (NCARGS + 2) bno (0, 0) (0, None, 0) w
                         else Ok (True, (0, 0), 0, None, 0) w) (\<lambda>(ok, (na, ne), nc, bp, cp) w.
                      if \<not> ok then exec_bad bp bno ip w
                      else
                        bnd (case bp of None \<Rightarrow> Ok () w | Some b \<Rightarrow> bawrite b w) (\<lambda>_ w.
                          (let nc = (nc + 3) AND NOT 3 in
                           bnd (getxfile ip nc w) (\<lambda>ov w.
                             if ov \<or> u_error (u w) \<noteq> 0 then exec_bad None bno ip w
                             else
                               (let ucp = USERTOP - nc - 4; ap = (ucp - na * 4 - 12) AND NOT 7;
                                    w = set_reg reg_SP ap w
                                in bnd (suword ap (na - ne) w) (\<lambda>_ w.
                                   bnd (put_args (NCARGS + 2) bno (na, ne) ap ucp (0, None, 0) w) (\<lambda>(ap, ucp, bp) w.
                                   bnd (suword ap 0 w) (\<lambda>_ w.
                                   bnd (suword ucp 0 w) (\<lambda>_ w.
                                   bnd (setregs w) (\<lambda>_ w. exec_bad bp bno ip w))))))))))))))"

definition exec :: "world \<Rightarrow> (unit, world) res" where
  "exec w = exece (upd_u (\<lambda>x. x\<lparr>u_arg := (u_arg x)(2 := 0)\<rparr>) w)"

end
