(* ===== verification/Signals.thy ===== *)
theory Signals
  imports Lifecycle
begin

text \<open>
  The action of signals (\<open>usr/sys/sys/sig.c\<close>, \<open>sendsig\<close> of \<open>bcm283x_machdep.c\<close>): handlers, core
  images, and tracing with \<open>ptrace\<close>. The bytes of the \<open>u\<close> area that a debugger or a core image
  sees are those of \<open>kmem\<close> at the address of \<open>u\<close>.
\<close>

section \<open>Handlers and core images\<close>

definition sendsig :: "int \<Rightarrow> world \<Rightarrow> (unit, world) res" where
  "sendsig p w =
     (let n = u32 (u_ar0 (u w) reg_SP - 12) in
      bnd (grow n w) (\<lambda>_ w.
      bnd (suword (u32 (n + 8)) (u_ar0 (u w) reg_PC) w) (\<lambda>_ w.
      bnd (suword (u32 (n + 4)) (u_ar0 (u w) reg_FP) w) (\<lambda>_ w.
      bnd (suword n (u_ar0 (u w) reg_RPS) w) (\<lambda>_ w.
        Ok () (set_reg reg_PC p (set_reg reg_SP n (set_reg reg_FP n w))))))))"

definition core_write :: "nat \<Rightarrow> world \<Rightarrow> (unit, world) res" where
  "core_write ip w =
     bnd (itrunc ip w) (\<lambda>_ w.
     bnd (writei ip (upd_u (\<lambda>x. x\<lparr>u_offset := 0, u_base := addr_of w Ch_u, u_count := u16 (ctob 1), u_segflg := 1\<rparr>) w)) (\<lambda>_ w.
       (let s = u32 (p_size (proc w (u_procp (u w))) - 1) in
        bnd (estabur 0 s 0 0 RO w) (\<lambda>_ w.
          writei ip (upd_u (\<lambda>x. x\<lparr>u_base := 0, u_count := u16 (ctob s), u_segflg := 0\<rparr>) w)))))"

definition core_image :: "world \<Rightarrow> (bool, world) res" where
  "core_image w =
     bnd (namei False 1 (upd_u (\<lambda>x. x\<lparr>u_error := 0, u_dirp := addr_of w Ch_corename\<rparr>) w)) (\<lambda>oip w.
     bnd (case oip of
            Some ip \<Rightarrow> Ok (Some ip) w
          | None \<Rightarrow> if u_error (u w) \<noteq> 0 then Ok None w else maknode 438 w) (\<lambda>oip w.
       (case oip of
          None \<Rightarrow> Ok False w
        | Some ip \<Rightarrow>
            bnd (access ip IWRITE w) (\<lambda>no w.
            bnd (if \<not> no \<and> i_mode (inode w ip) AND IFMT = IFREG \<and> u_uid (u w) = u_ruid (u w)
                 then core_write ip w else Ok () w) (\<lambda>_ w.
            bnd (iput ip w) (\<lambda>_ w. Ok (u_error (u w) = 0) w))))))"

section \<open>Tracing\<close>

definition set_ipc :: "(ipc_s \<Rightarrow> ipc_s) \<Rightarrow> 'z kst_scheme \<Rightarrow> 'z kst_scheme" where
  "set_ipc f s = s\<lparr>ipc := f (ipc s)\<rparr>"

definition ipc_error :: "world \<Rightarrow> (bool, world) res" where
  "ipc_error w = Ok False (set_ipc (\<lambda>i. i\<lparr>ip_req := -1\<rparr>) w)"

text \<open>Writing a word of text: the segment must belong to this process alone.\<close>

definition write_text :: "world \<Rightarrow> (bool, world) res" where
  "write_text w =
     (let xp = p_textp (proc w (u_procp (u w)));
          bad = (case xp of
                   None \<Rightarrow> False
                 | Some xp \<Rightarrow>
                     x_count (text_t w xp) \<noteq> 1
                     \<or> (case x_iptr (text_t w xp) of None \<Rightarrow> True | Some ip \<Rightarrow> i_mode (inode w ip) AND ISVTX \<noteq> 0));
          a = u32 (ip_addr (ipc w)); est = (\<lambda>xrw w. estabur (u_tsize (u w)) (u_dsize (u w)) (u_ssize (u w)) (u_sep (u w)) xrw w)
      in if bad then ipc_error w
         else
           (let w = (case xp of
                       None \<Rightarrow> w
                     | Some xp \<Rightarrow>
                         (case x_iptr (text_t w xp) of
                            None \<Rightarrow> w | Some ip \<Rightarrow> set_iflags ip (iflag_of w ip - {ITEXT}) w))
            in bnd (est RW w) (\<lambda>_ w.
               bnd (suword a 0 w) (\<lambda>i w.
               bnd (suword a (ip_data (ipc w)) w) (\<lambda>_ w.
               bnd (est RO w) (\<lambda>_ w.
                 if i < 0 then ipc_error w
                 else Ok False (case xp of None \<Rightarrow> w | Some xp \<Rightarrow> set_xflags xp (xflag_of w xp \<union> {XWRIT}) w)))))))"

text \<open>Writing into the \<open>u\<close> area: the floating point registers, \<open>r0\<close> to \<open>r7\<close>, and the status word.\<close>

definition write_u :: "world \<Rightarrow> (bool, world) res" where
  "write_u w =
     (let p = addr_of w Ch_u + 2 * drop_bit 1 (ip_addr (ipc w)); ar0 = addr_of w Ch_ar0; fps = addr_of w Ch_fps in
      if fps \<le> p \<and> p < fps + 48 then
        Ok False (fold (\<lambda>k w. kput (p + int k) (byte_of k (ip_data (ipc w))) w) [0..<4] w)
      else
        (case find (\<lambda>i. p = ar0 + 4 * int i) [0..<8] of
           Some i \<Rightarrow> Ok False (set_reg i (ip_data (ipc w)) w)
         | None \<Rightarrow>
             if p = ar0 + 4 * int reg_RPS then
               (let w = set_ipc (\<lambda>i. i\<lparr>ip_data := (ip_data i OR 0xF000) AND NOT 224\<rparr>) w
                in Ok False (set_reg reg_RPS (ip_data (ipc w)) w))
             else ipc_error w))"

definition procxmt :: "world \<Rightarrow> (bool, world) res" where
  "procxmt w =
     (if ip_lock (ipc w) \<noteq> p_pid (proc w (u_procp (u w))) then Ok False w
      else
        (let i = ip_req (ipc w) in
         bnd (wakeup (addr_of w Ch_ipc) (set_ipc (\<lambda>i. i\<lparr>ip_req := 0\<rparr>) w)) (\<lambda>_ w.
           (let a = ip_addr (ipc w); me = u_procp (u w) in
            if i = 1 \<or> i = 2 then
              bnd (fubyte (u32 a) w) (\<lambda>c w.
                if c = -1 then ipc_error w
                else bnd (fuword (u32 a) w) (\<lambda>v w. Ok False (set_ipc (\<lambda>i. i\<lparr>ip_data := v\<rparr>) w)))
            else if i = 3 then
              (if a < 0 \<or> a \<ge> ctob 1 then ipc_error w
               else
                 (let b = addr_of w Ch_u + 2 * drop_bit 1 a
                  in Ok False (set_ipc (\<lambda>i. i\<lparr>ip_data := s16 (le16 (kget b w) (kget (b + 1) w))\<rparr>) w)))
            else if i = 4 then write_text w
            else if i = 5 then
              bnd (suword (u32 a) 0 w) (\<lambda>r w.
                if r < 0 then ipc_error w else bnd (suword (u32 a) (ip_data (ipc w)) w) (\<lambda>_ w. Ok False w))
            else if i = 6 then write_u w
            else if i = 7 \<or> i = 9 then
              (let w = (if i = 9 then set_reg reg_RPS (u_ar0 (u w) reg_RPS OR 16) w else w);
                   w = (if a \<noteq> 1 then set_reg reg_PC a w else w);
                   w = upd_proc me (\<lambda>r. r\<lparr>p_sig := 0\<rparr>) w
               in bnd (if ip_data (ipc w) \<noteq> 0 then psignal me (ip_data (ipc w)) w else Ok () w) (\<lambda>_ w. Ok True w))
            else if i = 8 then exit (fsig me w) w
            else ipc_error w))))"

fun stop_loop :: "nat \<Rightarrow> world \<Rightarrow> (unit, world) res" where
  "stop_loop 0 w = Stuck w"
| "stop_loop (Suc n) w =
     (let cp = u_procp (u w) in
      case (if p_ppid (proc w cp) \<noteq> 1 then find (\<lambda>pp. p_pid (proc w pp) = p_ppid (proc w cp)) [0..<NPROC] else None) of
        None \<Rightarrow> exit (fsig cp w) w
      | Some pp \<Rightarrow>
          bnd (wakeup (addr_of w (Ch_proc pp)) w) (\<lambda>_ w.
          bnd (swtch 0 0 (upd_proc cp (\<lambda>r. r\<lparr>p_stat := SSTOP\<rparr>) w)) (\<lambda>_ w.
            if STRC \<notin> p_flag (proc w cp) then Ok () w
            else bnd (procxmt w) (\<lambda>go w. if go then Ok () w else stop_loop n w))))"

definition stop :: "world \<Rightarrow> (unit, world) res" where
  "stop w = stop_loop (Suc (length (env w))) w"

definition psig :: "world \<Rightarrow> (unit, world) res" where
  "psig w =
     (let rp = u_procp (u w); w = upd_u (\<lambda>x. x\<lparr>u_fpsaved := (if u_fpsaved x = 0 then 1 else u_fpsaved x)\<rparr>) w in
      bnd (if STRC \<in> p_flag (proc w rp) then stop w else Ok () w) (\<lambda>_ w.
        (let n = fsig rp w in
         if n = 0 then Ok () w
         else
           (let w = upd_proc rp (\<lambda>r. r\<lparr>p_sig := s16 (p_sig r AND NOT (push_bit (nat (n - 1)) 1))\<rparr>) w;
                p = u_signal (u w) (nat n)
            in if p \<noteq> 0 then
                 sendsig p (upd_u (\<lambda>x. x\<lparr>u_error := 0,
                   u_signal := (if n \<noteq> 4 \<and> n \<noteq> 5 then (u_signal x)(nat n := 0) else u_signal x)\<rparr>) w)
               else if n \<in> {3, 4, 5, 6, 7, 8, 10, 11, 12} then
                 bnd (core_image w) (\<lambda>ok w. exit (if ok then n + 128 else n) w)
               else exit n w))))"

definition ptrace :: "world \<Rightarrow> (unit, world) res" where
  "ptrace w =
     (let me = u_procp (u w) in
      if arg 3 w \<le> 0 then Ok () (set_pflags me {} {STRC} w)
      else
        (case find (\<lambda>p. p_stat (proc w p) = SSTOP \<and> p_pid (proc w p) = arg 1 w
                       \<and> p_ppid (proc w p) = p_pid (proc w me)) [0..<NPROC] of
           None \<Rightarrow> Ok () (set_error ESRCH w)
         | Some p \<Rightarrow>
             bnd (await (\<lambda>w. ip_lock (ipc w) \<noteq> 0) id (addr_of w Ch_ipc) PZERO w) (\<lambda>_ w.
               (let w = set_ipc (\<lambda>i. i\<lparr>ip_lock := p_pid (proc w p), ip_data := arg 0 w, ip_addr := arg 2 w, ip_req := arg 3 w\<rparr>) w;
                    w = set_pflags p {SWTED} {} w
                in bnd (setrun p w) (\<lambda>_ w.
                   bnd (await (\<lambda>w. ip_req (ipc w) > 0) id (addr_of w Ch_ipc) PZERO w) (\<lambda>_ w.
                     (let w = upd_u (\<lambda>x. x\<lparr>u_r_val1 := ip_data (ipc w)\<rparr>) w;
                          w = (if ip_req (ipc w) < 0 then set_error EIO w else w)
                      in wakeup (addr_of w Ch_ipc) (set_ipc (\<lambda>i. i\<lparr>ip_lock := 0\<rparr>) w))))))))"

end
