(* ===== verification/Tty.thy ===== *)
theory Tty
  imports Sync Userio
begin

text \<open>
  Terminals (\<open>usr/sys/sys/tty.c\<close>, \<open>partab.c\<close>): the raw, canonical and output queues of a terminal,
  erase and kill processing, output with delays, input with signals and flow control. A terminal
  is an index into the table \<open>tty\<close>; its queues live in the character blocks \<open>cl\<close>. The driver's
  start routine is \<open>t_oproc\<close>, its stop routine \<open>cd_stop\<close>.
\<close>

section \<open>Tables and constants\<close>

definition maptab :: "int list" where
  "maptab = replicate 33 0 @ [124] @ replicate 5 0 @ [96] @ [123, 125] @ replicate 52 0 @ [126] @ [0] @ [0]
     @ map int [65..<91] @ replicate 5 0"

definition partab :: "int list" where
  "partab =
     [0x01, 0x81, 0x81, 0x01, 0x81, 0x01, 0x01, 0x81, 0x82, 0x04, 0x03, 0x81, 0x05, 0x86, 0x81, 0x01,
      0x81, 0x01, 0x01, 0x81, 0x01, 0x81, 0x81, 0x01, 0x01, 0x81, 0x81, 0x01, 0x81, 0x01, 0x01, 0x81,
      0x80, 0x00, 0x00, 0x80, 0x00, 0x80, 0x80, 0x00, 0x00, 0x80, 0x80, 0x00, 0x80, 0x00, 0x00, 0x80,
      0x00, 0x80, 0x80, 0x00, 0x80, 0x00, 0x00, 0x80, 0x80, 0x00, 0x00, 0x80, 0x00, 0x80, 0x80, 0x00,
      0x80, 0x00, 0x00, 0x80, 0x00, 0x80, 0x80, 0x00, 0x00, 0x80, 0x80, 0x00, 0x80, 0x00, 0x00, 0x80,
      0x00, 0x80, 0x80, 0x00, 0x80, 0x00, 0x00, 0x80, 0x80, 0x00, 0x00, 0x80, 0x00, 0x80, 0x80, 0x00,
      0x00, 0x80, 0x80, 0x00, 0x80, 0x00, 0x00, 0x80, 0x80, 0x00, 0x00, 0x80, 0x00, 0x80, 0x80, 0x00,
      0x80, 0x00, 0x00, 0x80, 0x00, 0x80, 0x80, 0x00, 0x00, 0x80, 0x80, 0x00, 0x80, 0x00, 0x00, 0x81]"

abbreviation (input) TANDEM :: int where "TANDEM \<equiv> 1"
abbreviation (input) CBREAK :: int where "CBREAK \<equiv> 2"
abbreviation (input) LCASE :: int where "LCASE \<equiv> 4"
abbreviation (input) ECHO :: int where "ECHO \<equiv> 8"
abbreviation (input) CRMOD :: int where "CRMOD \<equiv> 16"
abbreviation (input) RAW :: int where "RAW \<equiv> 32"
abbreviation (input) RAW_CBREAK :: int where "RAW_CBREAK \<equiv> 34"
abbreviation (input) TBDELAY :: int where "TBDELAY \<equiv> 0xC00"
abbreviation (input) VTDELAY :: int where "VTDELAY \<equiv> 0x4000"
abbreviation (input) TTYHOG :: int where "TTYHOG \<equiv> 256"
abbreviation (input) TTHIWAT :: int where "TTHIWAT \<equiv> 100"
abbreviation (input) TTIPRI :: int where "TTIPRI \<equiv> 28"
abbreviation (input) TTOPRI :: int where "TTOPRI \<equiv> 29"
abbreviation (input) backslash :: int where "backslash \<equiv> 92"

section \<open>Queues\<close>

datatype ttq = Rawq | Canq | Outq

primrec tq :: "ttq \<Rightarrow> tty \<Rightarrow> clist" where
  "tq Rawq t = t_rawq t"
| "tq Canq t = t_canq t"
| "tq Outq t = t_outq t"

primrec set_tq :: "ttq \<Rightarrow> clist \<Rightarrow> tty \<Rightarrow> tty" where
  "set_tq Rawq q t = t\<lparr>t_rawq := q\<rparr>"
| "set_tq Canq q t = t\<lparr>t_canq := q\<rparr>"
| "set_tq Outq q t = t\<lparr>t_outq := q\<rparr>"

definition upd_tty :: "nat \<Rightarrow> (tty \<Rightarrow> tty) \<Rightarrow> 'z kst_scheme \<Rightarrow> 'z kst_scheme" where
  "upd_tty tp f s = s\<lparr>tty := (tty s)(tp := f (tty s tp))\<rparr>"

abbreviation tstate_of :: "'z kst_scheme \<Rightarrow> nat \<Rightarrow> tstate set" where
  "tstate_of s tp \<equiv> t_state (tty s tp)"

abbreviation qcount :: "ttq \<Rightarrow> nat \<Rightarrow> 'z kst_scheme \<Rightarrow> int" where
  "qcount q tp s \<equiv> c_cc (tq q (tty s tp))"

definition tflag :: "nat \<Rightarrow> int \<Rightarrow> 'z kst_scheme \<Rightarrow> bool" where
  "tflag tp m s = (t_flags (tty s tp) AND m \<noteq> 0)"

definition tgetc :: "ttq \<Rightarrow> nat \<Rightarrow> 'z kst_scheme \<Rightarrow> int \<times> 'z kst_scheme" where
  "tgetc q tp s =
     (case getc (tq q (tty s tp)) (cl s) of (c, p, m) \<Rightarrow> (c, upd_tty tp (set_tq q p) (s\<lparr>cl := m\<rparr>)))"

definition tputc :: "int \<Rightarrow> ttq \<Rightarrow> nat \<Rightarrow> 'z kst_scheme \<Rightarrow> int \<times> 'z kst_scheme" where
  "tputc c q tp s =
     (case putc c (tq q (tty s tp)) (cl s) of (r, p, m) \<Rightarrow> (r, upd_tty tp (set_tq q p) (s\<lparr>cl := m\<rparr>)))"

definition tb_to_q :: "int list \<Rightarrow> ttq \<Rightarrow> nat \<Rightarrow> 'z kst_scheme \<Rightarrow> 'z kst_scheme" where
  "tb_to_q cs q tp s =
     (case b_to_q cs (tq q (tty s tp)) (cl s) of (r, p, m) \<Rightarrow> upd_tty tp (set_tq q p) (s\<lparr>cl := m\<rparr>))"

definition set_tstate :: "nat \<Rightarrow> tstate set \<Rightarrow> tstate set \<Rightarrow> 'z kst_scheme \<Rightarrow> 'z kst_scheme" where
  "set_tstate tp off on s = upd_tty tp (\<lambda>t. t\<lparr>t_state := (t_state t - off) \<union> on\<rparr>) s"

text \<open>\<open>while (getc(q) >= 0);\<close>: one round more than the queue has characters.\<close>

fun drain :: "nat \<Rightarrow> ttq \<Rightarrow> nat \<Rightarrow> 'z kst_scheme \<Rightarrow> (unit, 'z kst_scheme) res" where
  "drain 0 q tp s = Stuck s"
| "drain (Suc n) q tp s = (case tgetc q tp s of (c, s) \<Rightarrow> if c \<ge> 0 then drain n q tp s else Ok () s)"

definition drain_q :: "ttq \<Rightarrow> nat \<Rightarrow> 'z kst_scheme \<Rightarrow> (unit, 'z kst_scheme) res" where
  "drain_q q tp s = drain (Suc (nat (qcount q tp s))) q tp s"

section \<open>Opening, flushing, closing\<close>

definition ttyopen :: "int \<Rightarrow> nat \<Rightarrow> 'z kst_scheme \<Rightarrow> 'z kst_scheme" where
  "ttyopen dev tp s =
     (let pp = u_procp (u s); s = upd_tty tp (\<lambda>t. t\<lparr>t_dev := dev\<rparr>) s;
          s = (if p_pgrp (proc s pp) = 0 then
                 (let s = upd_u (\<lambda>x. x\<lparr>u_ttyp := Some tp, u_ttyd := dev\<rparr>) s;
                      s = (if t_pgrp (tty s tp) = 0 then upd_tty tp (\<lambda>t. t\<lparr>t_pgrp := p_pid (proc s pp)\<rparr>) s else s)
                  in upd_proc pp (\<lambda>r. r\<lparr>p_pgrp := t_pgrp (tty s tp)\<rparr>) s)
               else s)
      in set_tstate tp {WOPEN} {ISOPEN} s)"

definition ttychars :: "nat \<Rightarrow> 'z kst_scheme \<Rightarrow> 'z kst_scheme" where
  "ttychars tp s =
     upd_tty tp (\<lambda>t. t\<lparr>t_intrc := 127, t_quitc := 28, t_startc := 17, t_stopc := 19, t_eofc := 4, t_brkc := 255,
       t_erase := 35, t_kill := 64\<rparr>) s"

definition flushtty :: "nat \<Rightarrow> world \<Rightarrow> (unit, world) res" where
  "flushtty tp w =
     bnd (drain_q Canq tp w) (\<lambda>_ w.
     bnd (wakeup (addr_of w (Ch_tty tp 0)) w) (\<lambda>_ w.
     bnd (wakeup (addr_of w (Ch_tty tp 1)) w) (\<lambda>_ w.
       (let w = set_tstate tp {TTSTOP} {} w; w = on_kst (cd_stop w tp) w in
        bnd (drain_q Outq tp w) (\<lambda>_ w.
        bnd (drain_q Rawq tp w) (\<lambda>_ w. Ok () (upd_tty tp (\<lambda>t. t\<lparr>t_delct := 0\<rparr>) w)))))))"

definition wflushtty :: "nat \<Rightarrow> world \<Rightarrow> (unit, world) res" where
  "wflushtty tp w =
     bnd (await (\<lambda>w. qcount Outq tp w \<noteq> 0 \<and> CARR_ON \<in> tstate_of w tp)
            (\<lambda>w. set_tstate tp {} {ASLEEP} (on_kst (t_oproc w tp) w)) (addr_of w (Ch_tty tp 1)) TTOPRI w)
       (\<lambda>_ w. flushtty tp w)"

definition ttyclose :: "nat \<Rightarrow> world \<Rightarrow> (unit, world) res" where
  "ttyclose tp w =
     bnd (wflushtty tp (upd_tty tp (\<lambda>t. t\<lparr>t_pgrp := 0\<rparr>) w)) (\<lambda>_ w. Ok () (upd_tty tp (\<lambda>t. t\<lparr>t_state := {}\<rparr>) w))"

definition ttstart :: "nat \<Rightarrow> world \<Rightarrow> world" where
  "ttstart tp w = (if tstate_of w tp \<inter> {TIMEOUT, TTSTOP, BUSY} = {} then on_kst (t_oproc w tp) w else w)"

definition ttrstrt :: "nat \<Rightarrow> world \<Rightarrow> world" where
  "ttrstrt tp w = ttstart tp (set_tstate tp {TIMEOUT} {} w)"

section \<open>Terminal parameters\<close>

text \<open>The line disciplines (\<open>linesw\<close>, configured outside these files).\<close>

record line_sw =
  nldisp :: int
  l_open :: "int \<Rightarrow> int \<Rightarrow> nat \<Rightarrow> int \<Rightarrow> kst \<Rightarrow> kst"
  l_close :: "int \<Rightarrow> nat \<Rightarrow> kst \<Rightarrow> kst"
  l_ioctl :: "int \<Rightarrow> int \<Rightarrow> nat \<Rightarrow> int \<Rightarrow> kst \<Rightarrow> kst"

definition set_params :: "int list \<Rightarrow> tty \<Rightarrow> tty" where
  "set_params b t =
     t\<lparr>t_ispeed := b ! 0, t_ospeed := b ! 1, t_erase := b ! 2, t_kill := b ! 3,
       t_flags := s16 (le32 (b ! 4) (b ! 5) (b ! 6) (b ! 7))\<rparr>"

definition get_params :: "tty \<Rightarrow> int list" where
  "get_params t = [t_ispeed t, t_ospeed t, t_erase t, t_kill t] @ bytes32 (t_flags t)"

definition set_tc :: "int list \<Rightarrow> tty \<Rightarrow> tty" where
  "set_tc b t = t\<lparr>t_intrc := b ! 0, t_quitc := b ! 1, t_startc := b ! 2, t_stopc := b ! 3, t_eofc := b ! 4, t_brkc := b ! 5\<rparr>"

definition get_tc :: "tty \<Rightarrow> int list" where
  "get_tc t = [t_intrc t, t_quitc t, t_startc t, t_stopc t, t_eofc t, t_brkc t]"

abbreviation (input) tio :: "int \<Rightarrow> int" where "tio n \<equiv> 29696 + n"

definition out_bytes :: "int list \<Rightarrow> int \<Rightarrow> world \<Rightarrow> (int, world) res" where
  "out_bytes bs a w = bnd (to_user 0 bs a w) (\<lambda>r w. Ok 1 (if r \<noteq> 0 then set_error EFAULT w else w))"

definition ttioccomm :: "line_sw \<Rightarrow> int \<Rightarrow> nat \<Rightarrow> int \<Rightarrow> int \<Rightarrow> world \<Rightarrow> (int, world) res" where
  "ttioccomm sw com tp a dev w =
     (if com = tio 0 then out_bytes (bytes32 (t_line (tty w tp))) a w
      else if com = tio 1 then
        bnd (from_user 0 a 4 w) (\<lambda>(r, b) w.
          if r \<noteq> 0 then Ok 1 (set_error EFAULT w)
          else
          (let t = le32 (b ! 0) (b ! 1) (b ! 2) (b ! 3) in
           if t \<ge> u32 (nldisp sw) then Ok 1 (set_error ENXIO w)
           else
             (let w = (if t_line (tty w tp) \<noteq> 0 then on_kst (l_close sw (t_line (tty w tp)) tp) w else w);
                  w = (if t \<noteq> 0 then on_kst (l_open sw t dev tp a) w else w)
              in Ok 1 (if u_error (u w) = 0 then upd_tty tp (\<lambda>x. x\<lparr>t_line := u8 t\<rparr>) w else w))))
      else if com = tio 13 then Ok 1 (set_tstate tp {} {XCLUDE} w)
      else if com = tio 14 then Ok 1 (set_tstate tp {XCLUDE} {} w)
      else if com = tio 9 \<or> com = tio 10 then
        bnd (if com = tio 9 then wflushtty tp w else Ok () w) (\<lambda>_ w.
        bnd (from_user 0 a 8 w) (\<lambda>(r, b) w. Ok 1 (if r \<noteq> 0 then set_error EFAULT w else upd_tty tp (set_params b) w)))
      else if com = tio 8 then out_bytes (get_params (tty w tp)) a w
      else if com = tio 2 then Ok 1 (set_tstate tp {} {HUPCLS} w)
      else if com = tio 16 then bnd (flushtty tp w) (\<lambda>_ w. Ok 1 w)
      else if com = 25609 \<or> com = 25608 then Ok 1 (on_kst (l_ioctl sw (t_line (tty w tp)) com tp a) w)
      else if com = tio 17 then bnd (from_user 0 a 6 w) (\<lambda>(r, b) w.
        Ok 1 (if r \<noteq> 0 then set_error EFAULT (upd_tty tp (set_tc b) w) else upd_tty tp (set_tc b) w))
      else if com = tio 18 then out_bytes (get_tc (tty w tp)) a w
      else Ok 0 w)"

section \<open>The system calls\<close>

definition ioctl :: "world \<Rightarrow> (unit, world) res" where
  "ioctl w =
     (let f = u_arg (u w) 0; cmd = u_arg (u w) 1 in
      case (if 0 \<le> f \<and> f < int NOFILE then u_ofile (u w) (nat f) else None) of
        None \<Rightarrow> Ok () (set_error EBADF w)
      | Some fp \<Rightarrow>
          if cmd = 26113 then Ok () (upd_u (\<lambda>x. x\<lparr>u_pofile := (u_pofile x)(nat f := u_pofile x (nat f) OR 1)\<rparr>) w)
          else if cmd = 26114 then
            Ok () (upd_u (\<lambda>x. x\<lparr>u_pofile := (u_pofile x)(nat f := u_pofile x (nat f) AND NOT 1)\<rparr>) w)
          else
            (let ip = f_inode (file_t w fp) in
             if i_mode (inode w ip) AND IFMT \<noteq> IFCHR then Ok () (set_error ENOTTY w)
             else
               (let dev = s16 (i_addr (inode w ip) 0)
                in Ok () (on_kst (cd_ioctl w (major dev) dev cmd (u_arg (u w) 2) (f_flag (file_t w fp))) w))))"

definition stty :: "world \<Rightarrow> (unit, world) res" where
  "stty w = ioctl (upd_u (\<lambda>x. x\<lparr>u_arg := (u_arg x)(2 := u_arg x 1, 1 := tio 9)\<rparr>) w)"

definition gtty :: "world \<Rightarrow> (unit, world) res" where
  "gtty w = ioctl (upd_u (\<lambda>x. x\<lparr>u_arg := (u_arg x)(2 := u_arg x 1, 1 := tio 8)\<rparr>) w)"

section \<open>Canonical input\<close>

text \<open>
  The line being put together, last character first. \<open>bp[-1]\<close> and \<open>bp[-2]\<close> are its first two
  elements; before the start of the line lie two bytes that are never set. A character that has no
  entry in \<open>maptab\<close> is \<^const>\<open>None\<close>.
\<close>

definition before :: "nat \<Rightarrow> int list \<Rightarrow> int" where
  "before k ln = (if k < length ln then ln ! k else 0)"

definition canon_char :: "tty \<Rightarrow> int \<Rightarrow> int list \<Rightarrow> int list option" where
  "canon_char t c ln =
     (if c \<ge> 128 then None
      else
        (let mc = (if c = t_erase t \<or> c = t_kill t then c else maptab ! nat c) in
         if mc \<noteq> 0 \<and> (mc = c \<or> t_flags t AND LCASE \<noteq> 0) then
           Some ((if before 1 ln \<noteq> backslash then mc else c) # tl ln)
         else Some (c # ln)))"

text \<open>From the label \<open>loop\<close> on: characters of the raw queue until a delimiter, a full line or the end.\<close>

fun canon_loop :: "nat \<Rightarrow> nat \<Rightarrow> int list \<Rightarrow> 'z kst_scheme \<Rightarrow> (int list, 'z kst_scheme) res" where
  "canon_loop 0 tp ln s = Stuck s"
| "canon_loop (Suc n) tp ln s =
     (case tgetc Rawq tp s of
        (c, s) \<Rightarrow>
          if c < 0 then Ok ln s
          else
            (let cooked = (\<not> tflag tp RAW_CBREAK s); t = tty s tp;
                 add = (\<lambda>ln. if length ln + 2 \<ge> 256 then Ok ln s else canon_loop n tp ln s)
             in if \<not> cooked then add (c # ln)
                else if c = 255 then Ok ln (upd_tty tp (\<lambda>t. t\<lparr>t_delct := u8 (t_delct t - 1)\<rparr>) s)
                else if before 0 ln \<noteq> backslash then
                  (if c = t_erase t then canon_loop n tp (tl ln) s
                   else if c = t_kill t then canon_loop n tp [] s
                   else if c = t_eofc t then canon_loop n tp ln s
                   else add (c # ln))
                else (case canon_char t c ln of None \<Rightarrow> Stuck s | Some ln \<Rightarrow> add ln)))"

definition canon_waits :: "nat \<Rightarrow> 'z kst_scheme \<Rightarrow> bool" where
  "canon_waits tp s =
     ((\<not> tflag tp RAW_CBREAK s \<and> t_delct (tty s tp) = 0) \<or> (tflag tp RAW_CBREAK s \<and> qcount Rawq tp s = 0))"

definition canon :: "nat \<Rightarrow> world \<Rightarrow> (int, world) res" where
  "canon tp w =
     bnd (await (\<lambda>w. canon_waits tp w \<and> CARR_ON \<in> tstate_of w tp) id (addr_of w (Ch_tty tp 0)) TTIPRI w) (\<lambda>_ w.
       if canon_waits tp w then Ok 0 w
       else
         bnd (canon_loop (Suc (nat (qcount Rawq tp w))) tp [] w) (\<lambda>ln w.
           (let w = tb_to_q (rev ln) Canq tp w;
                w = (if TBLOCK \<in> tstate_of w tp \<and> qcount Rawq tp w < TTYHOG div 5 then
                       (case tputc (t_startc (tty w tp)) Outq tp w of
                          (r, w) \<Rightarrow>
                            upd_tty tp (\<lambda>t. t\<lparr>t_char := 0\<rparr>) (if r = 0 then ttstart tp (set_tstate tp {TBLOCK} {} w) else w))
                     else w)
            in Ok (int (length ln)) w)))"

section \<open>Output\<close>

text \<open>
  What \<open>ttyoutput\<close> does with a character once it is in the queue: the new column and the delay.
\<close>

definition out_delay :: "int \<Rightarrow> int \<Rightarrow> int \<Rightarrow> int \<times> int" where
  "out_delay flags c col =
     (let cls = (partab ! nat c) AND 63 in
      if cls = 0 then (u8 (col + 1), 0)
      else if cls = 1 then (col, 0)
      else if cls = 2 then (if col \<noteq> 0 then u8 (col - 1) else col, 0)
      else if cls = 3 then
        (let k = drop_bit 8 flags AND 3
         in (0, if k = 1 then (if col \<noteq> 0 then max (drop_bit 4 col + 3) 6 else 0) else if k = 2 then 6 else 0))
      else if cls = 4 then
        (let k = drop_bit 10 flags AND 3; d = 1 - (col OR NOT 7)
         in (u8 ((col OR 7) + 1), if k = 1 \<and> \<not> d < 5 then d else 0))
      else if cls = 5 then (col, if flags AND VTDELAY \<noteq> 0 then 127 else 0)
      else if cls = 6 then (let k = drop_bit 12 flags AND 3 in (0, if k = 1 then 5 else if k = 2 then 10 else 0))
      else (col, 0))"

text \<open>The pairs of \<open>({)}!|^~'`\<close>: what is sent after a backslash for a character upper-case terminals lack.\<close>

definition lcase_escape :: "int \<Rightarrow> int option" where
  "lcase_escape c = map_of [(123, 40), (125, 41), (124, 33), (126, 94), (96, 39)] c"

text \<open>
  \<open>ttyoutput\<close> calls itself for the spaces of a tab, the backslash of an escape and the carriage
  return before a newline; none of those calls itself again, so a depth of two is enough.
\<close>

fun ttyoutput_n :: "nat \<Rightarrow> int \<Rightarrow> nat \<Rightarrow> 'z kst_scheme \<Rightarrow> (unit, 'z kst_scheme) res"
and tab_loop :: "nat \<Rightarrow> nat \<Rightarrow> nat \<Rightarrow> 'z kst_scheme \<Rightarrow> (unit, 'z kst_scheme) res" where
  "ttyoutput_n 0 c tp s = Stuck s"
| "ttyoutput_n (Suc n) c tp s =
     (let s = s\<lparr>tk_nout := s32 (tk_nout s + 1)\<rparr> in
      if tflag tp RAW s then Ok () (snd (tputc c Outq tp s))
      else
        (let c = c AND 127 in
         if c = 4 then Ok () s
         else if c = 9 \<and> t_flags (tty s tp) AND TBDELAY = TBDELAY then tab_loop n 8 tp s
         else
           bnd (case (if tflag tp LCASE s then lcase_escape c else None) of
                  Some e \<Rightarrow> bnd (ttyoutput_n n backslash tp s) (\<lambda>_ s. Ok e s)
                | None \<Rightarrow> Ok c s) (\<lambda>c s.
             (let c = (if tflag tp LCASE s \<and> 97 \<le> c \<and> c \<le> 122 then c - 32 else c) in
              bnd (if c = 10 \<and> tflag tp CRMOD s then ttyoutput_n n 13 tp s else Ok () s) (\<lambda>_ s.
                (let s = snd (tputc c Outq tp s);
                     (col, d) = out_delay (t_flags (tty s tp)) c (t_col (tty s tp));
                     s = upd_tty tp (\<lambda>t. t\<lparr>t_col := col\<rparr>) s
                 in Ok () (if d \<noteq> 0 then snd (tputc (d OR 128) Outq tp s) else s)))))))"
| "tab_loop n k tp s =
     bnd (ttyoutput_n n 32 tp s) (\<lambda>_ s.
       case k of 0 \<Rightarrow> Ok () s | Suc k' \<Rightarrow> if t_col (tty s tp) AND 7 \<noteq> 0 then tab_loop n k' tp s else Ok () s)"

definition ttyoutput :: "int \<Rightarrow> nat \<Rightarrow> 'z kst_scheme \<Rightarrow> (unit, 'z kst_scheme) res" where
  "ttyoutput c tp s = ttyoutput_n 2 c tp s"

section \<open>Input\<close>

definition ttyblock :: "nat \<Rightarrow> world \<Rightarrow> (unit, world) res" where
  "ttyblock tp w =
     (let x = qcount Rawq tp w + qcount Canq tp w in
      bnd (if qcount Rawq tp w > TTYHOG then bnd (flushtty tp w) (\<lambda>_ w. Ok () (set_tstate tp {TBLOCK} {} w))
           else Ok () w) (\<lambda>_ w.
        if x \<ge> TTYHOG div 2 then
          (case tputc (t_stopc (tty w tp)) Outq tp w of
             (r, w) \<Rightarrow>
               Ok () (if r = 0 then
                        ttstart tp (upd_tty tp (\<lambda>t. t\<lparr>t_char := u8 (t_char t + 1)\<rparr>) (set_tstate tp {} {TBLOCK} w))
                      else w))
        else Ok () w))"

text \<open>
  The control characters of a terminal that is not raw: \<open>None\<close> when the character has been dealt
  with, otherwise the character to go on with.
\<close>

definition control_char :: "int \<Rightarrow> nat \<Rightarrow> world \<Rightarrow> (int option, world) res" where
  "control_char c tp w =
     (let t = tty w tp;
          (stop, w) =
            (if TTSTOP \<in> t_state t then
               (if c = t_stopc t \<and> c \<noteq> t_startc t then (True, w)
                else (c = t_startc t, ttstart tp (set_tstate tp {TTSTOP} {} w)))
             else if c = t_stopc t then (True, on_kst (cd_stop w tp) (set_tstate tp {} {TTSTOP} w))
             else (c = t_startc t, w))
      in if stop then Ok None w
         else
           (let t = tty w tp in
            if c = t_quitc t \<or> c = t_intrc t then
              bnd (flushtty tp w) (\<lambda>_ w.
              bnd (signal (t_pgrp (tty w tp)) (if c = t_intrc (tty w tp) then 2 else 3) w) (\<lambda>_ w. Ok None w))
            else Ok (Some c) w))"

text \<open>The rest of \<open>ttyinput\<close>, from the check for an overfull queue on.\<close>

definition enter_char :: "int \<Rightarrow> nat \<Rightarrow> int \<Rightarrow> world \<Rightarrow> (unit, world) res" where
  "enter_char c tp flags w =
     (if qcount Rawq tp w > TTYHOG then flushtty tp w
      else
        (let c = (if flags AND LCASE \<noteq> 0 \<and> 65 \<le> c \<and> c \<le> 90 then c + 32 else c);
             cooked = (flags AND RAW_CBREAK = 0);
             w = snd (tputc c Rawq tp w); t = tty w tp
         in bnd (if \<not> cooked \<or> c = 10 \<or> c = t_eofc t \<or> c = t_brkc t then
                   (case (if cooked then tputc 255 Rawq tp w else (-1, w)) of
                      (r, w) \<Rightarrow>
                        wakeup (addr_of w (Ch_tty tp 0))
                          (if r = 0 then upd_tty tp (\<lambda>t. t\<lparr>t_delct := u8 (t_delct t + 1)\<rparr>) w else w))
                 else Ok () w) (\<lambda>_ w.
              if flags AND ECHO \<noteq> 0 then
                bnd (ttyoutput c tp w) (\<lambda>_ w.
                bnd (if c = t_kill (tty w tp) \<and> cooked then ttyoutput 10 tp w else Ok () w) (\<lambda>_ w.
                  Ok () (ttstart tp w)))
              else Ok () w)))"

definition ttyinput :: "int \<Rightarrow> nat \<Rightarrow> world \<Rightarrow> (unit, world) res" where
  "ttyinput c tp w =
     (let w = w\<lparr>tk_nin := s32 (tk_nin w + 1)\<rparr>; c = c AND 255; flags = t_flags (tty w tp) in
      bnd (if flags AND TANDEM \<noteq> 0 then ttyblock tp w else Ok () w) (\<lambda>_ w.
        if flags AND RAW \<noteq> 0 then enter_char c tp flags w
        else
          bnd (control_char (c AND 127) tp w) (\<lambda>r w.
            (case r of
               None \<Rightarrow> Ok () w
             | Some c \<Rightarrow> enter_char (if c = 13 \<and> flags AND CRMOD \<noteq> 0 then 10 else c) tp flags w))))"

fun ttyinput_all :: "int list \<Rightarrow> nat \<Rightarrow> world \<Rightarrow> (unit, world) res" where
  "ttyinput_all [] tp w = Ok () w"
| "ttyinput_all (c # cs) tp w = bnd (ttyinput c tp w) (\<lambda>_ w. ttyinput_all cs tp w)"

text \<open>\<open>cs\<close> are the characters between \<open>pb\<close> and \<open>pe\<close>.\<close>

definition ttyrend :: "nat \<Rightarrow> int list \<Rightarrow> world \<Rightarrow> (unit, world) res" where
  "ttyrend tp cs w =
     (let tandem = t_flags (tty w tp) AND TANDEM in
      bnd (if tflag tp RAW w then
             (let w = tb_to_q cs Rawq tp w in wakeup (addr_of w (Ch_tty tp 0)) w)
           else
             bnd (ttyinput_all cs tp (upd_tty tp (\<lambda>t. t\<lparr>t_flags := t_flags t AND NOT TANDEM\<rparr>) w)) (\<lambda>_ w.
               Ok () (upd_tty tp (\<lambda>t. t\<lparr>t_flags := t_flags t OR tandem\<rparr>) w))) (\<lambda>_ w.
        if tandem \<noteq> 0 then ttyblock tp w else Ok () w))"

section \<open>Reading and writing\<close>

fun ttread_loop :: "nat \<Rightarrow> nat \<Rightarrow> 'z kst_scheme \<Rightarrow> (unit, 'z kst_scheme) res" where
  "ttread_loop 0 tp s = Stuck s"
| "ttread_loop (Suc n) tp s =
     (if qcount Canq tp s = 0 then Ok () s
      else
        (case tgetc Canq tp s of
           (c, s) \<Rightarrow> bnd (passc c s) (\<lambda>r s. if r \<ge> 0 then ttread_loop n tp s else Ok () s)))"

definition ttread :: "nat \<Rightarrow> world \<Rightarrow> (int, world) res" where
  "ttread tp w =
     (if CARR_ON \<notin> tstate_of w tp then Ok 0 w
      else
        bnd (if qcount Canq tp w \<noteq> 0 then Ok 1 w else canon tp w) (\<lambda>k w.
        bnd (if k \<noteq> 0 then ttread_loop (Suc (nat (qcount Canq tp w))) tp w else Ok () w) (\<lambda>_ w.
          Ok (qcount Rawq tp w + qcount Canq tp w) w)))"

text \<open>One character of \<open>u_count\<close> is taken in every round.\<close>

fun ttwrite_loop :: "nat \<Rightarrow> nat \<Rightarrow> world \<Rightarrow> (unit, world) res" where
  "ttwrite_loop 0 tp w = Stuck w"
| "ttwrite_loop (Suc n) tp w =
     (if u_count (u w) = 0 then Ok () w
      else
        bnd (await (\<lambda>w. qcount Outq tp w > TTHIWAT) (\<lambda>w. set_tstate tp {} {ASLEEP} (ttstart tp w))
               (addr_of w (Ch_tty tp 1)) TTOPRI w) (\<lambda>_ w.
        bnd (cpass w) (\<lambda>c w.
          if c < 0 then Ok () w else bnd (ttyoutput c tp w) (\<lambda>_ w. ttwrite_loop n tp w))))"

definition ttwrite :: "nat \<Rightarrow> world \<Rightarrow> (unit, world) res" where
  "ttwrite tp w =
     (if CARR_ON \<notin> tstate_of w tp then Ok () w
      else bnd (ttwrite_loop (Suc (nat (u_count (u w)))) tp w) (\<lambda>_ w. Ok () (ttstart tp w)))"

section \<open>The queues of all terminals as one pool\<close>

definition tview :: "'z kst_scheme \<Rightarrow> clmem \<times> (nat \<times> ttq \<Rightarrow> clist)" where
  "tview s = (cl s, \<lambda>(tp, q). tq q (tty s tp))"

definition tinv :: "nat set \<Rightarrow> 'z kst_scheme \<Rightarrow> bool" where
  "tinv B s = pool_inv B (tview s)"

definition tcont :: "'z kst_scheme \<Rightarrow> nat \<times> ttq \<Rightarrow> int list" where
  "tcont s = pool_cont (tview s)"

definition tspare :: "nat set \<Rightarrow> 'z kst_scheme \<Rightarrow> nat" where
  "tspare B s = pool_spare B (tview s)"

lemma tq_set_tq [simp]: "tq q (set_tq q' c t) = (if q = q' then c else tq q t)"
  by (cases q; cases q') simp_all

lemma tview_upd: "tview (upd_tty tp (set_tq q p) (s\<lparr>cl := m\<rparr>)) = (m, (snd (tview s))((tp, q) := p))"
  by (auto simp: tview_def upd_tty_def fun_eq_iff)

lemma tgetc_pool: "tgetc q tp s = (c, s') \<Longrightarrow> pool_get (tp, q) (tview s) = (c, tview s')"
  by (auto simp: tgetc_def pool_get_def tview_upd split: prod.splits) (auto simp: tview_def)

lemma tputc_pool: "tputc c q tp s = (r, s') \<Longrightarrow> pool_put c (tp, q) (tview s) = (r, tview s')"
  by (auto simp: tputc_def pool_put_def tview_upd split: prod.splits) (auto simp: tview_def)

lemma set_tq_same [simp]: "set_tq q (tq q t) t = t"
  by (cases q) simp_all

lemma tputc_fails:
  assumes "tputc c q tp s = (r, s')" "tview s' = tview s"
  shows "s' = s"
proof -
  obtain p m where pm: "putc c (tq q (tty s tp)) (cl s) = (r, p, m)" and s': "s' = upd_tty tp (set_tq q p) (s\<lparr>cl := m\<rparr>)"
    using assms(1) by (auto simp: tputc_def split: prod.splits)
  have "m = cl s" "(snd (tview s))((tp, q) := p) = snd (tview s)"
    using assms(2) unfolding s' tview_upd by (auto simp: tview_def)
  moreover from this(2) have "p = tq q (tty s tp)" by (auto simp: tview_def dest: fun_cong [of _ _ "(tp, q)"])
  ultimately show ?thesis unfolding s' by (simp add: upd_tty_def)
qed

interpretation ttyq: char_queues "\<lambda>(tp, q). tgetc q tp" "\<lambda>c (tp, q). tputc c q tp" tcont "tinv B" "tspare B" for B
proof (unfold_locales, goal_cases)
  case (1 s x c s')
  then obtain tp q where x: "x = (tp, q)" and g: "tgetc q tp s = (c, s')" by (cases x) auto
  from pool_get_law [OF 1(1) [unfolded tinv_def] tgetc_pool [OF g]] show ?case
    by (simp add: x tinv_def tcont_def tspare_def)
next
  case (2 s c x r s')
  then obtain tp q where x: "x = (tp, q)" and g: "tputc c q tp s = (r, s')" by (cases x) auto
  from pool_put_law [OF 2(1) [unfolded tinv_def] tputc_pool [OF g]] tputc_fails [OF g] show ?case
    by (auto simp: x tinv_def tcont_def tspare_def)
next
  case (3 s c x)
  then show ?case unfolding tinv_def tcont_def by (rule pool.cont_byte)
qed

lemma tgetc_law:
  assumes "tinv B s" "tgetc q tp s = (c, s')"
  shows "tinv B s'" "tcont s' = (tcont s)((tp, q) := tl (tcont s (tp, q)))"
    "c = (if tcont s (tp, q) = [] then -1 else hd (tcont s (tp, q)))"
  using ttyq.get_law [OF assms(1), of "(tp, q)" c s'] assms(2) by auto

lemma tqcount: "tinv B s \<Longrightarrow> qcount q tp s = int (length (tcont s (tp, q)))"
  using pool_count [of B "tview s" "(tp, q)"] by (simp add: tinv_def tcont_def tview_def)

lemma tgetc_params:
  "tgetc q tp s = (c, s') \<Longrightarrow> t_erase (tty s' tp) = t_erase (tty s tp) \<and> t_kill (tty s' tp) = t_kill (tty s tp)
     \<and> t_eofc (tty s' tp) = t_eofc (tty s tp) \<and> t_flags (tty s' tp) = t_flags (tty s tp)
     \<and> t_delct (tty s' tp) = t_delct (tty s tp)"
  by (cases q) (auto simp: tgetc_def upd_tty_def split: prod.splits)

section \<open>The line editor\<close>

text \<open>
  The loop of \<open>canon\<close> as a function of the characters typed, without the queues: \<open>ln\<close> is the line so far, last
  character first; the result is the finished line, what was not looked at, and whether a
  delimiter ended it.
\<close>

fun edit_rev :: "tty \<Rightarrow> int list \<Rightarrow> int list \<Rightarrow> int list \<times> int list \<times> bool" where
  "edit_rev t ln [] = (ln, [], False)"
| "edit_rev t ln (c # cs) =
     (let add = (\<lambda>ln. if length ln \<ge> 254 then (ln, cs, False) else edit_rev t ln cs) in
      if t_flags t AND RAW_CBREAK \<noteq> 0 then add (c # ln)
      else if c = 255 then (ln, cs, True)
      else if before 0 ln \<noteq> backslash then
        (if c = t_erase t then edit_rev t (tl ln) cs
         else if c = t_kill t then edit_rev t [] cs
         else if c = t_eofc t then edit_rev t ln cs
         else add (c # ln))
      else add (case canon_char t c ln of None \<Rightarrow> ln | Some ln \<Rightarrow> ln))"

text \<open>The parameters of a terminal that editing depends on.\<close>

definition edit_params :: "tty \<Rightarrow> int \<times> int \<times> int \<times> int" where
  "edit_params t = (t_erase t, t_kill t, t_eofc t, t_flags t)"

lemma canon_char_cong: "edit_params t = edit_params t' \<Longrightarrow> canon_char t c ln = canon_char t' c ln"
  by (simp add: edit_params_def canon_char_def Let_def)

lemma edit_cong: "edit_params t = edit_params t' \<Longrightarrow> edit_rev t ln cs = edit_rev t' ln cs"
proof (induction cs arbitrary: ln)
  case (Cons c cs)
  have "t_erase t' = t_erase t" "t_kill t' = t_kill t" "t_eofc t' = t_eofc t" "t_flags t' = t_flags t"
    using Cons.prems by (simp_all add: edit_params_def)
  then show ?case using Cons canon_char_cong [OF Cons.prems] by (simp add: Let_def)
qed simp

lemma canon_char_some: "c < 128 \<Longrightarrow> \<exists>ln'. canon_char t c ln = Some ln'"
  by (simp add: canon_char_def Let_def)

lemma canon_loop_edit:
  assumes "tinv B s" "\<forall>c \<in> set (tcont s (tp, Rawq)). c < 128 \<or> c = 255" "length (tcont s (tp, Rawq)) < n"
  shows "case edit_rev (tty s tp) ln (tcont s (tp, Rawq)) of (ln', rest, ended) \<Rightarrow>
    \<exists>s'. canon_loop n tp ln s = Ok ln' s' \<and> tinv B s' \<and> tcont s' = (tcont s)((tp, Rawq) := rest)
      \<and> t_delct (tty s' tp) = (if ended then u8 (t_delct (tty s tp) - 1) else t_delct (tty s tp))"
  using assms
proof (induction n arbitrary: ln s)
  case (Suc n)
  obtain c s1 where g: "tgetc Rawq tp s = (c, s1)" by (cases "tgetc Rawq tp s")
  note law = tgetc_law [OF Suc.prems(1) g]
  note par = tgetc_params [OF g]
  show ?case
  proof (cases "tcont s (tp, Rawq)")
    case Nil
    then show ?thesis using g law par by (auto simp: fun_upd_idem)
  next
    case (Cons d cs)
    then have c: "c = d" "0 \<le> d" using law(3) ttyq.cont_byte [OF Suc.prems(1), of d "(tp, Rawq)"] by auto
    have r1: "tcont s1 (tp, Rawq) = cs" "tcont s1 = (tcont s)((tp, Rawq) := cs)" using law(2) Cons by simp_all
    have ep: "edit_params (tty s1 tp) = edit_params (tty s tp)" using par by (simp add: edit_params_def)
    have IH: "case edit_rev (tty s tp) l cs of (ln', rest, ended) \<Rightarrow>
      \<exists>s'. canon_loop n tp l s1 = Ok ln' s' \<and> tinv B s' \<and> tcont s' = (tcont s)((tp, Rawq) := rest)
        \<and> t_delct (tty s' tp) = (if ended then u8 (t_delct (tty s tp) - 1) else t_delct (tty s tp))" for l
    proof -
      have r2: "(tcont s1)((tp, Rawq) := rest) = (tcont s)((tp, Rawq) := rest)" for rest using r1(2) by simp
      have d: "t_delct (tty s1 tp) = t_delct (tty s tp)" using par by simp
      show ?thesis using Suc.IH [of s1 l, unfolded r1(1) r2 d edit_cong [OF ep]] law(1) Suc.prems(2,3) Cons
        by (simp add: fun_upd_def split del: if_split)
    qed
    define add where "add = (\<lambda>l. if length l + 2 \<ge> 256 then Ok l s1 else canon_loop n tp l s1)"
    define add' where "add' = (\<lambda>l. if length l \<ge> 254 then (l, cs, False) else edit_rev (tty s tp) l cs)"
    define P where "P = (\<lambda>(m :: (int list, 'a kst_scheme) res) r. case r of (ln', rest, ended) \<Rightarrow>
      \<exists>s'. m = Ok ln' s' \<and> tinv B s' \<and> tcont s' = (tcont s)((tp, Rawq) := rest)
        \<and> t_delct (tty s' tp) = (if ended then u8 (t_delct (tty s tp) - 1) else t_delct (tty s tp)))"
    have L: "P (canon_loop n tp l s1) (edit_rev (tty s tp) l cs)" for l
      using IH [of l] unfolding P_def .
    have A: "P (add l) (add' l)" for l
      using L [of l] law(1) r1(2) par by (auto simp: add_def add'_def P_def)
    have m: "canon_loop (Suc n) tp ln s =
      (if tflag tp RAW_CBREAK s then add (c # ln)
       else if c = 255 then Ok ln (upd_tty tp (\<lambda>t. t\<lparr>t_delct := u8 (t_delct t - 1)\<rparr>) s1)
       else if before 0 ln \<noteq> backslash then
         (if c = t_erase (tty s tp) then canon_loop n tp (tl ln) s1
          else if c = t_kill (tty s tp) then canon_loop n tp [] s1
          else if c = t_eofc (tty s tp) then canon_loop n tp ln s1
          else add (c # ln))
       else (case canon_char (tty s tp) c ln of None \<Rightarrow> Stuck s1 | Some ln \<Rightarrow> add ln))"
      using c par g canon_char_cong [OF ep] by (simp add: add_def Let_def tflag_def cong: option.case_cong)
    have e: "edit_rev (tty s tp) ln (d # cs) =
      (if tflag tp RAW_CBREAK s then add' (c # ln)
       else if c = 255 then (ln, cs, True)
       else if before 0 ln \<noteq> backslash then
         (if c = t_erase (tty s tp) then edit_rev (tty s tp) (tl ln) cs
          else if c = t_kill (tty s tp) then edit_rev (tty s tp) [] cs
          else if c = t_eofc (tty s tp) then edit_rev (tty s tp) ln cs
          else add' (c # ln))
       else add' (case canon_char (tty s tp) c ln of None \<Rightarrow> ln | Some ln \<Rightarrow> ln))"
      using c by (simp add: add'_def Let_def tflag_def cong: option.case_cong)
    have D: "P (Ok ln (upd_tty tp (\<lambda>t. t\<lparr>t_delct := u8 (t_delct t - 1)\<rparr>) s1)) (ln, cs, True)"
    proof -
      let ?s = "upd_tty tp (\<lambda>t. t\<lparr>t_delct := u8 (t_delct t - 1)\<rparr>) s1"
      have "tq q (t\<lparr>t_delct := x\<rparr>) = tq q t" for q t x by (cases q) simp_all
      then have "tview ?s = tview s1" by (auto simp: tview_def upd_tty_def fun_eq_iff)
      then show ?thesis using law(1) r1(2) par by (simp add: P_def tinv_def tcont_def upd_tty_def)
    qed
    have "c < 128 \<or> c = 255" using Suc.prems(2) Cons c by simp
    then have E: "P (case canon_char (tty s tp) c ln of None \<Rightarrow> Stuck s1 | Some ln \<Rightarrow> add ln)
        (add' (case canon_char (tty s tp) c ln of None \<Rightarrow> ln | Some ln \<Rightarrow> ln))" if "c \<noteq> 255"
      using that canon_char_some [of c "tty s tp" ln] A by auto
    have "P (canon_loop (Suc n) tp ln s) (edit_rev (tty s tp) ln (d # cs))"
      unfolding m e by (simp add: A L D E)
    then show ?thesis unfolding Cons P_def .
  qed
qed simp

text \<open>Characters that stand for themselves on the given terminal.\<close>

definition plain :: "tty \<Rightarrow> int \<Rightarrow> bool" where
  "plain t c \<longleftrightarrow> 0 \<le> c \<and> c < 128 \<and> c \<noteq> backslash \<and> c \<noteq> t_erase t \<and> c \<noteq> t_kill t \<and> c \<noteq> t_eofc t"

lemma edit_plain:
  assumes "\<forall>c \<in> set xs. plain t c" "before 0 ln \<noteq> backslash" "t_flags t AND RAW_CBREAK = 0" "length ln + length xs < 254"
  shows "edit_rev t ln (xs @ cs) = edit_rev t (rev xs @ ln) cs"
  using assms
proof (induction xs arbitrary: ln)
  case (Cons x xs)
  then show ?case by (simp add: plain_def Let_def before_def)
qed simp

lemma edit_end: "t_flags t AND RAW_CBREAK = 0 \<Longrightarrow> edit_rev t ln (255 # cs) = (ln, cs, True)"
  by simp

lemma edit_kill:
  "t_flags t AND RAW_CBREAK = 0 \<Longrightarrow> before 0 ln \<noteq> backslash \<Longrightarrow> t_kill t \<noteq> 255 \<Longrightarrow> t_erase t \<noteq> t_kill t \<Longrightarrow>
   edit_rev t ln (t_kill t # cs) = edit_rev t [] cs"
  by (simp add: Let_def)

lemma edit_erase:
  "t_flags t AND RAW_CBREAK = 0 \<Longrightarrow> before 0 ln \<noteq> backslash \<Longrightarrow> t_erase t \<noteq> 255 \<Longrightarrow>
   edit_rev t ln (t_erase t # cs) = edit_rev t (tl ln) cs"
  by (simp add: Let_def)

lemma before_rev: "\<forall>c \<in> set xs. c \<noteq> backslash \<Longrightarrow> before 0 (rev xs) \<noteq> backslash"
  by (cases xs rule: rev_cases) (auto simp: before_def)


text \<open>Terminal 0 with the characters \<open>x@hi#o\<close> and a delimiter typed.\<close>

definition typed :: world where
  "typed = bss_world\<lparr>
     cl := zero_clmem\<lparr>c_info := (\<lambda>_. 0)(20 := 120, 21 := 64, 22 := 104, 23 := 105, 24 := 35, 25 := 111, 26 := 255)\<rparr>,
     tty := (\<lambda>_. zero_tty)(0 := zero_tty\<lparr>t_erase := 35, t_kill := 64, t_eofc := 4, t_delct := 1,
       t_rawq := \<lparr>c_cc = 7, c_cf = 20, c_cl = 27\<rparr>\<rparr>)\<rparr>"

lemma typed_tinv: "tinv {16} typed"
proof -
  have q: "tq q (tty typed tp) = (if tp = 0 \<and> q = Rawq then \<lparr>c_cc = 7, c_cf = 20, c_cl = 27\<rparr> else zero_clist)" for q tp
    by (cases q) (simp_all add: typed_def zero_tty_def)
  have "pool_rep {16} (cl typed) (\<lambda>(tp, q). tq q (tty typed tp)) (\<lambda>x. if x = (0, Rawq) then [16] else []) []"
    by (auto simp: pool_rep_def frep_def crep_def q zero_clist_def) (simp_all add: typed_def zero_clmem_def)
  then show ?thesis by (auto simp: tinv_def pool_inv_def tview_def)
qed

lemma gather_numeral:
  "gather (numeral n) m cf =
     u8 (c_info m cf) # gather (pred_numeral n) m (if Suc cf mod 16 = 0 then c_next m (Suc cf - 16) + 4 else Suc cf)"
  by (simp only: numeral_eq_Suc [of n] gather.simps)

lemma typed_cont: "tcont typed (0, Rawq) = [120, 64, 104, 105, 35, 111, 255]"
  by (simp add: tcont_def pool_cont_def contents_def tview_def typed_def zero_tty_def gather_numeral u8_def)


section \<open>What editing means\<close>

text \<open>
  The editor as the user knows it, on the line in the order of typing. A character is added, unless it is the
  erase, kill or end character. A backslash before an erase or kill character takes its place; on a terminal
  with capital letters only (\<open>LCASE\<close>) a backslash before a letter or one of five other characters stands for the capital letter or the
  missing character. After two or more backslashes one backslash goes and the character is itself. (An
  erase or kill character that is zero is never escaped.)
\<close>

definition escapes :: "(int \<times> int) list" where
  "escapes = map (map_prod of_char of_char)
     (zip ''!'()^abcdefghijklmnopqrstuvwxyz'' ''|`{}~ABCDEFGHIJKLMNOPQRSTUVWXYZ'')"

definition backslashes :: "int list \<Rightarrow> nat" where
  "backslashes L = length (takeWhile (\<lambda>c. c = 92) (rev L))"

definition strike :: "tty \<Rightarrow> int list \<Rightarrow> int \<Rightarrow> int list" where
  "strike t L c =
     (if backslashes L = 0 then
        (if c = t_erase t then butlast L else if c = t_kill t then [] else if c = t_eofc t then L else L @ [c])
      else if c \<in> {t_erase t, t_kill t} then (if c = 0 then L @ [c] else butlast L @ [c])
      else (case map_of escapes c of
              Some m \<Rightarrow> if t_flags t AND LCASE = 0 then L @ [c]
                        else butlast L @ [if backslashes L = 1 then m else c]
            | None \<Rightarrow> L @ [c]))"

lemma escapes_code [code]:
  "escapes = [(33, 124), (39, 96), (40, 123), (41, 125), (94, 126), (97, 65), (98, 66), (99, 67), (100, 68), (101, 69), (102, 70), (103, 71), (104, 72), (105, 73), (106, 74), (107, 75), (108, 76), (109, 77), (110, 78), (111, 79), (112, 80), (113, 81), (114, 82), (115, 83), (116, 84), (117, 85), (118, 86), (119, 87), (120, 88), (121, 89), (122, 90)]"
  by (simp add: escapes_def)

text \<open>A delimiter, or 254 characters, end the line. In the raw modes every character is added.\<close>

fun edit :: "tty \<Rightarrow> int list \<Rightarrow> int list \<Rightarrow> int list \<times> int list \<times> bool" where
  "edit t L [] = (L, [], False)"
| "edit t L (c # cs) =
     (let raw = t_flags t AND RAW_CBREAK \<noteq> 0 in
      if \<not> raw \<and> c = 255 then (L, cs, True)
      else
        (let L = (if raw then L @ [c] else strike t L c)
         in if length L = 254 then (L, cs, False) else edit t L cs))"

lemma edit_params_edit: "edit_params t = edit_params t' \<Longrightarrow> edit t L cs = edit t' L cs"
proof (induction cs arbitrary: L)
  case (Cons c cs)
  have "t_erase t' = t_erase t" "t_kill t' = t_kill t" "t_eofc t' = t_eofc t" "t_flags t' = t_flags t"
    using Cons.prems by (simp_all add: edit_params_def)
  moreover from this have "strike t' L c = strike t L c" for L by (simp add: strike_def cong: option.case_cong)
  ultimately show ?case using Cons by (simp add: Let_def)
qed simp

lemma maptab_escapes:
  assumes "0 \<le> c" "c < 128"
  shows "maptab ! nat c = (case map_of escapes c of None \<Rightarrow> 0 | Some m \<Rightarrow> m)" "maptab ! nat c \<noteq> 0 \<Longrightarrow> maptab ! nat c \<noteq> c"
proof -
  have "list_all (\<lambda>n. maptab ! n = (case map_of escapes (int n) of None \<Rightarrow> 0 | Some m \<Rightarrow> m)
      \<and> (maptab ! n \<noteq> 0 \<longrightarrow> maptab ! n \<noteq> int n)) [0..<128]"
    by code_simp
  then have "\<forall>n < 128. maptab ! n = (case map_of escapes (int n) of None \<Rightarrow> 0 | Some m \<Rightarrow> m)
      \<and> (maptab ! n \<noteq> 0 \<longrightarrow> maptab ! n \<noteq> int n)" by (simp only: list_all_iff set_upt Ball_def atLeastLessThan_iff le0 simp_thms)
  from spec [OF this, of "nat c"] assms
  show "maptab ! nat c = (case map_of escapes c of None \<Rightarrow> 0 | Some m \<Rightarrow> m)" "maptab ! nat c \<noteq> 0 \<Longrightarrow> maptab ! nat c \<noteq> c"
    by (auto simp: nat_less_iff)
qed

lemma escapes_nonzero: "map_of escapes c = Some m \<Longrightarrow> m \<noteq> 0"
proof -
  have "list_all (\<lambda>(c, m). m \<noteq> 0) escapes" by code_simp
  moreover assume "map_of escapes c = Some m"
  then have "(c, m) \<in> set escapes" by (rule map_of_SomeD)
  ultimately show ?thesis by (auto simp: list_all_iff)
qed

lemma before_backslashes:
  "before 0 (rev L) = 92 \<longleftrightarrow> backslashes L \<noteq> 0"
  "backslashes L \<noteq> 0 \<Longrightarrow> before 1 (rev L) = 92 \<longleftrightarrow> backslashes L \<noteq> 1"
proof -
  show "before 0 (rev L) = 92 \<longleftrightarrow> backslashes L \<noteq> 0"
    by (cases L rule: rev_cases) (auto simp: before_def backslashes_def)
  show "backslashes L \<noteq> 0 \<Longrightarrow> before 1 (rev L) = 92 \<longleftrightarrow> backslashes L \<noteq> 1"
  proof (cases L rule: rev_cases)
    case (snoc M a)
    then show "backslashes L \<noteq> 0 \<Longrightarrow> before 1 (rev L) = 92 \<longleftrightarrow> backslashes L \<noteq> 1"
      by (cases M rule: rev_cases) (auto simp: before_def backslashes_def split: if_splits)
  qed (simp add: backslashes_def)
qed

lemma canon_char_strike:
  assumes "0 \<le> c" "c < 128" "backslashes L \<noteq> 0"
  shows "canon_char t c (rev L) = Some (rev (strike t L c))"
proof -
  have "L \<noteq> []" using assms(3) by (auto simp: backslashes_def)
  then have t: "tl (rev L) = rev (butlast L)" by (cases L rule: rev_cases) auto
  note m = maptab_escapes [OF assms(1,2)]
  show ?thesis
    using assms before_backslashes(2) [OF assms(3)] m escapes_nonzero [of c]
    by (auto simp: canon_char_def strike_def t Let_def split: option.splits)
qed

lemma strike_length: "length (strike t L c) \<le> length L + 1"
  by (auto simp: strike_def split: option.splits)

lemma edit_rev_edit:
  assumes "\<forall>c \<in> set cs. 0 \<le> c \<and> c < 128 \<or> c = 255" "length L < 254"
  shows "edit_rev t (rev L) cs = (case edit t L cs of (L', rest, ended) \<Rightarrow> (rev L', rest, ended))"
  using assms
proof (induction cs arbitrary: L)
  case (Cons c cs)
  define add where "add = (\<lambda>ln. if length ln \<ge> 254 then (ln, cs, False) else edit_rev t ln cs)"
  define res where "res = (\<lambda>L. if length L = 254 then (L, cs, False) else edit t L cs)"
  have IH: "edit_rev t (rev L') cs = (case edit t L' cs of (L', rest, ended) \<Rightarrow> (rev L', rest, ended))" if "length L' < 254" for L'
    using Cons.IH that Cons.prems(1) by simp
  have A: "add (rev L') = (case res L' of (L', rest, ended) \<Rightarrow> (rev L', rest, ended))" if "length L' \<le> 254" for L'
    using IH [of L'] that by (auto simp: add_def res_def)
  show ?case
  proof (cases "t_flags t AND RAW_CBREAK \<noteq> 0")
    case True
    then have "edit_rev t (rev L) (c # cs) = add (rev (L @ [c]))" "edit t L (c # cs) = res (L @ [c])"
      by (simp_all add: add_def res_def Let_def)
    with A [of "L @ [c]"] Cons.prems(2) show ?thesis by simp
  next
    case raw: False
    show ?thesis
    proof (cases "c = 255")
      case True
      with raw show ?thesis by simp
    next
      case False
      with Cons.prems(1) have c: "0 \<le> c" "c < 128" by auto
      have e: "edit t L (c # cs) = res (strike t L c)" using raw False by (simp add: res_def Let_def)
      have le: "length (strike t L c) \<le> 254" using strike_length [of t L c] Cons.prems(2) by simp
      have "edit_rev t (rev L) (c # cs) = add (rev (strike t L c))"
      proof (cases "backslashes L = 0")
        case True
        have "length (rev (butlast L)) < 254" "length (rev L) < 254" using Cons.prems(2) by auto
        moreover have "tl (rev L) = rev (butlast L)" by (cases L rule: rev_cases) auto
        ultimately show ?thesis using True raw False before_backslashes(1) [of L]
          by (auto simp: add_def strike_def Let_def)
      next
        case bs: False
        then show ?thesis using raw False before_backslashes(1) [of L] canon_char_strike [OF c bs, of t]
          by (simp add: add_def Let_def)
      qed
      with A [OF le] e show ?thesis by simp
    qed
  qed
qed simp

text \<open>
  Claim C18. What \<open>canon\<close> does to the linked blocks of the raw queue is the line editor \<open>edit\<close> on the
  characters queued: erase, kill and end characters, escapes with one and with more backslashes, the capital letters of
  an upper case terminal, the delimiter and the bound on the line. It ends with the line that \<open>edit\<close> gives (kept last character
  first), leaves the rest queued and the other queues alone, and counts a delimiter off exactly when one ended the line.
\<close>

theorem canon_loop_is_edit:
  assumes "tinv B s" "\<forall>c \<in> set (tcont s (tp, Rawq)). c < 128 \<or> c = 255"
  shows "case edit (tty s tp) [] (tcont s (tp, Rawq)) of (line, rest, ended) \<Rightarrow>
    \<exists>s'. canon_loop (Suc (nat (qcount Rawq tp s))) tp [] s = Ok (rev line) s' \<and> tinv B s'
      \<and> tcont s' = (tcont s)((tp, Rawq) := rest)
      \<and> t_delct (tty s' tp) = (if ended then u8 (t_delct (tty s tp) - 1) else t_delct (tty s tp))"
proof -
  have "\<forall>c \<in> set (tcont s (tp, Rawq)). 0 \<le> c" using ttyq.cont_byte [OF assms(1), of _ "(tp, Rawq)"] by auto
  then have R: "edit_rev (tty s tp) (rev []) (tcont s (tp, Rawq))
      = (case edit (tty s tp) [] (tcont s (tp, Rawq)) of (L', rest, ended) \<Rightarrow> (rev L', rest, ended))"
    using assms(2) by (intro edit_rev_edit) auto
  have "length (tcont s (tp, Rawq)) < Suc (nat (qcount Rawq tp s))" using tqcount [OF assms(1), of Rawq tp] by simp
  note E = canon_loop_edit [OF assms this, of "rev []"]
  obtain line rest ended where e: "edit (tty s tp) [] (tcont s (tp, Rawq)) = (line, rest, ended)"
    by (cases "edit (tty s tp) [] (tcont s (tp, Rawq))")
  from E [unfolded R e prod.case] show ?thesis unfolding e prod.case by (simp only: rev.simps)
qed

text \<open>\<open>x\#\\#\a\b#\<close> and a delimiter, with capital letters only: the line is \<open>x#\#A\<close>.\<close>

definition escaped :: world where
  "escaped = bss_world\<lparr>
     cl := zero_clmem\<lparr>c_info := (\<lambda>_. 0)(20 := 120, 21 := 92, 22 := 35, 23 := 92, 24 := 92, 25 := 35, 26 := 92, 27 := 97, 28 := 98, 29 := 35, 30 := 255)\<rparr>,
     tty := (\<lambda>_. zero_tty)(0 := zero_tty\<lparr>t_erase := 35, t_kill := 64, t_eofc := 4, t_delct := 1, t_flags := LCASE,
       t_rawq := \<lparr>c_cc = 11, c_cf = 20, c_cl = 31\<rparr>\<rparr>)\<rparr>"

lemma escaped_tinv: "tinv {16} escaped"
proof -
  have q: "tq q (tty escaped tp) = (if tp = 0 \<and> q = Rawq then \<lparr>c_cc = 11, c_cf = 20, c_cl = 31\<rparr> else zero_clist)" for q tp
    by (cases q) (simp_all add: escaped_def zero_tty_def)
  have "pool_rep {16} (cl escaped) (\<lambda>(tp, q). tq q (tty escaped tp)) (\<lambda>x. if x = (0, Rawq) then [16] else []) []"
    by (auto simp: pool_rep_def frep_def crep_def q zero_clist_def) (simp_all add: escaped_def zero_clmem_def)
  then show ?thesis by (auto simp: tinv_def pool_inv_def tview_def)
qed

lemma escaped_cont: "tcont escaped (0, Rawq) = [120, 92, 35, 92, 92, 35, 92, 97, 98, 35, 255]"
  by (simp add: tcont_def pool_cont_def contents_def tview_def escaped_def zero_tty_def gather_numeral u8_def)

theorem canon_loop_is_edit_witness:
  "\<exists>s'. canon_loop (Suc (nat (qcount Rawq 0 escaped))) 0 [] escaped = Ok (rev [120, 35, 92, 35, 65]) s' \<and> tinv {16} s'"
proof -
  let ?t = "zero_tty\<lparr>t_erase := 35, t_kill := 64, t_eofc := 4, t_flags := LCASE\<rparr>"
  have "edit ?t [] [120, 92, 35, 92, 92, 35, 92, 97, 98, 35, 255] = ([120, 35, 92, 35, 65], [], True)"
    by code_simp
  moreover have "edit (tty escaped 0) [] cs = edit ?t [] cs" for cs
    by (rule edit_params_edit) (simp add: escaped_def edit_params_def)
  ultimately have e: "edit (tty escaped 0) [] (tcont escaped (0, Rawq)) = ([120, 35, 92, 35, 65], [], True)"
    unfolding escaped_cont by metis
  have "\<forall>c \<in> set (tcont escaped (0, Rawq)). c < 128 \<or> c = 255" by (simp add: escaped_cont)
  from canon_loop_is_edit [OF escaped_tinv this, unfolded e prod.case] show ?thesis by blast
qed

end
