(* ===== verification/Syscalls.thy ===== *)
theory Syscalls
  imports Signals Callout Tty
begin

text \<open>
  The remaining system calls (\<open>usr/sys/sys/sys4.c\<close>), the table of system calls (\<open>sysent.c\<close>), the
  entry from user mode and the way back (\<open>usr/sys/bcm283x/traps.c\<close>), and the start of the file
  system (\<open>iinit\<close> of \<open>main.c\<close>).
\<close>

section \<open>Time and identity\<close>

definition gtime :: "'z kst_scheme \<Rightarrow> 'z kst_scheme" where
  "gtime s = upd_u (\<lambda>x. x\<lparr>u_r_val1 := time s\<rparr>) s"

text \<open>\<open>struct timeb\<close>: the time, milliseconds, zone and flag, and two bytes of padding.\<close>

definition timeb_bytes :: "'z kst_scheme \<Rightarrow> int list" where
  "timeb_bytes s =
     (let ms = u32 (lbolt s);
          (ms, t) = (if ms > 10 then (ms - 10, s32 (time s + 1)) else (ms, time s))
      in bytes32 t @ bytes16 (1000 * ms div 10) @ bytes16 300 @ bytes16 1 @ [junk s 0, junk s 1])"

definition ftime :: "world \<Rightarrow> (unit, world) res" where
  "ftime w =
     bnd (to_user 0 (timeb_bytes w) (u32 (arg 0 w)) w) (\<lambda>r w. Ok () (if r < 0 then set_error EFAULT w else w))"

definition stime :: "'z kst_scheme \<Rightarrow> 'z kst_scheme" where
  "stime s = (case suser s of (True, s) \<Rightarrow> s\<lparr>time := arg 0 s\<rparr> | (False, s) \<Rightarrow> s)"

definition setuid :: "'z kst_scheme \<Rightarrow> 'z kst_scheme" where
  "setuid s =
     (let uid = arg 0 s in
      case (if u_ruid (u s) = uid then (True, s) else suser s) of
        (False, s) \<Rightarrow> s
      | (True, s) \<Rightarrow>
          (let s = upd_u (\<lambda>x. x\<lparr>u_uid := s16 uid, u_ruid := s16 uid\<rparr>) s
           in upd_proc (u_procp (u s)) (\<lambda>r. r\<lparr>p_uid := s16 uid\<rparr>) s))"

definition getuid :: "'z kst_scheme \<Rightarrow> 'z kst_scheme" where
  "getuid s = upd_u (\<lambda>x. x\<lparr>u_r_val1 := u_ruid x, u_r_val2 := u_uid x\<rparr>) s"

definition setgid :: "'z kst_scheme \<Rightarrow> 'z kst_scheme" where
  "setgid s =
     (let gid = arg 0 s in
      case (if u_rgid (u s) = gid then (True, s) else suser s) of
        (False, s) \<Rightarrow> s
      | (True, s) \<Rightarrow> upd_u (\<lambda>x. x\<lparr>u_gid := s16 gid, u_rgid := s16 gid\<rparr>) s)"

definition getgid :: "'z kst_scheme \<Rightarrow> 'z kst_scheme" where
  "getgid s = upd_u (\<lambda>x. x\<lparr>u_r_val1 := u_rgid x, u_r_val2 := u_gid x\<rparr>) s"

definition getpid :: "'z kst_scheme \<Rightarrow> 'z kst_scheme" where
  "getpid s =
     (let r = proc s (u_procp (u s)) in upd_u (\<lambda>x. x\<lparr>u_r_val1 := p_pid r, u_r_val2 := p_ppid r\<rparr>) s)"

definition sync :: "world \<Rightarrow> (unit, world) res" where
  "sync w = update w"

definition nice :: "'z kst_scheme \<Rightarrow> 'z kst_scheme" where
  "nice s =
     (let n = arg 0 s;
          (n, s) = (if n < 0 then (case suser s of (True, s) \<Rightarrow> (n, s) | (False, s) \<Rightarrow> (0, s)) else (n, s));
          me = u_procp (u s);
          n = s32 (n + p_nice (proc s me));
          n = (if n \<ge> 2 * NZERO then 2 * NZERO - 1 else n);
          n = (if n < 0 then 0 else n)
      in upd_proc me (\<lambda>r. r\<lparr>p_nice := n\<rparr>) s)"

definition times_call :: "world \<Rightarrow> (unit, world) res" where
  "times_call w =
     (let x = u w in
      bnd (to_user 0 (concat (map bytes32 [u_utime x, u_stime x, u_cutime x, u_cstime x])) (u32 (arg 0 w)) w)
        (\<lambda>r w. Ok () (if r < 0 then set_error EFAULT w else w)))"

definition profil :: "'z kst_scheme \<Rightarrow> 'z kst_scheme" where
  "profil s =
     upd_u (\<lambda>x. x\<lparr>u_prof := \<lparr>pr_base = u32 (u_arg x 0), pr_size = u32 (u_arg x 1), pr_off = u32 (u_arg x 2),
                              pr_scale = u32 (u_arg x 3)\<rparr>\<rparr>) s"

section \<open>Signals and waiting\<close>

definition ssig :: "'z kst_scheme \<Rightarrow> 'z kst_scheme" where
  "ssig s =
     (let a = arg 0 s in
      if a \<le> 0 \<or> a \<ge> NSIG \<or> a = 9 then set_error EINVAL s
      else
        (let s = upd_u (\<lambda>x. x\<lparr>u_r_val1 := u_signal x (nat a), u_signal := (u_signal x)(nat a := u_arg x 1)\<rparr>) s
         in upd_proc (u_procp (u s)) (\<lambda>r. r\<lparr>p_sig := s16 (p_sig r AND NOT (push_bit (nat (a - 1)) 1))\<rparr>) s))"

definition kill_hits :: "int \<Rightarrow> bool \<Rightarrow> 'z kst_scheme \<Rightarrow> nat \<Rightarrow> bool" where
  "kill_hits a priv s p =
     (let r = proc s p in
      p_stat r \<noteq> 0 \<and> (a = 0 \<or> p_pid r = a)
      \<and> \<not> (a = 0 \<and> ((p_pgrp r \<noteq> p_pgrp (proc s (u_procp (u s))) \<and> \<not> priv) \<or> p \<le> 1))
      \<and> (u_uid (u s) = 0 \<or> u_uid (u s) = p_uid r))"

fun kill_loop :: "nat list \<Rightarrow> int \<Rightarrow> bool \<Rightarrow> int \<Rightarrow> bool \<Rightarrow> 'z kst_scheme \<Rightarrow> (bool, 'z kst_scheme) res" where
  "kill_loop [] a priv sig f s = Ok f s"
| "kill_loop (p # ps) a priv sig f s =
     (if kill_hits a priv s p then bnd (psignal p sig s) (\<lambda>_ s. kill_loop ps a priv sig True s)
      else kill_loop ps a priv sig f s)"

definition kill :: "'z kst_scheme \<Rightarrow> (unit, 'z kst_scheme) res" where
  "kill s =
     (let priv = (arg 0 s = -1 \<and> u_uid (u s) = 0); a = (if priv then 0 else arg 0 s) in
      bnd (kill_loop [0..<NPROC] a priv (arg 1 s) False s) (\<lambda>f s. Ok () (if f then s else set_error ESRCH s)))"

definition alarm :: "'z kst_scheme \<Rightarrow> 'z kst_scheme" where
  "alarm s =
     (let p = u_procp (u s); c = p_clktim (proc s p); s = upd_proc p (\<lambda>r. r\<lparr>p_clktim := arg 0 s\<rparr>) s
      in upd_u (\<lambda>x. x\<lparr>u_r_val1 := c\<rparr>) s)"

definition pause :: "world \<Rightarrow> (unit, world) res" where
  "pause w = await (\<lambda>_. True) id (addr_of w Ch_u) PSLEP w"

definition umask :: "'z kst_scheme \<Rightarrow> 'z kst_scheme" where
  "umask s = upd_u (\<lambda>x. x\<lparr>u_cmask := u_arg x 0 AND 511, u_r_val1 := u_cmask x\<rparr>) s"

section \<open>The table of system calls\<close>

definition nosys :: "'z kst_scheme \<Rightarrow> 'z kst_scheme" where
  "nosys s = set_error EINVAL s"

definition pure_call :: "(world \<Rightarrow> world) \<Rightarrow> world \<Rightarrow> (unit, world) res" where
  "pure_call f w = Ok () (f w)"

text \<open>Number of arguments, how many of them in registers, handler. \<open>fork\<close> is seen from the parent.\<close>

definition sysent :: "(nat \<times> nat \<times> (world \<Rightarrow> (unit, world) res)) list" where
  "sysent =
     [(0, 0, pure_call id), (1, 1, rexit), (0, 0, \<lambda>w. bnd (fork w) (\<lambda>_ w. Ok () w)), (3, 1, read_call),
      (3, 1, write_call), (2, 0, open_call), (1, 1, close_call), (0, 0, wait), (2, 0, creat), (2, 0, link),
      (1, 0, unlink), (2, 0, exec), (1, 0, chdir), (0, 0, pure_call gtime), (3, 0, mknod), (2, 0, chmod),
      (3, 0, chown), (1, 0, sbreak), (2, 0, stat), (3, 1, seek), (0, 0, pure_call getpid), (3, 0, smount),
      (1, 0, sumount), (1, 1, pure_call setuid), (0, 0, pure_call getuid), (2, 2, pure_call stime), (4, 1, ptrace),
      (1, 1, pure_call alarm), (2, 1, fstat), (0, 0, pause), (2, 0, utime), (2, 1, stty), (2, 1, gtty),
      (2, 0, saccess), (1, 1, pure_call nice), (1, 0, ftime), (0, 0, sync), (2, 1, kill), (0, 0, pure_call id),
      (0, 0, pure_call id), (1, 1, pure_call nosys), (2, 2, dup), (0, 0, pipe), (1, 0, times_call),
      (4, 0, pure_call profil), (0, 0, pure_call nosys), (1, 1, pure_call setgid), (0, 0, pure_call getgid),
      (2, 0, pure_call ssig), (0, 0, pure_call nosys), (0, 0, pure_call nosys), (1, 0, sysacct),
      (3, 0, pure_call nosys), (1, 0, syslock), (3, 0, ioctl), (0, 0, pure_call nosys), (4, 0, pure_call nosys),
      (0, 0, pure_call nosys), (0, 0, pure_call nosys), (3, 0, exece), (1, 0, pure_call umask), (1, 0, chroot),
      (0, 0, pure_call nosys), (0, 0, pure_call nosys)]"

section \<open>Entry and exit\<close>

definition usermode :: "int \<Rightarrow> bool" where
  "usermode ps = (ps AND 31 = 16)"

text \<open>
  \<open>addupc pc ticks\<close> is the assembly routine that counts profiling ticks. The saved registers are
  \<open>u_ar0\<close>.
\<close>

definition trap_tail :: "(int \<Rightarrow> int \<Rightarrow> world \<Rightarrow> world) \<Rightarrow> int \<Rightarrow> world \<Rightarrow> (unit, world) res" where
  "trap_tail addupc syst w =
     bnd (issig w) (\<lambda>n w.
     bnd (if n \<noteq> 0 then psig w else Ok () w) (\<lambda>_ w.
       (case setpri (u_procp (u w)) w of
          (pri, w) \<Rightarrow>
            (let w = w\<lparr>curpri := pri\<rparr> in
             bnd (if usermode (u_ar0 (u w) reg_RPS) \<and> runrun w \<noteq> 0 then qswtch w else Ok () w) (\<lambda>_ w.
               Ok () (if pr_scale (u_prof (u w)) \<noteq> 0
                      then addupc (u_ar0 (u w) reg_PC) (s32 (u_stime (u w) - syst)) w else w))))))"

fun fetch_args :: "nat \<Rightarrow> nat \<Rightarrow> int \<Rightarrow> world \<Rightarrow> (unit, world) res" where
  "fetch_args i 0 a w = Ok () w"
| "fetch_args i (Suc n) a w =
     bnd (fuword (u32 a) w) (\<lambda>v w. fetch_args (i + 1) n (a + 4) (upd_u (\<lambda>x. x\<lparr>u_arg := (u_arg x)(i := v)\<rparr>) w))"

text \<open>A signal during the call comes back through \<open>u_qsav\<close> with the error \<open>EINTR\<close> unless there is one.\<close>

definition run_call :: "(world \<Rightarrow> (unit, world) res) \<Rightarrow> world \<Rightarrow> (unit, world) res" where
  "run_call f w =
     (case f w of
        Jump w \<Rightarrow> Ok () (if u_error (u w) = 0 then set_error EINTR w else w)
      | r \<Rightarrow> r)"

definition sys_result :: "world \<Rightarrow> world" where
  "sys_result w =
     (if u_error (u w) \<noteq> 0 then
        set_reg 0 (u_error (u w)) (set_reg reg_RPS (u_ar0 (u w) reg_RPS OR 0x20000000) w)
      else set_reg 1 (u_r_val2 (u w)) (set_reg 0 (u_r_val1 (u w)) w))"

definition c_entry_swi :: "(int \<Rightarrow> int \<Rightarrow> world \<Rightarrow> world) \<Rightarrow> int \<Rightarrow> world \<Rightarrow> (unit, world) res" where
  "c_entry_swi addupc sn w =
     (let syst = u_stime (u w);
          w = upd_u (\<lambda>x. x\<lparr>u_fpsaved := 0, u_error := 0\<rparr>) w;
          w = set_reg reg_RPS (u_ar0 (u w) reg_RPS AND NOT 0x20000000) w;
          a = u32 (u_ar0 (u w) reg_LR); k = nat (sn AND 63)
      in bnd (if k = 0 then
                bnd (fuword a w) (\<lambda>a w.
                bnd (fuword (u32 a) w) (\<lambda>i w. Ok (nat ((if i > 63 then 63 else i) AND 63), u32 (u32 a + 4)) w))
              else Ok (k, a) w) (\<lambda>(k, a) w.
           (let (narg, nrarg, handler) = sysent ! k;
                w = upd_u (\<lambda>x. x\<lparr>u_arg := (\<lambda>i. if i < nrarg then u_ar0 x i else u_arg x i)\<rparr>) w
            in bnd (fetch_args nrarg (narg - nrarg) a w) (\<lambda>_ w.
               bnd (run_call handler (upd_u (\<lambda>x. x\<lparr>u_dirp := u32 (u_arg x 0), u_r_val1 := u_ar0 x 0,
                      u_r_val2 := u_ar0 x 1\<rparr>) w)) (\<lambda>_ w.
                 trap_tail addupc syst (sys_result w))))))"

definition c_entry_dabt :: "(int \<Rightarrow> int \<Rightarrow> world \<Rightarrow> world) \<Rightarrow> world \<Rightarrow> (unit, world) res" where
  "c_entry_dabt addupc w =
     (let syst = u_stime (u w); w = upd_u (\<lambda>x. x\<lparr>u_fpsaved := 0\<rparr>) w in
      if \<not> usermode (u_ar0 (u w) reg_RPS) then Panic ''data abort in kernel mode'' w
      else
        (let osp = u32 (u_ar0 (u w) reg_SP) in
         bnd (if osp < u32 (USERTOP - ctob (u_ssize (u w))) then grow osp w else Ok False w) (\<lambda>grown w.
         bnd (if grown then Ok () w else psignal (u_procp (u w)) 11 w) (\<lambda>_ w. trap_tail addupc syst w))))"

section \<open>The root file system\<close>

definition iinit :: "world \<Rightarrow> (unit, world) res" where
  "iinit w =
     (let dev = rootdev w; w = on_kst (bd_open w (major dev) dev 1) w in
      bnd (bread dev SUPERB w) (\<lambda>bp w.
      bnd (geteblk w) (\<lambda>cp w.
        if u_error (u w) \<noteq> 0 then Panic ''iinit'' w
        else
          (let data = bcopy (b_data (buf w bp)) 0 (b_data (buf w cp)) 0 448;
               w = upd_buf cp (\<lambda>b. b\<lparr>b_data := data\<rparr>) w
           in bnd (brelse bp w) (\<lambda>_ w.
                (let f = (fs_get data)\<lparr>s_flock := 0, s_ilock := 0, s_ronly := 0\<rparr>
                 in Ok () (w\<lparr>mount := (mount w)(0 := (mount w 0)\<lparr>m_bufp := Some cp, m_dev := dev, m_fs := f\<rparr>),
                             time := s_time f\<rparr>)))))))"

lemma s32_over: "2147483648 \<le> x \<Longrightarrow> x < 6442450944 \<Longrightarrow> s32 x = x - 4294967296"
proof -
  assume x: "2147483648 \<le> x" "x < 6442450944"
  have "x + 2147483648 = (x - 2147483648) + 4294967296" by simp
  then have "(x + 2147483648) mod 4294967296 = (x - 2147483648) mod 4294967296" by (simp only: mod_add_self2)
  also have "\<dots> = x - 2147483648" using x by simp
  finally show ?thesis by (simp add: s32_def)
qed

section \<open>Signals stay within a user's processes\<close>

text \<open>What waking a process leaves alone in every entry of the process table.\<close>

definition same_ids :: "'z kst_scheme \<Rightarrow> 'z kst_scheme \<Rightarrow> bool" where
  "same_ids s t \<longleftrightarrow> (\<forall>q. p_sig (proc t q) = p_sig (proc s q) \<and> p_uid (proc t q) = p_uid (proc s q)
     \<and> p_pid (proc t q) = p_pid (proc s q) \<and> p_pgrp (proc t q) = p_pgrp (proc s q))"

lemma same_ids_refl [simp]: "same_ids s s"
  by (simp add: same_ids_def)

lemma same_ids_trans: "same_ids s t \<Longrightarrow> same_ids t r \<Longrightarrow> same_ids s r"
  by (simp add: same_ids_def)

lemma same_ids_updI [simp]:
  "(\<And>r. p_sig (f r) = p_sig r \<and> p_uid (f r) = p_uid r \<and> p_pid (f r) = p_pid r \<and> p_pgrp (f r) = p_pgrp r) \<Longrightarrow>
     same_ids s (upd_proc p f s)"
  "same_ids s (slp_unlink i q l s)" "same_ids s (kprintf m s)"
  "same_ids s (s\<lparr>runrun := rr\<rparr>)" "same_ids s (s\<lparr>runq := rq\<rparr>)" "same_ids s (s\<lparr>runout := ro\<rparr>)"
  by (simp_all add: same_ids_def slp_unlink_def upd_defs split: option.splits)

lemma ids_pre: "same_ids s t \<Longrightarrow> outcome (same_ids t) m \<Longrightarrow> outcome (same_ids s) m"
  by (erule outcome_mono) (rule same_ids_trans)

lemma ids_bnd:
  "outcome (same_ids s) m \<Longrightarrow> (\<And>x t. outcome (same_ids t) (f x t)) \<Longrightarrow> outcome (same_ids s) (bnd m f)"
  by (rule outcome_bnd) (auto intro: ids_pre)

lemma setrq_ids: "outcome (same_ids s) (setrq p s)"
proof (cases "on_queue qfuel (proc s) (runq s) p")
  case (Some b)
  then show ?thesis by (cases b) (simp_all add: setrq_def same_ids_def upd_proc_def kprintf_def)
qed (simp add: setrq_def)

lemma wakeup_ids_n:
  "(\<forall>chan i p q s. outcome (same_ids (s :: 'z kst_scheme)) (wakeup_loop n chan i p q s)) \<and>
   (\<forall>r s. outcome (same_ids (s :: 'z kst_scheme)) (setrun_n n r s))"
proof (induction n)
  case (Suc n)
  then have IH: "outcome (same_ids s) (wakeup_loop n chan i p q s)" "outcome (same_ids s) (setrun_n n r s)"
    for chan i p q r and s :: "'z kst_scheme" by auto
  have "outcome (same_ids s) (wakeup_loop (Suc n) chan i p q s)" for chan i p q and s :: "'z kst_scheme"
    by (auto simp: Let_def IH split: option.splits
        intro!: ids_bnd ids_pre [OF _ IH(2)] same_ids_trans [OF same_ids_updI(2) same_ids_updI(1)])
  moreover have "outcome (same_ids s) (setrun_n (Suc n) r s)" for r and s :: "'z kst_scheme"
  proof -
    define tail where "tail t =
        (let t = (if p_pri (proc t r) < curpri t then t\<lparr>runrun := u8 (runrun t + 1)\<rparr> else t) in
         if runout t \<noteq> 0 \<and> SLOAD \<notin> p_flag (proc t r) then
           (let t = t\<lparr>runout := 0\<rparr>; c = addr_of t Ch_runout in wakeup_loop n c (HASH c) (slpque t (HASH c)) None t)
         else Ok () t)" for t :: "'z kst_scheme"
    have tail: "outcome (same_ids t) (tail t)" for t
      by (auto simp: Let_def tail_def intro!: ids_pre [OF _ IH(1)] intro: same_ids_trans [OF same_ids_updI(4) same_ids_updI(6)])
    have "setrun_n (Suc n) r s =
      (if p_stat (proc s r) = 0 \<or> p_stat (proc s r) = SZOMB then Panic ''Running a dead proc'' s
       else if p_wchan (proc s r) \<noteq> 0
       then wakeup_loop n (p_wchan (proc s r)) (HASH (p_wchan (proc s r))) (slpque s (HASH (p_wchan (proc s r)))) None s
       else bnd (setrq r (upd_proc r (\<lambda>r. r\<lparr>p_stat := SRUN\<rparr>) s)) (\<lambda>_. tail))"
      by (simp add: tail_def [abs_def] Let_def)
    then show ?thesis
      by (auto simp: IH(1) tail intro!: ids_bnd ids_pre [OF _ setrq_ids])
  qed
  ultimately show ?case by blast
qed simp

lemma setrun_ids: "outcome (same_ids s) (setrun p s)"
  unfolding setrun_def by (rule wakeup_ids_n [THEN conjunct2, rule_format])

text \<open>A signal to \<open>p\<close>: no other process gets one, and nobody's owner changes.\<close>

definition signals_only :: "nat set \<Rightarrow> 'z kst_scheme \<Rightarrow> 'z kst_scheme \<Rightarrow> bool" where
  "signals_only P s t \<longleftrightarrow> u t = u s \<and> (\<forall>q. p_uid (proc t q) = p_uid (proc s q) \<and> (q \<notin> P \<longrightarrow> p_sig (proc t q) = p_sig (proc s q)))"

lemma signals_only_trans: "signals_only P s t \<Longrightarrow> signals_only Q t r \<Longrightarrow> P \<subseteq> R \<Longrightarrow> Q \<subseteq> R \<Longrightarrow> signals_only R s r"
  unfolding signals_only_def by (metis subset_iff)

lemma psignal_only: "outcome (signals_only {p} s) (psignal p sig s)"
proof -
  have r: "outcome (signals_only {p} s) (setrun p t)" if "signals_only {p} s t" for t
  proof -
    have "outcome (\<lambda>r. same_ids t r \<and> same_but_queues t r) (setrun p t)"
      using setrun_ids [of t p] setrun_same [of t p] by (cases "setrun p t") simp_all
    then show ?thesis
      by (rule outcome_mono) (use that in \<open>auto simp: signals_only_def same_ids_def dest: sameD(1)\<close>)
  qed
  have "signals_only {p} s (upd_proc p f s)" if "\<And>r. p_uid (f r) = p_uid r" for f
    using that by (simp add: signals_only_def upd_proc_def)
  then show ?thesis
    unfolding psignal_def Let_def
    by (auto intro!: r simp: signals_only_def upd_proc_def)
qed

lemma kill_loop_only:
  "u_uid (u s) \<noteq> 0 \<Longrightarrow> outcome (signals_only {q. p_uid (proc s q) = u_uid (u s)} s) (kill_loop ps a priv sig f s)"
proof (induction ps arbitrary: f s)
  case (Cons p ps)
  show ?case
  proof (cases "kill_hits a priv s p")
    case True
    then have p: "{p} \<subseteq> {q. p_uid (proc s q) = u_uid (u s)}" using Cons.prems by (auto simp: kill_hits_def Let_def)
    have "outcome (signals_only {q. p_uid (proc s q) = u_uid (u s)} s) (bnd (psignal p sig s) (\<lambda>_ s. kill_loop ps a priv sig True s))"
    proof (rule outcome_bnd)
      show "outcome (signals_only {q. p_uid (proc s q) = u_uid (u s)} s) (psignal p sig s)"
        by (rule outcome_mono [OF psignal_only]) (use p in \<open>auto simp: signals_only_def\<close>)
    next
      fix x t assume "signals_only {q. p_uid (proc s q) = u_uid (u s)} s t"
      moreover from this have e: "u t = u s" "{q. p_uid (proc t q) = u_uid (u t)} = {q. p_uid (proc s q) = u_uid (u s)}"
        by (auto simp: signals_only_def)
      ultimately show "outcome (signals_only {q. p_uid (proc s q) = u_uid (u s)} s) (kill_loop ps a priv sig True t)"
        using Cons.IH [of t True] Cons.prems
        by (auto simp: e intro: signals_only_trans elim!: outcome_mono)
    qed
    then show ?thesis using True by simp
  qed (use Cons in simp)
qed (simp add: signals_only_def)

text \<open>
  Claim C28. Whatever a process that is not the super-user's passes to \<open>kill\<close>, no process of another
  user receives a signal.
\<close>

theorem kill_own_processes_only:
  assumes "u_uid (u s) \<noteq> 0" "p_uid (proc s q) \<noteq> u_uid (u s)"
  shows "outcome (\<lambda>t. p_sig (proc t q) = p_sig (proc s q)) (kill s)"
proof -
  have "outcome (\<lambda>t. p_sig (proc t q) = p_sig (proc s q)) (kill_loop ps a priv sig f s)" for ps a priv sig f
    by (rule outcome_mono [OF kill_loop_only [OF assms(1)]]) (use assms(2) in \<open>auto simp: signals_only_def\<close>)
  then show ?thesis
    unfolding kill_def Let_def by (intro outcome_bnd) (auto simp: set_error_def)
qed

theorem kill_own_processes_only_witness:
  "outcome (\<lambda>t. p_sig (proc t 4) = 0) (kill (bss\<lparr>u := zero_user\<lparr>u_uid := 5, u_arg := (\<lambda>_. 0)(1 := 9)\<rparr>,
     proc := (\<lambda>_. zero_proc)(4 := zero_proc\<lparr>p_stat := SRUN, p_uid := 6\<rparr>)\<rparr>))"
proof -
  let ?s = "bss\<lparr>u := zero_user\<lparr>u_uid := 5, u_arg := (\<lambda>_. 0)(1 := 9)\<rparr>,
     proc := (\<lambda>_. zero_proc)(4 := zero_proc\<lparr>p_stat := SRUN, p_uid := 6\<rparr>)\<rparr>"
  have "outcome (\<lambda>t. p_sig (proc t 4) = p_sig (proc ?s 4)) (kill ?s)"
    by (rule kill_own_processes_only) (simp_all add: zero_user_def)
  then show ?thesis by (simp add: zero_proc_def)
qed

section \<open>Scheduling parameters\<close>

text \<open>
  \<open>nice\<close> keeps the value between 0 and 39. A process that is not the super-user's cannot
  lower its own by any increment that does not overflow.
\<close>

theorem nice_in_range:
  assumes "0 \<le> p_nice (proc s (u_procp (u s)))" "p_nice (proc s (u_procp (u s))) \<le> 39" "arg 0 s < 2147483600"
    "- 2147483648 \<le> arg 0 s"
  shows "0 \<le> p_nice (proc (nice s) (u_procp (u s))) \<and> p_nice (proc (nice s) (u_procp (u s))) \<le> 39
    \<and> (u_uid (u s) \<noteq> 0 \<longrightarrow> p_nice (proc s (u_procp (u s))) \<le> p_nice (proc (nice s) (u_procp (u s))))"
proof -
  have "s32 (arg 0 s + p_nice (proc s (u_procp (u s)))) = arg 0 s + p_nice (proc s (u_procp (u s)))"
    "s32 (p_nice (proc s (u_procp (u s)))) = p_nice (proc s (u_procp (u s)))"
    using assms by (auto intro!: s32_id)
  then show ?thesis
    using assms by (auto simp: nice_def Let_def suser_def upd_defs)
qed

theorem nice_in_range_witness:
  "p_nice (proc (nice (bss\<lparr>u := zero_user\<lparr>u_uid := 5, u_arg := \<lambda>_. 100\<rparr>\<rparr>)) 0) \<le> 39"
  using nice_in_range [of "bss\<lparr>u := zero_user\<lparr>u_uid := 5, u_arg := \<lambda>_. 100\<rparr>\<rparr>"]
  by (simp add: zero_user_def bss_def zero_proc_def arg_def)

text \<open>
  With an increment near the largest integer the addition in \<open>nice\<close> wraps around: any user
  gets the value 0, the best there is, without being refused.
\<close>

theorem nice_wraps_to_best:
  assumes "u_arg (u s) 0 = 2147483647" "0 < p_nice (proc s (u_procp (u s)))" "p_nice (proc s (u_procp (u s))) \<le> 39"
  shows "p_nice (proc (nice s) (u_procp (u s))) = 0 \<and> u_error (u (nice s)) = u_error (u s)"
proof -
  have "s32 (2147483647 + p_nice (proc s (u_procp (u s)))) = p_nice (proc s (u_procp (u s))) - 2147483649"
    using assms(2,3) by (subst s32_over) simp_all
  then show ?thesis using assms by (simp add: nice_def Let_def upd_defs arg_def)
qed

theorem nice_wraps_to_best_witness:
  "p_nice (proc (nice (bss\<lparr>u := zero_user\<lparr>u_uid := 5, u_arg := \<lambda>_. 2147483647\<rparr>, proc := \<lambda>_. zero_proc\<lparr>p_nice := 20\<rparr>\<rparr>)) 0) = 0"
  using nice_wraps_to_best [of "bss\<lparr>u := zero_user\<lparr>u_uid := 5, u_arg := \<lambda>_. 2147483647\<rparr>, proc := \<lambda>_. zero_proc\<lparr>p_nice := 20\<rparr>\<rparr>"]
  by (simp add: zero_user_def)

end
