(* ===== verification/Disk.thy ===== *)
theory Disk
  imports Bio Bytes
begin

text \<open>
  The disk driver of this machine (\<open>usr/sys/bcm283x/dev/sdx.c\<close>): the partitions of the card, the queue of
  transfers, its start and its interrupt. The queue is linked through \<open>av_forw\<close> of the buffers; its head
  \<open>sdxtab\<close> is one of the device tables above the pool, whose \<open>av_forw\<close>, \<open>av_back\<close>, \<open>b_bcount\<close> and \<open>b_resid\<close> are
  \<open>b_actf\<close>, \<open>b_actl\<close>, \<open>b_active\<close> and \<open>b_errcnt\<close>. The null pointer is the number \<open>NULLBUF\<close>, which no buffer has.

  The routines \<open>sd_io.init\<close>, \<open>sd_io.iostart\<close>, \<open>sd_io.iowait\<close> and \<open>sd_io.iofinish\<close>, which talk to the controller of the
  card, are a parameter; they are given the contents of the memory of the transfer and change the state \<open>card\<close>, and
  they may refuse a transfer or report a failure. A finished transfer gives the new contents of the memory. \<open>splx\<close> and the memory barriers have no counterpart: a routine is not interrupted.
\<close>

section \<open>State\<close>

record volume_t =
  v_present :: int
  v_start :: int
  v_count :: int

record 'c disk = kst +
  volumes :: "nat \<Rightarrow> volume_t"
  sd_handle :: int
  dk_wds :: "nat \<Rightarrow> int"
  dk_numb :: "nat \<Rightarrow> int"
  irq_sdx :: bool
  card :: 'c

record 'c sd_io_t =
  sd_init :: "int \<Rightarrow> 'c \<Rightarrow> int \<times> 'c"
  iostart :: "bool \<Rightarrow> int \<Rightarrow> (nat \<Rightarrow> int) \<Rightarrow> 'c \<Rightarrow> int \<times> 'c"
  sd_iowait :: "bool \<Rightarrow> int \<Rightarrow> 'c \<Rightarrow> int \<times> 'c"
  iofinish :: "bool \<Rightarrow> (nat \<Rightarrow> int) \<Rightarrow> 'c \<Rightarrow> int \<times> (nat \<Rightarrow> int) \<times> 'c"

abbreviation (input) sdxtab :: nat where "sdxtab \<equiv> 32"
abbreviation (input) rsdxbuf :: nat where "rsdxbuf \<equiv> 33"
abbreviation (input) NULLBUF :: nat where "NULLBUF \<equiv> 1000"
abbreviation (input) MAX_VOLUMES :: nat where "MAX_VOLUMES \<equiv> 4"

section \<open>Partitions\<close>

text \<open>
  The partition table in the first block of the card: four entries of sixteen bytes from byte 446 on; in an entry
  the type is byte 4, the first sector bytes 8 to 11 and the number of sectors bytes 12 to 15.
\<close>

fun scan_parts :: "(nat \<Rightarrow> int) \<Rightarrow> nat list \<Rightarrow> nat \<Rightarrow> (nat \<Rightarrow> volume_t) \<Rightarrow> nat \<times> (nat \<Rightarrow> volume_t)" where
  "scan_parts b [] nvol vs = (nvol, vs)"
| "scan_parts b (i # is) nvol vs =
     (let pd = 446 + 16 * i in
      if b (pd + 4) = 127 then
        scan_parts b is (nvol + 1)
          (vs(nvol := \<lparr>v_present = 1, v_start = u32 (get32 b (pd + 8)), v_count = u32 (get32 b (pd + 12))\<rparr>))
      else scan_parts b is nvol vs)"

text \<open>\<open>register\<close> is the result of registering the interrupt handler, zero when it is now called.\<close>

definition sdx_init :: "'c sd_io_t \<Rightarrow> int \<Rightarrow> int \<Rightarrow> ('c, 'z) disk_scheme \<Rightarrow> int \<times> ('c, 'z) disk_scheme" where
  "sdx_init io register hz s =
     (let (h, c) = sd_init io hz (card s); s = s\<lparr>sd_handle := h, card := c\<rparr> in
      if h = 0 then (- ENODEV, s)
      else
        (let (ret, c) = iostart io False 0 (\<lambda>_. 0) (card s); s = s\<lparr>card := c\<rparr> in
         if ret \<noteq> 0 then (ret, s)
         else
           (let (ret, c) = sd_iowait io False 1000000 (card s); s = s\<lparr>card := c\<rparr> in
            if ret \<noteq> 0 then (ret, s)
            else
              (let (ret, b, c) = iofinish io False (\<lambda>_. 0) (card s); s = s\<lparr>card := c\<rparr> in
               if ret \<noteq> 0 then (ret, s)
               else if u16 (get16 b 510) \<noteq> 43605 then (- ENXIO, s)
               else
                 (let (nvol, vs) = scan_parts b [0..<4] 0 (volumes s); s = s\<lparr>volumes := vs\<rparr> in
                  if nvol = 0 then (- ENXIO, s)
                  else if register \<noteq> 0 then (register, s)
                  else (0, s\<lparr>irq_sdx := True\<rparr>))))))"

section \<open>Transfers\<close>

text \<open>A transfer is always of one block, whatever the count of the buffer.\<close>

definition sdxstart :: "'c sd_io_t \<Rightarrow> ('c, 'z) disk_scheme \<Rightarrow> (unit, ('c, 'z) disk_scheme) res" where
  "sdxstart io s =
     (let bp = av_forw (buf s sdxtab) in
      if bp = NULLBUF then Ok () s
      else
        (let ba = u32 (b_blkno (buf s bp) + v_start (volumes s (nat (minor (b_dev (buf s bp))))));
             (r, c) = iostart io (B_READ \<notin> bflag_of s bp) ba (b_data (buf s bp)) (card s);
             s = s\<lparr>card := c\<rparr>
         in if r \<noteq> 0 then iodone bp (set_bflags bp (bflag_of s bp \<union> {B_ERROR}) s)
            else
              (let s = upd_buf sdxtab (\<lambda>b. b\<lparr>b_bcount := u16 (b_bcount b + 1)\<rparr>) s;
                   s = s\<lparr>dk_busy := dk_busy s OR 1\<rparr>;
                   s = s\<lparr>dk_numb := (dk_numb s)(0 := s32 (dk_numb s 0 + 1))\<rparr>;
                   s = s\<lparr>dk_wds := (dk_wds s)(0 := s32 (dk_wds s 0 + drop_bit 6 (b_bcount (buf s bp))))\<rparr>
               in Ok () s)))"

definition sdxstrategy :: "'c sd_io_t \<Rightarrow> nat \<Rightarrow> ('c, 'z) disk_scheme \<Rightarrow> (unit, ('c, 'z) disk_scheme) res" where
  "sdxstrategy io bp s =
     (let sz = drop_bit 9 (b_bcount (buf s bp) + 511);
          unit = nat (minor (b_dev (buf s bp)))
      in if unit \<ge> MAX_VOLUMES \<or> v_present (volumes s unit) = 0
         then iodone bp (set_bflags bp (bflag_of s bp \<union> {B_ERROR}) s)
         else if u32 (b_blkno (buf s bp) + sz) \<ge> v_count (volumes s unit)
         then iodone bp (set_bflags bp (bflag_of s bp \<union> {B_ERROR}) s)
         else
           (let s = upd_buf bp (\<lambda>b. b\<lparr>av_forw := NULLBUF\<rparr>) s;
                s = (if av_forw (buf s sdxtab) \<noteq> NULLBUF
                     then upd_buf (av_back (buf s sdxtab)) (\<lambda>b. b\<lparr>av_forw := bp\<rparr>) s
                     else upd_buf sdxtab (\<lambda>b. b\<lparr>av_forw := bp\<rparr>) s);
                s = upd_buf sdxtab (\<lambda>b. b\<lparr>av_back := bp\<rparr>) s
            in if b_bcount (buf s sdxtab) = 0 then sdxstart io s else Ok () s))"

definition sdxintr :: "'c sd_io_t \<Rightarrow> ('c, 'z) disk_scheme \<Rightarrow> (unit, ('c, 'z) disk_scheme) res" where
  "sdxintr io s =
     (if b_bcount (buf s sdxtab) = 0 then Ok () s
      else
        (let bp = av_forw (buf s sdxtab);
             (r, d, c) = iofinish io (B_READ \<notin> bflag_of s bp) (b_data (buf s bp)) (card s);
             s = s\<lparr>card := c\<rparr>;
             s = upd_buf bp (\<lambda>b. b\<lparr>b_data := d\<rparr>) s;
             s = (if r \<noteq> 0 then set_bflags bp (bflag_of s bp \<union> {B_ERROR}) s else s);
             s = s\<lparr>dk_busy := dk_busy s AND NOT 1\<rparr>;
             bp = av_forw (buf s sdxtab);
             s = upd_buf sdxtab (\<lambda>b. b\<lparr>b_bcount := 0\<rparr>) s;
             s = upd_buf sdxtab (\<lambda>b. b\<lparr>b_resid := 0\<rparr>) s;
             s = upd_buf sdxtab (\<lambda>b. b\<lparr>av_forw := av_forw (buf s bp)\<rparr>) s;
             s = upd_buf bp (\<lambda>b. b\<lparr>b_resid := 0\<rparr>) s
         in bnd (iodone bp s) (\<lambda>_ s. sdxstart io s)))"

section \<open>Completion\<close>

text \<open>
  The process queues are in order, and if the swapper waits for a process to swap in, no process that is swapped out
  sleeps on its own hash queue. Then every wakeup does its work (\<open>wakeup_correct\<close>).
\<close>

definition calm :: "'z kst_scheme \<Rightarrow> bool" where
  "calm s \<longleftrightarrow> (\<exists>rq sq. queues s rq sq \<and> (runout s = 0 \<or> (\<forall>p\<in>set (sq (HASH (swapchan s))). \<not> swapped_out s p)))"

lemma calm_cong:
  assumes "calm s" "runq t = runq s" "slpque t = slpque s" "proc t = proc s" "runout t = runout s" "addr_of t = addr_of s"
  shows "calm t"
  using assms queues_cong [of s _ _ t] unfolding calm_def swapped_out_def by metis

lemma calm_upd [simp]:
  "calm (upd_buf bp f s) = calm s" "calm (set_bflags bp F s) = calm s" "calm (s\<lparr>dk_busy := x\<rparr>) = calm s"
proof -
  have "calm (upd_buf bp f s) = calm s" for f :: "buf \<Rightarrow> buf"
    by (rule iffI; erule calm_cong) (simp_all add: upd_buf_def)
  then show "calm (upd_buf bp f s) = calm s" "calm (set_bflags bp F s) = calm s" by (simp_all add: set_bflags_def)
  show "calm (s\<lparr>dk_busy := x\<rparr>) = calm s" by (rule iffI; erule calm_cong) simp_all
qed

lemma wakeup_calm:
  assumes "calm s"
  shows "\<exists>t. wakeup c s = Ok () t \<and> calm t \<and> buf t = buf s \<and> kst.more t = kst.more s"
proof -
  obtain rq sq where q: "queues s rq sq" "runout s = 0 \<or> (\<forall>p\<in>set (sq (HASH (swapchan s))). \<not> swapped_out s p)"
    using assms by (auto simp: calm_def)
  then have "untangled s c (sq (HASH c))" by (auto simp: untangled_def)
  from wakeup_correct [OF q(1) this] obtain t W where t: "wakeup c s = Ok () t"
    "queues t (rev W @ rq) (\<lambda>h. filter (\<lambda>p. p \<notin> set W) (sq h))" "woken (set W) (s\<lparr>runout := runout t\<rparr>) t"
    "runout t = 0 \<or> runout t = runout s" by auto
  have e: "t = s\<lparr>runout := runout t\<rparr>\<lparr>proc := proc t, runq := runq t, slpque := slpque t, runrun := runrun t\<rparr>"
    using t(3) by (simp add: woken_def sched_frame_def)
  from arg_cong [OF e, of addr_of] arg_cong [OF e, of kst.more] have f: "addr_of t = addr_of s" "kst.more t = kst.more s" by simp_all
  have pr: "proc (s\<lparr>runout := runout t\<rparr>) = proc s" by simp
  have "swapped_out t p = swapped_out s p" for p
  proof -
    obtain l where "proc t p = (if p \<in> set W then (proc s p)\<lparr>p_stat := SRUN, p_wchan := 0, p_link := l\<rparr> else (proc s p)\<lparr>p_link := l\<rparr>)"
      using t(3) unfolding woken_def pr by metis
    then show ?thesis by (simp add: swapped_out_def)
  qed
  then have "runout t = 0 \<or> (\<forall>p\<in>set (filter (\<lambda>p. p \<notin> set W) (sq (HASH (swapchan t)))). \<not> swapped_out t p)"
    using t(4) q(2) unfolding f(1) by auto
  with t(2) have "calm t" unfolding calm_def by blast
  with t(1) f(2) wakeup_links [OF t(1)] show ?thesis by blast
qed

text \<open>What the completion of a buffer leaves alone.\<close>

definition kept :: "nat \<Rightarrow> 'z kst_scheme \<Rightarrow> 'z kst_scheme \<Rightarrow> bool" where
  "kept bp s t \<longleftrightarrow> kst.more t = kst.more s
     \<and> (\<forall>i. b_bcount (buf t i) = b_bcount (buf s i) \<and> b_data (buf t i) = b_data (buf s i) \<and> b_blkno (buf t i) = b_blkno (buf s i))
     \<and> (\<forall>i. i \<noteq> bp \<longrightarrow> b_dev (buf t i) = b_dev (buf s i))
     \<and> (\<forall>i. bflag_of s i - {B_WANTED, B_BUSY, B_ASYNC, B_AGE} \<subseteq> bflag_of t i)
     \<and> (\<forall>i. B_READ \<in> bflag_of t i \<longrightarrow> B_READ \<in> bflag_of s i)"

lemma enqueue_fields:
  "b_bcount (buf (enqueue bp s) i) = b_bcount (buf s i)" "b_flags (buf (enqueue bp s) i) = b_flags (buf s i)"
  "b_data (buf (enqueue bp s) i) = b_data (buf s i)" "b_blkno (buf (enqueue bp s) i) = b_blkno (buf s i)"
  "b_dev (buf (enqueue bp s) i) = b_dev (buf s i)" "kst.more (enqueue bp s) = kst.more s"
  by (simp_all add: enqueue_def Let_def upd_buf_def)

lemma calm_enqueue [simp]: "calm (enqueue bp s) = calm s"
  by (simp add: enqueue_def Let_def)

lemma brelse_calm:
  assumes "calm s"
  shows "\<exists>t. brelse bp s = Ok () t \<and> calm t \<and> kept bp s t"
proof -
  obtain s1 where 1: "(if B_WANTED \<in> bflag_of s bp then wakeup (addr_of s (Ch_buf bp)) s else Ok () s) = Ok () s1"
    "calm s1" "buf s1 = buf s" "kst.more s1 = kst.more s"
    using wakeup_calm [OF assms] assms by (cases "B_WANTED \<in> bflag_of s bp") auto
  let ?s1 = "set_bflags bfreelist (bflag_of s1 bfreelist - {B_WANTED}) s1"
  obtain s2 where 2: "(if B_WANTED \<in> bflag_of s1 bfreelist then wakeup (addr_of s1 Ch_bfreelist) ?s1 else Ok () s1) = Ok () s2"
    "calm s2" "buf s2 = buf s1 \<or> buf s2 = buf ?s1" "kst.more s2 = kst.more s1"
  proof (cases "B_WANTED \<in> bflag_of s1 bfreelist")
    case True
    have "calm ?s1" "kst.more ?s1 = kst.more s1" using 1(2) by (simp, simp add: set_bflags_def upd_buf_def)
    with wakeup_calm [of ?s1] True that show ?thesis by auto
  qed (use 1(2) in auto)
  define s3 where "s3 = (if B_ERROR \<in> bflag_of s2 bp then upd_buf bp (\<lambda>b. b\<lparr>b_dev := NODEV\<rparr>) s2 else s2)"
  define t where "t = set_bflags bp (bflag_of (enqueue bp s3) bp - {B_WANTED, B_BUSY, B_ASYNC, B_AGE}) (enqueue bp s3)"
  have "brelse bp s = Ok () t"
    unfolding brelse_def 1(1) bnd.simps 2(1) by (simp add: Let_def s3_def t_def)
  moreover have "calm t" using 2(2) by (simp add: t_def s3_def)
  moreover have "kept bp s t"
    using 1(3,4) 2(3,4) by (auto simp: kept_def t_def s3_def set_bflags_def upd_buf_def enqueue_fields split: if_splits)
  ultimately show ?thesis by blast
qed

text \<open>After \<open>iodone\<close> the buffer is marked done; the links of other buffers change only along the free list.\<close>

lemma iodone_calm:
  assumes "calm s" "avail s xs" "bp \<notin> set xs" "bp \<noteq> bfreelist"
  shows "\<exists>t xs'. iodone bp s = Ok () t \<and> calm t \<and> avail t xs' \<and> set xs' \<subseteq> insert bp (set xs)
    \<and> B_DONE \<in> bflag_of t bp \<and> kept bp s t
    \<and> (\<forall>i. i \<notin> insert bfreelist (insert bp (set xs)) \<longrightarrow> av_forw (buf t i) = av_forw (buf s i) \<and> av_back (buf t i) = av_back (buf s i))"
proof -
  define s1 where "s1 = set_bflags bp (bflag_of s bp \<union> {B_DONE}) s"
  have r: "calm s1" "avail s1 xs" unfolding s1_def using assms(1) by (simp, intro avail_cong [OF assms(2)]) simp_all
  have s1: "bflag_of s1 bp = bflag_of s bp \<union> {B_DONE}" "\<And>i. av_forw (buf s1 i) = av_forw (buf s i)" "\<And>i. av_back (buf s1 i) = av_back (buf s i)"
    by (simp_all add: s1_def set_bflags_def upd_buf_def)
  have k: "B_DONE \<in> bflag_of t bp \<and> kept bp s t" if "kept bp s1 t" for t
    using that unfolding kept_def s1_def by (auto simp: set_bflags_def upd_buf_def split: if_splits)
  show ?thesis
  proof (cases "B_ASYNC \<in> bflag_of s bp")
    case True
    obtain t where t: "brelse bp s1 = Ok () t" "calm t" "kept bp s1 t" using brelse_calm [OF r(1)] by blast
    have "iodone bp s = Ok () t" unfolding iodone_def s1_def [symmetric] Let_def using True t(1) s1(1) by simp
    moreover have "avail t (if B_AGE \<in> bflag_of s1 bp then bp # xs else xs @ [bp])" using brelse_avail(1) [OF t(1) r(2) assms(3,4)] .
    moreover have "av_forw (buf t i) = av_forw (buf s i) \<and> av_back (buf t i) = av_back (buf s i)"
      if "i \<notin> insert bfreelist (insert bp (set xs))" for i
    proof -
      obtain s' where s': "\<And>i. av_forw (buf s' i) = av_forw (buf s1 i)" "\<And>i. av_back (buf s' i) = av_back (buf s1 i)"
        and te: "t = set_bflags bp (bflag_of (enqueue bp s') bp - {B_WANTED, B_BUSY, B_ASYNC, B_AGE}) (enqueue bp s')"
        using brelse_stages [OF t(1)] by auto
      have av: "avail s' xs" using avail_cong [OF r(2)] s' by blast
      then have l: "linked (\<lambda>i. av_forw (buf s' i)) (\<lambda>i. av_back (buf s' i)) bfreelist xs bfreelist" by (simp add: avail_def)
      have nf: "av_forw (buf s' bfreelist) \<in> insert bfreelist (set xs)" using linked_first [OF l] by (cases xs) auto
      have nb: "av_back (buf s' bfreelist) \<in> insert bfreelist (set xs)"
        using linked_last [OF l] last_in_set [of "bfreelist # xs"] by (auto split: if_splits)
      have ne: "av_forw (buf s' bfreelist) \<noteq> bp" "av_back (buf s' bfreelist) \<noteq> bp" using nf nb assms(3,4) by auto
      note e = enqueue_links [OF assms(4) ne, THEN fun_cong, of i]
      show ?thesis using that nf nb e s' s1(2,3) unfolding te by (auto split: if_splits)
    qed
    ultimately show ?thesis
      using t(2) k [OF t(3)]
      by (intro exI [of _ t] exI [of _ "if B_AGE \<in> bflag_of s1 bp then bp # xs else xs @ [bp]"]) (simp add: subset_insertI2)
  next
    case False
    define s2 where "s2 = set_bflags bp (bflag_of s1 bp - {B_WANTED}) s1"
    obtain t where t: "wakeup (addr_of s1 (Ch_buf bp)) s2 = Ok () t" "calm t" "buf t = buf s2" "kst.more t = kst.more s2"
      using wakeup_calm [of s2] r(1) by (auto simp: s2_def)
    have "iodone bp s = Ok () t" unfolding iodone_def s1_def [symmetric] Let_def s2_def [symmetric] using False t(1) s1(1) by simp
    moreover have "avail t xs" by (rule avail_cong [OF r(2)]) (simp_all add: t(3) s2_def)
    moreover have "kept bp s1 t" unfolding kept_def t(3,4) by (auto simp: s2_def set_bflags_def upd_buf_def)
    moreover have "av_forw (buf t i) = av_forw (buf s i)" "av_back (buf t i) = av_back (buf s i)" for i
      unfolding t(3) using s1(2,3) [of i] by (simp_all add: s2_def)
    ultimately show ?thesis
      using t(2) k [of t] by (intro exI [of _ t] exI [of _ xs]) (simp add: subset_insertI)
  qed
qed

section \<open>The queue of transfers\<close>

fun chain_to :: "(nat \<Rightarrow> nat) \<Rightarrow> nat \<Rightarrow> nat list \<Rightarrow> bool" where
  "chain_to f p [] = (p = NULLBUF)"
| "chain_to f p (x # xs) = (p = x \<and> chain_to f (f x) xs)"

lemma chain_cong: "chain_to f p xs \<Longrightarrow> (\<And>x. x \<in> set xs \<Longrightarrow> g x = f x) \<Longrightarrow> chain_to g p xs"
  by (induction f p xs rule: chain_to.induct) auto

lemma chain_snoc:
  assumes "chain_to f p xs" "xs \<noteq> []" "y \<notin> set xs" "distinct xs" "f y = NULLBUF"
  shows "chain_to (f(last xs := y)) p (xs @ [y])"
  using assms
proof (induction xs arbitrary: p)
  case (Cons x xs)
  show ?case
  proof (cases "xs = []")
    case False
    then have "x \<noteq> last xs" using Cons.prems(4) by auto
    with Cons False show ?thesis by auto
  qed (use Cons.prems in auto)
qed simp

lemma chain_unique: "chain_to f p xs \<Longrightarrow> chain_to f p ys \<Longrightarrow> NULLBUF \<notin> set xs \<Longrightarrow> NULLBUF \<notin> set ys \<Longrightarrow> xs = ys"
proof (induction xs arbitrary: p ys)
  case Nil then show ?case by (cases ys) auto
next
  case (Cons x xs) then show ?case by (cases ys) auto
qed

text \<open>
  \<open>bs\<close> are the buffers on the queue. The first one is being transferred; the free list of the cache holds other
  buffers.
\<close>

definition sdx_queue :: "('c, 'z) disk_scheme \<Rightarrow> nat list \<Rightarrow> bool" where
  "sdx_queue s bs \<longleftrightarrow>
     distinct bs \<and> set bs \<inter> {sdxtab, NULLBUF, bfreelist} = {}
     \<and> chain_to (\<lambda>i. av_forw (buf s i)) (av_forw (buf s sdxtab)) bs
     \<and> (bs \<noteq> [] \<longrightarrow> av_back (buf s sdxtab) = last bs)
     \<and> b_bcount (buf s sdxtab) = (if bs = [] then 0 else 1)"

definition disk_ok :: "('c, 'z) disk_scheme \<Rightarrow> nat list \<Rightarrow> nat list \<Rightarrow> bool" where
  "disk_ok s bs xs \<longleftrightarrow>
     sdx_queue s bs \<and> avail s xs \<and> set xs \<inter> set bs = {} \<and> set xs \<inter> {sdxtab, NULLBUF} = {} \<and> calm s"

text \<open>A buffer that is on neither list, for a block of a volume.\<close>

definition requestable :: "('c, 'z) disk_scheme \<Rightarrow> nat list \<Rightarrow> nat list \<Rightarrow> nat \<Rightarrow> bool" where
  "requestable s bs xs bp \<longleftrightarrow>
     bp \<notin> set bs \<union> set xs \<union> {sdxtab, NULLBUF, bfreelist}
     \<and> nat (minor (b_dev (buf s bp))) < MAX_VOLUMES \<and> v_present (volumes s (nat (minor (b_dev (buf s bp))))) \<noteq> 0
     \<and> u32 (b_blkno (buf s bp) + drop_bit 9 (b_bcount (buf s bp) + 511)) < v_count (volumes s (nat (minor (b_dev (buf s bp)))))"

lemma disk_upd_simps [simp]:
  "buf (s\<lparr>card := c\<rparr>) = buf s" "buf (s\<lparr>dk_numb := f\<rparr>) = buf s" "buf (s\<lparr>dk_wds := f\<rparr>) = buf s"
  "calm (s\<lparr>card := c\<rparr>) = calm s" "calm (s\<lparr>dk_numb := f\<rparr>) = calm s" "calm (s\<lparr>dk_wds := f\<rparr>) = calm s"
proof -
  show "calm (s\<lparr>card := c\<rparr>) = calm s" by (rule iffI; erule calm_cong) simp_all
  show "calm (s\<lparr>dk_numb := f\<rparr>) = calm s" by (rule iffI; erule calm_cong) simp_all
  show "calm (s\<lparr>dk_wds := f\<rparr>) = calm s" by (rule iffI; erule calm_cong) simp_all
qed simp_all

lemma more_disk:
  fixes s t :: "('c, 'z) disk_scheme"
  assumes "kst.more t = kst.more s"
  shows "card t = card s" "volumes t = volumes s"
  using assms by (cases s; cases t; simp)+

section \<open>Starts and ends of transfers\<close>

text \<open>What the card is asked when buffer \<open>bp\<close> is started or finished: the answer, and the card afterwards.\<close>

definition begins :: "'c sd_io_t \<Rightarrow> nat \<Rightarrow> ('c, 'z) disk_scheme \<Rightarrow> int \<times> 'c" where
  "begins io bp s =
     iostart io (B_READ \<notin> bflag_of s bp) (u32 (b_blkno (buf s bp) + v_start (volumes s (nat (minor (b_dev (buf s bp)))))))
       (b_data (buf s bp)) (card s)"

definition finishes :: "'c sd_io_t \<Rightarrow> nat \<Rightarrow> ('c, 'z) disk_scheme \<Rightarrow> int \<times> (nat \<Rightarrow> int) \<times> 'c" where
  "finishes io bp s = iofinish io (B_READ \<notin> bflag_of s bp) (b_data (buf s bp)) (card s)"

text \<open>The state after a refusal: the head of the queue is completed with an error and stays, the card is idle.\<close>

definition stalled :: "('c, 'z) disk_scheme \<Rightarrow> nat \<Rightarrow> bool" where
  "stalled t bp \<longleftrightarrow> av_forw (buf t sdxtab) = bp \<and> b_bcount (buf t sdxtab) = 0 \<and> {B_DONE, B_ERROR} \<subseteq> bflag_of t bp"

text \<open>What becomes of the queue \<open>bs\<close> when the card, idle in \<open>s\<close>, is given its head.\<close>

definition start_outcome :: "'c sd_io_t \<Rightarrow> nat list \<Rightarrow> nat list \<Rightarrow> ('c, 'z) disk_scheme \<Rightarrow> ('c, 'z) disk_scheme \<Rightarrow> bool" where
  "start_outcome io bs xs s t \<longleftrightarrow>
     (if bs = [] then disk_ok t [] xs \<and> card t = card s
      else card t = snd (begins io (hd bs) s)
        \<and> (if fst (begins io (hd bs) s) = 0 then disk_ok t bs xs else stalled t (hd bs)))"

lemma sdxstart_accepted:
  assumes "av_forw (buf s sdxtab) = bp" "bp \<noteq> NULLBUF" "b_bcount (buf s sdxtab) = 0" "fst (begins io bp s) = 0"
  shows "\<exists>t. sdxstart io s = Ok () t \<and> buf t = buf (upd_buf sdxtab (\<lambda>b. b\<lparr>b_bcount := 1\<rparr>) s) \<and> calm t = calm s
    \<and> card t = snd (begins io bp s)"
proof -
  obtain c where c: "iostart io (B_READ \<notin> bflag_of s bp) (u32 (b_blkno (buf s bp) + v_start (volumes s (nat (minor (b_dev (buf s bp)))))))
      (b_data (buf s bp)) (card s) = (0, c)" using assms(4) unfolding begins_def by (metis prod.collapse)
  show ?thesis
    using assms(2,3) unfolding sdxstart_def Let_def assms(1) c begins_def
    by (auto simp: u16_id upd_buf_def [of sdxtab] elim: calm_cong intro!: iffI)
qed

lemma sdxstart_refused:
  assumes "av_forw (buf s sdxtab) = bp" "bp \<noteq> NULLBUF" "b_bcount (buf s sdxtab) = 0" "fst (begins io bp s) \<noteq> 0"
    "calm s" "avail s xs" "bp \<notin> set xs" "bp \<noteq> bfreelist" "bp \<noteq> sdxtab" "sdxtab \<notin> set xs"
  shows "\<exists>t. sdxstart io s = Ok () t \<and> stalled t bp \<and> card t = snd (begins io bp s) \<and> kept bp (s\<lparr>card := snd (begins io bp s)\<rparr>) t"
proof -
  obtain r c where c: "begins io bp s = (r, c)" "r \<noteq> 0" using assms(4) by (metis prod.collapse)
  define s2 where "s2 = set_bflags bp (bflag_of (s\<lparr>card := c\<rparr>) bp \<union> {B_ERROR}) (s\<lparr>card := c\<rparr>)"
  have st: "sdxstart io s = iodone bp s2"
    unfolding sdxstart_def Let_def assms(1) c(1) [unfolded begins_def] prod.case s2_def using assms(2) c(2) by simp
  have av: "avail s2 xs" using assms(6) by (rule avail_cong) (simp_all add: s2_def)
  have r2: "calm s2" using assms(5) by (simp add: s2_def)
  obtain t xs' where t: "iodone bp s2 = Ok () t" "B_DONE \<in> bflag_of t bp" "kept bp s2 t"
    "\<forall>i. i \<notin> insert bfreelist (insert bp (set xs)) \<longrightarrow> av_forw (buf t i) = av_forw (buf s2 i) \<and> av_back (buf t i) = av_back (buf s2 i)"
    using iodone_calm [OF r2 av assms(7,8)] by blast
  have "B_ERROR \<in> bflag_of s2 bp" by (simp add: s2_def set_bflags_def upd_buf_def)
  then have "B_ERROR \<in> bflag_of t bp" using t(3) unfolding kept_def by blast
  moreover have "av_forw (buf t sdxtab) = bp" using t(4) assms(1,9,10) by (auto simp: s2_def)
  moreover have "b_bcount (buf t sdxtab) = 0" using t(3) assms(3) by (auto simp: kept_def s2_def set_bflags_def upd_buf_def)
  moreover have "kst.more t = kst.more (s\<lparr>card := c\<rparr>)" using t(3) by (simp add: kept_def s2_def set_bflags_def upd_buf_def)
  then have "card t = c" using more_disk(1) [of t "s\<lparr>card := c\<rparr>"] by simp
  moreover have "kept bp (s\<lparr>card := c\<rparr>) t" using t(3) unfolding kept_def s2_def by (auto simp: set_bflags_def upd_buf_def split: if_splits)
  ultimately show ?thesis unfolding st using t(1,2) c(1) by (auto simp: stalled_def)
qed

section \<open>The strategy routine\<close>

text \<open>The buffer goes to the end of the queue; the card is then started if it was idle.\<close>

lemma sdxstrategy_queues:
  fixes s :: "('c, 'z) disk_scheme"
  assumes "disk_ok s bs xs" "requestable s bs xs bp"
  shows "\<exists>s3. sdxstrategy io bp s = (if bs = [] then sdxstart io s3 else Ok () s3)
    \<and> card s3 = card s \<and> volumes s3 = volumes s \<and> calm s3 \<and> avail s3 xs
    \<and> (\<forall>i. bflag_of s3 i = bflag_of s i \<and> b_data (buf s3 i) = b_data (buf s i) \<and> b_dev (buf s3 i) = b_dev (buf s i)
         \<and> b_blkno (buf s3 i) = b_blkno (buf s i) \<and> b_bcount (buf s3 i) = b_bcount (buf s i))
    \<and> av_forw (buf s3 sdxtab) = hd (bs @ [bp])
    \<and> (\<forall>t. (\<forall>i. av_forw (buf t i) = av_forw (buf s3 i) \<and> av_back (buf t i) = av_back (buf s3 i))
         \<and> calm t \<and> b_bcount (buf t sdxtab) = 1 \<longrightarrow> disk_ok (t :: ('c, 'z) disk_scheme) (bs @ [bp]) xs)"
proof -
  have q: "distinct bs" "set bs \<inter> {sdxtab, NULLBUF, bfreelist} = {}" "chain_to (\<lambda>i. av_forw (buf s i)) (av_forw (buf s sdxtab)) bs"
    "bs \<noteq> [] \<Longrightarrow> av_back (buf s sdxtab) = last bs" "b_bcount (buf s sdxtab) = (if bs = [] then 0 else 1)"
    and xs: "avail s xs" "set xs \<inter> set bs = {}" "set xs \<inter> {sdxtab, NULLBUF} = {}" "calm s"
    using assms(1) by (auto simp: disk_ok_def sdx_queue_def)
  have bp: "bp \<notin> set bs" "bp \<notin> set xs" "bp \<noteq> sdxtab" "bp \<noteq> NULLBUF" "bp \<noteq> bfreelist"
    using assms(2) by (auto simp: requestable_def)
  define s1 where "s1 = upd_buf bp (\<lambda>b. b\<lparr>av_forw := NULLBUF\<rparr>) s"
  define s2 where "s2 = (if av_forw (buf s1 sdxtab) \<noteq> NULLBUF
                     then upd_buf (av_back (buf s1 sdxtab)) (\<lambda>b. b\<lparr>av_forw := bp\<rparr>) s1
                     else upd_buf sdxtab (\<lambda>b. b\<lparr>av_forw := bp\<rparr>) s1)"
  define s3 where "s3 = upd_buf sdxtab (\<lambda>b. b\<lparr>av_back := bp\<rparr>) s2"
  have f3: "bflag_of s3 i = bflag_of s i \<and> b_data (buf s3 i) = b_data (buf s i) \<and> b_dev (buf s3 i) = b_dev (buf s i)
      \<and> b_blkno (buf s3 i) = b_blkno (buf s i) \<and> b_bcount (buf s3 i) = b_bcount (buf s i)" for i
    by (simp add: s3_def s2_def s1_def upd_buf_def)
  have m3: "card s3 = card s" "volumes s3 = volumes s" by (simp_all add: s3_def s2_def s1_def upd_buf_def)
  have st: "sdxstrategy io bp s = (if b_bcount (buf s3 sdxtab) = 0 then sdxstart io s3 else Ok () s3)"
    using assms(2) unfolding sdxstrategy_def requestable_def Let_def s1_def s2_def s3_def by auto
  have e: "av_forw (buf s1 sdxtab) = NULLBUF \<longleftrightarrow> bs = []"
    using q(2,3) bp by (cases bs) (auto simp: s1_def upd_buf_def)
  have r3: "calm s3" using xs(4) by (simp add: s3_def s2_def s1_def)
  have back3: "av_back (buf s3 sdxtab) = bp" "i \<noteq> sdxtab \<Longrightarrow> av_back (buf s3 i) = av_back (buf s i)" for i
    by (simp_all add: s3_def s2_def s1_def upd_buf_def)
  have forw3: "(\<lambda>i. av_forw (buf s3 i)) = (if bs = [] then (\<lambda>i. av_forw (buf s i))(bp := NULLBUF, sdxtab := bp)
      else (\<lambda>i. av_forw (buf s i))(bp := NULLBUF, last bs := bp))"
    using q(4) bp unfolding s3_def s2_def e by (auto simp: s1_def upd_buf_def fun_eq_iff)
  have ch: "chain_to (\<lambda>i. av_forw (buf s3 i)) (av_forw (buf s3 sdxtab)) (bs @ [bp])"
  proof (cases "bs = []")
    case True
    with forw3 bp show ?thesis by (simp add: fun_eq_iff)
  next
    case False
    let ?f = "(\<lambda>i. av_forw (buf s i))(bp := NULLBUF)"
    have "chain_to ?f (av_forw (buf s sdxtab)) bs" using q(3) bp(1) by (auto intro: chain_cong)
    from chain_snoc [OF this False bp(1) q(1)] have "chain_to (?f(last bs := bp)) (av_forw (buf s sdxtab)) (bs @ [bp])" by simp
    moreover have "last bs \<noteq> sdxtab" using last_in_set [OF False] q(2) by blast
    then have "av_forw (buf s3 sdxtab) = av_forw (buf s sdxtab)"
      using fun_cong [OF forw3, of sdxtab] False bp by simp
    ultimately show ?thesis using False unfolding forw3 by simp
  qed
  have hd: "av_forw (buf s3 sdxtab) = hd (bs @ [bp])" using ch by (cases bs) auto
  have av: "avail t xs" if "\<And>i. av_forw (buf t i) = av_forw (buf s3 i)" "\<And>i. av_back (buf t i) = av_back (buf s3 i)" for t :: "('c, 'z) disk_scheme"
  proof -
    have l: "linked (\<lambda>i. av_forw (buf s i)) (\<lambda>i. av_back (buf s i)) bfreelist xs bfreelist" and d: "distinct (bfreelist # xs)"
      using xs(1) by (auto simp: avail_def)
    have "linked (\<lambda>i. av_forw (buf t i)) (\<lambda>i. av_back (buf t i)) bfreelist xs bfreelist"
    proof (rule linked_cong [OF l])
      fix i assume i: "i \<in> set (bfreelist # xs)"
      have "bs \<noteq> [] \<Longrightarrow> last bs \<noteq> bfreelist \<and> last bs \<notin> set xs" using last_in_set [of bs] q(2) xs(2) by blast
      with i have ne: "i \<noteq> bp" "i \<noteq> sdxtab" "bs \<noteq> [] \<Longrightarrow> i \<noteq> last bs" using xs(3) bp by auto
      then show "av_forw (buf t i) = av_forw (buf s i)"
        using fun_cong [OF forw3, of i] unfolding that(1) by (cases "bs = []") auto
      show "av_back (buf t i) = av_back (buf s i)" using ne(2) by (simp add: that(2) back3(2))
    qed
    with d show ?thesis by (simp add: avail_def)
  qed
  have ok: "disk_ok t (bs @ [bp]) xs" if t: "\<And>i. av_forw (buf t i) = av_forw (buf s3 i)" "\<And>i. av_back (buf t i) = av_back (buf s3 i)"
    "calm t" "b_bcount (buf t sdxtab) = 1" for t :: "('c, 'z) disk_scheme"
    unfolding disk_ok_def sdx_queue_def t(1,2) using q(1,2) bp ch back3(1) av [OF t(1,2)] xs(2,3) t(3,4) by auto
  have "(b_bcount (buf s3 sdxtab) = 0) = (bs = [])" using f3 [of sdxtab] q(5) by simp
  then show ?thesis
    using st m3 r3 f3 hd ok av [of s3] by (intro exI [of _ s3]) auto
qed

lemma sdxstrategy_outcome:
  fixes s :: "('a, 'b) disk_scheme"
  assumes "disk_ok s bs xs" "requestable s bs xs bp"
  shows "\<exists>t. sdxstrategy io bp s = Ok () t
    \<and> (if bs = [] then start_outcome io [bp] xs s t else disk_ok t (bs @ [bp]) xs \<and> card t = card s)
    \<and> (\<forall>i. B_DONE \<in> bflag_of s i \<longrightarrow> B_DONE \<in> bflag_of t i)"
proof -
  obtain s3 where s3: "sdxstrategy io bp s = (if bs = [] then sdxstart io s3 else Ok () s3)"
    "card s3 = card s" "volumes s3 = volumes s" "calm s3" "avail s3 xs"
    "\<And>i. bflag_of s3 i = bflag_of s i \<and> b_data (buf s3 i) = b_data (buf s i) \<and> b_dev (buf s3 i) = b_dev (buf s i)
         \<and> b_blkno (buf s3 i) = b_blkno (buf s i) \<and> b_bcount (buf s3 i) = b_bcount (buf s i)"
    "av_forw (buf s3 sdxtab) = hd (bs @ [bp])"
    "\<And>t :: ('a, 'b) disk_scheme. (\<forall>i. av_forw (buf t i) = av_forw (buf s3 i) \<and> av_back (buf t i) = av_back (buf s3 i))
         \<and> calm t \<and> b_bcount (buf t sdxtab) = 1 \<Longrightarrow> disk_ok t (bs @ [bp]) xs"
    using sdxstrategy_queues [OF assms, of io] by blast
  have bp: "bp \<noteq> NULLBUF" "bp \<notin> set xs" "bp \<noteq> bfreelist" "bp \<noteq> sdxtab" using assms(2) by (auto simp: requestable_def)
  have n: "b_bcount (buf s sdxtab) = (if bs = [] then 0 else 1)" and xs: "sdxtab \<notin> set xs"
    using assms(1) by (auto simp: disk_ok_def sdx_queue_def)
  show ?thesis
  proof (cases "bs = []")
    case False
    with s3(4,6,8) n show ?thesis unfolding s3(1) using s3(2) by (intro exI [of _ s3]) auto
  next
    case True
    have b: "begins io bp s3 = begins io bp s" unfolding begins_def using s3(2,3,6) by simp
    have h: "av_forw (buf s3 sdxtab) = bp" "b_bcount (buf s3 sdxtab) = 0" using s3(6,7) n True by simp_all
    show ?thesis
    proof (cases "fst (begins io bp s) = 0")
      case a: True
      obtain t where t: "sdxstart io s3 = Ok () t" "buf t = buf (upd_buf sdxtab (\<lambda>b. b\<lparr>b_bcount := 1\<rparr>) s3)" "calm t = calm s3"
        "card t = snd (begins io bp s)" using sdxstart_accepted [OF h(1) bp(1) h(2), of io] a unfolding b by auto
      have "disk_ok t (bs @ [bp]) xs" by (rule s3(8)) (simp add: t(2,3) s3(4) upd_buf_def)
      moreover have "bflag_of t i = bflag_of s i" for i using s3(6) by (simp add: t(2) upd_buf_def)
      ultimately show ?thesis unfolding s3(1) using t(1,4) True a by (auto simp: start_outcome_def)
    next
      case r: False
      obtain t where t: "sdxstart io s3 = Ok () t" "stalled t bp" "card t = snd (begins io bp s)"
        "kept bp (s3\<lparr>card := snd (begins io bp s)\<rparr>) t"
        using sdxstart_refused [OF h(1) bp(1) h(2) _ s3(4,5) bp(2,3,4) xs, of io] r unfolding b by auto
      have k: "bflag_of s3 i - {B_WANTED, B_BUSY, B_ASYNC, B_AGE} \<subseteq> bflag_of t i" for i using t(4) by (auto simp: kept_def)
      have "B_DONE \<in> bflag_of t i" if "B_DONE \<in> bflag_of s i" for i using k [of i] that s3(6) [of i] by auto
      with t r True show ?thesis unfolding s3(1) by (auto simp: start_outcome_def)
    qed
  qed
qed

section \<open>The interrupt\<close>

text \<open>The transfer of the first buffer is finished and the buffer taken off the queue; then the next one is started.\<close>

lemma sdxintr_unlinks:
  fixes s :: "('c, 'z) disk_scheme"
  assumes "disk_ok s (bp # bs) xs" "finishes io bp s = (r, d, c)"
  shows "\<exists>t0 xs'. sdxintr io s = sdxstart io t0 \<and> card t0 = c \<and> volumes t0 = volumes s \<and> calm t0 \<and> avail t0 xs'
    \<and> set xs' \<subseteq> insert bp (set xs) \<and> B_DONE \<in> bflag_of t0 bp \<and> b_data (buf t0 bp) = d \<and> (r \<noteq> 0 \<longrightarrow> B_ERROR \<in> bflag_of t0 bp)
    \<and> (\<forall>i. B_DONE \<in> bflag_of s i \<longrightarrow> B_DONE \<in> bflag_of t0 i)
    \<and> (\<forall>i. i \<noteq> bp \<longrightarrow> (B_READ \<in> bflag_of t0 i) = (B_READ \<in> bflag_of s i) \<and> b_data (buf t0 i) = b_data (buf s i)
         \<and> b_dev (buf t0 i) = b_dev (buf s i) \<and> b_blkno (buf t0 i) = b_blkno (buf s i))
    \<and> b_bcount (buf t0 sdxtab) = 0 \<and> chain_to (\<lambda>i. av_forw (buf t0 i)) (av_forw (buf t0 sdxtab)) bs
    \<and> (\<forall>t. (\<forall>i. av_forw (buf t i) = av_forw (buf t0 i) \<and> av_back (buf t i) = av_back (buf t0 i))
         \<and> calm t \<and> b_bcount (buf t sdxtab) = (if bs = [] then 0 else 1) \<longrightarrow> disk_ok (t :: ('c, 'z) disk_scheme) bs xs')"
proof -
  have q: "distinct (bp # bs)" "set (bp # bs) \<inter> {sdxtab, NULLBUF, bfreelist} = {}"
    "chain_to (\<lambda>i. av_forw (buf s i)) (av_forw (buf s sdxtab)) (bp # bs)"
    "av_back (buf s sdxtab) = last (bp # bs)" "b_bcount (buf s sdxtab) = 1"
    and xs: "avail s xs" "set xs \<inter> set (bp # bs) = {}" "set xs \<inter> {sdxtab, NULLBUF} = {}" "calm s"
    using assms(1) by (auto simp: disk_ok_def sdx_queue_def)
  have bp: "av_forw (buf s sdxtab) = bp" "bp \<notin> set xs" "bp \<noteq> sdxtab" "bp \<noteq> NULLBUF" "bp \<noteq> bfreelist" "bp \<notin> set bs"
    using q xs by auto
  note fin = assms(2) [unfolded finishes_def]
  define s1 where "s1 = upd_buf bp (\<lambda>b. b\<lparr>b_data := d\<rparr>) (s\<lparr>card := c\<rparr>)"
  define s2 where "s2 = (if r \<noteq> 0 then set_bflags bp (bflag_of s1 bp \<union> {B_ERROR}) s1 else s1)"
  define s3 where "s3 = s2\<lparr>dk_busy := dk_busy s2 AND NOT 1\<rparr>"
  define s4 where "s4 = upd_buf sdxtab (\<lambda>b. b\<lparr>b_resid := 0\<rparr>) (upd_buf sdxtab (\<lambda>b. b\<lparr>b_bcount := 0\<rparr>) s3)"
  define s5 where "s5 = upd_buf bp (\<lambda>b. b\<lparr>b_resid := 0\<rparr>) (upd_buf sdxtab (\<lambda>b. b\<lparr>av_forw := av_forw (buf s4 bp)\<rparr>) s4)"
  have s3: "av_forw (buf s3 sdxtab) = bp" using bp by (simp add: s3_def s2_def s1_def upd_buf_def set_bflags_def)
  have st: "sdxintr io s = bnd (iodone bp s5) (\<lambda>_ s. sdxstart io s)"
    unfolding sdxintr_def Let_def bp(1) fin prod.case s1_def [symmetric] s2_def [symmetric] s3_def [symmetric] s3
      s4_def [symmetric] s5_def [symmetric] using q(5) by simp
  have r5: "calm s5" using xs(4) by (simp add: s5_def s4_def s3_def s2_def s1_def)
  have forw5: "av_forw (buf s5 i) = (if i = sdxtab then av_forw (buf s bp) else av_forw (buf s i))"
    and back5: "av_back (buf s5 i) = av_back (buf s i)" for i
    using bp by (simp_all add: s5_def s4_def s3_def s2_def s1_def upd_buf_def set_bflags_def)
  have count5: "b_bcount (buf s5 sdxtab) = 0" using bp by (simp add: s5_def s4_def upd_buf_def)
  have flag5: "bflag_of s5 i = (if i = bp \<and> r \<noteq> 0 then bflag_of s bp \<union> {B_ERROR} else bflag_of s i)"
    and data5: "b_data (buf s5 i) = (if i = bp then d else b_data (buf s i))" "b_dev (buf s5 i) = b_dev (buf s i)"
      "b_blkno (buf s5 i) = b_blkno (buf s i)" for i
    by (auto simp: s5_def s4_def s3_def s2_def s1_def upd_buf_def set_bflags_def)
  have m5: "card s5 = c" "volumes s5 = volumes s" by (simp_all add: s5_def s4_def s3_def s2_def s1_def upd_buf_def set_bflags_def)
  have av5: "avail s5 xs"
    using xs(1,3) unfolding avail_def by (auto simp: forw5 back5 elim!: linked_cong)
  obtain t0 xs' where t0: "iodone bp s5 = Ok () t0" "calm t0" "avail t0 xs'" "set xs' \<subseteq> insert bp (set xs)" "B_DONE \<in> bflag_of t0 bp"
    "kept bp s5 t0"
    "\<And>i. i \<notin> insert bfreelist (insert bp (set xs)) \<Longrightarrow> av_forw (buf t0 i) = av_forw (buf s5 i) \<and> av_back (buf t0 i) = av_back (buf s5 i)"
    using iodone_calm [OF r5 av5 bp(2,5)] by blast
  have keep: "av_forw (buf t0 i) = av_forw (buf s5 i)" "av_back (buf t0 i) = av_back (buf s5 i)" if "i \<in> insert sdxtab (set bs)" for i
    using t0(7) [of i] that bp q(2) xs(2,3) by auto
  have ch0: "chain_to (\<lambda>i. av_forw (buf t0 i)) (av_forw (buf t0 sdxtab)) bs"
    using q(3) by (auto simp: keep forw5 elim!: chain_cong) (use keep forw5 q(2) in auto)
  have ok: "disk_ok t bs xs'" if t: "\<And>i. av_forw (buf t i) = av_forw (buf t0 i)" "\<And>i. av_back (buf t i) = av_back (buf t0 i)"
    "calm t" "b_bcount (buf t sdxtab) = (if bs = [] then 0 else 1)" for t :: "('c, 'z) disk_scheme"
  proof -
    have "avail t xs'" using t0(3) by (rule avail_cong) (simp_all add: t)
    moreover have "set xs' \<inter> set bs = {}" "set xs' \<inter> {sdxtab, NULLBUF} = {}" using t0(4) bp xs(2,3) by auto
    ultimately show ?thesis
      unfolding disk_ok_def sdx_queue_def t(1,2) using q ch0 keep(2) [of sdxtab] back5 t(3,4) by auto
  qed
  have k: "\<And>i. bflag_of s5 i - {B_WANTED, B_BUSY, B_ASYNC, B_AGE} \<subseteq> bflag_of t0 i" "\<And>i. B_READ \<in> bflag_of t0 i \<Longrightarrow> B_READ \<in> bflag_of s5 i"
    "\<And>i. b_data (buf t0 i) = b_data (buf s5 i)" "\<And>i. b_blkno (buf t0 i) = b_blkno (buf s5 i)" "\<And>i. b_bcount (buf t0 i) = b_bcount (buf s5 i)"
    "\<And>i. i \<noteq> bp \<Longrightarrow> b_dev (buf t0 i) = b_dev (buf s5 i)" "kst.more t0 = kst.more s5"
    using t0(6) by (auto simp: kept_def)
  have "card t0 = c" "volumes t0 = volumes s" using more_disk [OF k(7)] m5 by simp_all
  moreover have "r \<noteq> 0 \<longrightarrow> B_ERROR \<in> bflag_of t0 bp" using k(1) [of bp] flag5 [of bp] by auto
  moreover have "B_DONE \<in> bflag_of t0 i" if "B_DONE \<in> bflag_of s i" for i using k(1) [of i] flag5 [of i] that by (auto split: if_splits)
  moreover have "(B_READ \<in> bflag_of t0 i) = (B_READ \<in> bflag_of s i)" if "i \<noteq> bp" for i using k(1,2) [of i] flag5 [of i] that by auto
  moreover have "sdxintr io s = sdxstart io t0" unfolding st t0(1) by simp
  ultimately show ?thesis
    using t0(2-5) k(3-6) data5 count5 ch0 ok by (intro exI [of _ t0] exI [of _ xs']) auto
qed

lemma sdxintr_outcome:
  fixes s :: "('a, 'b) disk_scheme"
  assumes "disk_ok s (bp # bs) xs" "finishes io bp s = (r, d, c)"
  shows "\<exists>t xs'. sdxintr io s = Ok () t \<and> start_outcome io bs xs' (s\<lparr>card := c\<rparr>) t
    \<and> B_DONE \<in> bflag_of t bp \<and> b_data (buf t bp) = d \<and> (r \<noteq> 0 \<longrightarrow> B_ERROR \<in> bflag_of t bp)
    \<and> (\<forall>i. B_DONE \<in> bflag_of s i \<longrightarrow> B_DONE \<in> bflag_of t i)"
proof -
  obtain t0 xs' where t0: "sdxintr io s = sdxstart io t0" "card t0 = c" "volumes t0 = volumes s" "calm t0" "avail t0 xs'"
    "set xs' \<subseteq> insert bp (set xs)" "B_DONE \<in> bflag_of t0 bp" "b_data (buf t0 bp) = d" "r \<noteq> 0 \<Longrightarrow> B_ERROR \<in> bflag_of t0 bp"
    "\<And>i. B_DONE \<in> bflag_of s i \<Longrightarrow> B_DONE \<in> bflag_of t0 i"
    "\<And>i. i \<noteq> bp \<Longrightarrow> (B_READ \<in> bflag_of t0 i) = (B_READ \<in> bflag_of s i) \<and> b_data (buf t0 i) = b_data (buf s i)
         \<and> b_dev (buf t0 i) = b_dev (buf s i) \<and> b_blkno (buf t0 i) = b_blkno (buf s i)"
    "b_bcount (buf t0 sdxtab) = 0" "chain_to (\<lambda>i. av_forw (buf t0 i)) (av_forw (buf t0 sdxtab)) bs"
    "\<And>t :: ('a, 'b) disk_scheme. (\<forall>i. av_forw (buf t i) = av_forw (buf t0 i) \<and> av_back (buf t i) = av_back (buf t0 i))
         \<and> calm t \<and> b_bcount (buf t sdxtab) = (if bs = [] then 0 else 1) \<Longrightarrow> disk_ok t bs xs'"
    using sdxintr_unlinks [OF assms] by blast
  show ?thesis
  proof (cases bs)
    case Nil
    then have "sdxstart io t0 = Ok () t0" using t0(13) by (simp add: sdxstart_def)
    moreover have "disk_ok t0 bs xs'" by (rule t0(14)) (simp add: t0(4,12) Nil)
    ultimately show ?thesis unfolding t0(1) using t0(2,7-10) Nil
      by (intro exI [of _ t0] exI [of _ xs']) (simp add: start_outcome_def)
  next
    case (Cons y ys)
    have q: "bp \<notin> set bs" "y \<notin> {sdxtab, NULLBUF, bfreelist}" "set xs \<inter> set (bp # bs) = {}" "sdxtab \<notin> set xs" "bp \<noteq> sdxtab"
      using assms(1) Cons by (auto simp: disk_ok_def sdx_queue_def)
    then have y: "y \<noteq> bp" "y \<noteq> NULLBUF" "y \<noteq> sdxtab" "y \<noteq> bfreelist" "y \<notin> set xs'" "sdxtab \<notin> set xs'" using t0(6) Cons by auto
    have h: "av_forw (buf t0 sdxtab) = y" using t0(13) Cons by simp
    have b: "begins io y t0 = begins io y (s\<lparr>card := c\<rparr>)" unfolding begins_def using t0(2,3) t0(11) [OF y(1)] by simp
    show ?thesis
    proof (cases "fst (begins io y t0) = 0")
      case True
      obtain t where t: "sdxstart io t0 = Ok () t" "buf t = buf (upd_buf sdxtab (\<lambda>b. b\<lparr>b_bcount := 1\<rparr>) t0)" "calm t = calm t0"
        "card t = snd (begins io y t0)" using sdxstart_accepted [OF h y(2) t0(12) True] by blast
      have "disk_ok t bs xs'" by (rule t0(14)) (simp add: t(2,3) t0(4) Cons upd_buf_def)
      moreover have "bflag_of t i = bflag_of t0 i" "b_data (buf t i) = b_data (buf t0 i)" for i by (simp_all add: t(2) upd_buf_def)
      ultimately show ?thesis unfolding t0(1) using t(1,4) t0(7-10) True b Cons
        by (intro exI [of _ t] exI [of _ xs']) (simp add: start_outcome_def)
    next
      case False
      obtain t where t: "sdxstart io t0 = Ok () t" "stalled t y" "card t = snd (begins io y t0)"
        "kept y (t0\<lparr>card := snd (begins io y t0)\<rparr>) t"
        using sdxstart_refused [OF h y(2) t0(12) False t0(4,5) y(5,4,3,6)] by blast
      have k: "bflag_of t0 i - {B_WANTED, B_BUSY, B_ASYNC, B_AGE} \<subseteq> bflag_of t i" "b_data (buf t i) = b_data (buf t0 i)" for i
        using t(4) by (auto simp: kept_def)
      have "B_DONE \<in> bflag_of t i" if "B_DONE \<in> bflag_of t0 i" for i using k(1) [of i] that by auto
      moreover have "B_ERROR \<in> bflag_of t bp" if "B_ERROR \<in> bflag_of t0 bp" using k(1) [of bp] that by auto
      ultimately show ?thesis unfolding t0(1) using t(1-3) t0(7-10) False b Cons k(2)
        by (intro exI [of _ t] exI [of _ xs']) (simp add: start_outcome_def)
    qed
  qed
qed

lemma sdxintr_idle: "disk_ok s [] xs \<Longrightarrow> sdxintr io s = Ok () s"
  by (simp add: sdxintr_def disk_ok_def sdx_queue_def)

section \<open>Requests and interrupts in any order\<close>

text \<open>
  A run of the driver in which the card refuses no transfer: at each step an interrupt (\<open>None\<close>) or the request of a
  buffer that is neither on the queue nor on the free list. A refusal would leave the card idle with buffers on the queue.
\<close>

definition idle_queue :: "('c, 'z) disk_scheme \<Rightarrow> bool" where
  "idle_queue s \<longleftrightarrow> b_bcount (buf s sdxtab) = 0 \<and> av_forw (buf s sdxtab) \<noteq> NULLBUF"

inductive disk_run :: "'c sd_io_t \<Rightarrow> ('c, 'z) disk_scheme \<Rightarrow> nat option list \<Rightarrow> ('c, 'z) disk_scheme \<Rightarrow> bool" for io where
  stop: "disk_run io s [] s"
| interrupt: "sdxintr io s = Ok () t \<Longrightarrow> \<not> idle_queue t \<Longrightarrow> disk_run io t evs r \<Longrightarrow> disk_run io s (None # evs) r"
| request: "(\<And>bs xs. disk_ok s bs xs \<Longrightarrow> requestable s bs xs bp) \<Longrightarrow> sdxstrategy io bp s = Ok () t \<Longrightarrow> \<not> idle_queue t
    \<Longrightarrow> disk_run io t evs r \<Longrightarrow> disk_run io s (Some bp # evs) r"

inductive_cases disk_run_cases: "disk_run io s (ev # evs) r"

lemma stalled_idle: "stalled t bp \<Longrightarrow> bp \<noteq> NULLBUF \<Longrightarrow> idle_queue t"
  by (simp add: stalled_def idle_queue_def)

lemma started: "start_outcome io bs xs s t \<Longrightarrow> \<not> idle_queue t \<Longrightarrow> NULLBUF \<notin> set bs \<Longrightarrow> disk_ok t bs xs"
  using stalled_idle [of t "hd bs"] by (cases bs) (auto simp: start_outcome_def split: if_splits)

lemma disk_run_serves:
  assumes "disk_run io s evs r"
  shows "disk_ok s bs xs \<Longrightarrow> (\<forall>i. B_DONE \<in> bflag_of s i \<longrightarrow> B_DONE \<in> bflag_of r i)
    \<and> (\<forall>k < count_list evs None. k < length bs \<longrightarrow> B_DONE \<in> bflag_of r (bs ! k))"
  using assms
proof (induction arbitrary: bs xs)
  case (interrupt s t evs r)
  show ?case
  proof (cases bs)
    case Nil
    with interrupt.hyps(1) sdxintr_idle [of s xs io] interrupt.prems have "t = s" by simp
    with interrupt.IH [of bs xs] interrupt.prems Nil show ?thesis by simp
  next
    case (Cons b bs')
    obtain x d c where f: "finishes io b s = (x, d, c)" by (cases "finishes io b s")
    have n: "NULLBUF \<notin> set bs'" using interrupt.prems Cons by (auto simp: disk_ok_def sdx_queue_def)
    obtain xs' where i: "start_outcome io bs' xs' (s\<lparr>card := c\<rparr>) t" "B_DONE \<in> bflag_of t b"
      "\<forall>i. B_DONE \<in> bflag_of s i \<longrightarrow> B_DONE \<in> bflag_of t i"
      using sdxintr_outcome [OF interrupt.prems [unfolded Cons] f] interrupt.hyps(1) by auto
    note IH = interrupt.IH [OF started [OF i(1) interrupt.hyps(2) n]]
    have "B_DONE \<in> bflag_of r (bs ! k)" if "k < Suc (count_list evs None)" "k < length bs" for k
    proof (cases k)
      case 0 with i(2) IH Cons show ?thesis by auto
    next
      case (Suc j) with IH that Cons show ?thesis by auto
    qed
    with IH i(3) show ?thesis by auto
  qed
next
  case (request s bp t evs r)
  have rq: "requestable s bs xs bp" by (rule request.hyps(1) [OF request.prems])
  have n: "NULLBUF \<notin> set (bs @ [bp])" using request.prems rq by (auto simp: disk_ok_def sdx_queue_def requestable_def)
  from sdxstrategy_outcome [OF request.prems rq, of io] request.hyps(2)
  have o: "if bs = [] then start_outcome io [bp] xs s t else disk_ok t (bs @ [bp]) xs"
    and a: "\<And>i. B_DONE \<in> bflag_of s i \<Longrightarrow> B_DONE \<in> bflag_of t i" by (auto split: if_splits)
  have "disk_ok t (bs @ [bp]) xs" using o n started [of io "[bp]" xs s t] request.hyps(3) by (auto split: if_splits)
  note IH = request.IH [OF this]
  have "B_DONE \<in> bflag_of r (bs ! k)" if "k < count_list evs None" "k < length bs" for k
    using IH that by (auto simp: nth_append dest!: spec [of _ k] conjunct2)
  with IH a show ?case by auto
qed simp

section \<open>Properties\<close>

definition demo_disk :: "unit disk" where
  "demo_disk = kst.extend (bss\<lparr>buf := (\<lambda>_. zero_buf)(bfreelist := zero_buf\<lparr>av_forw := bfreelist, av_back := bfreelist\<rparr>,
       sdxtab := zero_buf\<lparr>av_forw := NULLBUF\<rparr>)\<rparr>)
     (disk.fields ((\<lambda>_. \<lparr>v_present = 0, v_start = 0, v_count = 0\<rparr>)(0 := \<lparr>v_present = 1, v_start = 2048, v_count = 100\<rparr>))
       1 (\<lambda>_. 0) (\<lambda>_. 0) True ())"

definition demo_card :: "unit sd_io_t" where
  "demo_card = \<lparr>sd_init = \<lambda>_ c. (1, c), iostart = \<lambda>_ _ _ c. (0, c), sd_iowait = \<lambda>_ _ c. (0, c), iofinish = \<lambda>_ d c. (0, d, c)\<rparr>"

lemma minor_0 [simp]: "minor 0 = 0"
  by (simp add: minor_def)

lemma demo_disk_ok: "disk_ok demo_disk [] []" "requestable demo_disk [] [] 5"
proof -
  have "queues demo_disk [] (\<lambda>_. [])" by (simp add: queues_def demo_disk_def bss_def kst.defs disk.defs)
  then have "calm demo_disk" by (auto simp: calm_def demo_disk_def bss_def kst.defs disk.defs)
  then show "disk_ok demo_disk [] []"
    by (simp add: disk_ok_def sdx_queue_def avail_def demo_disk_def bss_def kst.defs disk.defs zero_buf_def)
  show "requestable demo_disk [] [] 5"
    by (simp add: requestable_def demo_disk_def bss_def kst.defs disk.defs zero_buf_def u32_def drop_bit_eq_div)
qed

lemma demo_begins [simp]: "begins demo_card bp s = (0, card s)"
  by (simp add: begins_def demo_card_def)

text \<open>
  Claim C9. The linked queue of the disk driver is a first-in-first-out queue of buffers, whatever the card answers. A
  request for a block of a volume goes to its end; if the queue was empty the card is given its transfer. An interrupt
  marks the buffer at the front done, with the contents and the error that the card reports, takes it off and gives the
  card the next transfer. A transfer that the card refuses is completed with an error, but stays at the front with the
  card idle. Neither routine fails, provided that no process that is swapped out sleeps on the hash queue of
  a waiting swapper.
\<close>

theorem sdx_refines_fifo:
  assumes "disk_ok s bs xs"
  shows "(requestable s bs xs bp \<longrightarrow>
      (\<exists>t. sdxstrategy io bp s = Ok () t
         \<and> (if bs = [] then start_outcome io [bp] xs s t else disk_ok t (bs @ [bp]) xs \<and> card t = card s)))
    \<and> (case bs of [] \<Rightarrow> sdxintr io s = Ok () s
       | b # bs' \<Rightarrow> (case finishes io b s of (r, d, c) \<Rightarrow>
           \<exists>t xs'. sdxintr io s = Ok () t \<and> start_outcome io bs' xs' (s\<lparr>card := c\<rparr>) t
             \<and> B_DONE \<in> bflag_of t b \<and> b_data (buf t b) = d \<and> (r \<noteq> 0 \<longrightarrow> B_ERROR \<in> bflag_of t b)))"
proof (intro conjI impI)
  assume "requestable s bs xs bp"
  from sdxstrategy_outcome [OF assms this, of io] show "\<exists>t. sdxstrategy io bp s = Ok () t
         \<and> (if bs = [] then start_outcome io [bp] xs s t else disk_ok t (bs @ [bp]) xs \<and> card t = card s)" by blast
next
  show "case bs of [] \<Rightarrow> sdxintr io s = Ok () s
       | b # bs' \<Rightarrow> (case finishes io b s of (r, d, c) \<Rightarrow>
           \<exists>t xs'. sdxintr io s = Ok () t \<and> start_outcome io bs' xs' (s\<lparr>card := c\<rparr>) t
             \<and> B_DONE \<in> bflag_of t b \<and> b_data (buf t b) = d \<and> (r \<noteq> 0 \<longrightarrow> B_ERROR \<in> bflag_of t b))"
  proof (cases bs)
    case Nil
    with assms sdxintr_idle show ?thesis by auto
  next
    case (Cons b bs')
    obtain r d c where f: "finishes io b s = (r, d, c)" by (cases "finishes io b s")
    from sdxintr_outcome [OF assms [unfolded Cons] f] show ?thesis unfolding Cons list.case f prod.case by blast
  qed
qed

theorem sdx_refines_fifo_witness:
  "\<exists>t. sdxstrategy demo_card 5 demo_disk = Ok () t \<and> disk_ok t [5] []"
  using sdx_refines_fifo [OF demo_disk_ok(1), of 5 demo_card] demo_disk_ok(2) by (auto simp: start_outcome_def)




definition broken_card :: "unit sd_io_t" where
  "broken_card = demo_card\<lparr>iostart := \<lambda>_ _ _ c. (5, c)\<rparr>"


text \<open>
  A transfer of the last block of a volume is refused: the buffer is completed with an error and nothing is
  put on the queue.
\<close>

theorem sdx_last_block_refused:
  assumes "b_bcount (buf s bp) = 512" "b_blkno (buf s bp) = v_count (volumes s (nat (minor (b_dev (buf s bp))))) - 1"
    "0 < v_count (volumes s (nat (minor (b_dev (buf s bp)))))" "v_count (volumes s (nat (minor (b_dev (buf s bp))))) < 4294967296"
  shows "sdxstrategy io bp s = iodone bp (set_bflags bp (bflag_of s bp \<union> {B_ERROR}) s)"
proof -
  have "drop_bit 9 (512 + 511) = (1 :: int)" by (simp add: drop_bit_eq_div)
  then have "u32 (b_blkno (buf s bp) + drop_bit 9 (b_bcount (buf s bp) + 511)) = v_count (volumes s (nat (minor (b_dev (buf s bp)))))"
    using assms by (simp add: u32_id)
  then show ?thesis by (simp add: sdxstrategy_def Let_def)
qed

theorem sdx_last_block_refused_witness:
  "let s = upd_buf 5 (\<lambda>b. b\<lparr>b_bcount := 512, b_blkno := 99\<rparr>) demo_disk
   in sdxstrategy demo_card 5 s = iodone 5 (set_bflags 5 (bflag_of s 5 \<union> {B_ERROR}) s)"
  unfolding Let_def
  by (rule sdx_last_block_refused) (simp_all add: demo_disk_def bss_def kst.defs disk.defs zero_buf_def upd_buf_def)

end
