(* ===== verification/Irq.thy ===== *)
theory Irq
  imports Kernel_State
begin

text \<open>
  Interrupts (\<open>usr/sys/bcm283x/dev/bcm283x_irq.c\<close>): the table of handlers, the lines of the controller and the dispatcher
  \<open>irqc\<close>, and the processor priority, which on this machine is only the interrupt flag of the processor
  (\<open>spl0\<close> to \<open>splx\<close>). Handlers are numbers; what they do to the rest of the machine is a parameter. Writes to
  registers of the controller are collected, the values read from it are arguments of \<open>irqc\<close>.
\<close>

section \<open>State\<close>

record irq_handler_t =
  h_fn :: "nat option"
  h_tfn :: "nat option"
  h_arg :: int

datatype ic_reg = FIQ_CONTROL | ENABLE_IRQS_1 | ENABLE_IRQS_2 | ENABLE_BASIC | DISABLE_IRQS_1 | DISABLE_IRQS_2 | DISABLE_BASIC

record 'm irqs =
  irq_handlers :: "nat \<Rightarrow> irq_handler_t"
  ic_writes :: "(ic_reg \<times> int) list"
  machine :: 'm

abbreviation (input) NUM_IRQ_HANDLERS :: nat where "NUM_IRQ_HANDLERS \<equiv> 120"

definition iowrite32 :: "ic_reg \<Rightarrow> int \<Rightarrow> 'm irqs \<Rightarrow> 'm irqs" where
  "iowrite32 r v s = s\<lparr>ic_writes := ic_writes s @ [(r, u32 v)]\<rparr>"

definition set_handler :: "nat \<Rightarrow> (irq_handler_t \<Rightarrow> irq_handler_t) \<Rightarrow> 'm irqs \<Rightarrow> 'm irqs" where
  "set_handler n f s = s\<lparr>irq_handlers := (irq_handlers s)(n := f (irq_handlers s n))\<rparr>"

section \<open>Lines and handlers\<close>

definition enable_irq_line :: "nat \<Rightarrow> 'm irqs \<Rightarrow> int \<times> 'm irqs" where
  "enable_irq_line irqnum s =
     (if irqnum < 32 then (0, iowrite32 ENABLE_IRQS_1 (push_bit irqnum 1) s)
      else if irqnum < 64 then (0, iowrite32 ENABLE_IRQS_2 (push_bit (irqnum - 32) 1) s)
      else if irqnum < 72 then (0, iowrite32 ENABLE_BASIC (push_bit (irqnum - 64) 1) s)
      else if irqnum < NUM_IRQ_HANDLERS then (0, s)
      else (- EINVAL, s))"

definition disable_irq_line :: "nat \<Rightarrow> 'm irqs \<Rightarrow> int \<times> 'm irqs" where
  "disable_irq_line irqnum s =
     (if irqnum < 32 then (0, iowrite32 DISABLE_IRQS_1 (push_bit irqnum 1) s)
      else if irqnum < 64 then (0, iowrite32 DISABLE_IRQS_2 (push_bit (irqnum - 32) 1) s)
      else if irqnum < 72 then (0, iowrite32 DISABLE_BASIC (push_bit (irqnum - 64) 1) s)
      else if irqnum < NUM_IRQ_HANDLERS then (0, s)
      else (- EINVAL, s))"

definition register_irq_handler :: "nat \<Rightarrow> nat option \<Rightarrow> int \<Rightarrow> 'm irqs \<Rightarrow> int \<times> 'm irqs" where
  "register_irq_handler irqnum fn arg s =
     (if irqnum \<ge> NUM_IRQ_HANDLERS \<or> fn = None then (- EINVAL, s)
      else if h_fn (irq_handlers s irqnum) \<noteq> None \<or> h_tfn (irq_handlers s irqnum) \<noteq> None then (- EBUSY, s)
      else
        (let s = set_handler irqnum (\<lambda>h. h\<lparr>h_fn := fn, h_arg := arg\<rparr>) s;
             (r, s) = enable_irq_line irqnum s
         in if r \<noteq> 0 then (- EINVAL, set_handler irqnum (\<lambda>h. h\<lparr>h_fn := None, h_arg := 0\<rparr>) s)
            else (0, s)))"

definition register_timer_irq_handler :: "nat \<Rightarrow> nat option \<Rightarrow> int \<Rightarrow> 'm irqs \<Rightarrow> int \<times> 'm irqs" where
  "register_timer_irq_handler irqnum fn arg s =
     (if irqnum \<ge> NUM_IRQ_HANDLERS \<or> fn = None then (- EINVAL, s)
      else if h_fn (irq_handlers s irqnum) \<noteq> None \<or> h_tfn (irq_handlers s irqnum) \<noteq> None then (- EBUSY, s)
      else
        (let s = set_handler irqnum (\<lambda>h. h\<lparr>h_tfn := fn, h_arg := arg\<rparr>) s;
             (r, s) = enable_irq_line irqnum s
         in if r \<noteq> 0 then (- EINVAL, set_handler irqnum (\<lambda>h. h\<lparr>h_fn := None, h_tfn := None, h_arg := 0\<rparr>) s)
            else (0, s)))"

definition deregister_irq_handler :: "nat \<Rightarrow> 'm irqs \<Rightarrow> int \<times> 'm irqs" where
  "deregister_irq_handler irqnum s =
     (if irqnum \<ge> NUM_IRQ_HANDLERS then (- EINVAL, s)
      else
        (let (r, s) = disable_irq_line irqnum s in
         if r \<noteq> 0 then (- EINVAL, s)
         else (0, set_handler irqnum (\<lambda>h. h\<lparr>h_fn := None, h_tfn := None, h_arg := 0\<rparr>) s)))"

definition init_irq :: "'m irqs \<Rightarrow> 'm irqs" where
  "init_irq s =
     (let s = iowrite32 DISABLE_IRQS_1 (- 1) s;
          s = iowrite32 DISABLE_IRQS_2 (- 1) s;
          s = iowrite32 DISABLE_BASIC (- 1) s;
          s = iowrite32 FIQ_CONTROL 0 s
      in fold (\<lambda>i. set_handler i (\<lambda>h. h\<lparr>h_fn := None, h_arg := 0\<rparr>)) [0..<72] s)"

definition deinit_irq :: "'m irqs \<Rightarrow> 'm irqs" where
  "deinit_irq s = init_irq s"

section \<open>Dispatch\<close>

text \<open>\<open>call\<close> and \<open>tcall\<close> run a handler with its argument; the second kind also gets the trap frame.\<close>

definition do_process_irq ::
  "(nat \<Rightarrow> int \<Rightarrow> 'm irqs \<Rightarrow> 'm irqs) \<Rightarrow> (nat \<Rightarrow> int \<Rightarrow> 'm irqs \<Rightarrow> 'm irqs) \<Rightarrow> nat \<Rightarrow> 'm irqs \<Rightarrow> (unit, 'm irqs) res" where
  "do_process_irq call tcall irqnum s =
     (if irqnum \<ge> NUM_IRQ_HANDLERS then Panic ''do_process_irq: bad interrupt number'' s
      else
        (let h = irq_handlers s irqnum in
         case h_tfn h of
           Some f \<Rightarrow> Ok () (tcall f (h_arg h) s)
         | None \<Rightarrow> (case h_fn h of
             Some f \<Rightarrow> Ok () (call f (h_arg h) s)
           | None \<Rightarrow> Panic ''do_process_irq: spurious interrupt'' s)))"

fun process_all ::
  "(nat \<Rightarrow> int \<Rightarrow> 'm irqs \<Rightarrow> 'm irqs) \<Rightarrow> (nat \<Rightarrow> int \<Rightarrow> 'm irqs \<Rightarrow> 'm irqs) \<Rightarrow> nat list \<Rightarrow> 'm irqs \<Rightarrow> (unit, 'm irqs) res" where
  "process_all call tcall [] s = Ok () s"
| "process_all call tcall (n # ns) s = bnd (do_process_irq call tcall n s) (\<lambda>_ s. process_all call tcall ns s)"

text \<open>The loop over the sources of the core: it ends early when no bit is left.\<close>

fun core_irqs :: "nat \<Rightarrow> nat \<Rightarrow> nat \<Rightarrow> int \<Rightarrow> nat list" where
  "core_irqs 0 i cpu core_src = []"
| "core_irqs (Suc k) i cpu core_src =
     (if core_src = 0 then []
      else (if core_src AND 1 \<noteq> 0 then [72 + 12 * cpu + i] else []) @ core_irqs k (i + 1) cpu (drop_bit 1 core_src))"

definition bits_at :: "int \<Rightarrow> nat list \<Rightarrow> (nat \<Rightarrow> nat) \<Rightarrow> nat list" where
  "bits_at v is f = map f (filter (\<lambda>i. v AND push_bit i 1 \<noteq> 0) is)"

text \<open>
  The numbers of the interrupts in the order they are handled. The registers are read before the first handler
  runs: \<open>src\<close> is the source register of the core, \<open>p0\<close>, \<open>p1\<close> and \<open>p2\<close> the three pending registers.
\<close>

definition irq_order :: "bool \<Rightarrow> nat \<Rightarrow> int \<Rightarrow> int \<Rightarrow> int \<Rightarrow> int \<Rightarrow> nat list" where
  "irq_order has_core cpu src p0 p1 p2 =
     (let core_src = (if has_core then src AND 0xfff else 0);
          pend0 = p0 AND 0x1fffff;
          pend1 = (if pend0 AND push_bit 8 1 \<noteq> 0
                   then p1 AND u32 (NOT (push_bit 7 1 OR push_bit 9 1 OR push_bit 10 1 OR push_bit 18 1 OR push_bit 19 1)) else 0);
          pend2 = (if pend0 AND push_bit 9 1 \<noteq> 0
                   then p2 AND u32 (NOT (push_bit 21 1 OR push_bit 22 1 OR push_bit 23 1 OR push_bit 24 1 OR push_bit 25 1 OR push_bit 30 1)) else 0);
          pend0 = pend0 AND u32 (NOT (push_bit 8 1 OR push_bit 9 1))
      in (if has_core \<and> core_src \<noteq> 0 then core_irqs 12 0 cpu core_src else [])
         @ (if pend0 \<noteq> 0 then
              bits_at pend0 [0..<8] (\<lambda>i. 64 + i) @ bits_at pend0 [10] (\<lambda>_. 7) @ bits_at pend0 [11..<13] (\<lambda>i. i - 2)
              @ bits_at pend0 [13..<15] (\<lambda>i. i + 5) @ bits_at pend0 [15..<20] (\<lambda>i. i + 38) @ bits_at pend0 [20] (\<lambda>_. 62)
            else [])
         @ (if pend1 \<noteq> 0 then bits_at pend1 [0..<32] (\<lambda>i. i) else [])
         @ (if pend2 \<noteq> 0 then bits_at pend2 [0..<32] (\<lambda>i. 32 + i) else []))"

definition irqc ::
  "(nat \<Rightarrow> int \<Rightarrow> 'm irqs \<Rightarrow> 'm irqs) \<Rightarrow> (nat \<Rightarrow> int \<Rightarrow> 'm irqs \<Rightarrow> 'm irqs) \<Rightarrow> bool \<Rightarrow> nat \<Rightarrow> int \<times> int \<times> int \<times> int \<Rightarrow> 'm irqs \<Rightarrow> (unit, 'm irqs) res" where
  "irqc call tcall has_core cpu regs s =
     (case regs of (src, p0, p1, p2) \<Rightarrow> process_all call tcall (irq_order has_core cpu src p0 p1 p2) s)"

section \<open>The priority of the processor\<close>

text \<open>The state is whether interrupts are enabled; the result tells whether they were.\<close>

definition enable_interrupts :: "bool \<Rightarrow> int \<times> bool" where
  "enable_interrupts on = (of_bool on, True)"

definition disable_interrupts :: "bool \<Rightarrow> int \<times> bool" where
  "disable_interrupts on = (of_bool on, False)"

definition spl0 :: "bool \<Rightarrow> int \<times> bool" where
  "spl0 on = enable_interrupts on"

definition spl7 :: "bool \<Rightarrow> int \<times> bool" where
  "spl7 on = disable_interrupts on"

definition splx_arm :: "int \<Rightarrow> bool \<Rightarrow> bool" where
  "splx_arm s on = (if s \<noteq> 0 then snd (enable_interrupts on) else snd (disable_interrupts on))"

section \<open>Every pending interrupt is handled once\<close>

lemma test_bit: "(v AND push_bit i 1 \<noteq> 0) = bit (v :: int) i"
  by (simp add: push_bit_of_1 and_exp_eq_0_iff_not_bit)

lemma bits_at_set: "set (bits_at v is f) = f ` {i \<in> set is. bit v i}"
  unfolding bits_at_def test_bit by auto

lemma core_irqs_eq: "core_irqs k i cpu v = map (\<lambda>j. 72 + 12 * cpu + (i + j)) (filter (bit v) [0..<k])"
proof (induction k arbitrary: i v)
  case (Suc k)
  show ?case
  proof (cases "v = 0")
    case False
    have "map (\<lambda>j. 72 + 12 * cpu + (i + j)) (filter (bit v) [0..<Suc k]) =
      (if odd v then [72 + 12 * cpu + i] else []) @ map (\<lambda>j. 72 + 12 * cpu + (i + Suc j)) (filter (\<lambda>j. bit v (Suc j)) [0..<k])"
      by (simp add: upt_conv_Cons map_Suc_upt [symmetric] filter_map o_def bit_0 del: upt_Suc)
    with Suc False show ?thesis by (simp add: and_one_eq odd_iff_mod_2_eq_one bit_drop_bit_eq o_def)
  qed simp
qed simp

text \<open>
  What the controller promises about the first pending register: its bits 8 and 9 tell whether one of the other
  registers has a bit that is not shown in the first one, and the rest of its bits 10 to 20 are those shown.
\<close>

definition reflected_1 :: "nat list" where "reflected_1 = [7, 9, 10, 18, 19]"

definition reflected_2 :: "nat list" where "reflected_2 = [21, 22, 23, 24, 25, 30]"

definition controller_ok :: "int \<Rightarrow> int \<Rightarrow> int \<Rightarrow> bool" where
  "controller_ok p0 p1 p2 \<longleftrightarrow>
     (bit p0 8 \<longleftrightarrow> (\<exists>i < 32. bit p1 i \<and> i \<notin> set reflected_1)) \<and> (bit p0 9 \<longleftrightarrow> (\<exists>i < 32. bit p2 i \<and> i \<notin> set reflected_2))
     \<and> (\<forall>k < 5. bit p0 (10 + k) \<longleftrightarrow> bit p1 (reflected_1 ! k)) \<and> (\<forall>k < 6. bit p0 (15 + k) \<longleftrightarrow> bit p2 (reflected_2 ! k))"

text \<open>The lines that are pending, from the three registers and the source register of the core.\<close>

definition pending_lines :: "bool \<Rightarrow> nat \<Rightarrow> int \<Rightarrow> int \<Rightarrow> int \<Rightarrow> int \<Rightarrow> nat set" where
  "pending_lines has_core cpu src p0 p1 p2 =
     {i. i < 32 \<and> bit p1 i} \<union> {32 + i | i. i < 32 \<and> bit p2 i} \<union> {64 + i | i. i < 8 \<and> bit p0 i}
     \<union> {72 + 12 * cpu + i | i. has_core \<and> i < 12 \<and> bit src i}"

lemma bit_u32: "bit (u32 x) i \<longleftrightarrow> i < 32 \<and> bit x i"
proof -
  have "u32 x = take_bit 32 x" by (simp add: u32_def take_bit_eq_mod)
  then show ?thesis by (simp add: bit_take_bit_iff)
qed

lemma bit_push: "bit (push_bit m (1 :: int)) i \<longleftrightarrow> i = m"
  by (rule bit_push_1)

text \<open>The pending bits after masking.\<close>

lemma masked_1:
  "bit (p1 AND u32 (NOT (push_bit 7 1 OR push_bit 9 1 OR push_bit 10 1 OR push_bit 18 1 OR push_bit 19 1))) i
   \<longleftrightarrow> i < 32 \<and> bit (p1 :: int) i \<and> i \<notin> set reflected_1"
  unfolding bit_and_iff bit_u32 bit_not_int_iff bit_or_iff bit_push reflected_1_def by auto

lemma masked_2:
  "bit (p2 AND u32 (NOT (push_bit 21 1 OR push_bit 22 1 OR push_bit 23 1 OR push_bit 24 1 OR push_bit 25 1 OR push_bit 30 1))) i
   \<longleftrightarrow> i < 32 \<and> bit (p2 :: int) i \<and> i \<notin> set reflected_2"
  unfolding bit_and_iff bit_u32 bit_not_int_iff bit_or_iff bit_push reflected_2_def by auto

lemma bit_0x1fffff: "bit (0x1fffff :: int) i \<longleftrightarrow> i < 21"
proof -
  have "(0x1fffff :: int) = mask 21" by (simp add: mask_eq_exp_minus_1)
  then show ?thesis unfolding bit_mask_iff by (simp only: bit_mask_iff possible_bit_def) simp
qed

lemma bit_0xfff: "bit (0xfff :: int) i \<longleftrightarrow> i < 12"
proof -
  have "(0xfff :: int) = mask 12" by (simp add: mask_eq_exp_minus_1)
  then show ?thesis unfolding bit_mask_iff by (simp only: bit_mask_iff possible_bit_def) simp
qed

lemma masked_0: "bit ((p0 AND 0x1fffff) AND u32 (NOT (push_bit 8 1 OR push_bit 9 1))) i
   \<longleftrightarrow> i < 21 \<and> i \<noteq> 8 \<and> i \<noteq> 9 \<and> bit (p0 :: int) i"
  unfolding bit_and_iff bit_u32 bit_not_int_iff bit_or_iff bit_push bit_0x1fffff by auto

lemma bits_at_nil: "v = 0 \<Longrightarrow> bits_at v is f = []"
  by (simp add: bits_at_def)

lemma bits_at_cong: "(\<And>i. i \<in> set is \<Longrightarrow> bit v i = bit w i) \<Longrightarrow> bits_at v is f = bits_at w is f"
  unfolding bits_at_def test_bit by (intro arg_cong [where f = "map f"] filter_cong) auto

lemma bits_at_none: "(\<And>i. i \<in> set is \<Longrightarrow> \<not> bit v i) \<Longrightarrow> bits_at v is f = []"
  unfolding bits_at_def test_bit by (simp add: filter_empty_conv)

text \<open>The order without the tests for registers that are zero.\<close>

definition basic_irqs :: "int \<Rightarrow> nat list" where
  "basic_irqs p0 =
     bits_at p0 [0..<8] (\<lambda>i. 64 + i) @ bits_at p0 [10] (\<lambda>_. 7) @ bits_at p0 [11..<13] (\<lambda>i. i - 2)
     @ bits_at p0 [13..<15] (\<lambda>i. i + 5) @ bits_at p0 [15..<20] (\<lambda>i. i + 38) @ bits_at p0 [20] (\<lambda>_. 62)"

definition not_shown :: "int \<Rightarrow> nat list \<Rightarrow> nat \<Rightarrow> nat list" where
  "not_shown p shown off = map (\<lambda>i. off + i) (filter (\<lambda>i. bit p i \<and> i \<notin> set shown) [0..<32])"

lemma irq_order_eq:
  assumes "controller_ok p0 p1 p2"
  shows "irq_order has_core cpu src p0 p1 p2 =
    (if has_core then map (\<lambda>j. 72 + 12 * cpu + j) (filter (bit src) [0..<12]) else [])
    @ basic_irqs p0 @ not_shown p1 reflected_1 0 @ not_shown p2 reflected_2 32"
proof -
  define m0 where "m0 = (p0 AND 0x1fffff) AND u32 (NOT (push_bit 8 1 OR push_bit 9 1))"
  define m1 where "m1 = (if bit p0 8 then p1 AND u32 (NOT (push_bit 7 1 OR push_bit 9 1 OR push_bit 10 1 OR push_bit 18 1 OR push_bit 19 1)) else 0)"
  define m2 where "m2 = (if bit p0 9 then p2 AND u32 (NOT (push_bit 21 1 OR push_bit 22 1 OR push_bit 23 1 OR push_bit 24 1 OR push_bit 25 1 OR push_bit 30 1)) else 0)"
  have b89: "bit (p0 AND 0x1fffff) 8 = bit p0 8" "bit (p0 AND 0x1fffff) 9 = bit p0 9" by (simp_all add: bit_and_iff bit_0x1fffff)
  have m1: "bits_at m1 [0..<32] (\<lambda>i. i) = not_shown p1 reflected_1 0"
  proof (cases "bit p0 8")
    case True
    have "filter (\<lambda>i. i < 32 \<and> bit p1 i \<and> i \<notin> set reflected_1) [0..<32] = filter (\<lambda>i. bit p1 i \<and> i \<notin> set reflected_1) [0..<32]"
      by (rule filter_cong) auto
    with True show ?thesis unfolding m1_def not_shown_def bits_at_def test_bit by (simp only: if_True masked_1 add_0 map_ident) (simp add: map_idI)
  next
    case False
    then have "\<And>i. i < 32 \<Longrightarrow> \<not> (bit p1 i \<and> i \<notin> set reflected_1)" using assms unfolding controller_ok_def by blast
    then have "not_shown p1 reflected_1 0 = []" unfolding not_shown_def by (simp add: filter_empty_conv)
    with False show ?thesis unfolding m1_def by (simp add: bits_at_nil)
  qed
  have m2: "bits_at m2 [0..<32] (\<lambda>i. 32 + i) = not_shown p2 reflected_2 32"
  proof (cases "bit p0 9")
    case True
    have "filter (\<lambda>i. i < 32 \<and> bit p2 i \<and> i \<notin> set reflected_2) [0..<32] = filter (\<lambda>i. bit p2 i \<and> i \<notin> set reflected_2) [0..<32]"
      by (rule filter_cong) auto
    with True show ?thesis unfolding m2_def not_shown_def bits_at_def test_bit by (simp only: if_True masked_2 add_0 map_ident) 
  next
    case False
    then have "\<And>i. i < 32 \<Longrightarrow> \<not> (bit p2 i \<and> i \<notin> set reflected_2)" using assms unfolding controller_ok_def by blast
    then have "not_shown p2 reflected_2 32 = []" unfolding not_shown_def by (simp add: filter_empty_conv)
    with False show ?thesis unfolding m2_def by (simp add: bits_at_nil)
  qed
  have bm: "bit m0 i \<longleftrightarrow> i < 21 \<and> i \<noteq> 8 \<and> i \<noteq> 9 \<and> bit p0 i" for i unfolding m0_def by (rule masked_0)
  have m0: "bits_at m0 [0..<8] (\<lambda>i. 64 + i) @ bits_at m0 [10] (\<lambda>_. 7) @ bits_at m0 [11..<13] (\<lambda>i. i - 2)
      @ bits_at m0 [13..<15] (\<lambda>i. i + 5) @ bits_at m0 [15..<20] (\<lambda>i. i + 38) @ bits_at m0 [20] (\<lambda>_. 62) = basic_irqs p0"
    unfolding basic_irqs_def by (intro arg_cong2 [where f = "(@)"] bits_at_cong) (auto simp: bm)
  have cores: "core_irqs 12 0 cpu (src AND 0xfff) = map (\<lambda>j. 72 + 12 * cpu + j) (filter (bit src) [0..<12])"
    unfolding core_irqs_eq by (auto simp: bit_and_iff bit_0xfff intro!: arg_cong [where f = "map _"] filter_cong)
  have nocores: "map (\<lambda>j. 72 + 12 * cpu + j) (filter (bit src) [0..<12]) = []" if "src AND 0xfff = 0"
  proof -
    have "core_irqs 12 0 cpu 0 = []" by (simp add: core_irqs_eq)
    with cores that show ?thesis by argo
  qed
  have "irq_order has_core cpu src p0 p1 p2 =
      (if has_core \<and> src AND 0xfff \<noteq> 0 then core_irqs 12 0 cpu (src AND 0xfff) else [])
      @ (if m0 \<noteq> 0 then bits_at m0 [0..<8] (\<lambda>i. 64 + i) @ bits_at m0 [10] (\<lambda>_. 7) @ bits_at m0 [11..<13] (\<lambda>i. i - 2)
          @ bits_at m0 [13..<15] (\<lambda>i. i + 5) @ bits_at m0 [15..<20] (\<lambda>i. i + 38) @ bits_at m0 [20] (\<lambda>_. 62) else [])
      @ (if m1 \<noteq> 0 then bits_at m1 [0..<32] (\<lambda>i. i) else []) @ (if m2 \<noteq> 0 then bits_at m2 [0..<32] (\<lambda>i. 32 + i) else [])"
    unfolding irq_order_def Let_def test_bit b89 m0_def [symmetric] m1_def [symmetric] m2_def [symmetric] by simp
  also have "\<dots> = (if has_core then map (\<lambda>j. 72 + 12 * cpu + j) (filter (bit src) [0..<12]) else [])
    @ basic_irqs p0 @ not_shown p1 reflected_1 0 @ not_shown p2 reflected_2 32"
    using nocores bits_at_nil [of m0] bits_at_nil [of m1] bits_at_nil [of m2]
    unfolding m0 [symmetric] m1 [symmetric] m2 [symmetric] cores by (intro arg_cong2 [where f = "(@)"]) simp_all
  finally show ?thesis .
qed

text \<open>The interrupts shown in the first register: the eight of the processor and those of the other two registers.\<close>

lemma basic_irqs_eq:
  assumes "controller_ok p0 p1 p2"
  shows "basic_irqs p0 = map (\<lambda>i. 64 + i) (filter (bit p0) [0..<8]) @ filter (bit p1) reflected_1
    @ map (\<lambda>i. 32 + i) (filter (bit p2) reflected_2)"
proof -
  have r: "bit p0 10 = bit p1 7" "bit p0 11 = bit p1 9" "bit p0 12 = bit p1 10" "bit p0 13 = bit p1 18" "bit p0 14 = bit p1 19"
    using assms unfolding controller_ok_def reflected_1_def
    by (auto dest!: conjunct1 [OF conjunct2 [OF conjunct2]] simp: numeral_eq_Suc All_less_Suc2)
  have q: "bit p0 15 = bit p2 21" "bit p0 16 = bit p2 22" "bit p0 17 = bit p2 23" "bit p0 18 = bit p2 24" "bit p0 19 = bit p2 25" "bit p0 20 = bit p2 30"
    using assms unfolding controller_ok_def reflected_2_def
    by (auto dest!: conjunct2 [OF conjunct2 [OF conjunct2]] simp: numeral_eq_Suc All_less_Suc2)
  have u: "[11..<13] = [11, 12 :: nat]" "[13..<15] = [13, 14 :: nat]" "[15..<20] = [15, 16, 17, 18, 19 :: nat]" by (simp_all add: upt_rec)
  show ?thesis
    unfolding basic_irqs_def bits_at_def test_bit u reflected_1_def reflected_2_def by (simp add: r q)
qed

lemma pending_once:
  assumes "controller_ok p0 p1 p2"
  shows "distinct (irq_order has_core cpu src p0 p1 p2)
    \<and> set (irq_order has_core cpu src p0 p1 p2) = pending_lines has_core cpu src p0 p1 p2"
proof -
  have r: "\<And>i. i \<in> set reflected_1 \<Longrightarrow> i < 32" "\<And>i. i \<in> set reflected_2 \<Longrightarrow> i < 32" "distinct reflected_1" "distinct reflected_2"
    by (auto simp: reflected_1_def reflected_2_def)
  then show ?thesis
    unfolding irq_order_eq [OF assms] basic_irqs_eq [OF assms] pending_lines_def not_shown_def
    by (auto simp: distinct_map inj_on_def dest: r(1,2))
qed

section \<open>Properties\<close>

text \<open>
  Claim C19. When the controller sets the bits of its first pending register as documented, \<open>irqc\<close> handles exactly the
  pending interrupts, each of them once, although many are shown in two registers.
\<close>

theorem irqc_serves_each_once:
  assumes "controller_ok p0 p1 p2"
  shows "\<exists>ns. irqc call tcall has_core cpu (src, p0, p1, p2) s = process_all call tcall ns s
    \<and> distinct ns \<and> set ns = pending_lines has_core cpu src p0 p1 p2"
  using pending_once [OF assms] by (auto simp: irqc_def)

theorem irqc_serves_each_once_witness:
  "\<forall>call tcall s. \<exists>ns. irqc call tcall False 0 (0, 0x100400, 0x80, 0x40000000) s = process_all call tcall ns s
    \<and> distinct ns \<and> set ns = {7, 62}"
proof (intro allI)
  fix call tcall :: "nat \<Rightarrow> int \<Rightarrow> 'm irqs \<Rightarrow> 'm irqs" and s
  have b: "bit (0x100400 :: int) i \<longleftrightarrow> i = 10 \<or> i = 20" "bit (0x80 :: int) i \<longleftrightarrow> i = 7" "bit (0x40000000 :: int) i \<longleftrightarrow> i = 30" for i
  proof -
    have "(0x100400 :: int) = push_bit 10 1 OR push_bit 20 1" "(0x80 :: int) = push_bit 7 1" "(0x40000000 :: int) = push_bit 30 1" by simp_all
    then show "bit (0x100400 :: int) i \<longleftrightarrow> i = 10 \<or> i = 20" "bit (0x80 :: int) i \<longleftrightarrow> i = 7" "bit (0x40000000 :: int) i \<longleftrightarrow> i = 30"
      unfolding bit_or_iff by (simp_all only: bit_or_iff bit_push)
  qed
  have "controller_ok 0x100400 0x80 0x40000000"
    unfolding controller_ok_def b reflected_1_def reflected_2_def by (simp add: numeral_eq_Suc All_less_Suc2)
  moreover have "pending_lines False 0 0 0x100400 0x80 0x40000000 = {7, 62}" unfolding pending_lines_def b by auto
  ultimately show "\<exists>ns. irqc call tcall False 0 (0, 0x100400, 0x80, 0x40000000) s = process_all call tcall ns s
    \<and> distinct ns \<and> set ns = {7, 62}" using irqc_serves_each_once [of "0x100400" "0x80" "0x40000000" call tcall False 0 0 s] by simp
qed

text \<open>\<open>splx\<close> restores the state that the \<open>spl\<close> routine before it found.\<close>

lemma splx_restores: "(case spl7 on of (s, on') \<Rightarrow> splx_arm s on') = on" "(case spl0 on of (s, on') \<Rightarrow> splx_arm s on') = on"
  by (cases on; simp add: spl7_def spl0_def splx_arm_def enable_interrupts_def disable_interrupts_def)+

text \<open>A line has at most one handler, and a handler that was registered is the one called.\<close>

lemma register_then_process:
  assumes "register_irq_handler n (Some f) a s = (0, t)"
  shows "do_process_irq call tcall n t = Ok () (call f a t) \<and> fst (register_irq_handler n g b t) \<noteq> 0"
  using assms
  by (auto simp: register_irq_handler_def enable_irq_line_def set_handler_def iowrite32_def do_process_irq_def Let_def split: if_splits)

text \<open>\<open>init_irq\<close> clears neither the handlers for the sources of the cores nor those that take the trap frame.\<close>

lemma init_irq_leaves:
  "irq_handlers (init_irq s) 72 = irq_handlers s 72" "h_tfn (irq_handlers (init_irq s) n) = h_tfn (irq_handlers s n)"
proof -
  have f: "irq_handlers (fold (\<lambda>i. set_handler i (\<lambda>h. h\<lparr>h_fn := None, h_arg := 0\<rparr>)) is s) k =
      (if k \<in> set is then (irq_handlers s k)\<lparr>h_fn := None, h_arg := 0\<rparr> else irq_handlers s k)" for "is" k and s :: "'m irqs"
    by (induction "is" arbitrary: s) (auto simp: set_handler_def)
  show "irq_handlers (init_irq s) 72 = irq_handlers s 72" "h_tfn (irq_handlers (init_irq s) n) = h_tfn (irq_handlers s n)"
    by (simp_all add: init_irq_def f iowrite32_def Let_def)
qed

end
