(* ===== verification/Vfp.thy ===== *)
theory Vfp
  imports Syscalls Irq
begin

text \<open>
  The floating point unit (\<open>usr/sys/bcm283x/vfp.c\<close>, \<open>undefined.c\<close>) and the entries of the kernel that concern it
  or the interrupts (\<open>c_entry_und\<close>, \<open>c_entry_pabt\<close>, \<open>c_entry_irq\<close> of \<open>traps.c\<close>). The unit is switched off whenever a
  process stops running; its first floating point instruction afterwards is undefined, and the handler
  \<open>vfp_bounce\<close> loads the saved registers and switches it on. The registers of the unit are the record \<open>vfp_unit\<close>;
  \<open>u_fps_t\<close> is the save area in the user structure. What a register keeps of a value written to it is what was
  written.
\<close>

section \<open>The unit\<close>

record vfp_unit =
  cpacr :: int
  fpsid :: int
  mvfr0 :: int
  mvfr1 :: int
  fpexc :: int
  fpscr :: int
  fpinst :: int
  fpinst2 :: int
  fpregs :: "nat \<Rightarrow> int"

record u_fps_t =
  u_fpregs :: "nat \<Rightarrow> int"
  u_fpscr :: int
  u_fpexec :: int
  u_fpinst :: int
  u_fpinst2 :: int

text \<open>The static variables of \<open>vfp.c\<close>, the unit and the save area of the running process.\<close>

record vfp =
  vfp_exists :: bool
  is_d32 :: bool
  initial_fpscr :: int
  unit :: vfp_unit
  u_fps :: u_fps_t

abbreviation (input) FPEXC_EN :: int where "FPEXC_EN \<equiv> 0x40000000"
abbreviation (input) FPEXC_EX :: int where "FPEXC_EX \<equiv> 0x80000000"
abbreviation (input) FPEXC_FP2V :: int where "FPEXC_FP2V \<equiv> 0x10000000"

definition upd_unit :: "(vfp_unit \<Rightarrow> vfp_unit) \<Rightarrow> vfp \<Rightarrow> vfp" where
  "upd_unit f v = v\<lparr>unit := f (unit v)\<rparr>"

definition upd_fps :: "(u_fps_t \<Rightarrow> u_fps_t) \<Rightarrow> vfp \<Rightarrow> vfp" where
  "upd_fps f v = v\<lparr>u_fps := f (u_fps v)\<rparr>"

text \<open>The number of double registers that are saved and loaded (\<open>vfp_asm.s\<close>).\<close>

definition n_dregs :: "vfp \<Rightarrow> nat" where
  "n_dregs v = (if is_d32 v then 32 else 16)"

definition vfp_init :: "vfp \<Rightarrow> vfp" where
  "vfp_init v =
     (let v = upd_unit (\<lambda>x. x\<lparr>cpacr := cpacr x OR (push_bit 20 3 OR push_bit 22 3)\<rparr>) v;
          sid = fpsid (unit v)
      in if sid AND 0x00800000 \<noteq> 0 then v
         else
           (let v = v\<lparr>vfp_exists := True, is_d32 := False\<rparr>;
                arch = drop_bit 16 (sid AND 0x000f0000)
            in if arch \<ge> 2 then
                 (let v = (if mvfr0 (unit v) AND 0xf = 2 then v\<lparr>is_d32 := True\<rparr> else v)
                  in if mvfr1 (unit v) AND 0xf = 1 then v\<lparr>initial_fpscr := initial_fpscr v AND u32 (NOT 0x01000000)\<rparr> else v)
               else v))"

definition vfp_store :: "bool \<Rightarrow> vfp \<Rightarrow> vfp" where
  "vfp_store disable_vfp v =
     (let e = fpexc (unit v) in
      if e AND FPEXC_EN = 0 then v
      else
        (let v = upd_fps (\<lambda>f. f\<lparr>u_fpexec := e\<rparr>) v;
             v = upd_fps (\<lambda>f. f\<lparr>u_fpscr := fpscr (unit v)\<rparr>) v;
             (e, v) = (if e AND FPEXC_EX \<noteq> 0 then
                         (let v = upd_fps (\<lambda>f. f\<lparr>u_fpinst := fpinst (unit v)\<rparr>) v;
                              v = (if e AND FPEXC_FP2V \<noteq> 0 then upd_fps (\<lambda>f. f\<lparr>u_fpinst2 := fpinst2 (unit v)\<rparr>) v else v)
                          in (e AND u32 (NOT FPEXC_EX), v))
                       else (e, v));
             v = upd_fps (\<lambda>f. f\<lparr>u_fpregs := (\<lambda>i. if i < n_dregs v then fpregs (unit v) i else u_fpregs f i)\<rparr>) v
         in if disable_vfp then upd_unit (\<lambda>x. x\<lparr>fpexc := e AND u32 (NOT FPEXC_EN)\<rparr>) v else v))"

definition vfp_discard :: "vfp \<Rightarrow> vfp" where
  "vfp_discard v =
     (let tmp = fpexc (unit v) in
      if tmp AND FPEXC_EN \<noteq> 0 then upd_unit (\<lambda>x. x\<lparr>fpexc := tmp AND u32 (NOT FPEXC_EN)\<rparr>) v else v)"

text \<open>\<open>u_fpsaved\<close>, which \<open>vfp_atexec\<close> clears as well, is a field of the user structure of the kernel.\<close>

definition vfp_atexec :: "vfp \<Rightarrow> vfp" where
  "vfp_atexec v =
     (let v = vfp_discard v
      in upd_fps (\<lambda>f. f\<lparr>u_fpscr := initial_fpscr v, u_fpexec := 0, u_fpinst := 0, u_fpinst2 := 0,
           u_fpregs := (\<lambda>i. if i < 32 then 0 else u_fpregs f i)\<rparr>) v)"

datatype bounce = Handled | Signal_FPT | Unhandled

text \<open>The second result \<open>Signal_FPT\<close> stands for \<open>psignal(u.u_procp, SIGFPT)\<close> and a result of zero.\<close>

definition vfp_bounce :: "vfp \<Rightarrow> bounce \<times> vfp" where
  "vfp_bounce v =
     (if \<not> vfp_exists v then (Unhandled, v)
      else
        (let e = fpexc (unit v) in
         if e AND FPEXC_EN \<noteq> 0 then
           (let v = upd_unit (\<lambda>x. x\<lparr>fpexc := e AND u32 (NOT (FPEXC_EX OR FPEXC_FP2V))\<rparr>) v
            in if e AND FPEXC_EX \<noteq> 0 then (Signal_FPT, v) else (Unhandled, v))
         else
           (let v = upd_fps (\<lambda>f. f\<lparr>u_fpexec := u_fpexec f OR FPEXC_EN\<rparr>) v;
                v = upd_unit (\<lambda>x. x\<lparr>fpexc := u_fpexec (u_fps v)\<rparr>) v;
                v = (if u_fpexec (u_fps v) AND FPEXC_EX \<noteq> 0 then
                       (let v = upd_unit (\<lambda>x. x\<lparr>fpinst := u_fpinst (u_fps v)\<rparr>) v
                        in if u_fpexec (u_fps v) AND FPEXC_FP2V \<noteq> 0
                           then upd_unit (\<lambda>x. x\<lparr>fpinst2 := u_fpinst2 (u_fps v)\<rparr>) v else v)
                     else v);
                v = upd_unit (\<lambda>x. x\<lparr>fpscr := u_fpscr (u_fps v)\<rparr>) v;
                v = upd_unit (\<lambda>x. x\<lparr>fpregs := (\<lambda>i. if i < n_dregs v then u_fpregs (u_fps v) i else fpregs x i)\<rparr>) v;
                v = upd_fps (\<lambda>f. f\<lparr>u_fpexec := fpexc (unit v)\<rparr>) v
            in (Handled, v))))"

text \<open>The argument of \<open>savfp\<close> and \<open>restfp\<close> is always the save area of the running process.\<close>

definition savfp :: "vfp \<Rightarrow> vfp" where
  "savfp v = vfp_store True v"

definition restfp :: "vfp \<Rightarrow> vfp" where
  "restfp v =
     (let e = fpexc (unit v) in
      if e AND FPEXC_EN \<noteq> 0 then upd_unit (\<lambda>x. x\<lparr>fpexc := e AND u32 (NOT FPEXC_EN)\<rparr>) v else v)"

section \<open>Undefined instructions and interrupts\<close>

text \<open>\<open>instr\<close> is the word at the program counter of the trap frame.\<close>

definition handle_undefined :: "int \<Rightarrow> vfp \<Rightarrow> bounce \<times> vfp" where
  "handle_undefined instr v =
     (let copro = (if instr AND push_bit 27 1 \<noteq> 0 then Some (drop_bit 8 instr AND 0xf)
                   else if instr AND 0xfe000000 = 0xf2000000 \<or> instr AND 0xff100000 = 0xf4000000 then Some 10
                   else None)
      in case copro of
           None \<Rightarrow> (Unhandled, v)
         | Some c \<Rightarrow> if c \<noteq> 10 \<and> c \<noteq> 11 then (Unhandled, v) else vfp_bounce v)"

text \<open>The tail of a trap, with the last step, \<open>restfp\<close>, on the unit.\<close>

definition trap_tail_fp :: "(int \<Rightarrow> int \<Rightarrow> world \<Rightarrow> world) \<Rightarrow> int \<Rightarrow> vfp \<Rightarrow> world \<Rightarrow> (vfp, world) res" where
  "trap_tail_fp addupc syst v w =
     bnd (trap_tail addupc syst w) (\<lambda>_ w. Ok (if u_fpsaved (u w) \<noteq> 0 then restfp v else v) w)"

definition c_entry_und :: "(int \<Rightarrow> int \<Rightarrow> world \<Rightarrow> world) \<Rightarrow> int \<Rightarrow> vfp \<Rightarrow> world \<Rightarrow> (vfp, world) res" where
  "c_entry_und addupc instr v w =
     (let syst = u_stime (u w); w = upd_u (\<lambda>x. x\<lparr>u_fpsaved := 0\<rparr>) w in
      if \<not> usermode (u_ar0 (u w) reg_RPS) then Panic ''undefined instruction in supervisor mode'' w
      else
        (case handle_undefined instr v of
           (r, v) \<Rightarrow>
             bnd (if r = Handled then Ok () w
                  else psignal (u_procp (u w)) (if r = Signal_FPT then 8 else 4) w) (\<lambda>_ w.
             trap_tail_fp addupc syst v w)))"

definition c_entry_pabt :: "world \<Rightarrow> (unit, world) res" where
  "c_entry_pabt w = Panic ''prefetch abort'' w"

definition c_entry_irq :: "(int \<Rightarrow> int \<Rightarrow> world \<Rightarrow> world) \<Rightarrow> (world \<Rightarrow> (unit, world) res) \<Rightarrow> vfp \<Rightarrow> world \<Rightarrow> (vfp, world) res" where
  "c_entry_irq addupc handler v w =
     (let syst = u_stime (u w); w = upd_u (\<lambda>x. x\<lparr>u_fpsaved := 0\<rparr>) w
      in bnd (handler w) (\<lambda>_ w. trap_tail_fp addupc syst v w))"

section \<open>Switching\<close>

text \<open>Bits of the exception register.\<close>

lemma en_bit: "(e :: int) AND FPEXC_EN = 0 \<longleftrightarrow> \<not> bit e 30" and ex_bit: "e AND FPEXC_EX = 0 \<longleftrightarrow> \<not> bit e 31"
  and fp2v_bit: "e AND FPEXC_FP2V = 0 \<longleftrightarrow> \<not> bit e 28"
proof -
  have p: "FPEXC_EN = 2 ^ 30" "FPEXC_EX = 2 ^ 31" "FPEXC_FP2V = 2 ^ 28" by simp_all
  show "e AND FPEXC_EN = 0 \<longleftrightarrow> \<not> bit e 30" "e AND FPEXC_EX = 0 \<longleftrightarrow> \<not> bit e 31" "e AND FPEXC_FP2V = 0 \<longleftrightarrow> \<not> bit e 28"
    unfolding p by (simp_all only: and_exp_eq_0_iff_not_bit)
qed

lemma en_cleared: "\<not> bit (e AND u32 (NOT FPEXC_EN)) 30"
proof -
  have p: "FPEXC_EN = push_bit 30 1" by simp
  show ?thesis unfolding p bit_and_iff bit_u32 bit_not_int_iff bit_push by simp
qed

lemma en_set: "bit e 30 \<Longrightarrow> e OR FPEXC_EN = (e :: int)"
proof (rule bit_eqI)
  fix i assume "bit e 30"
  have p: "FPEXC_EN = push_bit 30 1" by simp
  show "bit (e OR FPEXC_EN) i = bit e i" using \<open>bit e 30\<close> unfolding p bit_or_iff bit_push by auto
qed

lemma savfp_off: "\<not> bit (fpexc (unit (savfp v))) 30"
  using en_cleared by (auto simp: savfp_def vfp_store_def Let_def en_bit upd_unit_def upd_fps_def split: prod.splits)

text \<open>What \<open>savfp\<close> keeps of a unit that is switched on.\<close>

lemma savfp_saves:
  assumes "bit (fpexc (unit v)) 30"
  shows "u_fpexec (u_fps (savfp v)) = fpexc (unit v)" "u_fpscr (u_fps (savfp v)) = fpscr (unit v)"
    "bit (fpexc (unit v)) 31 \<Longrightarrow> u_fpinst (u_fps (savfp v)) = fpinst (unit v)"
    "bit (fpexc (unit v)) 31 \<Longrightarrow> bit (fpexc (unit v)) 28 \<Longrightarrow> u_fpinst2 (u_fps (savfp v)) = fpinst2 (unit v)"
    "i < n_dregs v \<Longrightarrow> u_fpregs (u_fps (savfp v)) i = fpregs (unit v) i"
  using assms by (simp_all add: savfp_def vfp_store_def Let_def en_bit ex_bit fp2v_bit upd_unit_def upd_fps_def n_dregs_def split: if_splits)

text \<open>What the bounce of a switched-off unit loads.\<close>

lemma bounce_loads:
  assumes "vfp_exists v" "\<not> bit (fpexc (unit v)) 30" "bit (u_fpexec (u_fps v)) 30"
  shows "\<exists>t. vfp_bounce v = (Handled, t) \<and> fpexc (unit t) = u_fpexec (u_fps v) \<and> fpscr (unit t) = u_fpscr (u_fps v)
    \<and> (bit (u_fpexec (u_fps v)) 31 \<longrightarrow> fpinst (unit t) = u_fpinst (u_fps v))
    \<and> (bit (u_fpexec (u_fps v)) 31 \<longrightarrow> bit (u_fpexec (u_fps v)) 28 \<longrightarrow> fpinst2 (unit t) = u_fpinst2 (u_fps v))
    \<and> (\<forall>i < n_dregs v. fpregs (unit t) i = u_fpregs (u_fps v) i)"
  using assms by (simp add: vfp_bounce_def Let_def en_bit ex_bit fp2v_bit en_set upd_unit_def upd_fps_def n_dregs_def)

section \<open>Properties\<close>

text \<open>
  Claim C31. Switching the floating point unit is transparent: after \<open>savfp\<close> the unit is off, and whatever other
  processes do with it, the undefined instruction that the process runs into later finds every register, the status
  and a pending exception as they were, as long as the unit is off by then and the save area is untouched.
\<close>

theorem vfp_switch_round_trip:
  assumes "vfp_exists v" "bit (fpexc (unit v)) 30"
    and "u_fps w = u_fps (savfp v)" "vfp_exists w" "is_d32 w = is_d32 v" "\<not> bit (fpexc (unit w)) 30"
  shows "\<not> bit (fpexc (unit (savfp v))) 30 \<and>
    (\<exists>t. vfp_bounce w = (Handled, t) \<and> fpexc (unit t) = fpexc (unit v) \<and> fpscr (unit t) = fpscr (unit v)
       \<and> (bit (fpexc (unit v)) 31 \<longrightarrow> fpinst (unit t) = fpinst (unit v))
       \<and> (bit (fpexc (unit v)) 31 \<and> bit (fpexc (unit v)) 28 \<longrightarrow> fpinst2 (unit t) = fpinst2 (unit v))
       \<and> (\<forall>i < n_dregs v. fpregs (unit t) i = fpregs (unit v) i))"
proof -
  note s = savfp_saves [OF assms(2)]
  have "bit (u_fpexec (u_fps w)) 30" unfolding assms(3) s(1) by (rule assms(2))
  from bounce_loads [OF assms(4,6) this] show ?thesis
    using savfp_off s assms(5) unfolding assms(3) by (auto simp: n_dregs_def)
qed

definition demo_vfp :: vfp where
  "demo_vfp = \<lparr>vfp_exists = True, is_d32 = False, initial_fpscr = 0x03000000,
     unit = \<lparr>cpacr = 0, fpsid = 0, mvfr0 = 0, mvfr1 = 0, fpexc = push_bit 30 1, fpscr = 7, fpinst = 0, fpinst2 = 0, fpregs = \<lambda>i. int i\<rparr>,
     u_fps = \<lparr>u_fpregs = \<lambda>_. 0, u_fpscr = 0, u_fpexec = 0, u_fpinst = 0, u_fpinst2 = 0\<rparr>\<rparr>"

theorem vfp_switch_round_trip_witness:
  "\<exists>t. vfp_bounce (upd_unit (\<lambda>x. x\<lparr>fpregs := \<lambda>_. 99, fpscr := 1\<rparr>) (savfp demo_vfp)) = (Handled, t)
    \<and> fpscr (unit t) = 7 \<and> fpregs (unit t) 5 = 5"
proof -
  let ?w = "upd_unit (\<lambda>x. x\<lparr>fpregs := \<lambda>_. 99, fpscr := 1\<rparr>) (savfp demo_vfp)"
  have b: "bit (fpexc (unit demo_vfp)) 30" unfolding demo_vfp_def by (simp only: vfp.simps vfp_unit.simps bit_push)
  have k: "vfp_exists (savfp v) = vfp_exists v" "is_d32 (savfp v) = is_d32 v" for v
    by (simp_all add: savfp_def vfp_store_def Let_def upd_unit_def upd_fps_def split: prod.splits)
  have "vfp_exists demo_vfp" "u_fps ?w = u_fps (savfp demo_vfp)" "vfp_exists ?w" "is_d32 ?w = is_d32 demo_vfp"
    by (simp_all add: upd_unit_def k) (simp_all add: demo_vfp_def)
  moreover have "\<not> bit (fpexc (unit ?w)) 30" using savfp_off [of demo_vfp] by (simp add: upd_unit_def)
  ultimately show ?thesis using vfp_switch_round_trip [OF _ b, of ?w] by (auto simp: demo_vfp_def n_dregs_def)
qed

end
