(* ===== verification/Devices.thy ===== *)
theory Devices
  imports Userio
begin

text \<open>
  The memory device (\<open>usr/sys/dev/mem.c\<close>) and the device for the controlling terminal (\<open>usr/sys/dev/sys.c\<close>).
  The copy page, whose address is the argument \<open>cp\<close>, is mapped to one physical page after the other; the kernel
  lies from \<open>klo\<close> to \<open>khi\<close>. A loop moves one character at a time until \<open>u_count\<close>, a number of sixteen bits, is used
  up, so \<open>65536\<close> rounds are enough.
\<close>

fun mmread_kmem_loop :: "nat \<Rightarrow> 'z kst_scheme \<Rightarrow> (unit, 'z kst_scheme) res" where
  "mmread_kmem_loop 0 s = Stuck s"
| "mmread_kmem_loop (Suc n) s =
     (let c = kget (u_offset (u s)) s in
      if u_error (u s) \<noteq> 0 then Ok () s
      else bnd (passc c s) (\<lambda>r s. if r \<ge> 0 then mmread_kmem_loop n s else Ok () s))"

definition mmread_kmem :: "int \<Rightarrow> int \<Rightarrow> 'z kst_scheme \<Rightarrow> (unit, 'z kst_scheme) res" where
  "mmread_kmem klo khi s =
     (if u_offset (u s) < klo \<or> u_offset (u s) \<ge> khi then Ok () (set_error EINVAL s)
      else mmread_kmem_loop 65536 s)"

fun mmread_physmem_loop :: "nat \<Rightarrow> int \<Rightarrow> 'z kst_scheme \<Rightarrow> (unit, 'z kst_scheme) res" where
  "mmread_physmem_loop 0 cp s = Stuck s"
| "mmread_physmem_loop (Suc n) cp s =
     (let bn = drop_bit 12 (u_offset (u s));
          on = u_offset (u s) AND (PGSZ - 1);
          fetch_addr = cp + on
      in bnd (page_is_mapped (btoc cp) s) (\<lambda>_ s.
         bnd (setup_one_page_mapping bn (btoc cp) 0x61f s) (\<lambda>_ s.
         bnd (fubyte fetch_addr s) (\<lambda>c s.
           (let s = (if c < 0 then set_error ENXIO s else s) in
            bnd (setup_one_page_mapping 0 (btoc cp) 0 s) (\<lambda>_ s.
              if u_error (u s) \<noteq> 0 then Ok () s
              else bnd (passc c s) (\<lambda>r s. if r \<ge> 0 then mmread_physmem_loop n cp s else Ok () s)))))))"

definition mmread_physmem :: "int \<Rightarrow> 'z kst_scheme \<Rightarrow> (unit, 'z kst_scheme) res" where
  "mmread_physmem cp s = mmread_physmem_loop 65536 cp s"

definition mmread :: "int \<Rightarrow> int \<Rightarrow> int \<Rightarrow> int \<Rightarrow> 'z kst_scheme \<Rightarrow> (unit, 'z kst_scheme) res" where
  "mmread cp klo khi dev s =
     (if minor dev = 0 then mmread_physmem cp s
      else if minor dev = 1 then mmread_kmem klo khi s
      else if minor dev = 2 then Ok () s
      else Ok () (set_error ENODEV s))"

text \<open>Nothing after the panic is ever run.\<close>

definition mmwrite :: "int \<Rightarrow> 'z kst_scheme \<Rightarrow> (unit, 'z kst_scheme) res" where
  "mmwrite dev s =
     (if minor dev = 2 then Ok () (upd_u (\<lambda>x. x\<lparr>u_count := 0\<rparr>) s)
      else Panic ''mmwrite needs to be imnplemented'' s)"

section \<open>The controlling terminal\<close>

definition syopen :: "int \<Rightarrow> int \<Rightarrow> world \<Rightarrow> world" where
  "syopen dev flag w =
     (if u_ttyp (u w) = None then set_error ENXIO w
      else on_kst (cd_open w (major (u_ttyd (u w))) (u_ttyd (u w)) flag) w)"

definition syread :: "int \<Rightarrow> world \<Rightarrow> world" where
  "syread dev w = on_kst (cd_read w (major (u_ttyd (u w))) (u_ttyd (u w))) w"

definition sywrite :: "int \<Rightarrow> world \<Rightarrow> world" where
  "sywrite dev w = on_kst (cd_write w (major (u_ttyd (u w))) (u_ttyd (u w))) w"

definition sysioctl :: "int \<Rightarrow> int \<Rightarrow> int \<Rightarrow> fflag set \<Rightarrow> world \<Rightarrow> world" where
  "sysioctl dev cmd addr flag w = on_kst (cd_ioctl w (major (u_ttyd (u w))) (u_ttyd (u w)) cmd addr flag) w"

section \<open>Kernel memory into the kernel\<close>

text \<open>
  With \<open>u_segflg\<close> set the characters go to kernel memory. The range is checked only for the first character: the
  loop runs on behind \<open>khi\<close> as long as there is a count.
\<close>

definition to_kernel :: "'z kst_scheme \<Rightarrow> nat \<Rightarrow> bool" where
  "to_kernel s n \<longleftrightarrow> u_segflg (u s) = 1 \<and> u_error (u s) = 0 \<and> u_count (u s) = int n \<and> 0 < n \<and> n < 65536"

lemma passc_kernel:
  assumes "to_kernel s (Suc n)" "\<And>e. e \<in> {Ch_dent, Ch_exdata} \<Longrightarrow> u_base (u s) < addr_of s e \<or> addr_of s e + 32 \<le> u_base (u s)"
  shows "passc c s = Ok (if n = 0 then - 1 else 0) (io_step 1 (s\<lparr>kmem := (kmem s)(u_base (u s) := u8 c)\<rparr>))"
proof -
  have "kput (u_base (u s)) c s = s\<lparr>kmem := (kmem s)(u_base (u s) := u8 c)\<rparr>"
    using assms(2) [of Ch_dent] assms(2) [of Ch_exdata] by (auto simp: kput_def Let_def)
  moreover have "u16 (int (Suc n) - 1) = int n" using assms(1) by (simp add: to_kernel_def u16_id)
  ultimately show ?thesis using assms(1) by (simp add: passc_def to_kernel_def io_step_def upd_u_def)
qed

lemma null_device:
  "minor dev = 2 \<Longrightarrow> mmread cp klo khi dev s = Ok () s"
  "minor dev = 2 \<Longrightarrow> \<exists>t. mmwrite dev s = Ok () t \<and> u_count (u t) = 0 \<and> u_error (u t) = u_error (u s)"
  by (simp_all add: mmread_def mmwrite_def upd_u_def)

end
