(* ===== verification/Strings.thy ===== *)
theory Strings
  imports Bytes
begin

text \<open>
  Routines of the C library on strings and numbers (\<open>usr/src/libc/gen\<close>): \<open>strlen.c\<close>, \<open>strcmp.c\<close>, \<open>strncmp.c\<close>,
  \<open>strcpy.c\<close>, \<open>strncpy.c\<close>, \<open>strcat.c\<close>, \<open>strncat.c\<close>, \<open>index.c\<close>, \<open>rindex.c\<close>, \<open>atoi.c\<close>, \<open>atol.c\<close>, \<open>swab.c\<close>,
  \<open>l3.c\<close>, \<open>abs.c\<close>, \<open>rand.c\<close>, \<open>getenv.c\<close>. A pointer is an address of a memory of bytes. A loop that ends only
  at a zero byte is a partial function: its value is \<open>None\<close> when it runs on for ever.
\<close>

type_synonym mem = "nat \<Rightarrow> int"

section \<open>Length, comparison\<close>

partial_function (option) strlen_loop :: "mem \<Rightarrow> nat \<Rightarrow> int \<Rightarrow> int option" where
  "strlen_loop m s n = (if m s = 0 then Some n else strlen_loop m (s + 1) (s32 (n + 1)))"

definition strlen :: "mem \<Rightarrow> nat \<Rightarrow> int option" where
  "strlen m s = strlen_loop m s 0"

partial_function (option) strcmp :: "mem \<Rightarrow> nat \<Rightarrow> nat \<Rightarrow> int option" where
  "strcmp m s1 s2 =
     (if m s1 = m s2 then (if m s1 = 0 then Some 0 else strcmp m (s1 + 1) (s2 + 1))
      else Some (m s1 - m s2))"

function strncmp :: "mem \<Rightarrow> nat \<Rightarrow> nat \<Rightarrow> int \<Rightarrow> int" where
  "strncmp m s1 s2 n =
     (let n = n - 1 in
      if n \<ge> 0 \<and> m s1 = m s2 then (if m s1 = 0 then 0 else strncmp m (s1 + 1) (s2 + 1) n)
      else if n < 0 then 0 else m s1 - m s2)"
  by auto
termination by (relation "measure (\<lambda>(m, s1, s2, n). nat n)") auto

section \<open>Copying\<close>

text \<open>The assignment in the condition of the loop stores the byte before it is tested.\<close>

partial_function (option) strcpy_loop :: "nat \<Rightarrow> nat \<Rightarrow> mem \<Rightarrow> mem option" where
  "strcpy_loop s1 s2 m =
     (let c = m s2; m = m(s1 := c) in if c = 0 then Some m else strcpy_loop (s1 + 1) (s2 + 1) m)"

definition strcpy :: "nat \<Rightarrow> nat \<Rightarrow> mem \<Rightarrow> (nat \<times> mem) option" where
  "strcpy s1 s2 m = map_option (Pair s1) (strcpy_loop s1 s2 m)"

partial_function (option) str_end :: "mem \<Rightarrow> nat \<Rightarrow> nat option" where
  "str_end m s = (if m s = 0 then Some s else str_end m (s + 1))"

definition strcat :: "nat \<Rightarrow> nat \<Rightarrow> mem \<Rightarrow> (nat \<times> mem) option" where
  "strcat s1 s2 m = (case str_end m s1 of None \<Rightarrow> None | Some e \<Rightarrow> map_option (Pair s1) (strcpy_loop e s2 m))"

function strncpy_pad :: "nat \<Rightarrow> int \<Rightarrow> int \<Rightarrow> mem \<Rightarrow> mem" where
  "strncpy_pad s1 i n m =
     (let i = i + 1 in if i < n then strncpy_pad (s1 + 1) i n (m(s1 := 0)) else m)"
  by auto
termination by (relation "measure (\<lambda>(s1, i, n, m). nat (n - i))") auto

function strncpy_loop :: "nat \<Rightarrow> nat \<Rightarrow> int \<Rightarrow> int \<Rightarrow> mem \<Rightarrow> mem" where
  "strncpy_loop s1 s2 i n m =
     (if i < n then
        (let c = m s2; m = m(s1 := c) in
         if c = 0 then strncpy_pad (s1 + 1) i n m else strncpy_loop (s1 + 1) (s2 + 1) (i + 1) n m)
      else m)"
  by auto
termination by (relation "measure (\<lambda>(s1, s2, i, n, m). nat (n - i))") auto

definition strncpy :: "nat \<Rightarrow> nat \<Rightarrow> int \<Rightarrow> mem \<Rightarrow> nat \<times> mem" where
  "strncpy s1 s2 n m = (s1, strncpy_loop s1 s2 0 n m)"

function strncat_loop :: "nat \<Rightarrow> nat \<Rightarrow> int \<Rightarrow> mem \<Rightarrow> mem" where
  "strncat_loop s1 s2 n m =
     (let c = m s2; m = m(s1 := c) in
      if c = 0 then m
      else (let n = n - 1 in if n < 0 then m(s1 := 0) else strncat_loop (s1 + 1) (s2 + 1) n m))"
  by auto
termination by (relation "measure (\<lambda>(s1, s2, n, m). nat n)") auto

definition strncat :: "nat \<Rightarrow> nat \<Rightarrow> int \<Rightarrow> mem \<Rightarrow> (nat \<times> mem) option" where
  "strncat s1 s2 n m = map_option (\<lambda>e. (s1, strncat_loop e s2 n m)) (str_end m s1)"

declare strncmp.simps [simp del] strncpy_pad.simps [simp del] strncpy_loop.simps [simp del] strncat_loop.simps [simp del]

section \<open>Searching\<close>

text \<open>The null pointer is \<open>None\<close> inside the result.\<close>

partial_function (option) index_loop :: "mem \<Rightarrow> nat \<Rightarrow> int \<Rightarrow> nat option option" where
  "index_loop m sp c =
     (if m sp = c then Some (Some sp) else if m sp \<noteq> 0 then index_loop m (sp + 1) c else Some None)"

definition index :: "mem \<Rightarrow> nat \<Rightarrow> int \<Rightarrow> nat option option" where
  "index m sp c = index_loop m sp (u8 c)"

partial_function (option) rindex_loop :: "mem \<Rightarrow> nat \<Rightarrow> int \<Rightarrow> nat option \<Rightarrow> nat option option" where
  "rindex_loop m sp c r =
     (let r = (if m sp = c then Some sp else r) in if m sp \<noteq> 0 then rindex_loop m (sp + 1) c r else Some r)"

definition rindex :: "mem \<Rightarrow> nat \<Rightarrow> int \<Rightarrow> nat option option" where
  "rindex m sp c = rindex_loop m sp (u8 c) None"

section \<open>Numbers\<close>

partial_function (option) atoi_skip :: "mem \<Rightarrow> nat \<Rightarrow> (nat \<times> bool) option" where
  "atoi_skip m p =
     (if m p = 32 \<or> m p = 9 then atoi_skip m (p + 1)
      else Some (if m p = 45 then (p + 1, True) else if m p = 43 then (p + 1, False) else (p, False)))"

partial_function (option) atoi_digits :: "mem \<Rightarrow> nat \<Rightarrow> int \<Rightarrow> int option" where
  "atoi_digits m p n =
     (if 48 \<le> m p \<and> m p \<le> 57 then atoi_digits m (p + 1) (s32 (n * 10 + m p - 48)) else Some n)"

definition atoi :: "mem \<Rightarrow> nat \<Rightarrow> int option" where
  "atoi m p =
     (case atoi_skip m p of
        None \<Rightarrow> None
      | Some (p, f) \<Rightarrow> map_option (\<lambda>n. if f then s32 (- n) else n) (atoi_digits m p 0))"

text \<open>On this machine \<open>long\<close> is \<open>int\<close>.\<close>

definition atol :: "mem \<Rightarrow> nat \<Rightarrow> int option" where
  "atol m p =
     (case atoi_skip m p of
        None \<Rightarrow> None
      | Some (p, f) \<Rightarrow> map_option (\<lambda>n. if f then s32 (- n) else n) (atoi_digits m p 0))"

definition abs_c :: "int \<Rightarrow> int" where
  "abs_c arg = (if arg < 0 then s32 (- arg) else arg)"

definition srand :: "int \<Rightarrow> int" where
  "srand x = s32 x"

definition rand :: "int \<Rightarrow> int \<times> int" where
  "rand randx = (let randx = s32 (randx * 1103515245 + 12345) in (drop_bit 16 randx AND 32767, randx))"

fun swab_loop :: "nat \<Rightarrow> nat \<Rightarrow> nat \<Rightarrow> mem \<Rightarrow> mem" where
  "swab_loop 0 pf pt m = m"
| "swab_loop (Suc n) pf pt m =
     (let w = s16 (get16 m pf)
      in swab_loop n (pf + 2) (pt + 2) (put16 pt (push_bit 8 w + (drop_bit 8 w AND 255)) m))"

definition swab :: "nat \<Rightarrow> nat \<Rightarrow> int \<Rightarrow> mem \<Rightarrow> mem" where
  "swab pf pt n m = swab_loop (nat n div 2) pf pt m"

text \<open>
  Three bytes for each long: the second byte of a long is left out, which on a PDP-11 is the most significant one.
\<close>

fun ltol3 :: "nat \<Rightarrow> nat \<Rightarrow> nat \<Rightarrow> mem \<Rightarrow> mem" where
  "ltol3 a b 0 m = m"
| "ltol3 a b (Suc n) m =
     (let m = m(a := m b); m = m(a + 1 := m (b + 2)); m = m(a + 2 := m (b + 3))
      in ltol3 (a + 3) (b + 4) n m)"

fun l3tol :: "nat \<Rightarrow> nat \<Rightarrow> nat \<Rightarrow> mem \<Rightarrow> mem" where
  "l3tol a b 0 m = m"
| "l3tol a b (Suc n) m =
     (let m = m(a := m b); m = m(a + 1 := 0); m = m(a + 2 := m (b + 1)); m = m(a + 3 := m (b + 2))
      in l3tol (a + 4) (b + 3) n m)"

section \<open>The environment\<close>

partial_function (option) nvmatch :: "mem \<Rightarrow> nat \<Rightarrow> nat \<Rightarrow> nat option option" where
  "nvmatch m s1 s2 =
     (if m s1 = m s2 then (if m s1 = 61 then Some (Some (s2 + 1)) else nvmatch m (s1 + 1) (s2 + 1))
      else if m s1 = 0 \<and> m s2 = 61 then Some (Some (s2 + 1)) else Some None)"

text \<open>The array of pointers at \<open>p\<close> ends with a null pointer.\<close>

partial_function (option) getenv :: "mem \<Rightarrow> nat \<Rightarrow> nat \<Rightarrow> nat option option" where
  "getenv m name p =
     (if u32 (get32 m p) = 0 then Some None
      else
        (case nvmatch m name (nat (u32 (get32 m p))) of
           None \<Rightarrow> None
         | Some (Some v) \<Rightarrow> Some (Some v)
         | Some None \<Rightarrow> getenv m name (p + 4)))"

section \<open>Strings in memory\<close>

fun string_at :: "mem \<Rightarrow> nat \<Rightarrow> int list \<Rightarrow> bool" where
  "string_at m p [] \<longleftrightarrow> m p = 0"
| "string_at m p (c # cs) \<longleftrightarrow> m p = c \<and> 0 < c \<and> string_at m (p + 1) cs"

lemma string_at_nth: "string_at m p cs \<Longrightarrow> k < length cs \<Longrightarrow> m (p + k) = cs ! k \<and> 0 < cs ! k"
proof (induction cs arbitrary: p k)
  case (Cons c cs) then show ?case by (cases k) fastforce+
qed simp

lemma string_at_end: "string_at m p cs \<Longrightarrow> m (p + length cs) = 0"
  by (induction cs arbitrary: p) fastforce+

lemma string_at_iff:
  "string_at m p cs \<longleftrightarrow> (\<forall>k < length cs. m (p + k) = cs ! k \<and> 0 < cs ! k) \<and> m (p + length cs) = 0"
proof (induction cs arbitrary: p)
  case (Cons c cs) show ?case by (auto simp: Cons.IH less_Suc_eq_0_disj)
qed simp

lemma string_at_frame:
  "string_at m p cs \<Longrightarrow> (\<And>k. p \<le> k \<Longrightarrow> k \<le> p + length cs \<Longrightarrow> m' k = m k) \<Longrightarrow> string_at m' p cs"
  by (simp add: string_at_iff)

lemma string_at_put8s: "(\<forall>c \<in> set cs. 0 < c) \<Longrightarrow> string_at (put8s p (cs @ [0]) m) p cs"
  by (simp add: string_at_iff put8s_def nth_append)

lemma string_at_put8s_other:
  "string_at m p cs \<Longrightarrow> q + length ds \<le> p \<or> p + length cs < q \<Longrightarrow> string_at (put8s q ds m) p cs"
  by (erule string_at_frame) (auto simp: put8s_def)

lemma put8s_Cons: "put8s p (c # cs) m = put8s (p + 1) cs (m(p := c))"
  by (auto simp: put8s_def fun_eq_iff nth_Cons')

lemma put8s_Nil [simp]: "put8s p [] m = m"
  by (simp add: put8s_def fun_eq_iff)

lemma string_at_pos: "string_at m p cs \<Longrightarrow> c \<in> set cs \<Longrightarrow> 0 < c"
  by (auto simp: string_at_iff in_set_conv_nth)

section \<open>What the loops do\<close>

lemma strlen_string: "string_at m p cs \<Longrightarrow> 0 \<le> n \<Longrightarrow> n + int (length cs) < 2 ^ 31 \<Longrightarrow> strlen_loop m p n = Some (n + int (length cs))"
proof (induction cs arbitrary: p n)
  case (Cons c cs)
  then show ?case by (simp add: strlen_loop.simps [of m p] s32_id)
qed (simp add: strlen_loop.simps)

lemma str_end_string: "string_at m p cs \<Longrightarrow> str_end m p = Some (p + length cs)"
  by (induction cs arbitrary: p) (auto simp: str_end.simps)

lemma strcpy_string:
  "string_at m s2 cs \<Longrightarrow> s1 \<le> s2 \<or> s2 + length cs < s1 \<Longrightarrow> strcpy_loop s1 s2 m = Some (put8s s1 (cs @ [0]) m)"
proof (induction cs arbitrary: s1 s2 m)
  case (Cons c cs)
  have "string_at (m(s1 := c)) (s2 + 1) cs" using Cons.prems by (auto intro: string_at_frame)
  moreover have "s1 + 1 \<le> s2 + 1 \<or> s2 + 1 + length cs < s1 + 1" using Cons.prems by auto
  ultimately have "strcpy_loop (s1 + 1) (s2 + 1) (m(s1 := c)) = Some (put8s (s1 + 1) (cs @ [0]) (m(s1 := c)))"
    by (rule Cons.IH)
  with Cons.prems show ?case by (simp add: strcpy_loop.simps [of s1] put8s_Cons)
qed (simp add: strcpy_loop.simps put8s_Cons)

text \<open>When the target starts inside the source, the terminating zero is overwritten before it is read.\<close>

lemma strcpy_overlap:
  assumes "strcpy_loop s1 s2 m = Some m'"
  shows "\<not> (s2 < s1 \<and> (\<forall>k. s2 \<le> k \<and> k < s1 \<longrightarrow> m k \<noteq> 0))"
proof (rule strcpy_loop.raw_induct [where P = "\<lambda>s1 s2 m m'. \<not> (s2 < s1 \<and> (\<forall>k. s2 \<le> k \<and> k < s1 \<longrightarrow> m k \<noteq> 0))", OF _ assms])
  fix loop :: "nat \<Rightarrow> nat \<Rightarrow> mem \<Rightarrow> mem option" and s1 s2 m m'
  assume IH: "\<And>s1 s2 m m'. loop s1 s2 m = Some m' \<Longrightarrow> \<not> (s2 < s1 \<and> (\<forall>k. s2 \<le> k \<and> k < s1 \<longrightarrow> m k \<noteq> 0))"
    and step: "(let c = m s2; m = m(s1 := c) in if c = 0 then Some m else loop (s1 + 1) (s2 + 1) m) = Some m'"
  show "\<not> (s2 < s1 \<and> (\<forall>k. s2 \<le> k \<and> k < s1 \<longrightarrow> m k \<noteq> 0))"
  proof (intro notI)
    assume a: "s2 < s1 \<and> (\<forall>k. s2 \<le> k \<and> k < s1 \<longrightarrow> m k \<noteq> 0)"
    then have nz: "m s2 \<noteq> 0" by auto
    with step have "loop (s1 + 1) (s2 + 1) (m(s1 := m s2)) = Some m'" by (simp add: Let_def)
    from IH [OF this] nz a show False by (auto simp: less_Suc_eq)
  qed
qed

lemma strcpy_overlap_None:
  assumes "string_at m s2 cs" "s2 < s1" "s1 \<le> s2 + length cs"
  shows "strcpy_loop s1 s2 m = None"
proof (cases "strcpy_loop s1 s2 m")
  case (Some m')
  have "m k \<noteq> 0" if "s2 \<le> k" "k < s1" for k
    using string_at_nth [OF assms(1), of "k - s2"] that assms(3) by (cases "k - s2 < length cs") auto
  with strcpy_overlap [OF Some] assms(2) show ?thesis by blast
qed

lemma strncpy_pad_eq: "strncpy_pad s1 i n m = put8s s1 (replicate (nat (n - i - 1)) 0) m"
proof (induction s1 i n m rule: strncpy_pad.induct)
  case (1 s1 i n m)
  show ?case
  proof (cases "i + 1 < n")
    case True
    then have "nat (n - i - 1) = Suc (nat (n - (i + 1) - 1))" by simp
    with True 1 show ?thesis by (simp add: strncpy_pad.simps [of s1] put8s_Cons Let_def fun_upd_def)
  qed (simp add: strncpy_pad.simps [of s1])
qed

lemma strncpy_string:
  "string_at m s2 cs \<Longrightarrow> s1 \<le> s2 \<or> s2 + length cs < s1 \<Longrightarrow>
   strncpy_loop s1 s2 i n m = put8s s1 (take (nat (n - i)) (cs @ replicate (nat (n - i)) 0)) m"
proof (induction cs arbitrary: s1 s2 i m)
  case Nil
  show ?case
  proof (cases "i < n")
    case True
    then have "nat (n - i) = Suc (nat (n - i - 1))" by simp
    with True Nil show ?thesis by (simp add: strncpy_loop.simps [of s1] strncpy_pad_eq put8s_Cons)
  qed (simp add: strncpy_loop.simps [of s1])
next
  case (Cons c cs)
  have "string_at (m(s1 := c)) (s2 + 1) cs" using Cons.prems by (auto intro: string_at_frame)
  moreover have "s1 + 1 \<le> s2 + 1 \<or> s2 + 1 + length cs < s1 + 1" using Cons.prems by auto
  ultimately have IH: "strncpy_loop (s1 + 1) (s2 + 1) (i + 1) n (m(s1 := c)) =
      put8s (s1 + 1) (take (nat (n - (i + 1))) (cs @ replicate (nat (n - (i + 1))) 0)) (m(s1 := c))"
    by (rule Cons.IH)
  show ?case
  proof (cases "i < n")
    case True
    then have e: "nat (n - i) = Suc (nat (n - (i + 1)))" by simp
    from True Cons.prems IH show ?thesis
      unfolding e by (simp add: strncpy_loop.simps [of s1] put8s_Cons replicate_append_same [symmetric])
  qed (simp add: strncpy_loop.simps [of s1])
qed

lemma strncat_string:
  "string_at m s2 cs \<Longrightarrow> s1 \<le> s2 \<or> s2 + length cs < s1 \<Longrightarrow> 0 \<le> n \<Longrightarrow>
   strncat_loop s1 s2 n m = put8s s1 (take (nat n) cs @ [0]) m"
proof (induction cs arbitrary: s1 s2 n m)
  case (Cons c cs)
  have "string_at (m(s1 := c)) (s2 + 1) cs" using Cons.prems by (auto intro: string_at_frame)
  moreover have "s1 + 1 \<le> s2 + 1 \<or> s2 + 1 + length cs < s1 + 1" using Cons.prems by auto
  ultimately have IH: "0 \<le> n - 1 \<Longrightarrow> strncat_loop (s1 + 1) (s2 + 1) (n - 1) (m(s1 := c)) =
      put8s (s1 + 1) (take (nat (n - 1)) cs @ [0]) (m(s1 := c))"
    by (rule Cons.IH)
  show ?case
  proof (cases "n = 0")
    case True with Cons.prems show ?thesis by (simp add: strncat_loop.simps [of s1] put8s_Cons)
  next
    case False
    with Cons.prems have e: "nat n = Suc (nat (n - 1))" by simp
    from False Cons.prems IH show ?thesis
      unfolding e by (simp add: strncat_loop.simps [of s1] put8s_Cons)
  qed
qed (simp add: strncat_loop.simps put8s_Cons)

lemma strcmp_string:
  "string_at m p xs \<Longrightarrow> string_at m q ys \<Longrightarrow>
   \<exists>r. strcmp m p q = Some r \<and> (r = 0 \<longleftrightarrow> xs = ys) \<and> (r < 0 \<longleftrightarrow> (xs, ys) \<in> lexord {(a, b). a < b})"
proof (induction xs arbitrary: p q ys)
  case Nil
  then show ?case by (cases ys) (auto simp: strcmp.simps [of m p])
next
  case (Cons x xs)
  show ?case
  proof (cases ys)
    case Nil with Cons.prems show ?thesis by (auto simp: strcmp.simps [of m p])
  next
    case (Cons y zs)
    show ?thesis
    proof (cases "x = y")
      case True
      with Cons Cons.prems Cons.IH [of "p + 1" "q + 1" zs] show ?thesis by (auto simp: strcmp.simps [of m p])
    next
      case False
      with Cons Cons.prems show ?thesis by (auto simp: strcmp.simps [of m p])
    qed
  qed
qed

lemma strncmp_string:
  "string_at m p xs \<Longrightarrow> string_at m q ys \<Longrightarrow>
   (strncmp m p q n = 0 \<longleftrightarrow> take (nat n) xs = take (nat n) ys)
   \<and> (strncmp m p q n < 0 \<longleftrightarrow> (take (nat n) xs, take (nat n) ys) \<in> lexord {(a, b). a < b})"
proof (induction xs arbitrary: p q ys n)
  case Nil
  then show ?case by (cases ys; cases "n \<le> 0"; cases "nat n") (auto simp: strncmp.simps [of m p])
next
  case (Cons x xs)
  show ?case
  proof (cases "n \<le> 0")
    case True then show ?thesis by (simp add: strncmp.simps [of m p])
  next
    case False
    then have e: "nat n = Suc (nat (n - 1))" by simp
    show ?thesis
    proof (cases ys)
      case Nil with False Cons.prems show ?thesis by (auto simp: e strncmp.simps [of m p])
    next
      case (Cons y zs)
      with False Cons.prems Cons.IH [of "p + 1" "q + 1" zs "n - 1"] show ?thesis
        by (cases "x = y") (auto simp: e strncmp.simps [of m p])
    qed
  qed
qed

lemma index_string:
  "string_at m p cs \<Longrightarrow> index_loop m p c =
     Some (if c \<in> set (cs @ [0]) then Some (p + length (takeWhile (\<lambda>x. x \<noteq> c) (cs @ [0]))) else None)"
  by (induction cs arbitrary: p) (auto simp: index_loop.simps)

lemma rindex_string:
  "string_at m p cs \<Longrightarrow> rindex_loop m p c r =
     Some (if c \<in> set (cs @ [0]) then Some (p + length cs - length (takeWhile (\<lambda>x. x \<noteq> c) (rev (cs @ [0])))) else r)"
proof (induction cs arbitrary: p r)
  case (Cons x cs)
  then show ?case by (auto simp: rindex_loop.simps [of m p] takeWhile_append takeWhile_eq_all_conv)
qed (auto simp: rindex_loop.simps)

section \<open>Numbers\<close>

text \<open>Bytes in memory, whatever follows.\<close>

definition bytes_at :: "mem \<Rightarrow> nat \<Rightarrow> int list \<Rightarrow> bool" where
  "bytes_at m p cs \<longleftrightarrow> (\<forall>k < length cs. m (p + k) = cs ! k)"

lemma bytes_at_Cons [simp]: "bytes_at m p (c # cs) \<longleftrightarrow> m p = c \<and> bytes_at m (p + 1) cs"
  by (auto simp: bytes_at_def less_Suc_eq_0_disj)

lemma bytes_at_Nil [simp]: "bytes_at m p []"
  by (simp add: bytes_at_def)

definition dec_value :: "int list \<Rightarrow> int" where
  "dec_value ds = foldl (\<lambda>n d. n * 10 + (d - 48)) 0 ds"

lemma s32_step: "s32 (s32 n * 10 + d - 48) = s32 (n * 10 + d - 48)"
proof -
  define q where "q = (n + 2147483648) div 4294967296"
  have "s32 n = n - 4294967296 * q" by (simp add: s32_def q_def minus_mult_div_eq_mod [symmetric])
  then have "s32 n * 10 + d - 48 + 2147483648 = (n * 10 + d - 48 + 2147483648) + (- 10 * q) * 4294967296" by simp
  then show ?thesis by (simp only: s32_def mod_mult_self1)
qed

lemma atoi_digits_string:
  "bytes_at m p (ds @ [stop]) \<Longrightarrow> (\<forall>d \<in> set ds. 48 \<le> d \<and> d \<le> 57) \<Longrightarrow> \<not> (48 \<le> stop \<and> stop \<le> 57) \<Longrightarrow>
   atoi_digits m p (s32 n) = Some (s32 (foldl (\<lambda>n d. n * 10 + (d - 48)) n ds))"
proof (induction ds arbitrary: p n)
  case (Cons d ds)
  have "atoi_digits m (p + 1) (s32 (n * 10 + d - 48)) =
      Some (s32 (foldl (\<lambda>n d. n * 10 + (d - 48)) (n * 10 + d - 48) ds))"
    using Cons.prems by (intro Cons.IH) auto
  with Cons.prems show ?case by (simp add: atoi_digits.simps [of m p] s32_step add_diff_eq)
next
  case Nil
  then show ?case by (auto simp: atoi_digits.simps [of m p])
qed

lemma atoi_skip_blanks:
  "bytes_at m p bs \<Longrightarrow> (\<forall>b \<in> set bs. b = 32 \<or> b = 9) \<Longrightarrow> atoi_skip m p = atoi_skip m (p + length bs)"
  by (induction bs arbitrary: p) (auto simp: atoi_skip.simps)

lemma bytes_at_append: "bytes_at m p (xs @ ys) \<longleftrightarrow> bytes_at m p xs \<and> bytes_at m (p + length xs) ys"
  by (induction xs arbitrary: p) auto

section \<open>Properties\<close>

text \<open>
  On two strings \<open>strcmp\<close> ends, and its result is zero exactly on equal strings and negative exactly
  when the first is before the second in the order of dictionaries.
\<close>

theorem strcmp_orders:
  assumes "string_at m p xs" "string_at m q ys"
  shows "\<exists>r. strcmp m p q = Some r \<and> (r = 0 \<longleftrightarrow> xs = ys) \<and> (r < 0 \<longleftrightarrow> (xs, ys) \<in> lexord {(a, b). a < b})"
  using strcmp_string [OF assms] .

definition demo_mem :: mem where
  "demo_mem = put8s 200 [65, 66, 67, 0] (put8s 100 [65, 66, 0] (\<lambda>_. 0))"

lemma demo_strings: "string_at demo_mem 200 [65, 66, 67]" "string_at demo_mem 100 [65, 66]"
  by (simp_all add: demo_mem_def put8s_def)

theorem strcmp_orders_witness: "\<exists>r. strcmp demo_mem 100 200 = Some r \<and> r < 0"
  using strcmp_orders [OF demo_strings(2, 1)] by auto

text \<open>
  Claim C35. \<open>strcpy\<close> returns exactly when the target does not start inside the source. It then leaves the string,
  with its terminating zero, at the target and every other byte as it was.
\<close>

theorem strcpy_copies:
  assumes "string_at m s2 cs"
  shows "strcpy s1 s2 m = (if s2 < s1 \<and> s1 \<le> s2 + length cs then None else Some (s1, put8s s1 (cs @ [0]) m))"
  using strcpy_overlap_None [OF assms, of s1] strcpy_string [OF assms, of s1] by (auto simp: strcpy_def)

theorem strcpy_copies_witness:
  "strcpy 101 100 demo_mem = None \<and> strcpy 0 100 demo_mem = Some (0, put8s 0 [65, 66, 0] demo_mem)"
  using strcpy_copies [OF demo_strings(2), of 101] strcpy_copies [OF demo_strings(2), of 0] by simp


text \<open>
  Claim C36. \<open>atoi\<close> skips blanks and tabs and takes an optional sign; the digits up to the first other character
  are read as a decimal number, reduced to the 32 bits of an \<open>int\<close>.
\<close>

theorem atoi_reads_decimal:
  assumes mem: "bytes_at m p (bs @ sg @ ds @ [stop])"
    and bs: "\<forall>b \<in> set bs. b = 32 \<or> b = 9" and sg: "sg = [] \<or> sg = [43] \<or> sg = [45]"
    and ds: "\<forall>d \<in> set ds. 48 \<le> d \<and> d \<le> 57" and stop: "stop \<notin> {9, 32, 43, 45} \<union> {48..57}"
  shows "atoi m p = Some (s32 (if sg = [45] then - dec_value ds else dec_value ds))"
proof -
  let ?q = "p + length bs"
  have q: "bytes_at m ?q (sg @ ds @ [stop])" and skip: "atoi_skip m p = atoi_skip m ?q"
    using mem bs atoi_skip_blanks [of m p bs] by (simp_all add: bytes_at_append)
  have d: "atoi_digits m r 0 = Some (s32 (dec_value ds))" if "bytes_at m r (ds @ [stop])" for r
    using atoi_digits_string [OF that, of 0] ds stop by (simp add: dec_value_def s32_id)
  have neg: "s32 (- s32 n) = s32 (- n)" for n
  proof -
    define q where "q = (n + 2147483648) div 4294967296"
    have "s32 n = n - 4294967296 * q" by (simp add: s32_def q_def minus_mult_div_eq_mod [symmetric])
    then have "- s32 n + 2147483648 = (- n + 2147483648) + q * 4294967296" by simp
    then show ?thesis by (simp only: s32_def mod_mult_self1)
  qed
  have first: "\<not> (m ?q = 32 \<or> m ?q = 9)" "m ?q = 45 \<longleftrightarrow> sg = [45]" "m ?q = 43 \<longleftrightarrow> sg = [43]"
    using q sg ds stop by (cases ds; auto)+
  show ?thesis
    using sg q first d [of "?q + 1"] d [of ?q] neg by (auto simp: atoi_def skip atoi_skip.simps [of m ?q])
qed

theorem atoi_reads_decimal_witness: "atoi (put8s 0 [32, 9, 45, 49, 50, 0] (\<lambda>_. 7)) 0 = Some (- 12)"
proof -
  have "bytes_at (put8s 0 [32, 9, 45, 49, 50, 0] (\<lambda>_. 7)) 0 ([32, 9] @ [45] @ [49, 50] @ [0 :: int])"
    by (simp add: put8s_def)
  from atoi_reads_decimal [OF this] show ?thesis by (simp add: dec_value_def s32_id)
qed

text \<open>
  The three bytes that \<open>ltol3\<close> keeps of a long are not the low ones on this machine: \<open>l3tol\<close> gives the
  number back without its second byte, so a number is kept only when that byte is zero.
\<close>

theorem l3_drops_byte:
  assumes "cp + 3 \<le> lp \<or> lp + 4 \<le> cp"
  shows "get32 (l3tol lp cp 1 (ltol3 cp lp 1 (put32 lp x m))) lp = s32 (x - 256 * byte_of 1 x)
    \<and> (get32 (l3tol lp cp 1 (ltol3 cp lp 1 (put32 lp x m))) lp = s32 x \<longleftrightarrow> byte_of 1 x = 0)"
proof -
  let ?g = "get32 (l3tol lp cp 1 (ltol3 cp lp 1 (put32 lp x m))) lp"
  have "?g = s32 (le32 (byte_of 0 x) 0 (byte_of 2 x) (byte_of 3 x))"
    using assms by (auto simp: get32_def put32_def put8s_def bytes32_def numeral_eq_Suc)
  also have "le32 (byte_of 0 x) 0 (byte_of 2 x) (byte_of 3 x) = u32 x - 256 * byte_of 1 x"
    using le32_bytes [of x] by (simp add: le32_def)
  finally have g: "?g = s32 (u32 x - 256 * byte_of 1 x)" .
  define q where "q = x div 4294967296"
  have "u32 x = x - 4294967296 * q" by (simp add: u32_def q_def minus_mult_div_eq_mod [symmetric])
  then have "u32 x - 256 * byte_of 1 x + 2147483648 = (x - 256 * byte_of 1 x + 2147483648) + (- q) * 4294967296" by simp
  then have e: "?g = s32 (x - 256 * byte_of 1 x)" unfolding g by (simp only: s32_def mod_mult_self1)
  have "s32 (x - 256 * byte_of 1 x) = s32 x \<longleftrightarrow> byte_of 1 x = 0"
  proof
    assume "s32 (x - 256 * byte_of 1 x) = s32 x"
    then have "(x - 256 * byte_of 1 x + 2147483648) mod 4294967296 = (x + 2147483648) mod 4294967296" by (simp add: s32_def)
    then have "4294967296 dvd 256 * byte_of 1 x" by (simp add: mod_eq_dvd_iff)
    moreover have "0 \<le> 256 * byte_of 1 x" "256 * byte_of 1 x < 4294967296" using byte_of_range [of 1 x] by simp_all
    ultimately show "byte_of 1 x = 0" using zdvd_not_zless [of "256 * byte_of 1 x" 4294967296] by fastforce
  qed simp
  with e show ?thesis by simp
qed

theorem l3_drops_byte_witness: "get32 (l3tol 100 0 1 (ltol3 0 100 1 (put32 100 70000 (\<lambda>_. 0)))) 100 = 65648"
  using l3_drops_byte [of 0 100 70000 "\<lambda>_. 0"] by (simp add: byte_of_def u8_def drop_bit_eq_div s32_id)

section \<open>Joining\<close>

lemma strcat_strings:
  assumes "string_at m s1 as" "string_at m s2 bs" "s1 + length as \<le> s2 \<or> s2 + length bs < s1 + length as" "0 \<le> n"
  shows "strcat s1 s2 m = Some (s1, put8s (s1 + length as) (bs @ [0]) m)"
    "strncat s1 s2 n m = Some (s1, put8s (s1 + length as) (take (nat n) bs @ [0]) m)"
  using assms by (simp_all add: strcat_def strncat_def str_end_string strcpy_string strncat_string)

section \<open>The environment\<close>

text \<open>An environment in memory: for every entry the pointer and the string it points to.\<close>

fun env_at :: "mem \<Rightarrow> nat \<Rightarrow> (nat \<times> int list) list \<Rightarrow> bool" where
  "env_at m p [] \<longleftrightarrow> u32 (get32 m p) = 0"
| "env_at m p ((a, e) # es) \<longleftrightarrow>
     u32 (get32 m p) = int a \<and> a \<noteq> 0 \<and> string_at m a e \<and> 61 \<in> set e \<and> env_at m (p + 4) es"

lemma nvmatch_string:
  "string_at m s1 nm \<Longrightarrow> string_at m s2 e \<Longrightarrow> 61 \<notin> set nm \<Longrightarrow> 61 \<in> set e \<Longrightarrow>
   nvmatch m s1 s2 = Some (if take (length nm + 1) e = nm @ [61] then Some (s2 + length nm + 1) else None)"
proof (induction nm arbitrary: s1 s2 e)
  case Nil
  then show ?case by (cases e) (auto simp: nvmatch.simps [of m s1])
next
  case (Cons x xs)
  then obtain y ys where e: "e = y # ys" by (cases e) auto
  show ?case
  proof (cases "x = y")
    case True
    with Cons.prems Cons.IH [of "s1 + 1" "s2 + 1" ys] e show ?thesis by (auto simp: nvmatch.simps [of m s1])
  next
    case False
    with Cons.prems e show ?thesis by (auto simp: nvmatch.simps [of m s1])
  qed
qed

text \<open>
  Claim C37. \<open>getenv\<close> returns the address behind the \<open>=\<close> of the first entry of the environment that sets the name,
  or the null pointer when there is none.
\<close>

theorem getenv_finds_first:
  assumes "string_at m name nm" "61 \<notin> set nm" "env_at m p env"
  shows "getenv m name p =
    Some (map_option (\<lambda>(a, e). a + length nm + 1) (find (\<lambda>(a, e). take (length nm + 1) e = nm @ [61]) env))"
  using assms(3)
proof (induction env arbitrary: p)
  case Nil
  then show ?case by (simp add: getenv.simps [of m name p])
next
  case (Cons ae env)
  obtain a e where ae: "ae = (a, e)" by (cases ae)
  with Cons nvmatch_string [OF assms(1) _ assms(2), of a e] show ?case
    by (auto simp: getenv.simps [of m name p])
qed

theorem getenv_finds_first_witness:
  "getenv (put8s 50 [65, 0] (put8s 100 [65, 61, 66, 0] (put8s 0 [100, 0, 0, 0, 0, 0, 0, 0] (\<lambda>_. 1)))) 50 0 = Some (Some 102)"
proof -
  let ?m = "put8s 50 [65, 0] (put8s 100 [65, 61, 66, 0] (put8s 0 [100, 0, 0, 0, 0, 0, 0, 0] (\<lambda>_. 1)))"
  have "string_at ?m 50 [65]" "env_at ?m 0 [(100, [65, 61, 66])]"
    by (simp_all add: put8s_def get32_def le32_def u32_def s32_id numeral_eq_Suc)
  from getenv_finds_first [OF this(1) _ this(2)] show ?thesis by simp
qed

end
