(* ===== verification/Qsort.thy ===== *)
theory Qsort
  imports Bytes "HOL-Library.Multiset" "HOL-Library.While_Combinator"
begin

text \<open>
  \<open>usr/src/libc/gen/qsort.c\<close>: the quicksort of the C library, which collects the elements equal to the pivot in
  the middle. The array is a run of bytes in memory, an element a block of \<open>es\<close> of them; \<open>qscmp\<close> is a
  parameter that looks at the memory. The loops are partial functions, so that ending is something to prove.
\<close>

section \<open>Exchanges\<close>

text \<open>\<open>n\<close> is the number of bytes still to move; an element has at least one byte.\<close>

fun qsexc :: "nat \<Rightarrow> nat \<Rightarrow> nat \<Rightarrow> (nat \<Rightarrow> int) \<Rightarrow> nat \<Rightarrow> int" where
  "qsexc 0 ri rj m = m"
| "qsexc (Suc n) ri rj m =
     (let c = m ri; m = m(ri := m rj); m = m(rj := c) in qsexc n (ri + 1) (rj + 1) m)"

fun qstexc :: "nat \<Rightarrow> nat \<Rightarrow> nat \<Rightarrow> nat \<Rightarrow> (nat \<Rightarrow> int) \<Rightarrow> nat \<Rightarrow> int" where
  "qstexc 0 ri rj rk m = m"
| "qstexc (Suc n) ri rj rk m =
     (let c = m ri; m = m(ri := m rk); m = m(rk := m rj); m = m(rj := c)
      in qstexc n (ri + 1) (rj + 1) (rk + 1) m)"

section \<open>Partition\<close>

text \<open>
  The loop has two entries: its head, and the label \<open>loop\<close>. One step runs from an entry to the next
  \<open>continue\<close> or \<open>goto loop\<close>; the loop is left when both sides are used up.
\<close>

datatype qlabel = Head | Loop

fun part_step ::
  "nat \<Rightarrow> ((nat \<Rightarrow> int) \<Rightarrow> nat \<Rightarrow> nat \<Rightarrow> int) \<Rightarrow> qlabel \<times> nat \<times> nat \<times> nat \<times> nat \<times> (nat \<Rightarrow> int)
     \<Rightarrow> qlabel \<times> nat \<times> nat \<times> nat \<times> nat \<times> (nat \<Rightarrow> int)" where
  "part_step es qscmp (lab, i, j, lp, hp, m) =
     (if lab = Head \<and> i < lp \<and> qscmp m i lp \<le> 0 then
        (if qscmp m i lp = 0 then (Head, i, j, lp - es, hp, qsexc es i (lp - es) m)
         else (Head, i + es, j, lp, hp, m))
      else if j > hp then
        (if qscmp m hp j = 0 then (Loop, i, j, lp, hp + es, qsexc es (hp + es) j m)
         else if qscmp m hp j > 0 then
           (if i = lp then (Loop, lp + es, j, lp + es, hp + es, qstexc es i (hp + es) j m)
            else (Head, i + es, j - es, lp, hp, qsexc es i j m))
         else (Loop, i, j - es, lp, hp, m))
      else (Head, i, hp - es, lp - es, hp - es, qstexc es j (lp - es) i m))"

definition qs_part ::
  "nat \<Rightarrow> ((nat \<Rightarrow> int) \<Rightarrow> nat \<Rightarrow> nat \<Rightarrow> int) \<Rightarrow> nat \<Rightarrow> nat \<Rightarrow> nat \<Rightarrow> nat \<Rightarrow> (nat \<Rightarrow> int)
     \<Rightarrow> (nat \<times> nat \<times> (nat \<Rightarrow> int)) option" where
  "qs_part es qscmp i j lp hp m =
     map_option (\<lambda>(lab, i, j, lp, hp, m). (lp, hp, m))
       (while_option (\<lambda>(lab, i, j, lp, hp, m). \<not> (j \<le> hp \<and> i = lp)) (part_step es qscmp) (Head, i, j, lp, hp, m))"

section \<open>Sorting\<close>

partial_function (option) qs1 ::
  "nat \<Rightarrow> ((nat \<Rightarrow> int) \<Rightarrow> nat \<Rightarrow> nat \<Rightarrow> int) \<Rightarrow> nat \<Rightarrow> nat \<Rightarrow> (nat \<Rightarrow> int) \<Rightarrow> (nat \<Rightarrow> int) option" where
  "qs1 es qscmp a l m =
     (let n = l - a in
      if n \<le> es then Some m
      else
        (let n = es * (n div (2 * es)) in
         Option.bind (qs_part es qscmp a (l - es) (a + n) (a + n) m) (\<lambda>(lp, hp, m).
           if lp - a \<ge> l - hp then
             Option.bind (qs1 es qscmp (hp + es) l m) (\<lambda>m. qs1 es qscmp a lp m)
           else
             Option.bind (qs1 es qscmp a lp m) (\<lambda>m. qs1 es qscmp (hp + es) l m))))"

definition qsort ::
  "nat \<Rightarrow> nat \<Rightarrow> nat \<Rightarrow> ((nat \<Rightarrow> int) \<Rightarrow> nat \<Rightarrow> nat \<Rightarrow> int) \<Rightarrow> (nat \<Rightarrow> int) \<Rightarrow> (nat \<Rightarrow> int) option" where
  "qsort a n es fc m = qs1 es fc a (a + n * es) m"

section \<open>Exchanges of elements\<close>

text \<open>Two blocks of bytes that are the same or do not meet.\<close>

definition apart :: "nat \<Rightarrow> nat \<Rightarrow> nat \<Rightarrow> bool" where
  "apart i j n \<longleftrightarrow> i = j \<or> i + n \<le> j \<or> j + n \<le> i"

lemma apart_Suc: "apart i j (Suc n) \<Longrightarrow> apart (Suc i) (Suc j) n"
  by (auto simp: apart_def)

lemma apart_sym: "apart i j n \<Longrightarrow> apart j i n"
  by (auto simp: apart_def)

lemma qsexc_out: "\<not> (i \<le> q \<and> q < i + n) \<Longrightarrow> \<not> (j \<le> q \<and> q < j + n) \<Longrightarrow> qsexc n i j m q = m q"
  by (induction n arbitrary: i j m) auto

lemma qsexc_at: "apart i j n \<Longrightarrow> b < n \<Longrightarrow> qsexc n i j m (i + b) = m (j + b) \<and> qsexc n i j m (j + b) = m (i + b)"
proof (induction n arbitrary: i j m b)
  case (Suc n)
  show ?case
  proof (cases b)
    case 0
    with Suc.prems show ?thesis by (auto simp: apart_def qsexc_out)
  next
    case (Suc b')
    with Suc.prems have "b' < n" "apart (Suc i) (Suc j) n" by (auto intro: apart_Suc)
    from Suc.IH [OF this(2,1)] show ?thesis using Suc Suc.prems by (auto simp: apart_def)
  qed
qed simp

lemma qstexc_out:
  "\<not> (i \<le> q \<and> q < i + n) \<Longrightarrow> \<not> (j \<le> q \<and> q < j + n) \<Longrightarrow> \<not> (k \<le> q \<and> q < k + n) \<Longrightarrow> qstexc n i j k m q = m q"
  by (induction n arbitrary: i j k m) auto

lemma qstexc_at:
  "apart i j n \<Longrightarrow> apart i k n \<Longrightarrow> apart j k n \<Longrightarrow> i \<noteq> j \<Longrightarrow> i \<noteq> k \<Longrightarrow> b < n \<Longrightarrow>
   qstexc n i j k m (i + b) = m (k + b) \<and> qstexc n i j k m (j + b) = m (i + b)
   \<and> (j \<noteq> k \<longrightarrow> qstexc n i j k m (k + b) = m (j + b))"
proof (induction n arbitrary: i j k m b)
  case (Suc n)
  show ?case
  proof (cases b)
    case 0
    with Suc.prems show ?thesis by (auto simp: apart_def qstexc_out)
  next
    case (Suc b')
    with Suc.prems have "apart (Suc i) (Suc j) n" "apart (Suc i) (Suc k) n" "apart (Suc j) (Suc k) n"
      "Suc i \<noteq> Suc j" "Suc i \<noteq> Suc k" "b' < n" by (auto intro: apart_Suc)
    note IH = Suc.IH [OF this]
    let ?m = "m(i := m k, k := m j, j := m i)"
    have d: "i + n < j \<or> j + n < i" "i + n < k \<or> k + n < i" "j = k \<or> j + n < k \<or> k + n < j"
      using Suc.prems by (auto simp: apart_def)
    have e: "?m (Suc i + b') = m (i + b)" "?m (Suc k + b') = m (k + b)" "?m (Suc j + b') = m (j + b)"
      using d Suc \<open>b' < n\<close> by auto
    have step: "qstexc (Suc n) i j k m = qstexc n (Suc i) (Suc j) (Suc k) ?m"
      using Suc.prems(4,5) by (auto simp: fun_upd_twist)
    show ?thesis unfolding step using IH [of ?m] unfolding e by (simp add: Suc fun_upd_def)
  qed
qed simp

text \<open>The array as a function from indices to elements.\<close>

definition arr :: "nat \<Rightarrow> nat \<Rightarrow> (nat \<Rightarrow> int) \<Rightarrow> nat \<Rightarrow> int list" where
  "arr es a m k = map m [a + k * es ..< a + k * es + es]"

lemma slots_apart: "(x :: nat) \<noteq> y \<Longrightarrow> a + x * es + es \<le> a + y * es \<or> a + y * es + es \<le> a + x * es"
proof -
  assume "x \<noteq> y"
  then consider "Suc x \<le> y" | "Suc y \<le> x" by linarith
  then show ?thesis
  proof cases
    case 1 then have "Suc x * es \<le> y * es" by (rule mult_le_mono1) then show ?thesis by simp
  next
    case 2 then have "Suc y * es \<le> x * es" by (rule mult_le_mono1) then show ?thesis by simp
  qed
qed

lemma slot_apart: "apart (a + x * es) (a + y * es) es"
  using slots_apart [of x y a es] by (auto simp: apart_def)

lemma arr_eqI: "(\<And>b. b < es \<Longrightarrow> m' (a + x * es + b) = m (a + y * es + b)) \<Longrightarrow> arr es a m' x = arr es a m y"
  by (auto simp: arr_def intro!: nth_equalityI)

lemma slot_out: "(k :: nat) \<noteq> x \<Longrightarrow> b < es \<Longrightarrow> \<not> (a + x * es \<le> a + k * es + b \<and> a + k * es + b < a + x * es + es)"
  using slots_apart [of k x a es] by auto

lemma arr_qsexc:
  "arr es a (qsexc es (a + x * es) (a + y * es) m) = (arr es a m)(x := arr es a m y, y := arr es a m x)"
proof
  fix k
  note at = qsexc_at [OF slot_apart]
  consider "k = y" | "k \<noteq> y" "k = x" | "k \<noteq> y" "k \<noteq> x" by blast
  then show "arr es a (qsexc es (a + x * es) (a + y * es) m) k = ((arr es a m)(x := arr es a m y, y := arr es a m x)) k"
  proof cases
    case 1 then show ?thesis by (simp, intro arr_eqI conjunct2 [OF at])
  next
    case 2 then show ?thesis by (simp, intro arr_eqI conjunct1 [OF at])
  next
    case 3 then show ?thesis by (simp, intro arr_eqI qsexc_out slot_out)
  qed
qed

lemma arr_qstexc:
  assumes "x \<noteq> y" "x \<noteq> z" "0 < es"
  shows "arr es a (qstexc es (a + x * es) (a + y * es) (a + z * es) m) =
    (arr es a m)(x := arr es a m z, z := arr es a m y, y := arr es a m x)"
proof
  fix k
  have ne: "a + x * es \<noteq> a + y * es" "a + x * es \<noteq> a + z * es" using assms by simp_all
  note at = qstexc_at [OF slot_apart slot_apart slot_apart ne]
  consider "k = y" | "k \<noteq> y" "k = z" | "k \<noteq> y" "k \<noteq> z" "k = x" | "k \<noteq> y" "k \<noteq> z" "k \<noteq> x" by blast
  then show "arr es a (qstexc es (a + x * es) (a + y * es) (a + z * es) m) k =
    ((arr es a m)(x := arr es a m z, z := arr es a m y, y := arr es a m x)) k"
  proof cases
    case 1 then show ?thesis by (simp, intro arr_eqI conjunct1 [OF conjunct2 [OF at]])
  next
    case 2
    with assms(3) have "a + y * es \<noteq> a + z * es" by simp
    with 2 show ?thesis by (simp, intro arr_eqI mp [OF conjunct2 [OF conjunct2 [OF at]]])
  next
    case 3 then show ?thesis by (simp, intro arr_eqI conjunct1 [OF at])
  next
    case 4 then show ?thesis by (simp, intro arr_eqI qstexc_out slot_out)
  qed
qed

section \<open>Comparison\<close>

text \<open>What \<open>qsort\<close> needs of the comparison: it orders the elements, different elements may compare equal.\<close>

definition comparator :: "('e \<Rightarrow> 'e \<Rightarrow> int) \<Rightarrow> bool" where
  "comparator f \<longleftrightarrow> (\<forall>x y. f x y < 0 \<longleftrightarrow> f y x > 0) \<and> (\<forall>x y z. f x y \<le> 0 \<longrightarrow> f y z \<le> 0 \<longrightarrow> f x z \<le> 0)"

lemma comparator_flip: "comparator f \<Longrightarrow> f x y < 0 \<longleftrightarrow> f y x > 0"
  by (auto simp: comparator_def)

lemma comparator_flip0: "comparator f \<Longrightarrow> f x y = 0 \<longleftrightarrow> f y x = 0"
  using comparator_flip [of f x y] comparator_flip [of f y x] by linarith

lemma comparator_trans: "comparator f \<Longrightarrow> f x y \<le> 0 \<Longrightarrow> f y z \<le> 0 \<Longrightarrow> f x z \<le> 0"
  by (auto simp: comparator_def)

lemma comparator_same:
  assumes c: "comparator f" and v: "f y v = 0"
  shows "f x y < 0 \<longleftrightarrow> f x v < 0" "f x y = 0 \<longleftrightarrow> f x v = 0" "f y x < 0 \<longleftrightarrow> f x v > 0" "f y x = 0 \<longleftrightarrow> f x v = 0"
proof -
  have le: "f x y \<le> 0 \<longleftrightarrow> f x v \<le> 0" "f y x \<le> 0 \<longleftrightarrow> f v x \<le> 0"
    using comparator_trans [OF c, of x y v] comparator_trans [OF c, of x v y] comparator_trans [OF c, of v y x]
      comparator_trans [OF c, of y v x] v comparator_flip0 [OF c, of y v] by auto
  show "f x y < 0 \<longleftrightarrow> f x v < 0" "f x y = 0 \<longleftrightarrow> f x v = 0" "f y x < 0 \<longleftrightarrow> f x v > 0" "f y x = 0 \<longleftrightarrow> f x v = 0"
    using le comparator_flip [OF c, of x y] comparator_flip [OF c, of y x] comparator_flip [OF c, of x v]
      comparator_flip [OF c, of v x] by linarith+
qed

section \<open>The partition on elements\<close>

text \<open>
  Left of \<open>i\<close> are smaller elements, from \<open>lp\<close> to \<open>hp\<close> the ones equal to the pivot, right of \<open>j\<close> larger ones.
\<close>

definition parted :: "('e \<Rightarrow> 'e \<Rightarrow> int) \<Rightarrow> 'e \<Rightarrow> nat \<Rightarrow> 'e multiset \<Rightarrow> qlabel \<Rightarrow> nat \<Rightarrow> nat \<Rightarrow> nat \<Rightarrow> nat \<Rightarrow> (nat \<Rightarrow> 'e) \<Rightarrow> bool" where
  "parted f v N M lab i j p h E \<longleftrightarrow> i \<le> p \<and> p \<le> h \<and> h \<le> j \<and> j < N
     \<and> (\<forall>k < i. f (E k) v < 0) \<and> (\<forall>k. p \<le> k \<and> k \<le> h \<longrightarrow> f (E k) v = 0) \<and> (\<forall>k. j < k \<and> k < N \<longrightarrow> f (E k) v > 0)
     \<and> (lab = Loop \<longrightarrow> i = p \<or> f (E i) v > 0) \<and> mset (map E [0..<N]) = M"

lemma mset_exchange:
  assumes "x < N" "y < N"
  shows "mset (map (E(x := E y, y := E x)) [0..<N]) = mset (map E [0..<N])"
proof -
  have "map (E(x := E y, y := E x)) [0..<N] = (map E [0..<N])[y := map E [0..<N] ! x, x := map E [0..<N] ! y]"
    using assms by (intro nth_equalityI) (auto simp: nth_list_update)
  then show ?thesis using assms mset_swap [of x "map E [0..<N]" y] by simp
qed

lemma mset_rotate:
  assumes "x < N" "y < N" "z < N" "x \<noteq> y" "x \<noteq> z"
  shows "mset (map (E(x := E z, z := E y, y := E x)) [0..<N]) = mset (map E [0..<N])"
proof (cases "y = z")
  case True
  then have "E(x := E z, z := E y, y := E x) = E(x := E y, y := E x)" by simp
  then show ?thesis using mset_exchange [OF assms(1,2), of E] by simp
next
  case False
  let ?F = "E(x := E y, y := E x)"
  have "E(x := E z, z := E y, y := E x) = ?F(x := ?F z, z := ?F x)" using False assms by (auto simp: fun_eq_iff)
  then show ?thesis using mset_exchange [OF assms(1,3), of ?F] mset_exchange [OF assms(1,2), of E] by simp
qed

lemma parted_left_equal:
  assumes "parted f v N M lab i j p h E" "i < p" "f (E i) v = 0"
  shows "parted f v N M Head i j (p - 1) h (E(i := E (p - 1), p - 1 := E i))"
  using assms mset_exchange [of i N "p - 1" E] unfolding parted_def by auto

lemma parted_left_less:
  assumes "parted f v N M lab i j p h E" "i < p" "f (E i) v < 0"
  shows "parted f v N M Head (i + 1) j p h E"
  using assms unfolding parted_def by (auto simp: less_Suc_eq)

lemma parted_right_equal:
  assumes "parted f v N M lab i j p h E" "h < j" "f (E j) v = 0" "i = p \<or> f (E i) v > 0"
  shows "parted f v N M Loop i j p (h + 1) (E(h + 1 := E j, j := E (h + 1)))"
  using assms mset_exchange [of "h + 1" N j E] unfolding parted_def by (auto simp: le_Suc_eq)

lemma parted_right_less_full:
  assumes "parted f v N M lab i j p h E" "h < j" "f (E j) v < 0" "i = p"
  shows "parted f v N M Loop (p + 1) j (p + 1) (h + 1) (E(i := E j, j := E (h + 1), h + 1 := E i))"
  using assms mset_rotate [of i N "h + 1" j E] unfolding parted_def by (auto simp: le_Suc_eq less_Suc_eq)

lemma parted_right_less:
  assumes "parted f v N M lab i j p h E" "h < j" "f (E j) v < 0" "i \<noteq> p" "f (E i) v > 0"
  shows "parted f v N M Head (i + 1) (j - 1) p h (E(i := E j, j := E i))"
  using assms mset_exchange [of i N j E] unfolding parted_def by (auto simp: less_Suc_eq)

lemma parted_right_more:
  assumes "parted f v N M lab i j p h E" "h < j" "f (E j) v > 0" "i = p \<or> f (E i) v > 0"
  shows "parted f v N M Loop i (j - 1) p h E"
proof -
  have "j - 1 < k \<longleftrightarrow> k = j \<or> j < k" for k using assms(2) by auto
  with assms show ?thesis unfolding parted_def by auto
qed

lemma parted_both:
  assumes "parted f v N M lab i j p h E" "h = j" "i \<noteq> p" "f (E i) v > 0"
  shows "parted f v N M Head i (h - 1) (p - 1) (h - 1) (E(j := E i, i := E (p - 1), p - 1 := E j))"
proof -
  have le: "i < p" "p \<le> h" "h < N" using assms unfolding parted_def by auto
  have k: "h - 1 < k \<longleftrightarrow> k = h \<or> h < k" "p - 1 \<le> k \<and> k \<le> h - 1 \<longleftrightarrow> k = p - 1 \<or> p \<le> k \<and> k < h" for k
    using le by auto
  have "mset (map (E(j := E i, i := E (p - 1), p - 1 := E j)) [0..<N]) = mset (map E [0..<N])"
    using mset_rotate [of j N "p - 1" i E] le assms(2) by simp
  with assms le show ?thesis unfolding parted_def k by auto
qed

section \<open>The partition in memory\<close>

text \<open>The comparison function looks at the two elements only.\<close>

definition compares :: "nat \<Rightarrow> ((nat \<Rightarrow> int) \<Rightarrow> nat \<Rightarrow> nat \<Rightarrow> int) \<Rightarrow> (int list \<Rightarrow> int list \<Rightarrow> int) \<Rightarrow> bool" where
  "compares es qscmp f \<longleftrightarrow> (\<forall>m p q. qscmp m p q = f (map m [p..<p + es]) (map m [q..<q + es]))"

lemma compares_arr: "compares es qscmp f \<Longrightarrow> qscmp m (a + x * es) (a + y * es) = f (arr es a m x) (arr es a m y)"
  by (simp add: compares_def arr_def)

fun qinv where
  "qinv es a f v N M m0 (lab, i, j, lp, hp, m) \<longleftrightarrow>
     (\<exists>x y p h. i = a + x * es \<and> j = a + y * es \<and> lp = a + p * es \<and> hp = a + h * es
        \<and> parted f v N M lab x y p h (arr es a m) \<and> (\<forall>q. q < a \<or> a + N * es \<le> q \<longrightarrow> m q = m0 q))"

declare qinv.simps [simp del]

lemma qinvI:
  "parted f v N M lab x y p h (arr es a m) \<Longrightarrow> \<forall>q. q < a \<or> a + N * es \<le> q \<longrightarrow> m q = m0 q \<Longrightarrow>
   qinv es a f v N M m0 (lab, a + x * es, a + y * es, a + p * es, a + h * es, m)"
  by (auto simp: qinv.simps)

lemma slot_in: "x < N \<Longrightarrow> q < a \<or> a + N * es \<le> q \<Longrightarrow> \<not> (a + x * es \<le> q \<and> q < a + x * es + (es :: nat))"
  using mult_le_mono1 [of "Suc x" N es] by auto

lemma slot_step: "a + (x + 1) * es = a + x * es + es" "0 < x \<Longrightarrow> a + (x - 1) * es = a + x * es - (es :: nat)"
  by (cases x; simp)+

lemma part_step_inv:
  assumes es: "0 < es" and c: "comparator f" and cmp: "compares es qscmp f"
    and inv: "qinv es a f v N M m0 (lab, i, j, lp, hp, m)" and b: "\<not> (j \<le> hp \<and> i = lp)"
  shows "qinv es a f v N M m0 (part_step es qscmp (lab, i, j, lp, hp, m))
    \<and> (case part_step es qscmp (lab, i, j, lp, hp, m) of (lab, i, j, lp, hp, m) \<Rightarrow> (lp - i) + (j - hp)) < (lp - i) + (j - hp)"
proof -
  from inv obtain x y p h where e: "i = a + x * es" "j = a + y * es" "lp = a + p * es" "hp = a + h * es"
    and pt: "parted f v N M lab x y p h (arr es a m)" and fr: "\<forall>q. q < a \<or> a + N * es \<le> q \<longrightarrow> m q = m0 q" by (auto simp: qinv.simps)
  have le: "x \<le> p" "p \<le> h" "h \<le> y" "y < N" and eqv: "f (arr es a m p) v = 0" "f (arr es a m h) v = 0"
    using pt by (auto simp: parted_def)
  note cm = compares_arr [OF cmp, of m a]
  note at_p = comparator_same [OF c eqv(1)] and at_h = comparator_same [OF c eqv(2)]
  have fx: "\<forall>q. q < a \<or> a + N * es \<le> q \<longrightarrow> qsexc es (a + s * es) (a + t * es) m q = m0 q" if "s < N" "t < N" for s t
    using that fr by (auto simp: qsexc_out slot_in)
  have fr3: "\<forall>q. q < a \<or> a + N * es \<le> q \<longrightarrow> qstexc es (a + s * es) (a + t * es) (a + u * es) m q = m0 q"
    if "s < N" "t < N" "u < N" for s t u
    using that fr by (auto simp: qstexc_out slot_in)
  note mono = mult_le_mono1 [of "Suc x" p es] mult_le_mono1 [of "Suc h" y es]
  have lt: "i < lp \<longleftrightarrow> x < p" "hp < j \<longleftrightarrow> h < y" "i = lp \<longleftrightarrow> x = p" using es by (simp_all add: e)
  have diff: "lp - i = (p - x) * es" "j - hp = (y - h) * es" by (simp_all add: e diff_mult_distrib)
  show ?thesis
  proof (cases "lab = Head \<and> i < lp \<and> qscmp m i lp \<le> 0")
    case True
    then have xp: "x < p" using lt by simp
    have lp1: "lp - es = a + (p - 1) * es" using xp slot_step(2) [of p a es] by (simp add: e)
    show ?thesis
    proof (cases "qscmp m i lp = 0")
      case z: True
      then have v: "f (arr es a m x) v = 0" by (simp add: e cm at_p)
      have st: "part_step es qscmp (lab, i, j, lp, hp, m) = (Head, i, j, lp - es, hp, qsexc es i (lp - es) m)" using True z by auto
      have "qinv es a f v N M m0 (Head, i, j, lp - es, hp, qsexc es i (lp - es) m)"
        unfolding lp1 unfolding e using fx [of x "p - 1"] xp le
        by (intro qinvI parted_left_equal [OF pt xp v, folded arr_qsexc]) auto
      moreover have "lp - es - i < lp - i" using es True by auto
      ultimately show ?thesis unfolding st prod.case by linarith
    next
      case nz: False
      then have v: "f (arr es a m x) v < 0" using True by (simp add: e cm at_p [symmetric])
      have st: "part_step es qscmp (lab, i, j, lp, hp, m) = (Head, i + es, j, lp, hp, m)" using True nz by auto
      have "qinv es a f v N M m0 (Head, i + es, j, lp, hp, m)"
        unfolding e slot_step(1) [symmetric] by (intro qinvI parted_left_less [OF pt xp v] fr)
      moreover have "lp - (i + es) < lp - i" using es True by auto
      ultimately show ?thesis unfolding st prod.case by linarith
    qed
  next
    case nohead: False
    have big: "x = p \<or> f (arr es a m x) v > 0"
    proof (cases "x = p")
      case False
      then have "x < p" using le by simp
      show ?thesis
      proof (cases lab)
        case Head
        then have "qscmp m i lp > 0" using nohead lt \<open>x < p\<close> by simp
        then have "\<not> f (arr es a m x) v < 0" "f (arr es a m x) v \<noteq> 0" by (auto simp: e cm at_p [symmetric])
        then show ?thesis by linarith
      next
        case Loop then show ?thesis using pt by (auto simp: parted_def)
      qed
    qed simp
    show ?thesis
    proof (cases "j > hp")
      case True
      then have hy: "h < y" using lt by simp
      have hp1: "hp + es = a + (h + 1) * es" by (simp add: e)
      have j1: "j - es = a + (y - 1) * es" using hy slot_step(2) [of y a es] by (simp add: e)
      have i1: "i + es = a + (x + 1) * es" "lp + es = a + (p + 1) * es" by (simp_all add: e)
      have ind: "x < N" "y < N" "h + 1 < N" "x \<noteq> h + 1" "x \<noteq> y" using hy le by auto
      consider "qscmp m hp j = 0" | "qscmp m hp j > 0" "i = lp" | "qscmp m hp j > 0" "i \<noteq> lp" | "qscmp m hp j < 0" by linarith
      then show ?thesis
      proof cases
        case 1
        then have v: "f (arr es a m y) v = 0" by (simp add: e cm at_h)
        have st: "part_step es qscmp (lab, i, j, lp, hp, m) = (Loop, i, j, lp, hp + es, qsexc es (hp + es) j m)" using nohead True 1 by auto
      have "qinv es a f v N M m0 (Loop, i, j, lp, hp + es, qsexc es (hp + es) j m)"
          unfolding hp1 unfolding e by (intro qinvI parted_right_equal [OF pt hy v big, folded arr_qsexc] fx ind)
        moreover have "j - (hp + es) < j - hp" using es True by auto
      ultimately show ?thesis unfolding st prod.case by linarith
      next
        case 2
        then have v: "f (arr es a m y) v < 0" "x = p"
          using at_h [of "arr es a m y"] comparator_flip [OF c] lt by (auto simp: e cm)
        have st: "part_step es qscmp (lab, i, j, lp, hp, m) = (Loop, lp + es, j, lp + es, hp + es, qstexc es i (hp + es) j m)" using nohead True 2 by auto
      have "qinv es a f v N M m0 (Loop, lp + es, j, lp + es, hp + es, qstexc es i (hp + es) j m)"
          unfolding hp1 i1 unfolding e
          by (intro qinvI parted_right_less_full [OF pt hy v, folded arr_qstexc [OF ind(4,5) es]] fr3 ind)
        moreover have "j - (hp + es) < j - hp" using es True by auto
      ultimately show ?thesis unfolding st prod.case by linarith
      next
        case 3
        then have v: "f (arr es a m y) v < 0" "x \<noteq> p"
          using at_h [of "arr es a m y"] comparator_flip [OF c] lt by (auto simp: e cm)
        have st: "part_step es qscmp (lab, i, j, lp, hp, m) = (Head, i + es, j - es, lp, hp, qsexc es i j m)" using nohead True 3 by auto
      have "qinv es a f v N M m0 (Head, i + es, j - es, lp, hp, qsexc es i j m)"
          unfolding i1 j1 unfolding e using big v
          by (intro qinvI parted_right_less [OF pt hy v, folded arr_qsexc] fx ind) auto
        moreover have "j - es - hp < j - hp" "lp - (i + es) \<le> lp - i" using es True by auto
      ultimately show ?thesis unfolding st prod.case by linarith
      next
        case 4
        then have v: "f (arr es a m y) v > 0" by (simp add: e cm at_h [symmetric])
        have st: "part_step es qscmp (lab, i, j, lp, hp, m) = (Loop, i, j - es, lp, hp, m)" using nohead True 4 by auto
      have "qinv es a f v N M m0 (Loop, i, j - es, lp, hp, m)"
          unfolding j1 unfolding e by (intro qinvI parted_right_more [OF pt hy v big] fr)
        moreover have "j - es - hp < j - hp" using es True by auto
      ultimately show ?thesis unfolding st prod.case by linarith
      qed
    next
      case False
      then have hy: "h = y" and xp: "x \<noteq> p" "x < p" using lt le b by auto
      have lp1: "lp - es = a + (p - 1) * es" "hp - es = a + (h - 1) * es" using xp le slot_step(2) [of p a es] slot_step(2) [of h a es] by (simp_all add: e)
      have ind: "x < N" "y < N" "p - 1 < N" "y \<noteq> x" "y \<noteq> p - 1" using xp le hy by auto
      have v: "f (arr es a m x) v > 0" using big xp by simp
      have st: "part_step es qscmp (lab, i, j, lp, hp, m) = (Head, i, hp - es, lp - es, hp - es, qstexc es j (lp - es) i m)" using nohead False b by auto
      have "qinv es a f v N M m0 (Head, i, hp - es, lp - es, hp - es, qstexc es j (lp - es) i m)"
        unfolding lp1 unfolding e
        by (intro qinvI parted_both [OF pt hy xp(1) v, folded arr_qstexc [OF ind(5,4) es]] fr3 ind)
      moreover have "lp - es - i < lp - i" using es lt xp by auto
      ultimately show ?thesis unfolding st prod.case by linarith
    qed
  qed
qed

lemma qs_part_correct:
  fixes a :: nat and m :: "nat \<Rightarrow> int"
  assumes es: "0 < es" and c: "comparator f" and cmp: "compares es qscmp f" and N: "2 \<le> N"
  defines "v \<equiv> arr es a m (N div 2)"
  shows "\<exists>p h m'. qs_part es qscmp a (a + (N - 1) * es) (a + N div 2 * es) (a + N div 2 * es) m = Some (a + p * es, a + h * es, m')
    \<and> p \<le> h \<and> h < N \<and> (\<forall>k < p. f (arr es a m' k) v < 0) \<and> (\<forall>k. p \<le> k \<and> k \<le> h \<longrightarrow> f (arr es a m' k) v = 0)
    \<and> (\<forall>k. h < k \<and> k < N \<longrightarrow> f (arr es a m' k) v > 0)
    \<and> mset (map (arr es a m') [0..<N]) = mset (map (arr es a m) [0..<N]) \<and> (\<forall>q. q < a \<or> a + N * es \<le> q \<longrightarrow> m' q = m q)"
proof -
  define s :: "qlabel \<times> nat \<times> nat \<times> nat \<times> nat \<times> (nat \<Rightarrow> int)"
    where "s = (Head, a, a + (N - 1) * es, a + N div 2 * es, a + N div 2 * es, m)"
  let ?P = "qinv es a f v N (mset (map (arr es a m) [0..<N])) m"
  let ?b = "\<lambda>(lab, i, j, lp, hp, m). \<not> (j \<le> hp \<and> i = lp)"
  let ?mu = "\<lambda>(lab, i, j, lp, hp, m). (lp - i) + (j - hp)"
  have "f v v = 0" using comparator_flip [OF c, of v v] by linarith
  then have "parted f v N (mset (map (arr es a m) [0..<N])) Head 0 (N - 1) (N div 2) (N div 2) (arr es a m)"
    using N unfolding parted_def v_def by auto
  then have "?P (Head, a + 0 * es, a + (N - 1) * es, a + N div 2 * es, a + N div 2 * es, m)" by (rule qinvI) simp
  then have P: "?P s" by (simp add: s_def)
  have step: "?P (part_step es qscmp t) \<and> ?mu (part_step es qscmp t) < ?mu t" if "?P t" "?b t" for t
  proof -
    obtain lab i j lp hp m' where t: "t = (lab, i, j, lp, hp, m')" by (cases t)
    show ?thesis using part_step_inv [OF es c cmp that(1) [unfolded t]] that(2) unfolding t by simp
  qed
  obtain t where t: "while_option ?b (part_step es qscmp) s = Some t"
    using measure_while_option_Some [of ?P ?b "part_step es qscmp" ?mu s] step P by blast
  have Pt: "?P t" by (rule while_option_rule [where P = ?P, OF _ t P]) (use step in blast)
  have nb: "\<not> ?b t" by (rule while_option_stop [OF t])
  obtain lab i j lp hp m' where tt: "t = (lab, i, j, lp, hp, m')" by (cases t)
  from Pt [unfolded tt] obtain x y p h where e: "i = a + x * es" "j = a + y * es" "lp = a + p * es" "hp = a + h * es"
    and pt: "parted f v N (mset (map (arr es a m) [0..<N])) lab x y p h (arr es a m')"
    and fr: "\<forall>q. q < a \<or> a + N * es \<le> q \<longrightarrow> m' q = m q" by (auto simp: qinv.simps)
  have "x = p" "y \<le> h" using nb es by (auto simp: tt e)
  with pt have "p \<le> h \<and> h < N \<and> (\<forall>k < p. f (arr es a m' k) v < 0) \<and> (\<forall>k. p \<le> k \<and> k \<le> h \<longrightarrow> f (arr es a m' k) v = 0)
    \<and> (\<forall>k. h < k \<and> k < N \<longrightarrow> f (arr es a m' k) v > 0)
    \<and> mset (map (arr es a m') [0..<N]) = mset (map (arr es a m) [0..<N])" by (auto simp: parted_def)
  moreover have "qs_part es qscmp a (a + (N - 1) * es) (a + N div 2 * es) (a + N div 2 * es) m = Some (a + p * es, a + h * es, m')"
    using t by (simp add: qs_part_def s_def tt e)
  ultimately show ?thesis using fr by blast
qed

section \<open>Sorting\<close>

lemma arr_shift: "arr es (a + s * es) m k = arr es a m (s + k)"
  by (simp add: arr_def algebra_simps)

lemma arr_frame:
  assumes "\<forall>q. q < b \<or> e \<le> q \<longrightarrow> m' q = m q" "a + (k + 1) * es \<le> b \<or> e \<le> a + k * es"
  shows "arr es a m' k = arr es a m k"
  using assms by (intro arr_eqI) (auto simp: algebra_simps)

definition in_order :: "('e \<Rightarrow> 'e \<Rightarrow> int) \<Rightarrow> 'e list \<Rightarrow> bool" where
  "in_order f xs \<longleftrightarrow> sorted_wrt (\<lambda>x y. f x y \<le> 0) xs"

lemma order_append:
  "in_order f (xs @ ys) \<longleftrightarrow> in_order f xs \<and> in_order f ys \<and> (\<forall>x \<in> set xs. \<forall>y \<in> set ys. f x y \<le> 0)"
  by (simp add: in_order_def sorted_wrt_append)

text \<open>Two sorted parts around elements equal to the pivot.\<close>

lemma in_order_join:
  assumes c: "comparator f" and s: "in_order f xs" "in_order f zs"
    and x: "\<forall>x \<in> set xs. f x v < 0" and y: "\<forall>y \<in> set ys. f y v = 0" and z: "\<forall>z \<in> set zs. f z v > 0"
  shows "in_order f (xs @ ys @ zs)"
proof -
  have le: "f p q \<le> 0" if "f p v \<le> 0" "f q v \<ge> 0" for p q
    using comparator_trans [OF c that(1), of q] that(2) comparator_flip [OF c, of v q] comparator_flip0 [OF c, of v q] by linarith
  have "in_order f ys" unfolding in_order_def using y le by (induction ys) auto
  with s x y z le show ?thesis by (force simp: order_append)
qed

lemma map_arr_shift: "map (arr es (a + s * es) m) [0..<N - s] = map (arr es a m) [s..<N]"
  by (rule nth_equalityI) (simp_all add: arr_shift)

lemma upt_3: "p \<le> h \<Longrightarrow> h < N \<Longrightarrow> [0..<N] = [0..<p] @ [p..<h + 1] @ [h + 1..<N]"
  using upt_split [of 0 p N] upt_split [of p "h + 1" N] by simp

lemma qs1_correct:
  assumes es: "0 < es" and c: "comparator f" and cmp: "compares es qscmp f"
  shows "\<exists>m'. qs1 es qscmp a (a + N * es) m = Some m' \<and> mset (map (arr es a m') [0..<N]) = mset (map (arr es a m) [0..<N])
    \<and> in_order f (map (arr es a m') [0..<N]) \<and> (\<forall>q. q < a \<or> a + N * es \<le> q \<longrightarrow> m' q = m q)"
proof (induction N arbitrary: a m rule: less_induct)
  case (less N)
  show ?case
  proof (cases "N \<le> 1")
    case True
    then have "N * es \<le> es" by (cases N) auto
    moreover have "in_order f (map (arr es a m) [0..<N])" using True by (cases N) (auto simp: in_order_def)
    ultimately show ?thesis by (simp add: qs1.simps [of es qscmp a])
  next
    case False
    then have N: "2 \<le> N" by simp
    let ?A = "\<lambda>m k. arr es a m k"
    define v where "v = ?A m (N div 2)"
    obtain p h m1 where part: "qs_part es qscmp a (a + (N - 1) * es) (a + N div 2 * es) (a + N div 2 * es) m =
        Some (a + p * es, a + h * es, m1)"
      and ph: "p \<le> h" "h < N" and lo: "\<forall>k < p. f (?A m1 k) v < 0"
      and eqv: "\<forall>k. p \<le> k \<and> k \<le> h \<longrightarrow> f (?A m1 k) v = 0" and hi: "\<forall>k. h < k \<and> k < N \<longrightarrow> f (?A m1 k) v > 0"
      and ms: "mset (map (?A m1) [0..<N]) = mset (map (?A m) [0..<N])"
      and fr: "\<forall>q. q < a \<or> a + N * es \<le> q \<longrightarrow> m1 q = m q"
      using qs_part_correct [OF es c cmp N, of a m] unfolding v_def by blast
    have mid: "es * ((a + N * es - a) div (2 * es)) = N div 2 * es"
      using es by (simp add: mult.commute [of N] div_mult_mult1 mult.commute [of 2])
    have last: "a + N * es - es = a + (N - 1) * es" using N by (cases N) auto
    have big: "\<not> a + N * es - a \<le> es" using N es by auto
    have step: "qs1 es qscmp a (a + N * es) m =
      (if p * es \<ge> N * es - h * es then
         Option.bind (qs1 es qscmp (a + (h + 1) * es) (a + N * es) m1) (\<lambda>m. qs1 es qscmp a (a + p * es) m)
       else Option.bind (qs1 es qscmp a (a + p * es) m1) (\<lambda>m. qs1 es qscmp (a + (h + 1) * es) (a + N * es) m))"
    proof -
      have e: "a + p * es - a = p * es" "a + N * es - (a + h * es) = N * es - h * es" "a + h * es + es = a + (h + 1) * es"
        by simp_all
      show ?thesis
        unfolding qs1.simps [of es qscmp a "a + N * es" m] Let_def mid last if_not_P [OF big] part Option.bind.simps prod.case e ..
    qed
    have pN: "p < N" and hN: "N - (h + 1) < N" using ph by auto
    note IHp = less.IH [OF pN, of a] and IHh = less.IH [OF hN, of "a + (h + 1) * es", unfolded map_arr_shift]
    have top: "a + (h + 1) * es + (N - (h + 1)) * es = a + N * es"
    proof -
      have "(h + 1) * es + (N - (h + 1)) * es = (h + 1 + (N - (h + 1))) * es" by (rule add_mult_distrib [symmetric])
      also have "h + 1 + (N - (h + 1)) = N" using ph by simp
      finally show ?thesis by simp
    qed
    have le: "p * es \<le> (h + 1) * es" "(h + 1) * es \<le> N * es" using ph by (intro mult_le_mono1; simp)+
    have join: ?thesis
      if run: "qs1 es qscmp a (a + N * es) m = Some m'"
        and lower: "mset (map (?A m') [0..<p]) = mset (map (?A m1) [0..<p])" "in_order f (map (?A m') [0..<p])"
        and upper: "mset (map (?A m') [h + 1..<N]) = mset (map (?A m1) [h + 1..<N])" "in_order f (map (?A m') [h + 1..<N])"
        and frame: "\<forall>q. q < a \<or> a + p * es \<le> q \<and> q < a + (h + 1) * es \<or> a + N * es \<le> q \<longrightarrow> m' q = m1 q"
      for m'
    proof -
      have same: "map (?A m') [p..<h + 1] = map (?A m1) [p..<h + 1]"
      proof (rule map_cong [OF refl])
        fix k assume "k \<in> set [p..<h + 1]"
        then have "p \<le> k" "k + 1 \<le> h + 1" using ph by auto
        then have pk: "p * es \<le> k * es" "(k + 1) * es \<le> (h + 1) * es" by (auto intro: mult_le_mono1)
        show "?A m' k = ?A m1 k"
        proof (rule arr_eqI)
          fix b assume "b < es"
          with pk have "a + p * es \<le> a + k * es + b" "a + k * es + b < a + (h + 1) * es"
            unfolding add_mult_distrib by linarith+
          then show "m' (a + k * es + b) = m1 (a + k * es + b)" using frame by blast
        qed
      qed
      have sets: "set (map (?A m') [0..<p]) = set (map (?A m1) [0..<p])"
        "set (map (?A m') [h + 1..<N]) = set (map (?A m1) [h + 1..<N])"
        using lower(1) upper(1) by (metis set_mset_mset)+
      have "mset (map (?A m') [0..<N]) = mset (map (?A m1) [0..<N])"
        unfolding upt_3 [OF ph] map_append mset_append same lower(1) upper(1) ..
      moreover have "in_order f (map (?A m') [0..<N])"
        unfolding upt_3 [OF ph] map_append
      proof (rule in_order_join [OF c lower(2) upper(2)])
        show "\<forall>x \<in> set (map (?A m') [0..<p]). f x v < 0" unfolding sets using lo by auto
        show "\<forall>y \<in> set (map (?A m') [p..<h + 1]). f y v = 0" unfolding same using eqv by auto
        show "\<forall>z \<in> set (map (?A m') [h + 1..<N]). f z v > 0" unfolding sets using hi by auto
      qed
      ultimately show ?thesis using run ms fr frame by auto
    qed
    show ?thesis
    proof (cases "p * es \<ge> N * es - h * es")
      case True
      obtain m2 where m2: "qs1 es qscmp (a + (h + 1) * es) (a + N * es) m1 = Some m2"
        "mset (map (?A m2) [h + 1..<N]) = mset (map (?A m1) [h + 1..<N])" "in_order f (map (?A m2) [h + 1..<N])"
        "\<forall>q. q < a + (h + 1) * es \<or> a + N * es \<le> q \<longrightarrow> m2 q = m1 q"
        using IHh [of m1] unfolding top by blast
      obtain m3 where m3: "qs1 es qscmp a (a + p * es) m2 = Some m3"
        "mset (map (?A m3) [0..<p]) = mset (map (?A m2) [0..<p])" "in_order f (map (?A m3) [0..<p])"
        "\<forall>q. q < a \<or> a + p * es \<le> q \<longrightarrow> m3 q = m2 q"
        using IHp [of m2] by blast
      have low: "map (?A m2) [0..<p] = map (?A m1) [0..<p]"
        by (rule map_cong [OF refl]) (rule arr_frame [OF m2(4)], use le ph in \<open>auto intro: order_trans [OF mult_le_mono1 [of "Suc _" p]]\<close>)
      have up: "map (?A m3) [h + 1..<N] = map (?A m2) [h + 1..<N]"
        by (rule map_cong [OF refl]) (rule arr_frame [OF m3(4)], use le ph in \<open>auto intro: order_trans [OF le(1)]\<close>)
      show ?thesis
      proof (rule join [of m3])
        show "qs1 es qscmp a (a + N * es) m = Some m3" using True by (simp only: step if_True m2(1) m3(1) Option.bind.simps)
        show "mset (map (?A m3) [0..<p]) = mset (map (?A m1) [0..<p])" by (simp only: m3(2) m2(2) low)
        show "in_order f (map (?A m3) [0..<p])" by (simp only: m2(3) m3(3) low)
        show "mset (map (?A m3) [h + 1..<N]) = mset (map (?A m1) [h + 1..<N])" by (simp only: m2(2) m3(2) up)
        show "in_order f (map (?A m3) [h + 1..<N])" by (simp only: m2(3) m3(3) up)
        show "\<forall>q. q < a \<or> a + p * es \<le> q \<and> q < a + (h + 1) * es \<or> a + N * es \<le> q \<longrightarrow> m3 q = m1 q"
          using m2(4) m3(4) le by auto
      qed
    next
      case False
      obtain m2 where m2: "qs1 es qscmp a (a + p * es) m1 = Some m2"
        "mset (map (?A m2) [0..<p]) = mset (map (?A m1) [0..<p])" "in_order f (map (?A m2) [0..<p])"
        "\<forall>q. q < a \<or> a + p * es \<le> q \<longrightarrow> m2 q = m1 q"
        using IHp [of m1] by blast
      obtain m3 where m3: "qs1 es qscmp (a + (h + 1) * es) (a + N * es) m2 = Some m3"
        "mset (map (?A m3) [h + 1..<N]) = mset (map (?A m2) [h + 1..<N])" "in_order f (map (?A m3) [h + 1..<N])"
        "\<forall>q. q < a + (h + 1) * es \<or> a + N * es \<le> q \<longrightarrow> m3 q = m2 q"
        using IHh [of m2] unfolding top by blast
      have low: "map (?A m3) [0..<p] = map (?A m2) [0..<p]"
        by (rule map_cong [OF refl]) (rule arr_frame [OF m3(4)], use le ph in \<open>auto intro: order_trans [OF mult_le_mono1 [of "Suc _" p]]\<close>)
      have up: "map (?A m2) [h + 1..<N] = map (?A m1) [h + 1..<N]"
        by (rule map_cong [OF refl]) (rule arr_frame [OF m2(4)], use le ph in \<open>auto intro: order_trans [OF le(1)]\<close>)
      show ?thesis
      proof (rule join [of m3])
        show "qs1 es qscmp a (a + N * es) m = Some m3" using False by (simp only: step if_False m2(1) m3(1) Option.bind.simps)
        show "mset (map (?A m3) [0..<p]) = mset (map (?A m1) [0..<p])" by (simp only: m3(2) m2(2) low)
        show "in_order f (map (?A m3) [0..<p])" by (simp only: m2(3) m3(3) low)
        show "mset (map (?A m3) [h + 1..<N]) = mset (map (?A m1) [h + 1..<N])" by (simp only: m2(2) m3(2) up)
        show "in_order f (map (?A m3) [h + 1..<N])" by (simp only: m2(3) m3(3) up)
        show "\<forall>q. q < a \<or> a + p * es \<le> q \<and> q < a + (h + 1) * es \<or> a + N * es \<le> q \<longrightarrow> m3 q = m1 q"
          using m2(4) m3(4) le by auto
      qed
    qed
  qed
qed

section \<open>Properties\<close>

text \<open>The elements of an array of \<open>n\<close> elements of \<open>es\<close> bytes.\<close>

definition elements :: "nat \<Rightarrow> nat \<Rightarrow> nat \<Rightarrow> (nat \<Rightarrow> int) \<Rightarrow> int list list" where
  "elements a n es m = map (\<lambda>k. map m [a + k * es..<a + k * es + es]) [0..<n]"

text \<open>
  Claim C16. With a comparison that orders the elements \<open>qsort\<close> ends, and leaves the array holding the same
  elements in order; no byte outside the array changes.
\<close>

theorem qsort_sorts:
  assumes "0 < es" "comparator f" "compares es fc f"
  shows "\<exists>m'. qsort a n es fc m = Some m' \<and> mset (elements a n es m') = mset (elements a n es m)
    \<and> in_order f (elements a n es m') \<and> (\<forall>q. q < a \<or> a + n * es \<le> q \<longrightarrow> m' q = m q)"
proof -
  have e: "elements a n es m' = map (arr es a m') [0..<n]" for m' by (simp add: elements_def arr_def)
  show ?thesis unfolding e qsort_def by (rule qs1_correct [OF assms])
qed

text \<open>A comparison of bytes, as \<open>strcmp\<close> does it on strings of one character.\<close>

theorem qsort_sorts_witness:
  "\<exists>m'. qsort 10 3 1 (\<lambda>m p q. m p - m q) (put8s 10 [7, 9, 4] (\<lambda>_. 0)) = Some m'
    \<and> mset (elements 10 3 1 m') = {#[7], [9], [4]#} \<and> in_order (\<lambda>x y. hd x - hd y) (elements 10 3 1 m')"
proof -
  have "compares 1 (\<lambda>m p q. m p - m q) (\<lambda>x y. hd x - hd y)" by (simp add: compares_def)
  moreover have "comparator (\<lambda>x y. hd x - hd y :: int)" by (auto simp: comparator_def)
  moreover have "elements 10 3 1 (put8s 10 [7, 9, 4] (\<lambda>_. 0)) = [[7], [9], [4]]"
    by (simp add: elements_def put8s_def upt_rec)
  ultimately show ?thesis
    using qsort_sorts [of 1 "\<lambda>x y. hd x - hd y" "\<lambda>m p q. m p - m q" 10 3 "put8s 10 [7, 9, 4] (\<lambda>_. 0)"] by auto
qed

end
