(* ===== verification/Crypt.thy ===== *)
theory Crypt
  imports Bytes
begin

text \<open>
  \<open>usr/src/libc/gen/crypt.c\<close>: the data encryption standard on blocks of bits, and the password function made of
  it. An array of bits is a list; the arrays \<open>C\<close> and \<open>D\<close>, \<open>L\<close> and \<open>R\<close> lie one behind the other, which the code
  uses by indexing the first one beyond its end, so each pair is one list. A loop that fills an array from others
  is a \<open>map\<close> over the indices.
\<close>

section \<open>Tables\<close>

definition IP :: "nat list" where
  "IP =
    [58, 50, 42, 34, 26, 18, 10, 2, 60, 52, 44, 36, 28, 20, 12, 4,
    62, 54, 46, 38, 30, 22, 14, 6, 64, 56, 48, 40, 32, 24, 16, 8,
    57, 49, 41, 33, 25, 17, 9, 1, 59, 51, 43, 35, 27, 19, 11, 3,
    61, 53, 45, 37, 29, 21, 13, 5, 63, 55, 47, 39, 31, 23, 15, 7]"

definition FP :: "nat list" where
  "FP =
    [40, 8, 48, 16, 56, 24, 64, 32, 39, 7, 47, 15, 55, 23, 63, 31,
    38, 6, 46, 14, 54, 22, 62, 30, 37, 5, 45, 13, 53, 21, 61, 29,
    36, 4, 44, 12, 52, 20, 60, 28, 35, 3, 43, 11, 51, 19, 59, 27,
    34, 2, 42, 10, 50, 18, 58, 26, 33, 1, 41, 9, 49, 17, 57, 25]"

definition PC1_C :: "nat list" where
  "PC1_C =
    [57, 49, 41, 33, 25, 17, 9, 1, 58, 50, 42, 34, 26, 18,
    10, 2, 59, 51, 43, 35, 27, 19, 11, 3, 60, 52, 44, 36]"

definition PC1_D :: "nat list" where
  "PC1_D =
    [63, 55, 47, 39, 31, 23, 15, 7, 62, 54, 46, 38, 30, 22,
    14, 6, 61, 53, 45, 37, 29, 21, 13, 5, 28, 20, 12, 4]"

definition shifts :: "nat list" where
  "shifts =
    [1, 1, 2, 2, 2, 2, 2, 2, 1, 2, 2, 2, 2, 2, 2, 1]"

definition PC2_C :: "nat list" where
  "PC2_C =
    [14, 17, 11, 24, 1, 5, 3, 28, 15, 6, 21, 10,
    23, 19, 12, 4, 26, 8, 16, 7, 27, 20, 13, 2]"

definition PC2_D :: "nat list" where
  "PC2_D =
    [41, 52, 31, 37, 47, 55, 30, 40, 51, 45, 33, 48,
    44, 49, 39, 56, 34, 53, 46, 42, 50, 36, 29, 32]"

definition e_init :: "nat list" where
  "e_init =
    [32, 1, 2, 3, 4, 5, 4, 5, 6, 7, 8, 9,
    8, 9, 10, 11, 12, 13, 12, 13, 14, 15, 16, 17,
    16, 17, 18, 19, 20, 21, 20, 21, 22, 23, 24, 25,
    24, 25, 26, 27, 28, 29, 28, 29, 30, 31, 32, 1]"

definition P_sel :: "nat list" where
  "P_sel =
    [16, 7, 20, 21, 29, 12, 28, 17,
    1, 15, 23, 26, 5, 18, 31, 10,
    2, 8, 24, 14, 32, 27, 3, 9,
    19, 13, 30, 6, 22, 11, 4, 25]"

definition S_box :: "int list list" where
  "S_box = [
    [14, 4, 13, 1, 2, 15, 11, 8, 3, 10, 6, 12, 5, 9, 0, 7, 0, 15, 7, 4, 14, 2, 13, 1, 10, 6, 12, 11, 9, 5, 3, 8,
     4, 1, 14, 8, 13, 6, 2, 11, 15, 12, 9, 7, 3, 10, 5, 0, 15, 12, 8, 2, 4, 9, 1, 7, 5, 11, 3, 14, 10, 0, 6, 13],
    [15, 1, 8, 14, 6, 11, 3, 4, 9, 7, 2, 13, 12, 0, 5, 10, 3, 13, 4, 7, 15, 2, 8, 14, 12, 0, 1, 10, 6, 9, 11, 5,
     0, 14, 7, 11, 10, 4, 13, 1, 5, 8, 12, 6, 9, 3, 2, 15, 13, 8, 10, 1, 3, 15, 4, 2, 11, 6, 7, 12, 0, 5, 14, 9],
    [10, 0, 9, 14, 6, 3, 15, 5, 1, 13, 12, 7, 11, 4, 2, 8, 13, 7, 0, 9, 3, 4, 6, 10, 2, 8, 5, 14, 12, 11, 15, 1,
     13, 6, 4, 9, 8, 15, 3, 0, 11, 1, 2, 12, 5, 10, 14, 7, 1, 10, 13, 0, 6, 9, 8, 7, 4, 15, 14, 3, 11, 5, 2, 12],
    [7, 13, 14, 3, 0, 6, 9, 10, 1, 2, 8, 5, 11, 12, 4, 15, 13, 8, 11, 5, 6, 15, 0, 3, 4, 7, 2, 12, 1, 10, 14, 9,
     10, 6, 9, 0, 12, 11, 7, 13, 15, 1, 3, 14, 5, 2, 8, 4, 3, 15, 0, 6, 10, 1, 13, 8, 9, 4, 5, 11, 12, 7, 2, 14],
    [2, 12, 4, 1, 7, 10, 11, 6, 8, 5, 3, 15, 13, 0, 14, 9, 14, 11, 2, 12, 4, 7, 13, 1, 5, 0, 15, 10, 3, 9, 8, 6,
     4, 2, 1, 11, 10, 13, 7, 8, 15, 9, 12, 5, 6, 3, 0, 14, 11, 8, 12, 7, 1, 14, 2, 13, 6, 15, 0, 9, 10, 4, 5, 3],
    [12, 1, 10, 15, 9, 2, 6, 8, 0, 13, 3, 4, 14, 7, 5, 11, 10, 15, 4, 2, 7, 12, 9, 5, 6, 1, 13, 14, 0, 11, 3, 8,
     9, 14, 15, 5, 2, 8, 12, 3, 7, 0, 4, 10, 1, 13, 11, 6, 4, 3, 2, 12, 9, 5, 15, 10, 11, 14, 1, 7, 6, 0, 8, 13],
    [4, 11, 2, 14, 15, 0, 8, 13, 3, 12, 9, 7, 5, 10, 6, 1, 13, 0, 11, 7, 4, 9, 1, 10, 14, 3, 5, 12, 2, 15, 8, 6,
     1, 4, 11, 13, 12, 3, 7, 14, 10, 15, 6, 8, 0, 5, 9, 2, 6, 11, 13, 8, 1, 4, 10, 7, 9, 5, 0, 15, 14, 2, 3, 12],
    [13, 2, 8, 4, 6, 15, 11, 1, 10, 9, 3, 14, 5, 0, 12, 7, 1, 15, 13, 8, 10, 3, 7, 4, 12, 5, 6, 11, 0, 14, 9, 2,
     7, 11, 4, 1, 9, 12, 14, 2, 0, 6, 10, 13, 15, 3, 5, 8, 2, 1, 14, 7, 4, 10, 8, 13, 15, 12, 9, 0, 3, 5, 6, 11]]"

section \<open>The key schedule\<close>

text \<open>One round of \<open>setkey\<close>: both halves are rotated, and 48 bits of them are the key of the round.\<close>

definition rotate_n :: "nat \<Rightarrow> int list \<Rightarrow> int list" where
  "rotate_n k = rotate1 ^^ k"

fun setkey_loop :: "nat list \<Rightarrow> int list \<Rightarrow> int list \<Rightarrow> int list list" where
  "setkey_loop [] C D = []"
| "setkey_loop (s # ss) C D =
     (let C = rotate_n s C; D = rotate_n s D
      in (map (\<lambda>j. C ! (PC2_C ! j - 1)) [0..<24] @ map (\<lambda>j. D ! (PC2_D ! j - 28 - 1)) [0..<24]) # setkey_loop ss C D)"

definition setkey :: "int list \<Rightarrow> int list list" where
  "setkey key =
     setkey_loop shifts (map (\<lambda>i. key ! (PC1_C ! i - 1)) [0..<28]) (map (\<lambda>i. key ! (PC1_D ! i - 1)) [0..<28])"

section \<open>Encryption of a block\<close>

text \<open>The combination of one half with the key of the round, before and after the selection functions.\<close>

definition pre_s :: "nat list \<Rightarrow> int list \<Rightarrow> int list \<Rightarrow> int list" where
  "pre_s E K R = map (\<lambda>j. R ! (E ! j - 1) XOR K ! j) [0..<48]"

definition sel :: "int list \<Rightarrow> nat \<Rightarrow> int" where
  "sel p j =
     (let t = 6 * j
      in S_box ! j ! nat (push_bit 5 (p ! (t + 0)) + push_bit 3 (p ! (t + 1)) + push_bit 2 (p ! (t + 2))
                          + push_bit 1 (p ! (t + 3)) + push_bit 0 (p ! (t + 4)) + push_bit 4 (p ! (t + 5))))"

definition f_bits :: "nat list \<Rightarrow> int list \<Rightarrow> int list \<Rightarrow> int list" where
  "f_bits E K R =
     (let p = pre_s E K R
      in concat (map (\<lambda>j. let k = sel p j in [drop_bit 3 k AND 1, drop_bit 2 k AND 1, drop_bit 1 k AND 1, drop_bit 0 k AND 1]) [0..<8]))"

definition des_round :: "nat list \<Rightarrow> int list \<Rightarrow> int list \<times> int list \<Rightarrow> int list \<times> int list" where
  "des_round E K LR = (case LR of (L, R) \<Rightarrow> (R, map (\<lambda>j. L ! j XOR f_bits E K R ! (P_sel ! j - 1)) [0..<32]))"

text \<open>\<open>E\<close> and \<open>KS\<close> are static variables of the file.\<close>

definition encrypt :: "nat list \<Rightarrow> int list list \<Rightarrow> int list \<Rightarrow> bool \<Rightarrow> int list" where
  "encrypt E KS block edflag =
     (let LR = map (\<lambda>j. block ! (IP ! j - 1)) [0..<64];
          (L, R) = fold (\<lambda>ii. des_round E (KS ! (if edflag then 15 - ii else ii))) [0..<16] (take 32 LR, drop 32 LR);
          LR = R @ L
      in map (\<lambda>j. LR ! (FP ! j - 1)) [0..<64] @ drop 64 block)"

section \<open>The password function\<close>

text \<open>Seven bits of each of at most eight characters; every eighth bit stays zero.\<close>

fun key_bits :: "nat \<Rightarrow> int list \<Rightarrow> int list" where
  "key_bits i [] = []"
| "key_bits i (c # pw) =
     (if c \<noteq> 0 \<and> i < 64 then map (\<lambda>j. drop_bit (6 - j) c AND 1) [0..<7] @ [0] @ key_bits (i + 8) pw else [])"

definition pw_block :: "int list \<Rightarrow> int list" where
  "pw_block pw = (let b = key_bits 0 pw in b @ replicate (66 - length b) 0)"

text \<open>The number of a character of the salt, and the exchanges of the selection table it asks for.\<close>

definition salt_num :: "int \<Rightarrow> int" where
  "salt_num c =
     (let c = (if c > 90 then s16 (c - 6) else c); c = (if c > 57 then s16 (c - 7) else c) in s16 (c - 46))"

definition salt_step :: "int \<Rightarrow> nat \<Rightarrow> nat \<Rightarrow> nat list \<Rightarrow> nat list" where
  "salt_step c i j E =
     (if drop_bit j c AND 1 \<noteq> 0 then E[6 * i + j := E ! (6 * i + j + 24), 6 * i + j + 24 := E ! (6 * i + j)] else E)"

definition salted :: "int list \<Rightarrow> nat list" where
  "salted salt = fold (\<lambda>i. fold (salt_step (salt_num (salt ! i)) i) [0..<6]) [0..<2] e_init"

text \<open>Six bits of the result as a character.\<close>

definition out_char :: "int list \<Rightarrow> nat \<Rightarrow> int" where
  "out_char block i =
     (let c = fold (\<lambda>j c. s16 (push_bit 1 c) OR block ! (6 * i + j)) [0..<6] 0;
          c = c + 46; c = (if c > 57 then c + 7 else c); c = (if c > 90 then c + 6 else c)
      in c)"

definition crypt :: "int list \<Rightarrow> int list \<Rightarrow> int list" where
  "crypt pw salt =
     (let KS = setkey (pw_block pw); E = salted salt;
          block = ((\<lambda>b. encrypt E KS b False) ^^ 25) (replicate 66 0);
          iobuf = take 2 salt @ map (out_char block) [0..<11] @ [0]
      in if iobuf ! 1 = 0 then iobuf[1 := iobuf ! 0] else iobuf)"

section \<open>Decryption\<close>

lemma perm_inverse:
  assumes "j < 64"
  shows "FP ! (IP ! j - Suc 0) - Suc 0 = j" "IP ! (FP ! j - Suc 0) - Suc 0 = j" "IP ! j - Suc 0 < 64" "FP ! j - Suc 0 < 64"
proof -
  have "list_all (\<lambda>j. FP ! (IP ! j - Suc 0) - Suc 0 = j \<and> IP ! (FP ! j - Suc 0) - Suc 0 = j
      \<and> IP ! j - Suc 0 < 64 \<and> FP ! j - Suc 0 < 64) [0..<64]"
    by code_simp
  then show "FP ! (IP ! j - Suc 0) - Suc 0 = j" "IP ! (FP ! j - Suc 0) - Suc 0 = j" "IP ! j - Suc 0 < 64" "FP ! j - Suc 0 < 64"
    using assms by (simp_all add: list_all_iff)
qed

definition exchange :: "'a \<times> 'a \<Rightarrow> 'a \<times> 'a" where
  "exchange LR = (snd LR, fst LR)"

lemma des_round_lengths:
  "length (fst LR) = 32 \<Longrightarrow> length (snd LR) = 32 \<Longrightarrow> length (fst (des_round E K LR)) = 32 \<and> length (snd (des_round E K LR)) = 32"
  by (cases LR) (simp add: des_round_def)

lemma rounds_lengths:
  "length (fst LR) = 32 \<Longrightarrow> length (snd LR) = 32 \<Longrightarrow>
   length (fst (fold (des_round E) ks LR)) = 32 \<and> length (snd (fold (des_round E) ks LR)) = 32"
  by (induction ks arbitrary: LR) (auto simp: des_round_lengths)

text \<open>A round undoes itself when the halves are exchanged.\<close>

lemma des_round_undo:
  assumes "length (fst LR) = 32"
  shows "des_round E K (exchange (des_round E K LR)) = exchange LR"
proof (cases LR)
  case (Pair L R)
  have "map (\<lambda>j. map (\<lambda>j. L ! j XOR f_bits E K R ! (P_sel ! j - 1)) [0..<32] ! j XOR f_bits E K R ! (P_sel ! j - 1)) [0..<32] = L"
    using assms Pair by (intro nth_equalityI) (simp_all add: xor.assoc)
  with Pair show ?thesis by (simp add: des_round_def exchange_def)
qed

lemma rounds_undo:
  "length (fst LR) = 32 \<Longrightarrow> length (snd LR) = 32 \<Longrightarrow>
   fold (des_round E) (rev ks) (exchange (fold (des_round E) ks LR)) = exchange LR"
  by (induction ks arbitrary: LR) (auto simp: des_round_undo des_round_lengths)

definition round_keys :: "int list list \<Rightarrow> bool \<Rightarrow> int list list" where
  "round_keys KS edflag = map (\<lambda>ii. KS ! (if edflag then 15 - ii else ii)) [0..<16]"

lemma round_keys_rev: "round_keys KS (\<not> edflag) = rev (round_keys KS edflag)"
proof -
  have r: "rev [0..<16] = map (\<lambda>i. 15 - i) [0..<16 :: nat]" by code_simp
  have "map (\<lambda>ii. KS ! (15 - ii)) [0..<16] = rev (map (\<lambda>ii. KS ! ii) [0..<16])"
  proof -
    have "map (\<lambda>ii. KS ! (15 - ii)) [0..<16] = map (\<lambda>ii. KS ! ii) (map (\<lambda>i. 15 - i) [0..<16])" by simp
    also have "\<dots> = map (\<lambda>ii. KS ! ii) (rev [0..<16])" by (simp only: r)
    finally show ?thesis by (simp only: rev_map)
  qed
  moreover from this have "map (\<lambda>ii. KS ! ii) [0..<16] = rev (map (\<lambda>ii. KS ! (15 - ii)) [0..<16])" by simp
  ultimately show ?thesis unfolding round_keys_def by (cases edflag) (simp_all only: not_True_eq_False not_False_eq_True if_True if_False)
qed

definition init_perm :: "int list \<Rightarrow> int list" where
  "init_perm block = map (\<lambda>j. block ! (IP ! j - 1)) [0..<64]"

definition final_perm :: "int list \<Rightarrow> int list" where
  "final_perm LR = map (\<lambda>j. LR ! (FP ! j - 1)) [0..<64]"

lemma final_init: "64 \<le> length b \<Longrightarrow> final_perm (init_perm b) = take 64 b"
  by (rule nth_equalityI) (simp_all add: final_perm_def init_perm_def perm_inverse)

lemma init_final: "length LR = 64 \<Longrightarrow> init_perm (final_perm LR @ rest) = LR"
  by (rule nth_equalityI) (simp_all add: final_perm_def init_perm_def perm_inverse nth_append)

lemma encrypt_alt:
  "encrypt E KS block edflag =
     (let LR = init_perm block; lr = exchange (fold (des_round E) (round_keys KS edflag) (take 32 LR, drop 32 LR))
      in final_perm (fst lr @ snd lr) @ drop 64 block)"
  by (simp add: encrypt_def init_perm_def final_perm_def exchange_def round_keys_def fold_map comp_def split_beta Let_def)

section \<open>Complement\<close>

definition bits :: "int list \<Rightarrow> bool" where
  "bits bs \<longleftrightarrow> set bs \<subseteq> {0, 1}"

definition complement :: "int list \<Rightarrow> int list" where
  "complement bs = map (\<lambda>b. 1 - b) bs"

lemma bits_nth: "bits bs \<Longrightarrow> i < length bs \<Longrightarrow> bs ! i = 0 \<or> bs ! i = 1"
  by (auto simp: bits_def dest!: nth_mem)

lemma length_complement [simp]: "length (complement bs) = length bs"
  by (simp add: complement_def)

lemma complement_nth: "i < length bs \<Longrightarrow> complement bs ! i = 1 - bs ! i"
  by (simp add: complement_def)

definition selection :: "nat list \<Rightarrow> bool" where
  "selection E \<longleftrightarrow> length E = 48 \<and> set E \<subseteq> {1..32}"

lemma pre_s_complement:
  assumes "selection E" "bits K" "length K = 48" "bits R" "length R = 32"
  shows "pre_s E (complement K) (complement R) = pre_s E K R"
  unfolding pre_s_def
proof (rule map_cong [OF refl])
  fix j assume "j \<in> set [0..<48]"
  then have j: "j < 48" by simp
  with assms(1) have "E ! j \<in> set E" by (simp add: selection_def)
  with assms(1) have "E ! j \<in> {1..32}" unfolding selection_def by blast
  then have "E ! j - 1 < length R" using assms(5) by auto
  with bits_nth [OF assms(4) this] bits_nth [OF assms(2), of j] j assms(3)
  show "complement R ! (E ! j - 1) XOR complement K ! j = R ! (E ! j - 1) XOR K ! j"
    by (auto simp: complement_nth)
qed

lemma length_f_bits: "length (f_bits E K R) = 32"
  by (simp add: f_bits_def Let_def length_concat comp_def sum_list_triv)

lemma bits_f_bits: "bits (f_bits E K R)"
  by (auto simp: bits_def f_bits_def Let_def and_one_eq)

lemma P_sel_range: "j < 32 \<Longrightarrow> P_sel ! j - Suc 0 < 32"
proof -
  have "list_all (\<lambda>j. P_sel ! j - Suc 0 < 32) [0..<32]" by code_simp
  then show "j < 32 \<Longrightarrow> P_sel ! j - Suc 0 < 32" by (simp add: list_all_iff)
qed

lemma des_round_complement:
  assumes "selection E" "bits K" "length K = 48" "bits L" "length L = 32" "bits R" "length R = 32"
  shows "des_round E (complement K) (complement L, complement R) =
    (case des_round E K (L, R) of (L, R) \<Rightarrow> (complement L, complement R))"
proof -
  have f: "f_bits E (complement K) (complement R) = f_bits E K R"
    unfolding f_bits_def pre_s_complement [OF assms(1,2,3,6,7)] ..
  have "complement L ! j XOR f_bits E K R ! (P_sel ! j - 1) = 1 - (L ! j XOR f_bits E K R ! (P_sel ! j - 1))" if "j < 32" for j
    using bits_nth [OF assms(4), of j] bits_nth [OF bits_f_bits, of "P_sel ! j - 1" E K R] that assms(5) P_sel_range [OF that]
    by (auto simp: complement_nth length_f_bits)
  then show ?thesis by (simp add: des_round_def f) (simp add: complement_def)
qed

lemma des_round_bits:
  assumes "bits L" "length L = 32"
  shows "bits (snd (des_round E K (L, R)))"
proof -
  have "L ! j XOR f_bits E K R ! (P_sel ! j - 1) \<in> {0, 1}" if "j < 32" for j
    using bits_nth [OF assms(1), of j] bits_nth [OF bits_f_bits, of "P_sel ! j - 1" E K R] that assms(2) P_sel_range [OF that]
    by (auto simp: length_f_bits)
  then show ?thesis unfolding bits_def des_round_def by fastforce
qed

definition halves :: "int list \<times> int list \<Rightarrow> bool" where
  "halves LR \<longleftrightarrow> bits (fst LR) \<and> length (fst LR) = 32 \<and> bits (snd LR) \<and> length (snd LR) = 32"

lemma des_round_halves: "halves LR \<Longrightarrow> halves (des_round E K LR)"
  using des_round_lengths [of LR E K] des_round_bits [of "fst LR" E K "snd LR"]
  by (cases LR) (auto simp: halves_def des_round_def)

lemma rounds_halves: "halves LR \<Longrightarrow> halves (fold (des_round E) ks LR)"
  by (induction ks arbitrary: LR) (auto simp: des_round_halves)

lemma rounds_complement:
  "halves LR \<Longrightarrow> selection E \<Longrightarrow> \<forall>K \<in> set ks. bits K \<and> length K = 48 \<Longrightarrow>
   fold (des_round E) (map complement ks) (map_prod complement complement LR) =
   map_prod complement complement (fold (des_round E) ks LR)"
proof (induction ks arbitrary: LR)
  case (Cons K ks)
  obtain L R where LR: "LR = (L, R)" by (cases LR)
  have "des_round E (complement K) (map_prod complement complement LR) = map_prod complement complement (des_round E K LR)"
    using des_round_complement [of E K L R] Cons.prems LR by (auto simp: halves_def split_beta map_prod_def)
  then show ?case using Cons.IH [of "des_round E K LR"] Cons.prems by (simp add: des_round_halves)
qed simp

lemma map_pick_complement: "(\<And>i. i \<in> set is \<Longrightarrow> i < length bs) \<Longrightarrow> map (\<lambda>i. complement bs ! i) is = complement (map (\<lambda>i. bs ! i) is)"
  by (simp add: complement_def)

lemma init_perm_complement: "64 \<le> length b \<Longrightarrow> init_perm (complement b) = complement (init_perm b)"
  using map_pick_complement [of "map (\<lambda>j. IP ! j - 1) [0..<64]" b] perm_inverse(3)
  by (fastforce simp: init_perm_def comp_def)

lemma final_perm_complement: "length b = 64 \<Longrightarrow> final_perm (complement b) = complement (final_perm b)"
  using map_pick_complement [of "map (\<lambda>j. FP ! j - 1) [0..<64]" b] perm_inverse(4)
  by (fastforce simp: final_perm_def comp_def)

lemma bits_pick: "bits bs \<Longrightarrow> (\<And>i. i \<in> set is \<Longrightarrow> i < length bs) \<Longrightarrow> bits (map (\<lambda>i. bs ! i) is)"
  by (auto simp: bits_def dest!: nth_mem)

lemma init_perm_bits: "bits b \<Longrightarrow> 64 \<le> length b \<Longrightarrow> bits (init_perm b)"
  using bits_pick [of b "map (\<lambda>j. IP ! j - 1) [0..<64]"] perm_inverse(3)
  by (fastforce simp: init_perm_def comp_def)

lemma final_perm_bits: "bits b \<Longrightarrow> length b = 64 \<Longrightarrow> bits (final_perm b)"
  using bits_pick [of b "map (\<lambda>j. FP ! j - 1) [0..<64]"] perm_inverse(4)
  by (fastforce simp: final_perm_def comp_def)

lemma length_perms [simp]: "length (init_perm b) = 64" "length (final_perm b) = 64"
  by (simp_all add: init_perm_def final_perm_def)

lemma halves_split: "bits b \<Longrightarrow> length b = 64 \<Longrightarrow> halves (take 32 b, drop 32 b)"
  by (auto simp: halves_def bits_def dest: in_set_takeD in_set_dropD)

section \<open>The schedule\<close>

lemma rotate_n_complement: "rotate_n k (complement bs) = complement (rotate_n k bs)"
  by (simp add: rotate_n_def complement_def rotate1_map rotate_def [symmetric] rotate_map)

lemma length_rotate_n [simp]: "length (rotate_n k bs) = length bs"
  by (simp add: rotate_n_def rotate_def [symmetric])

lemma bits_rotate_n: "bits bs \<Longrightarrow> bits (rotate_n k bs)"
  by (simp add: bits_def rotate_n_def rotate_def [symmetric])

lemma PC2_range: "j < 24 \<Longrightarrow> PC2_C ! j - Suc 0 < 28 \<and> PC2_D ! j - 28 - Suc 0 < 28"
proof -
  have "list_all (\<lambda>j. PC2_C ! j - Suc 0 < 28 \<and> PC2_D ! j - 28 - Suc 0 < 28) [0..<24]" by code_simp
  then show "j < 24 \<Longrightarrow> ?thesis" by (simp add: list_all_iff)
qed

lemma PC1_range: "j < 28 \<Longrightarrow> PC1_C ! j - Suc 0 < 64 \<and> PC1_D ! j - Suc 0 < 64"
proof -
  have "list_all (\<lambda>j. PC1_C ! j - Suc 0 < 64 \<and> PC1_D ! j - Suc 0 < 64) [0..<28]" by code_simp
  then show "j < 28 \<Longrightarrow> ?thesis" by (simp add: list_all_iff)
qed

lemma setkey_loop_complement:
  "length C = 28 \<Longrightarrow> length D = 28 \<Longrightarrow>
   setkey_loop ss (complement C) (complement D) = map complement (setkey_loop ss C D)"
proof (induction ss arbitrary: C D)
  case (Cons s ss)
  have "map (\<lambda>j. complement (rotate_n s C) ! (PC2_C ! j - 1)) [0..<24] = complement (map (\<lambda>j. rotate_n s C ! (PC2_C ! j - 1)) [0..<24])"
    "map (\<lambda>j. complement (rotate_n s D) ! (PC2_D ! j - 28 - 1)) [0..<24] =
     complement (map (\<lambda>j. rotate_n s D ! (PC2_D ! j - 28 - 1)) [0..<24])"
    using Cons.prems PC2_range by (auto simp: complement_def)
  with Cons show ?case by (simp add: Let_def rotate_n_complement) (simp add: complement_def)
qed simp

lemma setkey_complement: "64 \<le> length key \<Longrightarrow> setkey (complement key) = map complement (setkey key)"
proof -
  assume k: "64 \<le> length key"
  have "map (\<lambda>i. complement key ! (PC1_C ! i - 1)) [0..<28] = complement (map (\<lambda>i. key ! (PC1_C ! i - 1)) [0..<28])"
    "map (\<lambda>i. complement key ! (PC1_D ! i - 1)) [0..<28] = complement (map (\<lambda>i. key ! (PC1_D ! i - 1)) [0..<28])"
    using k PC1_range by (fastforce simp: complement_def)+
  then show ?thesis by (simp add: setkey_def setkey_loop_complement)
qed

lemma setkey_loop_bits:
  "length C = 28 \<Longrightarrow> length D = 28 \<Longrightarrow> bits C \<Longrightarrow> bits D \<Longrightarrow> K \<in> set (setkey_loop ss C D) \<Longrightarrow> bits K \<and> length K = 48"
proof (induction ss arbitrary: C D)
  case (Cons s ss)
  have b: "bits (map (\<lambda>j. rotate_n s C ! (PC2_C ! j - 1)) [0..<24])" "bits (map (\<lambda>j. rotate_n s D ! (PC2_D ! j - 28 - 1)) [0..<24])"
    using bits_pick [OF bits_rotate_n [OF Cons.prems(3)], of "map (\<lambda>j. PC2_C ! j - 1) [0..<24]" s]
      bits_pick [OF bits_rotate_n [OF Cons.prems(4)], of "map (\<lambda>j. PC2_D ! j - 28 - 1) [0..<24]" s] Cons.prems PC2_range
    by (fastforce simp: comp_def)+
  then show ?case using Cons.prems Cons.IH [of "rotate_n s C" "rotate_n s D"] bits_rotate_n
    by (auto simp: Let_def) (auto simp: bits_def)
qed simp

lemma length_setkey: "length (setkey key) = 16"
proof -
  have l: "length (setkey_loop ss C D) = length ss" for ss C D by (induction ss arbitrary: C D) (simp_all add: Let_def)
  have "length shifts = 16" by (simp add: shifts_def)
  then show ?thesis unfolding setkey_def l .
qed

lemma setkey_bits: "64 \<le> length key \<Longrightarrow> bits key \<Longrightarrow> K \<in> set (setkey key) \<Longrightarrow> bits K \<and> length K = 48"
proof -
  assume k: "64 \<le> length key" "bits key" "K \<in> set (setkey key)"
  have "bits (map (\<lambda>i. key ! (PC1_C ! i - 1)) [0..<28])" "bits (map (\<lambda>i. key ! (PC1_D ! i - 1)) [0..<28])"
    using bits_pick [OF k(2), of "map (\<lambda>i. PC1_C ! i - 1) [0..<28]"] bits_pick [OF k(2), of "map (\<lambda>i. PC1_D ! i - 1) [0..<28]"]
      k(1) PC1_range by (fastforce simp: comp_def)+
  with k(3) show ?thesis unfolding setkey_def by (intro setkey_loop_bits) auto
qed

section \<open>Properties\<close>

text \<open>
  Claim C15. Whatever the key schedule and the selection table, encrypting a block and running the rounds in the
  opposite direction gives the block back: \<open>FP\<close> is the inverse of \<open>IP\<close>, and every round undoes itself.
\<close>

theorem des_decrypts:
  assumes "64 \<le> length block"
  shows "encrypt E KS (encrypt E KS block edflag) (\<not> edflag) = block"
proof -
  let ?LR = "init_perm block"
  let ?lr = "(take 32 ?LR, drop 32 ?LR)"
  define m where "m = exchange (fold (des_round E) (round_keys KS edflag) ?lr)"
  have len: "length (fst ?lr) = 32" "length (snd ?lr) = 32" by simp_all
  have lm: "length (fst m) = 32" "length (snd m) = 32"
    using rounds_lengths [OF len, of E "round_keys KS edflag"] by (simp_all add: m_def exchange_def)
  have enc: "encrypt E KS block edflag = final_perm (fst m @ snd m) @ drop 64 block"
    by (simp add: encrypt_alt m_def Let_def)
  have "init_perm (encrypt E KS block edflag) = fst m @ snd m" unfolding enc by (rule init_final) (simp add: lm)
  then have "encrypt E KS (encrypt E KS block edflag) (\<not> edflag) =
      (let lr = exchange (fold (des_round E) (rev (round_keys KS edflag)) m) in final_perm (fst lr @ snd lr)) @ drop 64 block"
    unfolding encrypt_alt [of E KS "encrypt E KS block edflag"] round_keys_rev using lm enc by (simp add: Let_def)
  also have "fold (des_round E) (rev (round_keys KS edflag)) m = exchange ?lr"
    unfolding m_def by (rule rounds_undo [OF len])
  finally have "encrypt E KS (encrypt E KS block edflag) (\<not> edflag) = final_perm ?LR @ drop 64 block"
    by (simp add: exchange_def Let_def)
  then show ?thesis using assms by (simp add: final_init)
qed

theorem des_decrypts_witness:
  "encrypt e_init (setkey (replicate 64 1)) (encrypt e_init (setkey (replicate 64 1)) (replicate 66 0) False) True = replicate 66 0"
  using des_decrypts [of "replicate 66 0" e_init "setkey (replicate 64 1)" False] by simp

text \<open>
  Claim C32. Complementing every bit of the key and of the block complements every bit of the result: the halves
  meet the key only through an exclusive or.
\<close>

theorem des_complement:
  assumes E: "selection E" and key: "bits key" "64 \<le> length key" and b: "bits block" "length block = 64"
  shows "encrypt E (setkey (complement key)) (complement block) edflag = complement (encrypt E (setkey key) block edflag)"
proof -
  let ?LR = "init_perm block"
  let ?ks = "round_keys (setkey key) edflag"
  have h: "halves (take 32 ?LR, drop 32 ?LR)" by (rule halves_split) (simp_all add: init_perm_bits b)
  have idx: "(if edflag then 15 - ii else ii) < length (setkey key)" if "ii < 16" for ii using that by (auto simp: length_setkey)
  have ks: "round_keys (map complement (setkey key)) edflag = map complement ?ks"
    using idx by (simp add: round_keys_def)
  have kb: "\<forall>K \<in> set ?ks. bits K \<and> length K = 48"
    using setkey_bits [OF key(2,1)] nth_mem [OF idx] by (auto simp: round_keys_def)
  define r where "r = fold (des_round E) ?ks (take 32 ?LR, drop 32 ?LR)"
  have hr: "halves r" unfolding r_def by (rule rounds_halves [OF h])
  have "fold (des_round E) (map complement ?ks) (take 32 (complement ?LR), drop 32 (complement ?LR)) =
      map_prod complement complement r"
    using rounds_complement [OF h E kb] by (simp add: r_def complement_def take_map drop_map)
  moreover have "final_perm (complement (snd r @ fst r)) = complement (final_perm (snd r @ fst r))"
    using hr by (intro final_perm_complement) (simp add: halves_def)
  ultimately show ?thesis
    using b by (simp add: encrypt_alt setkey_complement [OF key(2)] init_perm_complement ks Let_def exchange_def r_def [symmetric])
      (simp add: complement_def)
qed

theorem des_complement_witness:
  "encrypt e_init (setkey (replicate 64 0)) (replicate 64 0) True =
   complement (encrypt e_init (setkey (replicate 64 1)) (replicate 64 1) True)"
proof -
  have "selection e_init" by (simp add: selection_def e_init_def)
  from des_complement [OF this, of "replicate 64 1" "replicate 64 1" True] show ?thesis
    by (simp add: bits_def complement_def)
qed

lemma encrypt_bits:
  assumes "bits b" "64 \<le> length b"
  shows "bits (encrypt E KS b edflag) \<and> length (encrypt E KS b edflag) = length b"
proof -
  define r where "r = fold (des_round E) (round_keys KS edflag) (take 32 (init_perm b), drop 32 (init_perm b))"
  have "halves r" unfolding r_def by (rule rounds_halves, rule halves_split) (simp_all add: init_perm_bits assms)
  then have "bits (snd r @ fst r)" "length (snd r @ fst r) = 64" by (auto simp: halves_def bits_def)
  then have "bits (final_perm (snd r @ fst r))" by (rule final_perm_bits)
  with assms show ?thesis
    by (auto simp: encrypt_alt Let_def exchange_def r_def [symmetric] bits_def dest: in_set_dropD)
qed

text \<open>The characters of a salt, and of a password as it is stored: the dot, the slash, digits and letters.\<close>

definition salt_chars :: "int set" where
  "salt_chars = {46, 47} \<union> {48..57} \<union> {65..90} \<union> {97..122}"

lemma out_char_range:
  assumes "bits b" "6 * i + 5 < length b"
  shows "out_char b i \<in> salt_chars"
proof -
  have u: "[0..<6] = [0, 1, 2, 3, 4, 5 :: nat]" by (simp add: upt_rec)
  have bit: "b ! (6 * i + j) = 0 \<or> b ! (6 * i + j) = 1" if "j < 6" for j using bits_nth [OF assms(1)] assms(2) that by simp
  show ?thesis
    using bit [of 0, simplified] bit [of 1, simplified] bit [of 2, simplified] bit [of 3, simplified]
      bit [of 4, simplified] bit [of 5, simplified]
    by (elim disjE) (simp_all add: out_char_def u Let_def salt_chars_def s16_def)
qed

text \<open>
  Claim C33. The result of \<open>crypt\<close> is the salt followed by eleven characters that are all dots, slashes, digits or
  letters, whatever the password, and a terminating zero.
\<close>

theorem crypt_alphabet:
  assumes "length salt = 2" "salt ! 1 \<noteq> 0"
  shows "\<exists>h. crypt pw salt = salt @ h @ [0] \<and> length h = 11 \<and> set h \<subseteq> salt_chars"
proof -
  let ?f = "\<lambda>b. encrypt (salted salt) (setkey (pw_block pw)) b False"
  have "bits ((?f ^^ n) (replicate 66 0)) \<and> length ((?f ^^ n) (replicate 66 0)) = 66" for n
  proof (induction n)
    case (Suc n)
    then show ?case using encrypt_bits [of "(?f ^^ n) (replicate 66 0)"] by simp
  qed (simp add: bits_def)
  then have "out_char ((?f ^^ 25) (replicate 66 0)) i \<in> salt_chars" if "i < 11" for i
    using that by (intro out_char_range) auto
  then have "set (map (out_char ((?f ^^ 25) (replicate 66 0))) [0..<11]) \<subseteq> salt_chars" by auto
  moreover have "(take 2 salt @ xs) ! 1 \<noteq> 0" for xs using assms by (simp add: nth_append)
  ultimately show ?thesis using assms
    by (intro exI [of _ "map (out_char ((?f ^^ 25) (replicate 66 0))) [0..<11]"]) (simp add: crypt_def Let_def)
qed

theorem crypt_alphabet_witness: "\<exists>h. crypt [112, 119, 0] [97, 98] = [97, 98] @ h @ [0] \<and> length h = 11 \<and> set h \<subseteq> salt_chars"
  by (rule crypt_alphabet) simp_all

end
