(* ===== verification/Ctime.thy ===== *)
theory Ctime
  imports Bytes "HOL-Library.Signed_Division"
begin

text \<open>
  \<open>usr/src/libc/gen/ctime.c\<close>: dates. Division and remainder round to zero as in C (\<open>sdiv\<close>, \<open>smod\<close>). The static
  structure that the functions return a pointer to is the value returned, the buffer of \<open>asctime\<close> a list of 26
  characters; the time zone and the daylight saving flag, which \<open>localtime\<close> asks the kernel for, are arguments.
\<close>

record tm =
  tm_sec :: int
  tm_min :: int
  tm_hour :: int
  tm_mday :: int
  tm_mon :: int
  tm_year :: int
  tm_wday :: int
  tm_yday :: int
  tm_isdst :: int

definition dmsize :: "int list" where
  "dmsize = [31, 28, 31, 30, 31, 30, 31, 31, 30, 31, 30, 31]"

definition dysize :: "int \<Rightarrow> int" where
  "dysize y = (if y smod 4 = 0 then 366 else 365)"

section \<open>Broken-down time\<close>

lemma dysize_pos: "365 \<le> dysize y" "dysize y \<le> 366"
  by (simp_all add: dysize_def)

text \<open>The two loops for the year, and the loop for the month, which stays inside the table.\<close>

function years_up :: "int \<Rightarrow> int \<Rightarrow> int \<times> int" where
  "years_up day d1 = (if day \<ge> dysize d1 then years_up (day - dysize d1) (d1 + 1) else (day, d1))"
  by auto
termination
  by (relation "measure (\<lambda>(day, d1). nat day)") (auto simp: dysize_def split: if_splits)

function years_down :: "int \<Rightarrow> int \<Rightarrow> int \<times> int" where
  "years_down day d1 = (if day < 0 then years_down (day + dysize (d1 - 1)) (d1 - 1) else (day, d1))"
  by auto
termination
  by (relation "measure (\<lambda>(day, d1). nat (- day))") (auto simp: dysize_def)

declare years_up.simps [simp del] years_down.simps [simp del]

fun months :: "int list \<Rightarrow> int \<Rightarrow> int \<Rightarrow> (int \<times> int) option" where
  "months [] d0 d1 = None"
| "months (d # ds) d0 d1 = (if d0 \<ge> d then months ds (d0 - d) (d1 + 1) else Some (d0, d1))"

definition gmtime :: "int \<Rightarrow> tm option" where
  "gmtime tim =
     (let hms = tim smod 86400; day = tim sdiv 86400;
          (hms, day) = (if hms < 0 then (hms + 86400, day - 1) else (hms, day));
          sec = hms smod 60; d1 = hms sdiv 60;
          min = d1 smod 60; hour = d1 sdiv 60;
          wday = (day + 7340036) smod 7;
          (day, year) = (if day \<ge> 0 then years_up day 70 else years_down day 70);
          ms = (if dysize year = 366 then dmsize[1 := 29] else dmsize)
      in map_option (\<lambda>(d0, mon).
           \<lparr>tm_sec = sec, tm_min = min, tm_hour = hour, tm_mday = d0 + 1, tm_mon = mon, tm_year = year,
            tm_wday = wday, tm_yday = day, tm_isdst = 0\<rparr>) (months ms day 0))"

section \<open>Local time\<close>

definition sunday :: "tm \<Rightarrow> int \<Rightarrow> int" where
  "sunday t d =
     (let d = (if d \<ge> 58 then d + (dysize (tm_year t) - 365) else d)
      in d - (d - tm_yday t + tm_wday t + 700) smod 7)"

definition daytab :: "(int \<times> int) list" where
  "daytab = [(5, 333), (58, 303)]"

definition localtime :: "int \<Rightarrow> bool \<Rightarrow> int \<Rightarrow> tm option" where
  "localtime timezone dstflag tim =
     (let copyt = s32 (tim - timezone * 60) in
      case gmtime copyt of
        None \<Rightarrow> None
      | Some ct \<Rightarrow>
          (let dayno = tm_yday ct;
               (daylbegin, daylend) =
                 (if tm_year ct = 74 \<or> tm_year ct = 75 then daytab ! nat (tm_year ct - 74) else (119, 303));
               daylbegin = sunday ct daylbegin;
               daylend = sunday ct daylend
           in if dstflag
                 \<and> (dayno > daylbegin \<or> (dayno = daylbegin \<and> tm_hour ct \<ge> 2))
                 \<and> (dayno < daylend \<or> (dayno = daylend \<and> tm_hour ct < 1))
              then map_option (\<lambda>ct. ct\<lparr>tm_isdst := tm_isdst ct + 1\<rparr>) (gmtime (s32 (copyt + 1 * 60 * 60)))
              else Some ct))"

section \<open>Text\<close>

definition chars :: "string \<Rightarrow> int list" where
  "chars s = map (\<lambda>c. int (of_char c)) s"

definition ct_numb :: "nat \<Rightarrow> int \<Rightarrow> int list \<Rightarrow> nat \<times> int list" where
  "ct_numb cp n b =
     (let cp = cp + 1;
          (cp, b) = (cp + 1, b[cp := if n \<ge> 10 then (n sdiv 10) smod 10 + 48 else 32])
      in (cp + 1, b[cp := n smod 10 + 48]))"

text \<open>Three characters of a string into the buffer.\<close>

definition put3 :: "nat \<Rightarrow> int list \<Rightarrow> nat \<Rightarrow> int list \<Rightarrow> int list" where
  "put3 cp s i b = b[cp := s ! i, cp + 1 := s ! (i + 1), cp + 2 := s ! (i + 2)]"

definition asctime :: "tm \<Rightarrow> int list" where
  "asctime t =
     (let b = chars ''Day Mon 00 00:00:00 1900'' @ [10, 0];
          b = put3 0 (chars ''SunMonTueWedThuFriSat'') (nat (3 * tm_wday t)) b;
          cp = 4;
          b = put3 cp (chars ''JanFebMarAprMayJunJulAugSepOctNovDec'') (nat (tm_mon t * 3)) b;
          cp = cp + 3;
          (cp, b) = ct_numb cp (tm_mday t) b;
          (cp, b) = ct_numb cp (tm_hour t + 100) b;
          (cp, b) = ct_numb cp (tm_min t + 100) b;
          (cp, b) = ct_numb cp (tm_sec t + 100) b;
          b = (if tm_year t \<ge> 100 then b[cp + 1 := 50, cp + 2 := 48] else b);
          cp = cp + 2;
          (cp, b) = ct_numb cp (tm_year t + 100) b
      in b)"

definition ctime :: "int \<Rightarrow> bool \<Rightarrow> int \<Rightarrow> int list option" where
  "ctime timezone dstflag t = map_option asctime (localtime timezone dstflag t)"

section \<open>The calendar\<close>

text \<open>
  The Gregorian calendar: leap years, the days from 1970-01-01 to the beginning of a year, the lengths of the
  months, and the seconds from then to a broken-down time.
\<close>

definition leap :: "int \<Rightarrow> bool" where
  "leap y \<longleftrightarrow> 4 dvd y \<and> (\<not> 100 dvd y \<or> 400 dvd y)"

definition days_to_year :: "int \<Rightarrow> int" where
  "days_to_year y = 365 * (y - 1970) + (y - 1) div 4 - (y - 1) div 100 + (y - 1) div 400 - 477"

definition month_days :: "int \<Rightarrow> int list" where
  "month_days y = [31, if leap y then 29 else 28, 31, 30, 31, 30, 31, 31, 30, 31, 30, 31]"

definition date_seconds :: "int \<Rightarrow> nat \<Rightarrow> int \<Rightarrow> int \<Rightarrow> int \<Rightarrow> int \<Rightarrow> int" where
  "date_seconds y mon d h m s =
     86400 * (days_to_year y + sum_list (take mon (month_days y)) + d - 1) + 3600 * h + 60 * m + s"

lemma days_to_year_step: "days_to_year (y + 1) = days_to_year y + (if leap y then 366 else 365)"
proof -
  have d: "(y :: int) div n = (y - 1) div n + (if n dvd y then 1 else 0)" if "0 < n" for n
  proof (cases "n dvd y")
    case True
    then obtain k where "y = n * k" by (auto elim: dvdE)
    moreover have "(n * k - 1) div n = k - 1" using that by (intro int_div_pos_eq [of _ _ _ "n - 1"]) (simp_all add: algebra_simps)
    ultimately show ?thesis using that by simp
  next
    case False
    then have "0 < y mod n" using that by (simp add: dvd_eq_mod_eq_0 order_neq_le_trans)
    moreover have "y mod n < n" using that by simp
    ultimately have "(y - 1) div n = y div n"
      by (intro int_div_pos_eq [of _ _ _ "y mod n - 1"]) (simp_all add: mult_div_mod_eq)
    with False show ?thesis by simp
  qed
  have imp: "400 dvd y \<longrightarrow> 100 dvd y" "100 dvd y \<longrightarrow> 4 dvd y" by (auto elim!: dvd_trans [rotated])
  define a b c where abc: "a = (y - 1) div 4" "b = (y - 1) div 100" "c = (y - 1) div 400"
  define p4 p100 p400 where p: "p4 = (4 dvd y)" "p100 = (100 dvd y)" "p400 = (400 dvd y)"
  have q: "y div 4 = a + (if p4 then 1 else 0)" "y div 100 = b + (if p100 then 1 else 0)" "y div 400 = c + (if p400 then 1 else 0)"
    unfolding abc p by (rule d, simp)+
  have e: "y + 1 - 1 = y" by simp
  show ?thesis
    unfolding days_to_year_def leap_def e abc [symmetric] p [symmetric] q using imp [folded p]
    by (cases p4; cases p100; cases p400) simp_all
qed

text \<open>In the range of a 32-bit time the rule of \<open>dysize\<close> is that of the calendar.\<close>

lemma dysize_leap:
  assumes "1 \<le> y" "y \<le> 199"
  shows "dysize y = (if leap (1900 + y) then 366 else 365)"
proof -
  have "y smod 4 = y mod 4" using assms by (simp add: smod_pos)
  moreover have "100 dvd (1900 + y) \<longleftrightarrow> y = 100" using assms by presburger
  moreover have "4 dvd (1900 + y) \<longleftrightarrow> y mod 4 = 0" by presburger
  ultimately show ?thesis by (auto simp: dysize_def leap_def)
qed

lemma dysize_step: "1 \<le> y \<Longrightarrow> y \<le> 199 \<Longrightarrow> days_to_year (1900 + (y + 1)) = days_to_year (1900 + y) + dysize y"
  using days_to_year_step [of "1900 + y"] by (simp add: dysize_leap add.assoc)

lemma days_closed: "1 \<le> y \<Longrightarrow> y \<le> 199 \<Longrightarrow> days_to_year (1900 + y) = 365 * (y - 70) + (y - 1) div 4 - 17"
proof -
  assume y: "1 \<le> y" "y \<le> 199"
  have "(1900 + y - 1) div 4 = 475 + (y - 1) div 4" by (simp add: add_diff_eq [symmetric])
  moreover have "(1900 + y - 1) div 100 = 19 + (y - 1) div 100" by (simp add: add_diff_eq [symmetric])
  moreover have "(1900 + y - 1) div 400 = (if y \<le> 100 then 4 else 5)"
  proof (cases "y \<le> 100")
    case True
    with y have "(1900 + y - 1) div 400 = 4" by (intro int_div_pos_eq [of _ _ _ "1899 + y - 1600"]) auto
    with True show ?thesis by simp
  next
    case False
    with y have "(1900 + y - 1) div 400 = 5" by (intro int_div_pos_eq [of _ _ _ "1899 + y - 2000"]) auto
    with False show ?thesis by simp
  qed
  moreover have "(y - 1) div 100 = (if y \<le> 100 then 0 else 1)"
    using y by (auto intro!: int_div_pos_eq [of _ _ _ "y - 1"] int_div_pos_eq [of _ _ _ "y - 1 - 100"])
  ultimately show ?thesis by (simp add: days_to_year_def)
qed

lemma days_lower: "70 \<le> y \<Longrightarrow> y \<le> 199 \<Longrightarrow> 365 * (y - 70) \<le> days_to_year (1900 + y)"
  using days_closed [of y] by simp

lemma years_up_date:
  "70 \<le> y \<Longrightarrow> y \<le> 150 \<Longrightarrow> 0 \<le> day \<Longrightarrow> days_to_year (1900 + y) + day \<le> 25000 \<Longrightarrow> years_up day y = (d, z) \<Longrightarrow>
   70 \<le> z \<and> z \<le> 150 \<and> 0 \<le> d \<and> d < dysize z \<and> days_to_year (1900 + z) + d = days_to_year (1900 + y) + day"
proof (induction day y rule: years_up.induct)
  case (1 day y)
  show ?case
  proof (cases "dysize y \<le> day")
    case True
    have s: "days_to_year (1900 + (y + 1)) = days_to_year (1900 + y) + dysize y" using 1 by (intro dysize_step) auto
    moreover have "365 * (y - 70) \<le> days_to_year (1900 + y)" using 1 by (intro days_lower) auto
    moreover have "days_to_year (1900 + y) \<le> 25000" using "1.prems" by linarith
    ultimately have "y + 1 \<le> 150" by simp
    with 1 True s show ?thesis by (auto simp: years_up.simps [of day y])
  next
    case False
    with 1 show ?thesis by (auto simp: years_up.simps [of day y])
  qed
qed

lemma years_down_date:
  "2 \<le> y \<or> 1 \<le> y \<and> 0 \<le> day \<Longrightarrow> y \<le> 70 \<Longrightarrow> day < dysize y \<Longrightarrow> -24870 \<le> days_to_year (1900 + y) + day \<Longrightarrow> years_down day y = (d, z) \<Longrightarrow>
   1 \<le> z \<and> z \<le> 70 \<and> 0 \<le> d \<and> d < dysize z \<and> days_to_year (1900 + z) + d = days_to_year (1900 + y) + day"
proof (induction day y rule: years_down.induct)
  case (1 day y)
  show ?case
  proof (cases "day < 0")
    case True
    then have y: "2 \<le> y" using 1 by auto
    have s: "days_to_year (1900 + (y - 1 + 1)) = days_to_year (1900 + (y - 1)) + dysize (y - 1)" using 1 y by (intro dysize_step) auto
    have "(y - 1 - 1) div 4 \<le> 17" using 1 by simp
    then have "days_to_year (1900 + (y - 1)) \<le> 365 * (y - 1 - 70)" using days_closed [of "y - 1"] 1 y by simp
    then have "2 \<le> y - 1 \<or> 1 \<le> y - 1 \<and> 0 \<le> day + dysize (y - 1)" using 1 True s y by (auto simp: algebra_simps)
    then show ?thesis using 1 True s y by (auto simp: years_down.simps [of day y])
  next
    case False
    with 1 show ?thesis by (auto simp: years_down.simps [of day y])
  qed
qed

lemma months_date:
  "0 \<le> d0 \<Longrightarrow> d0 < sum_list ds \<Longrightarrow>
   \<exists>d k. months ds d0 m = Some (d, m + int k) \<and> k < length ds \<and> 0 \<le> d \<and> d < ds ! k \<and> d0 = sum_list (take k ds) + d"
proof (induction ds arbitrary: d0 m)
  case (Cons x xs)
  show ?case
  proof (cases "x \<le> d0")
    case True
    with Cons.prems Cons.IH [of "d0 - x" "m + 1"] obtain d k where
      "months xs (d0 - x) (m + 1) = Some (d, m + 1 + int k)" "k < length xs" "0 \<le> d" "d < xs ! k" "d0 - x = sum_list (take k xs) + d"
      by auto
    with True show ?thesis by (intro exI [of _ d] exI [of _ "Suc k"]) auto
  next
    case False
    with Cons.prems show ?thesis by (intro exI [of _ d0] exI [of _ 0]) auto
  qed
qed simp

text \<open>C division with the correction of a negative remainder is division with rounding down.\<close>

lemma floor_division:
  assumes "0 < n"
  shows "(if t smod n < 0 then (t smod n + n, t sdiv n - 1) else (t smod n, t sdiv n)) = (t mod n, t div (n :: int))"
proof (cases "0 \<le> t")
  case True
  moreover have "\<not> t mod n < 0" using assms by (simp add: not_less)
  ultimately show ?thesis using assms by (simp add: smod_pos sdiv_pos)
next
  case False
  have "t smod n = t mod n - n * of_bool (\<not> n dvd t)" "t sdiv n = t div n + of_bool (\<not> n dvd t)"
    using False assms by (simp_all add: signed_modulo_int_eq_modulo_int signed_divide_int_eq_divide_int sgn_if)
  with assms show ?thesis by (auto simp: dvd_eq_mod_eq_0)
qed

lemma date_secondsI:
  "days_to_year y + sum_list (take k (month_days y)) + d0 = day \<Longrightarrow> hms = 3600 * h + 60 * m + s \<Longrightarrow>
   date_seconds y k (d0 + 1) h m s = 86400 * day + hms"
  unfolding date_seconds_def by simp

lemma gmtime_date:
  assumes "- 2147483648 \<le> t" "t < 2147483648"
  shows "\<exists>x. gmtime t = Some x \<and> 1 \<le> tm_year x \<and> tm_year x \<le> 150
    \<and> date_seconds (1900 + tm_year x) (nat (tm_mon x)) (tm_mday x) (tm_hour x) (tm_min x) (tm_sec x) = t
    \<and> tm_sec x \<in> {0..59} \<and> tm_min x \<in> {0..59} \<and> tm_hour x \<in> {0..23} \<and> tm_mon x \<in> {0..11}
    \<and> 1 \<le> tm_mday x \<and> tm_mday x \<le> month_days (1900 + tm_year x) ! nat (tm_mon x)
    \<and> tm_yday x = t div 86400 - days_to_year (1900 + tm_year x)
    \<and> tm_wday x = (t div 86400 + 4) mod 7 \<and> tm_isdst x = 0 \<and> 0 \<le> tm_yday x \<and> tm_yday x < dysize (tm_year x)"
proof -
  define day where "day = t div 86400"
  define hms where "hms = t mod 86400"
  have t: "t = 86400 * day + hms" "0 \<le> hms" "hms < 86400" by (simp_all add: day_def hms_def)
  have day: "- 24856 \<le> day" "day < 24856" using t assms by linarith+
  have d70: "days_to_year 1970 = 0" by (simp add: days_to_year_def)
  obtain yday year where y: "(if day \<ge> 0 then years_up day 70 else years_down day 70) = (yday, year)" by fastforce
  have yr: "1 \<le> year \<and> year \<le> 150 \<and> 0 \<le> yday \<and> yday < dysize year \<and> days_to_year (1900 + year) + yday = day"
  proof (cases "0 \<le> day")
    case True
    with y day years_up_date [of 70 day yday year] d70 show ?thesis by auto
  next
    case False
    with y day years_down_date [of 70 day yday year] d70 dysize_pos [of 70] show ?thesis by auto
  qed
  let ?ms = "if dysize year = 366 then dmsize[1 := 29] else dmsize"
  have ms: "?ms = month_days (1900 + year)"
    using yr dysize_leap [of year] by (auto simp: dmsize_def month_days_def)
  have "sum_list (month_days (1900 + year)) = dysize year"
    using yr dysize_leap [of year] by (auto simp: month_days_def)
  with months_date [of yday "month_days (1900 + year)" 0] yr obtain d0 k where
    m: "months ?ms yday 0 = Some (d0, int k)" "k < length (month_days (1900 + year))" "0 \<le> d0"
      "d0 < month_days (1900 + year) ! k" "yday = sum_list (take k (month_days (1900 + year))) + d0"
    unfolding ms by auto
  have len: "length (month_days (1900 + year)) = 12" by (simp add: month_days_def)
  define x where "x = \<lparr>tm_sec = hms mod 60, tm_min = hms div 60 mod 60, tm_hour = hms div 60 div 60, tm_mday = d0 + 1, tm_mon = int k,
      tm_year = year, tm_wday = (day + 7340036) mod 7, tm_yday = yday, tm_isdst = 0\<rparr>"
  have gm: "gmtime t = Some x"
    using t(2) day by (simp add: gmtime_def floor_division hms_def [symmetric] day_def [symmetric] y m(1) smod_pos sdiv_pos x_def Let_def)
  have w: "(day + 7340036) mod 7 = (day + 4) mod 7"
  proof -
    have "day + 7340036 = day + 4 + 1048576 * 7" by simp
    then show ?thesis by (simp only: mod_mult_self1)
  qed
  have h: "hms = 3600 * (hms div 60 div 60) + 60 * (hms div 60 mod 60) + hms mod 60"
    using mult_div_mod_eq [of 60 hms] mult_div_mod_eq [of 60 "hms div 60"] by linarith
  have hour: "hms div 60 div 60 \<le> 23 \<and> 0 \<le> hms div 60 div 60"
    using h t pos_mod_sign [of 60 hms] pos_mod_sign [of 60 "hms div 60"] pos_mod_bound [of 60 hms] pos_mod_bound [of 60 "hms div 60"]
    by linarith
  have f: "tm_sec x = hms mod 60" "tm_min x = hms div 60 mod 60" "tm_hour x = hms div 60 div 60" "tm_mday x = d0 + 1"
    "nat (tm_mon x) = k" "tm_mon x = int k" "tm_year x = year" "tm_wday x = (day + 4) mod 7" "tm_yday x = yday" "tm_isdst x = 0"
    by (simp_all add: x_def w)
  have "date_seconds (1900 + year) k (d0 + 1) (hms div 60 div 60) (hms div 60 mod 60) (hms mod 60) = t"
  proof -
    have "days_to_year (1900 + year) + yday = day" using yr by simp
    then have "days_to_year (1900 + year) + sum_list (take k (month_days (1900 + year))) + d0 = day" using m(5) by linarith
    from date_secondsI [OF this h] show ?thesis using t(1) by simp
  qed
  moreover have "hms mod 60 \<in> {0..59}" "hms div 60 mod 60 \<in> {0..59}" "hms div 60 div 60 \<in> {0..23}" "int k \<in> {0..11}"
    using hour m(2) len pos_mod_bound [of 60 hms] pos_mod_bound [of 60 "hms div 60"] by auto
  moreover have "0 \<le> yday" "yday < dysize year" using yr by simp_all
  moreover have "yday = day - days_to_year (1900 + year)" "1 \<le> d0 + 1" "d0 + 1 \<le> month_days (1900 + year) ! k"
    using yr m(3,4) by linarith+
  ultimately show ?thesis using gm yr
    unfolding day_def [symmetric] by (intro exI [of _ x] conjI) (simp_all only: f nat_int)
qed

section \<open>Reading a date back\<close>

text \<open>The time that a line written by \<open>asctime\<close> stands for.\<close>

definition month_names :: "int list list" where
  "month_names = map chars [''Jan'', ''Feb'', ''Mar'', ''Apr'', ''May'', ''Jun'', ''Jul'', ''Aug'', ''Sep'', ''Oct'', ''Nov'', ''Dec'']"

definition two :: "int list \<Rightarrow> nat \<Rightarrow> int" where
  "two b i = (if b ! i = 32 then 0 else 10 * (b ! i - 48)) + (b ! (i + 1) - 48)"

definition read_asctime :: "int list \<Rightarrow> int" where
  "read_asctime b =
     date_seconds (100 * two b 20 + two b 22) (length (takeWhile (\<lambda>m. m \<noteq> [b ! 4, b ! 5, b ! 6]) month_names))
       (two b 8) (two b 11) (two b 14) (two b 17)"

lemma ct_numb_eq:
  "0 \<le> n \<Longrightarrow> ct_numb cp n b = (cp + 3, b[cp + 1 := if n \<ge> 10 then n div 10 mod 10 + 48 else 32, cp + 2 := n mod 10 + 48])"
  by (simp add: ct_numb_def smod_pos sdiv_pos pos_imp_zdiv_nonneg_iff Let_def)

lemma update_numeral: "(x # xs)[numeral k := v] = x # xs[pred_numeral k := v]"
  by (simp add: numeral_eq_Suc)

lemma line_updates:
  "[68, 97, 121, 32, 77, 111, 110, 32, 48, 48, 32, 48, 48, 58, 48, 48, 58, 48, 48, 32, 49, 57, 48, 48, 10, 0 :: int]
     [0 := d0, Suc 0 := d1, Suc (Suc 0) := d2, 4 := m0, 5 := m1, 6 := m2, 8 := a, 9 := b, 11 := c, 12 := d, 14 := e, 15 := f, 17 := g, 18 := h, 22 := p, 23 := q] =
   [d0, d1, d2, 32, m0, m1, m2, 32, a, b, 32, c, d, 58, e, f, 58, g, h, 32, 49, 57, p, q, 10, 0]"
  "[68, 97, 121, 32, 77, 111, 110, 32, 48, 48, 32, 48, 48, 58, 48, 48, 58, 48, 48, 32, 49, 57, 48, 48, 10, 0 :: int]
     [0 := d0, Suc 0 := d1, Suc (Suc 0) := d2, 4 := m0, 5 := m1, 6 := m2, 8 := a, 9 := b, 11 := c, 12 := d, 14 := e, 15 := f, 17 := g, 18 := h, 20 := 50, 21 := 48, 22 := p, 23 := q] =
   [d0, d1, d2, 32, m0, m1, m2, 32, a, b, 32, c, d, 58, e, f, 58, g, h, 32, 50, 48, p, q, 10, 0]"
  by (simp_all add: update_numeral)

text \<open>The characters of the line, given the names of the day and of the month.\<close>

lemma asctime_line:
  assumes "0 \<le> tm_mday x" "0 \<le> tm_hour x" "0 \<le> tm_min x" "0 \<le> tm_sec x" "0 \<le> tm_year x"
  defines "D \<equiv> chars ''SunMonTueWedThuFriSat''" and "M \<equiv> chars ''JanFebMarAprMayJunJulAugSepOctNovDec''"
    and "t \<equiv> \<lambda>n :: int. n div 10 mod 10 + 48" and "o1 \<equiv> \<lambda>n :: int. n mod 10 + 48"
    and "i \<equiv> nat (3 * tm_wday x)" and "j \<equiv> nat (tm_mon x * 3)"
  shows "asctime x =
    [D ! i, D ! (i + 1), D ! (i + 2), 32, M ! j, M ! (j + 1), M ! (j + 2), 32,
     if tm_mday x \<ge> 10 then t (tm_mday x) else 32, o1 (tm_mday x), 32,
     t (tm_hour x + 100), o1 (tm_hour x + 100), 58, t (tm_min x + 100), o1 (tm_min x + 100), 58,
     t (tm_sec x + 100), o1 (tm_sec x + 100), 32, if tm_year x \<ge> 100 then 50 else 49, if tm_year x \<ge> 100 then 48 else 57,
     t (tm_year x + 100), o1 (tm_year x + 100), 10, 0]"
proof -
  have b: "chars ''Day Mon 00 00:00:00 1900'' @ [10, 0] =
    [68, 97, 121, 32, 77, 111, 110, 32, 48, 48, 32, 48, 48, 58, 48, 48, 58, 48, 48, 32, 49, 57, 48, 48, 10, 0]"
    by (simp add: chars_def)
  show ?thesis
    using assms(1-5) unfolding asctime_def b D_def [symmetric] M_def [symmetric] t_def o1_def i_def [symmetric] j_def [symmetric]
    by (cases "tm_year x \<ge> 100")
      (simp_all add: Let_def ct_numb_eq put3_def line_updates split del: if_split cong: if_weak_cong del: list_update.simps)
qed

lemma digits_100: "0 \<le> (n :: int) \<Longrightarrow> 10 * ((n + 100) div 10 mod 10) + (n + 100) mod 10 = n mod 100"
proof -
  assume "0 \<le> n"
  have "(n + 100) div 10 = n div 10 + 10" "(n + 100) mod 10 = n mod 10"
    using div_mult_self1 [of 10 n 10] mod_mult_self1 [of n 10 10] by simp_all
  moreover have "n mod 100 = 10 * (n div 10 mod 10) + n mod 10" using zmod_zmult2_eq [of 10 n 10] by simp
  ultimately show ?thesis by simp
qed

lemma two_100: "0 \<le> n \<Longrightarrow> n < 100 \<Longrightarrow> b ! i = (n + 100) div 10 mod 10 + 48 \<Longrightarrow> b ! (i + 1) = (n + 100) mod 10 + 48 \<Longrightarrow> two b i = n"
  using digits_100 [of n] pos_mod_sign [of 10 "(n + 100) div 10"] by (auto simp: two_def)

lemma month_index:
  assumes "mon \<in> {0..11}"
  shows "length (takeWhile (\<lambda>m. m \<noteq> map (\<lambda>k. chars ''JanFebMarAprMayJunJulAugSepOctNovDec'' ! (nat (mon * 3) + k)) [0, 1, 2]) month_names) = nat mon"
proof -
  have "list_all (\<lambda>n. length (takeWhile (\<lambda>m. m \<noteq> map (\<lambda>k. chars ''JanFebMarAprMayJunJulAugSepOctNovDec'' ! (n * 3 + k)) [0, 1, 2]) month_names) = n) [0..<12]"
    by code_simp
  moreover have "nat mon < 12" "nat (mon * 3) = nat mon * 3" using assms by (simp_all add: nat_mult_distrib nat_less_iff)
  ultimately show ?thesis by (simp add: list_all_iff)
qed

lemma read_line:
  assumes r: "tm_mday x \<in> {1..31}" "tm_hour x \<in> {0..23}" "tm_min x \<in> {0..59}" "tm_sec x \<in> {0..59}"
    "tm_mon x \<in> {0..11}" "tm_year x \<in> {0..199}"
  shows "read_asctime (asctime x) =
    date_seconds (1900 + tm_year x) (nat (tm_mon x)) (tm_mday x) (tm_hour x) (tm_min x) (tm_sec x)"
proof -
  define b where "b = asctime x"
  note line = asctime_line [of x, folded b_def]
  have nn: "0 \<le> tm_mday x" "0 \<le> tm_hour x" "0 \<le> tm_min x" "0 \<le> tm_sec x" "0 \<le> tm_year x" using r by auto
  have at: "b ! 11 = (tm_hour x + 100) div 10 mod 10 + 48" "b ! (11 + 1) = (tm_hour x + 100) mod 10 + 48"
    "b ! 14 = (tm_min x + 100) div 10 mod 10 + 48" "b ! (14 + 1) = (tm_min x + 100) mod 10 + 48"
    "b ! 17 = (tm_sec x + 100) div 10 mod 10 + 48" "b ! (17 + 1) = (tm_sec x + 100) mod 10 + 48"
    "b ! 22 = (tm_year x + 100) div 10 mod 10 + 48" "b ! (22 + 1) = (tm_year x + 100) mod 10 + 48"
    "b ! 20 = (if tm_year x \<ge> 100 then 50 else 49)" "b ! 21 = (if tm_year x \<ge> 100 then 48 else 57)"
    "b ! 8 = (if tm_mday x \<ge> 10 then tm_mday x div 10 mod 10 + 48 else 32)" "b ! 9 = tm_mday x mod 10 + 48"
    "[b ! 4, b ! 5, b ! 6] = map (\<lambda>k. chars ''JanFebMarAprMayJunJulAugSepOctNovDec'' ! (nat (tm_mon x * 3) + k)) [0, 1, 2]"
    unfolding line [OF nn] by (simp_all add: numeral_eq_Suc)
  have hms: "two b 11 = tm_hour x" "two b 14 = tm_min x" "two b 17 = tm_sec x"
    using two_100 [OF nn(2) _ at(1,2)] two_100 [OF nn(3) _ at(3,4)] two_100 [OF nn(4) _ at(5,6)] r by auto
  have "two b 22 = tm_year x mod 100"
    using at(7,8) digits_100 [OF nn(5)] pos_mod_sign [of 10 "(tm_year x + 100) div 10"] by (auto simp: two_def)
  moreover have "tm_year x mod 100 = (if tm_year x \<ge> 100 then tm_year x - 100 else tm_year x)"
  proof (cases "100 \<le> tm_year x")
    case True
    then have "(tm_year x - 100) mod 100 = tm_year x - 100" using r by (intro mod_pos_pos_trivial) auto
    then show ?thesis using True by simp
  qed (use r in simp)
  ultimately have year: "100 * two b 20 + two b 22 = 1900 + tm_year x"
    using at(9,10) by (simp add: two_def)
  have mday: "two b 8 = tm_mday x"
  proof (cases "10 \<le> tm_mday x")
    case True
    then have "tm_mday x div 10 mod 10 = tm_mday x div 10" using r by (intro mod_pos_pos_trivial) auto
    with True at(11,12) show ?thesis by (simp add: two_def)
  next
    case False with at(11,12) r show ?thesis by (simp add: two_def)
  qed
  have "length (takeWhile (\<lambda>m. m \<noteq> [b ! 4, b ! 5, b ! 6]) month_names) = nat (tm_mon x)"
    unfolding at(13) by (rule month_index [OF r(5)])
  with hms year mday show ?thesis unfolding read_asctime_def b_def by simp
qed

lemma gmtime_line:
  assumes "- 2147483648 \<le> t" "t < 2147483648" "gmtime t = Some x"
  shows "read_asctime (asctime x) = t" "length (asctime x) = 26"
proof -
  have x: "1 \<le> tm_year x" "tm_year x \<le> 150"
    "date_seconds (1900 + tm_year x) (nat (tm_mon x)) (tm_mday x) (tm_hour x) (tm_min x) (tm_sec x) = t"
    "tm_sec x \<in> {0..59}" "tm_min x \<in> {0..59}" "tm_hour x \<in> {0..23}" "tm_mon x \<in> {0..11}"
    "1 \<le> tm_mday x" "tm_mday x \<le> month_days (1900 + tm_year x) ! nat (tm_mon x)"
    using gmtime_date [OF assms(1,2)] assms(3) by auto
  have "month_days (1900 + tm_year x) ! nat (tm_mon x) \<in> set (month_days (1900 + tm_year x))"
    using x(7) by (intro nth_mem) (simp add: month_days_def nat_less_iff)
  then have "month_days (1900 + tm_year x) ! nat (tm_mon x) \<le> 31" by (auto simp: month_days_def)
  with x show "read_asctime (asctime x) = t" by (subst read_line) auto
  show "length (asctime x) = 26" by (subst asctime_line) (use x in auto)
qed

section \<open>Daylight saving time\<close>

text \<open>
  The rule in calendar terms, with days counted from the first of January: the last day of a month, the last Sunday
  not after a day (1970-01-01 was a Thursday), and the two days of the change. In 1974 daylight time was from the
  6th of January to the last Sunday of November, in 1975 it began on the last Sunday of February, else it is from the last
  Sunday of April to the last Sunday of October.
\<close>

definition month_end :: "int \<Rightarrow> nat \<Rightarrow> int" where
  "month_end y mon = sum_list (take (mon + 1) (month_days y)) - 1"

definition last_sunday :: "int \<Rightarrow> int \<Rightarrow> int" where
  "last_sunday y d = d - (days_to_year y + d + 4) mod 7"

definition change_forth :: "int \<Rightarrow> int" where
  "change_forth y = (if y = 1974 then 5 else last_sunday y (month_end y (if y = 1975 then 1 else 3)))"

definition change_back :: "int \<Rightarrow> int" where
  "change_back y = last_sunday y (month_end y (if y = 1974 then 10 else 9))"

text \<open>
  \<open>s\<close> is in seconds of standard time. The clocks are changed at two o'clock, which in autumn is one o'clock of
  standard time.
\<close>

definition daylight :: "int \<Rightarrow> bool" where
  "daylight s \<longleftrightarrow>
     (\<exists>y\<in>{1901..2050}. days_to_year y \<le> s div 86400 \<and> s div 86400 < days_to_year (y + 1)
        \<and> 86400 * (days_to_year y + change_forth y) + 7200 \<le> s
        \<and> s < 86400 * (days_to_year y + change_back y) + 3600)"

lemma days_to_year_mono: "x \<le> y \<Longrightarrow> days_to_year x \<le> days_to_year y"
proof -
  assume "x \<le> y"
  have "days_to_year x \<le> days_to_year (x + int n)" for n
  proof (induction n)
    case (Suc n)
    then show ?case using days_to_year_step [of "x + int n"] by (simp add: add.assoc add.commute [of 1] split: if_splits)
  qed simp
  from this [of "nat (y - x)"] \<open>x \<le> y\<close> show ?thesis by simp
qed

lemma daylight_year:
  assumes "y \<in> {1901..2050}" "days_to_year y \<le> s div 86400" "s div 86400 < days_to_year (y + 1)"
  shows "daylight s \<longleftrightarrow> 86400 * (days_to_year y + change_forth y) + 7200 \<le> s
    \<and> s < 86400 * (days_to_year y + change_back y) + 3600"
proof -
  have "y' = y" if "days_to_year y' \<le> s div 86400" "s div 86400 < days_to_year (y' + 1)" for y'
  proof (rule ccontr)
    assume "y' \<noteq> y"
    then have "y' + 1 \<le> y \<or> y + 1 \<le> y'" by linarith
    then show False using days_to_year_mono [of "y' + 1" y] days_to_year_mono [of "y + 1" y'] that assms(2,3) by auto
  qed
  with assms show ?thesis unfolding daylight_def by blast
qed

lemma sunday_last:
  assumes "tm_wday x = (days_to_year (1900 + tm_year x) + tm_yday x + 4) mod 7" "0 \<le> tm_yday x" "tm_yday x \<le> 366" "0 \<le> d"
  shows "sunday x d = last_sunday (1900 + tm_year x) (if d \<ge> 58 then d + (dysize (tm_year x) - 365) else d)"
proof -
  define e where "e = (if d \<ge> 58 then d + (dysize (tm_year x) - 365) else d)"
  have e0: "0 \<le> e" using assms(4) dysize_pos [of "tm_year x"] by (simp add: e_def)
  have w: "0 \<le> tm_wday x" using assms(1) by simp
  have "0 \<le> e - tm_yday x + tm_wday x + 700" using e0 w assms(3) by linarith
  then have "sunday x d = e - (e - tm_yday x + tm_wday x + 700) mod 7"
    by (simp add: sunday_def e_def [symmetric] smod_pos Let_def)
  also have "(e - tm_yday x + tm_wday x + 700) mod 7 = (e - tm_yday x + (days_to_year (1900 + tm_year x) + tm_yday x + 4) + 100 * 7) mod 7"
    unfolding assms(1) by (subst mod_add_left_eq [symmetric], subst mod_add_right_eq, subst mod_add_left_eq) simp
  also have "\<dots> = (days_to_year (1900 + tm_year x) + e + 4) mod 7"
    unfolding mod_mult_self1 by (rule arg_cong [of _ _ "\<lambda>n. n mod 7"]) simp
  finally show ?thesis by (simp add: last_sunday_def e_def)
qed

lemma change_days:
  assumes "1 \<le> tm_year x" "tm_year x \<le> 150" "0 \<le> tm_yday x" "tm_yday x \<le> 366"
    "tm_wday x = (days_to_year (1900 + tm_year x) + tm_yday x + 4) mod 7"
  defines "b \<equiv> (if tm_year x = 74 \<or> tm_year x = 75 then daytab ! nat (tm_year x - 74) else (119, 303))"
  shows "sunday x (fst b) = change_forth (1900 + tm_year x)" "sunday x (snd b) = change_back (1900 + tm_year x)"
proof -
  let ?y = "1900 + tm_year x"
  have dy: "dysize (tm_year x) = (if leap ?y then 366 else 365)" using dysize_leap [of "tm_year x"] assms(1,2) by simp
  have m: "month_end ?y 1 = (if leap ?y then 59 else 58)" "month_end ?y 3 = (if leap ?y then 120 else 119)"
    "month_end ?y 9 = (if leap ?y then 304 else 303)" "month_end ?y 10 = (if leap ?y then 334 else 333)"
    by (simp_all add: month_end_def month_days_def numeral_eq_Suc)
  have s: "sunday x d = last_sunday ?y (if d \<ge> 58 then d + (if leap ?y then 1 else 0) else d)" if "0 \<le> d" for d
    using sunday_last [OF assms(5,3,4) that] by (simp add: dy)
  have five: "last_sunday 1974 5 = 5" by (simp add: last_sunday_def days_to_year_def)
  have l: "\<not> leap 1974" "\<not> leap 1975" by (simp_all add: leap_def)
  show "sunday x (fst b) = change_forth ?y" "sunday x (snd b) = change_back ?y"
    using m s [of 5] s [of 58] s [of 119] s [of 303] s [of 333] five l
    by (auto simp: b_def change_forth_def change_back_def daytab_def)
qed

text \<open>What \<open>localtime\<close> gives, for any zone and with or without the flag.\<close>

lemma localtime_date:
  fixes dstflag :: bool
  assumes "- 2147483648 \<le> t - 60 * zone" "t - 60 * zone < 2147483648 - 3600"
  defines "s \<equiv> t - 60 * zone"
  shows "\<exists>x. localtime zone dstflag t = Some x \<and> tm_isdst x = (if dstflag \<and> daylight s then 1 else 0)
    \<and> gmtime (if dstflag \<and> daylight s then s + 3600 else s) = Some (x\<lparr>tm_isdst := 0\<rparr>)"
proof -
  define d where "d \<longleftrightarrow> dstflag \<and> daylight s"
  have r: "- 2147483648 \<le> s" "s < 2147483648" using assms(1,2) by (simp_all add: s_def)
  have c: "s32 (t - zone * 60) = s" using r by (simp add: s_def s32_id mult.commute)
  obtain x where x: "gmtime s = Some x" "1 \<le> tm_year x" "tm_year x \<le> 150"
    "date_seconds (1900 + tm_year x) (nat (tm_mon x)) (tm_mday x) (tm_hour x) (tm_min x) (tm_sec x) = s"
    "tm_sec x \<in> {0..59}" "tm_min x \<in> {0..59}" "tm_hour x \<in> {0..23}"
    "tm_yday x = s div 86400 - days_to_year (1900 + tm_year x)" "tm_wday x = (s div 86400 + 4) mod 7" "tm_isdst x = 0"
    "0 \<le> tm_yday x" "tm_yday x < dysize (tm_year x)"
    using gmtime_date [OF r] by blast
  let ?y = "1900 + tm_year x" let ?D = "days_to_year ?y"
  obtain x2 where x2: "gmtime (s + 3600) = Some x2" "tm_isdst x2 = 0"
    using gmtime_date [of "s + 3600"] assms(1,2) by (auto simp: s_def)
  have step: "days_to_year (?y + 1) = ?D + dysize (tm_year x)" using dysize_step [of "tm_year x"] x(2,3) by (simp add: add.assoc)
  define h where "h = 3600 * tm_hour x + 60 * tm_min x + tm_sec x"
  have h: "0 \<le> h" "h < 86400" "tm_hour x \<ge> 2 \<longleftrightarrow> 7200 \<le> h" "tm_hour x < 1 \<longleftrightarrow> h < 3600" using x(5-7) by (auto simp: h_def)
  have k: "s = 86400 * k + h" if "k = ?D + sum_list (take (nat (tm_mon x)) (month_days ?y)) + tm_mday x - 1" for k
    using x(4) unfolding that by (simp add: date_seconds_def h_def)
  then obtain k where k: "s = 86400 * k + h" by blast
  then have "s div 86400 = k" using h(1,2) by (intro int_div_pos_eq [of _ _ _ h]) auto
  then have sk: "s = 86400 * (?D + tm_yday x) + h" using k x(8) by simp
  have yd: "tm_yday x \<le> 366" using x(12) dysize_pos [of "tm_year x"] by simp
  have wd: "tm_wday x = (?D + tm_yday x + 4) mod 7" using x(8,9) by simp
  define b where "b = (if tm_year x = 74 \<or> tm_year x = 75 then daytab ! nat (tm_year x - 74) else (119, 303))"
  note ch = change_days [OF x(2,3,11) yd wd, folded b_def]
  have dl: "daylight s \<longleftrightarrow> (tm_yday x > change_forth ?y \<or> tm_yday x = change_forth ?y \<and> tm_hour x \<ge> 2)
      \<and> (tm_yday x < change_back ?y \<or> tm_yday x = change_back ?y \<and> tm_hour x < 1)"
  proof -
    have "daylight s \<longleftrightarrow> 86400 * (?D + change_forth ?y) + 7200 \<le> s \<and> s < 86400 * (?D + change_back ?y) + 3600"
      by (rule daylight_year) (use x(2,3,8,11,12) step in auto)
    moreover have "86400 * (?D + n) + 7200 \<le> s \<longleftrightarrow> tm_yday x > n \<or> tm_yday x = n \<and> tm_hour x \<ge> 2" for n
      unfolding sk h(3) using h(1,2) by (auto simp: algebra_simps)
    moreover have "s < 86400 * (?D + n) + 3600 \<longleftrightarrow> tm_yday x < n \<or> tm_yday x = n \<and> tm_hour x < 1" for n
      unfolding sk h(4) using h(1,2) by (auto simp: algebra_simps)
    ultimately show ?thesis by blast
  qed
  have "localtime zone dstflag t = (if d then Some (x2\<lparr>tm_isdst := 1\<rparr>) else Some x)"
    unfolding localtime_def c Let_def x(1) option.case b_def [symmetric] d_def dl
    using ch x2 assms(1,2) by (auto simp: split_beta s32_id s_def)
  then show ?thesis unfolding d_def [symmetric] using x(1,10) x2 by (cases d) auto
qed

section \<open>Properties\<close>

text \<open>
  Claim C17. For every time that 32 bits can hold \<open>gmtime\<close> gives the date of the Gregorian calendar: fields in
  their ranges that stand for exactly this second, and the right day of the week and of the year. The field for the year
  is the year less 1900; the comment at the head of the file says year-1970, which the code does not do.
\<close>

theorem gmtime_gregorian:
  assumes "- 2147483648 \<le> t" "t < 2147483648"
  shows "\<exists>x. gmtime t = Some x \<and> 1 \<le> tm_year x \<and> tm_year x \<le> 150
    \<and> date_seconds (1900 + tm_year x) (nat (tm_mon x)) (tm_mday x) (tm_hour x) (tm_min x) (tm_sec x) = t
    \<and> tm_sec x \<in> {0..59} \<and> tm_min x \<in> {0..59} \<and> tm_hour x \<in> {0..23} \<and> tm_mon x \<in> {0..11}
    \<and> 1 \<le> tm_mday x \<and> tm_mday x \<le> month_days (1900 + tm_year x) ! nat (tm_mon x)
    \<and> tm_yday x = t div 86400 - days_to_year (1900 + tm_year x)
    \<and> tm_wday x = (t div 86400 + 4) mod 7 \<and> tm_isdst x = 0"
  using gmtime_date [OF assms] by blast

theorem gmtime_gregorian_witness: "\<exists>x. gmtime 951782400 = Some x \<and> tm_wday x = 2"
  using gmtime_gregorian [of 951782400] by auto

text \<open>
  Claim C34. The line that \<open>ctime\<close> makes of a time, read in the Gregorian calendar, is the local time: the seconds that
  were given less the time zone, and an hour more exactly if daylight saving is in force there and the rule of the calendar
  says that the clocks are forward. The zone is in minutes west, the zone of this system is 300 with daylight saving.
  The line has 26 characters with the newline and the zero.
\<close>

theorem ctime_round_trip:
  assumes "- 2147483648 \<le> t - 60 * zone" "t - 60 * zone < 2147483648 - 3600"
  shows "\<exists>b. ctime zone dstflag t = Some b \<and> length b = 26
    \<and> read_asctime b = t - 60 * zone + (if dstflag \<and> daylight (t - 60 * zone) then 3600 else 0)"
proof -
  let ?s = "t - 60 * zone" let ?d = "dstflag \<and> daylight ?s" let ?u = "if ?d then ?s + 3600 else ?s"
  obtain x where x: "localtime zone dstflag t = Some x" "gmtime ?u = Some (x\<lparr>tm_isdst := 0\<rparr>)"
    using localtime_date [OF assms, of dstflag] by blast
  have "- 2147483648 \<le> ?u" "?u < 2147483648" using assms by auto
  note g = gmtime_line [OF this x(2)]
  have "asctime (x\<lparr>tm_isdst := 0\<rparr>) = asctime x" by (simp add: asctime_def)
  with g x(1) show ?thesis by (auto simp: ctime_def)
qed

text \<open>The 1st of January and the 1st of July 1979, at noon in Greenwich.\<close>

theorem ctime_round_trip_witness:
  "(\<exists>b. ctime 300 True 284040000 = Some b \<and> read_asctime b = 284040000 - 18000)
   \<and> (\<exists>b. ctime 300 True 299678400 = Some b \<and> read_asctime b = 299678400 - 14400)"
proof -
  have y: "days_to_year 1979 = 3287" "days_to_year 1980 = 3652" by (simp_all add: days_to_year_def)
  have c: "change_forth 1979 = 118" "change_back 1979 = 300"
    by (simp_all add: change_forth_def change_back_def last_sunday_def month_end_def month_days_def leap_def days_to_year_def numeral_eq_Suc)
  have "\<not> daylight (284040000 - 60 * 300)" "daylight (299678400 - 60 * 300)"
    using daylight_year [of 1979 "284040000 - 60 * 300"] daylight_year [of 1979 "299678400 - 60 * 300"] by (simp_all add: y c)
  then show ?thesis using ctime_round_trip [of 284040000 300 True] ctime_round_trip [of 299678400 300 True] by auto
qed

end
