(* ===== verification/Mp.thy ===== *)
theory Mp
  imports Bytes
begin

text \<open>
  \<open>usr/src/libmp\<close>: arithmetic of integers of any size. A \<open>MINT\<close> has a length, whose sign is the sign of the number,
  and an array of digits of fifteen bits, the lowest first; here the array is the list of the cells that were
  written. The length is a \<open>short\<close>, and so is what \<open>s16\<close> keeps of the length of a sum or a product; the length
  \<open>- 32768\<close>, whose sign cannot be changed, is left out. Every function works on copies of the lengths and array pointers of its arguments and stores a new
  array in its result at the end, so arguments and results are values. The functions \<open>move\<close>, \<open>xfree\<close>, \<open>shfree\<close> and
  \<open>xalloc\<close> only manage memory and have no counterpart.

  The multiplication takes the two halves of a \<open>long\<close> from a structure that has the high half first, as it is on a
  PDP-11; on this machine the low half is first. The layout is the argument \<open>pdp\<close>.
\<close>

record mint =
  m_len :: int
  m_val :: "int list"

definition mint_len :: "mint \<Rightarrow> nat" where
  "mint_len a = nat \<bar>m_len a\<bar>"

definition used :: "mint \<Rightarrow> int list" where
  "used a = take (nat (m_len a)) (m_val a)"

section \<open>Addition\<close>

text \<open>The loop over the digits of both numbers, then the one over the remaining digits of the longer one.\<close>

fun add_rest :: "int \<Rightarrow> int list \<Rightarrow> int list \<times> int" where
  "add_rest carry [] = ([], carry)"
| "add_rest carry (a # as) =
     (let x = carry + a in
      if x AND 32768 \<noteq> 0 then (case add_rest carry as of (ds, cy) \<Rightarrow> ((x AND 32767) # ds, cy))
      else (case add_rest 0 as of (ds, cy) \<Rightarrow> (x # ds, cy)))"

fun add_both :: "int \<Rightarrow> int list \<Rightarrow> int list \<Rightarrow> int list \<times> int" where
  "add_both carry (a # as) (b # bs) =
     (let x = carry + a + b in
      if x AND 32768 \<noteq> 0 then (case add_both 1 as bs of (ds, cy) \<Rightarrow> ((x AND 32767) # ds, cy))
      else (case add_both 0 as bs of (ds, cy) \<Rightarrow> (x # ds, cy)))"
| "add_both carry as [] = add_rest carry as"
| "add_both carry [] (b # bs) = ([], carry)"

definition m_add :: "mint \<Rightarrow> mint \<Rightarrow> mint" where
  "m_add a b =
     (case add_both 0 (used a) (used b) of
        (ds, carry) \<Rightarrow>
          if carry = 1 then \<lparr>m_len = s16 (m_len a + 1), m_val = ds @ [1]\<rparr> else \<lparr>m_len = m_len a, m_val = ds\<rparr>)"

section \<open>Subtraction\<close>

fun sub_rest :: "int \<Rightarrow> int list \<Rightarrow> int list \<times> int" where
  "sub_rest borrow [] = ([], borrow)"
| "sub_rest borrow (a # as) =
     (let x = borrow + a in
      if x AND 32768 \<noteq> 0 then (case sub_rest borrow as of (ds, bw) \<Rightarrow> ((x AND 32767) # ds, bw))
      else (case sub_rest 0 as of (ds, bw) \<Rightarrow> (x # ds, bw)))"

fun sub_both :: "int \<Rightarrow> int list \<Rightarrow> int list \<Rightarrow> int list \<times> int" where
  "sub_both borrow (a # as) (b # bs) =
     (let x = borrow + a - b in
      if x AND 32768 \<noteq> 0 then (case sub_both (- 1) as bs of (ds, bw) \<Rightarrow> ((x AND 32767) # ds, bw))
      else (case sub_both 0 as bs of (ds, bw) \<Rightarrow> (x # ds, bw)))"
| "sub_both borrow as [] = sub_rest borrow as"
| "sub_both borrow [] (b # bs) = ([], borrow)"

text \<open>The index behind the highest digit that is not zero.\<close>

definition top_digit :: "int list \<Rightarrow> nat" where
  "top_digit ds = length (dropWhile (\<lambda>d. \<not> d > 0) (rev ds))"

text \<open>
  The sum with one that follows a borrow is one of two positive numbers, which \<open>madd\<close> passes to \<open>m_add\<close>. When no
  digit is left the length of the result stays the zero that the caller has stored there.
\<close>

definition m_sub :: "mint \<Rightarrow> mint \<Rightarrow> mint" where
  "m_sub a b =
     (case sub_both 0 (used a) (used b) of
        (ds, borrow) \<Rightarrow>
          (let val = (if borrow < 0
                      then m_val (m_add \<lparr>m_len = m_len a, m_val = map (\<lambda>d. d XOR 32767) ds\<rparr> \<lparr>m_len = 1, m_val = [1]\<rparr>)
                      else ds);
               top = top_digit (take (nat (m_len a)) val)
           in if top = 0 then \<lparr>m_len = 0, m_val = []\<rparr>
              else \<lparr>m_len = (if borrow = 0 then int top else - int top), m_val = val\<rparr>))"

function madd :: "mint \<Rightarrow> mint \<Rightarrow> mint" and msub :: "mint \<Rightarrow> mint \<Rightarrow> mint" where
  "madd x y =
     (if m_len x \<ge> 0 then
        if m_len y \<ge> 0 then (if m_len x \<ge> m_len y then m_add x y else m_add y x)
        else msub x (y\<lparr>m_len := - m_len y\<rparr>)
      else if m_len y \<le> 0 then
        (let z = madd (x\<lparr>m_len := - m_len x\<rparr>) (y\<lparr>m_len := - m_len y\<rparr>) in z\<lparr>m_len := - 1 * m_len z\<rparr>)
      else msub y (x\<lparr>m_len := - m_len x\<rparr>))"
| "msub x y =
     (if m_len x \<ge> 0 then
        if m_len y \<ge> 0 then
          (if m_len x \<ge> m_len y then m_sub x y
           else (let z = msub y x in z\<lparr>m_len := - 1 * m_len z\<rparr>))
        else madd x (y\<lparr>m_len := - m_len y\<rparr>)
      else if m_len y \<le> 0 then
        (let z = msub (y\<lparr>m_len := - m_len y\<rparr>) (x\<lparr>m_len := - m_len x\<rparr>) in z\<lparr>m_len := - 1 * m_len z\<rparr>)
      else (let z = madd (x\<lparr>m_len := - m_len x\<rparr>) y in z\<lparr>m_len := - 1 * m_len z\<rparr>))"
  by pat_completeness auto
termination
  by (relation "measures
      [\<lambda>c. case_sum (\<lambda>(x, y). nat (of_bool (m_len x < 0) + of_bool (m_len y < 0) :: int))
                    (\<lambda>(x, y). nat (of_bool (m_len x < 0) + of_bool (m_len y < 0))) c,
       \<lambda>c. case_sum (\<lambda>_. 0) (\<lambda>(x, y). nat (m_len y - m_len x)) c]") auto

declare madd.simps [simp del] msub.simps [simp del]

section \<open>Multiplication\<close>

text \<open>The halves of a \<open>long\<close>, as sixteen bits, and the store of one.\<close>

definition get_high :: "bool \<Rightarrow> int \<Rightarrow> int" where
  "get_high pdp xx = (if pdp then u16 (drop_bit 16 xx) else u16 xx)"

definition get_low :: "bool \<Rightarrow> int \<Rightarrow> int" where
  "get_low pdp xx = (if pdp then u16 xx else u16 (drop_bit 16 xx))"

definition set_high :: "bool \<Rightarrow> int \<Rightarrow> int \<Rightarrow> int" where
  "set_high pdp v xx =
     s32 (if pdp then 65536 * u16 v + u16 xx else 65536 * u16 (drop_bit 16 xx) + u16 v)"

definition tradd :: "bool \<Rightarrow> int \<Rightarrow> int \<times> int \<Rightarrow> int \<times> int" where
  "tradd pdp c st =
     (case st of (carry, xx) \<Rightarrow>
        (let xx = s32 (xx + c) in
         if get_high pdp xx AND 32768 \<noteq> 0 then (carry + 1, set_high pdp (get_high pdp xx AND 32767) xx)
         else (carry, xx)))"

text \<open>The three loops differ in the range of the digits whose products belong to digit \<open>i\<close>.\<close>

fun m_mult_loop :: "bool \<Rightarrow> int list \<Rightarrow> int list \<Rightarrow> nat list \<Rightarrow> int \<Rightarrow> int list" where
  "m_mult_loop pdp as bs [] xx = []"
| "m_mult_loop pdp as bs (i # is) xx =
     (let lo = (if i < length bs then 0 else i - length bs + 1);
          hi = (if i < length as then i + 1 else length as);
          (carry, xx) = fold (\<lambda>j. tradd pdp (s32 (as ! j * bs ! (i - j)))) [lo..<hi] (0, xx);
          v = get_low pdp xx AND 32767;
          xx = drop_bit 15 xx;
          xx = set_high pdp carry xx
      in v # m_mult_loop pdp as bs is xx)"

text \<open>With no digits at all the last test reads in front of the array.\<close>

definition m_mult :: "bool \<Rightarrow> mint \<Rightarrow> mint \<Rightarrow> mint option" where
  "m_mult pdp a b =
     (let n = nat (m_len a) + nat (m_len b); val = m_mult_loop pdp (used a) (used b) [0..<n] 0 in
      if n = 0 then None else Some \<lparr>m_len = s16 (if val ! (n - 1) \<noteq> 0 then int n else int n - 1), m_val = val\<rparr>)"

definition mult :: "bool \<Rightarrow> mint \<Rightarrow> mint \<Rightarrow> mint option" where
  "mult pdp a b =
     (let sign = (if m_len a < 0 then - 1 else 1 :: int);
          sign = (if m_len b < 0 then - sign else sign);
          x = a\<lparr>m_len := \<bar>m_len a\<bar>\<rparr>;
          y = b\<lparr>m_len := \<bar>m_len b\<bar>\<rparr>
      in map_option (\<lambda>z. z\<lparr>m_len := (if sign < 0 then - m_len z else m_len z)\<rparr>)
           (if m_len x < m_len y then m_mult pdp y x else m_mult pdp x y))"

section \<open>Conversion and comparison\<close>

definition mcan :: "mint \<Rightarrow> mint" where
  "mcan a =
     (let i = mint_len a; j = length (dropWhile (\<lambda>d. d = 0) (rev (take i (m_val a)))) in
      if i = 0 \<or> j = i then a
      else if j = 0 then a\<lparr>m_len := 0\<rparr>
      else a\<lparr>m_len := (if m_len a > 0 then int j else - int j)\<rparr>)"

definition itom :: "int \<Rightarrow> mint" where
  "itom n =
     (if n > 0 then \<lparr>m_len = 1, m_val = [s16 n]\<rparr>
      else if n < 0 then \<lparr>m_len = - 1, m_val = [s16 (- n)]\<rparr>
      else \<lparr>m_len = 0, m_val = []\<rparr>)"

definition mcmp :: "mint \<Rightarrow> mint \<Rightarrow> int" where
  "mcmp a b = (if m_len a \<noteq> m_len b then m_len a - m_len b else m_len (msub a b))"

section \<open>Digits and numbers\<close>

definition dval :: "int list \<Rightarrow> int" where
  "dval ds = foldr (\<lambda>d v. d + 32768 * v) ds 0"

definition digits :: "int list \<Rightarrow> bool" where
  "digits ds \<longleftrightarrow> (\<forall>d \<in> set ds. 0 \<le> d \<and> d < 32768)"

text \<open>The number a \<open>MINT\<close> stands for, and that it is stored without leading zeros.\<close>

definition mnum :: "mint \<Rightarrow> int" where
  "mnum a = sgn (m_len a) * dval (take (mint_len a) (m_val a))"

definition canonical :: "mint \<Rightarrow> bool" where
  "canonical a \<longleftrightarrow> mint_len a \<le> length (m_val a) \<and> digits (take (mint_len a) (m_val a))
     \<and> (m_len a \<noteq> 0 \<longrightarrow> m_val a ! (mint_len a - 1) \<noteq> 0)"

lemma dval_simps [simp]: "dval [] = 0" "dval (d # ds) = d + 32768 * dval ds"
  by (simp_all add: dval_def)

lemma digits_simps [simp]: "digits []" "digits (d # ds) \<longleftrightarrow> 0 \<le> d \<and> d < 32768 \<and> digits ds"
  by (auto simp: digits_def)

lemma digits_append [simp]: "digits (xs @ ys) \<longleftrightarrow> digits xs \<and> digits ys"
  by (auto simp: digits_def)

lemma dval_append: "dval (xs @ ys) = dval xs + 32768 ^ length xs * dval ys"
  by (induction xs) (auto simp: algebra_simps)

lemma dval_range: "digits ds \<Longrightarrow> 0 \<le> dval ds \<and> dval ds < 32768 ^ length ds"
proof (induction ds)
  case (Cons d ds)
  then have "d + 32768 * dval ds < 32768 + 32768 * dval ds" "dval ds + 1 \<le> 32768 ^ length ds" by simp_all
  then have "d + 32768 * dval ds < 32768 * 32768 ^ length ds" by linarith
  with Cons show ?case by simp
qed simp

lemma low_bits: "(x :: int) AND 32767 = x mod 32768"
proof -
  have "(32767 :: int) = mask 15" by (simp add: mask_eq_exp_minus_1)
  then show ?thesis by (simp only: take_bit_eq_mask [symmetric] take_bit_eq_mod) simp
qed

lemma high_bit: "(x :: int) AND 32768 \<noteq> 0 \<longleftrightarrow> odd (x div 32768)"
proof -
  have "(32768 :: int) = 2 ^ 15" by simp
  then have "x AND 32768 \<noteq> 0 \<longleftrightarrow> bit x 15" by (simp only: and_exp_eq_0_iff_not_bit) simp
  then show ?thesis by (simp add: bit_iff_odd)
qed

lemma digit_sum:
  fixes x :: int
  shows "0 \<le> x \<Longrightarrow> x < 65536 \<Longrightarrow> (x AND 32768 \<noteq> 0 \<longleftrightarrow> 32768 \<le> x)"
  "32768 \<le> x \<Longrightarrow> x < 65536 \<Longrightarrow> x AND 32767 = x - 32768"
proof -
  assume x: "0 \<le> x" "x < 65536"
  show "x AND 32768 \<noteq> 0 \<longleftrightarrow> 32768 \<le> x"
  proof (cases "32768 \<le> x")
    case True
    then have "x div 32768 = 1" using x by (intro int_div_pos_eq [of _ _ _ "x - 32768"]) auto
    with True show ?thesis by (simp add: high_bit)
  next
    case False with x show ?thesis by (simp add: high_bit)
  qed
next
  assume "32768 \<le> x" "x < 65536"
  then show "x AND 32767 = x - 32768" unfolding low_bits by (intro int_mod_pos_eq [of _ _ 1]) auto
qed

lemma digit_diff:
  fixes x :: int
  shows "- 32768 \<le> x \<Longrightarrow> x < 32768 \<Longrightarrow> (x AND 32768 \<noteq> 0 \<longleftrightarrow> x < 0)"
  "- 32768 \<le> x \<Longrightarrow> x < 0 \<Longrightarrow> x AND 32767 = x + 32768"
proof -
  assume x: "- 32768 \<le> x" "x < 32768"
  show "x AND 32768 \<noteq> 0 \<longleftrightarrow> x < 0"
  proof (cases "x < 0")
    case True
    then have "x div 32768 = - 1" using x by (intro int_div_pos_eq [of _ _ _ "x + 32768"]) auto
    with True show ?thesis by (simp add: high_bit)
  next
    case False with x show ?thesis by (simp add: high_bit)
  qed
next
  assume "- 32768 \<le> x" "x < 0"
  then show "x AND 32767 = x + 32768" unfolding low_bits by (intro int_mod_pos_eq [of _ _ "- 1"]) auto
qed

section \<open>Addition and subtraction of digits\<close>

lemma add_rest_value:
  "carry = 0 \<or> carry = 1 \<Longrightarrow> digits as \<Longrightarrow> add_rest carry as = (ds, cy) \<Longrightarrow>
   (cy = 0 \<or> cy = 1) \<and> length ds = length as \<and> digits ds \<and> dval ds + cy * 32768 ^ length as = dval as + carry"
proof (induction as arbitrary: carry ds)
  case (Cons a as)
  let ?x = "carry + a"
  have x: "0 \<le> ?x" "?x < 65536" using Cons.prems by auto
  note s = digit_sum [of ?x]
  show ?case
  proof (cases "32768 \<le> ?x")
    case True
    obtain es where r: "add_rest carry as = (es, cy)" "ds = (?x - 32768) # es"
      using Cons.prems True s x by (auto simp: Let_def split: prod.splits)
    with Cons.IH [OF Cons.prems(1) _ r(1)] Cons.prems True show ?thesis by (auto simp: algebra_simps)
  next
    case False
    obtain es where r: "add_rest 0 as = (es, cy)" "ds = ?x # es"
      using Cons.prems False s x by (auto simp: Let_def split: prod.splits)
    with Cons.IH [OF _ _ r(1)] Cons.prems False show ?thesis by (auto simp: algebra_simps)
  qed
qed simp

lemma add_both_value:
  "carry = 0 \<or> carry = 1 \<Longrightarrow> digits as \<Longrightarrow> digits bs \<Longrightarrow> length bs \<le> length as \<Longrightarrow> add_both carry as bs = (ds, cy) \<Longrightarrow>
   (cy = 0 \<or> cy = 1) \<and> length ds = length as \<and> digits ds \<and> dval ds + cy * 32768 ^ length as = dval as + dval bs + carry"
proof (induction carry as bs arbitrary: ds rule: add_both.induct)
  case (1 carry a as b bs)
  let ?x = "carry + a + b"
  have x: "0 \<le> ?x" "?x < 65536" using 1 by auto
  note s = digit_sum [of ?x]
  show ?case
  proof (cases "32768 \<le> ?x")
    case True
    then have c: "?x AND 32768 \<noteq> 0" using s x by simp
    obtain es where r: "add_both 1 as bs = (es, cy)" "ds = (?x - 32768) # es"
      using "1.prems" True s x by (auto simp: Let_def split: prod.splits)
    with "1.IH" (1) [OF refl c _ _ _ _ r(1)] "1.prems" True show ?thesis by (auto simp: algebra_simps)
  next
    case False
    then have c: "\<not> ?x AND 32768 \<noteq> 0" using s x by simp
    obtain es where r: "add_both 0 as bs = (es, cy)" "ds = ?x # es"
      using "1.prems" False s x by (auto simp: Let_def split: prod.splits)
    with "1.IH" (2) [OF refl c _ _ _ _ r(1)] "1.prems" False show ?thesis by (auto simp: algebra_simps)
  qed
next
  case (2 carry as) then show ?case using add_rest_value [of carry as ds cy] by auto
qed simp

lemma sub_rest_value:
  "bw = 0 \<or> bw = - 1 \<Longrightarrow> digits as \<Longrightarrow> sub_rest bw as = (ds, br) \<Longrightarrow>
   (br = 0 \<or> br = - 1) \<and> length ds = length as \<and> digits ds \<and> dval ds + br * 32768 ^ length as = dval as + bw"
proof (induction as arbitrary: bw ds)
  case (Cons a as)
  let ?x = "bw + a"
  have x: "- 32768 \<le> ?x" "?x < 32768" using Cons.prems by auto
  note s = digit_diff [of ?x]
  show ?case
  proof (cases "?x < 0")
    case True
    obtain es where r: "sub_rest bw as = (es, br)" "ds = (?x + 32768) # es"
      using Cons.prems True s x by (auto simp: Let_def split: prod.splits)
    with Cons.IH [OF Cons.prems(1) _ r(1)] Cons.prems True show ?thesis by (auto simp: algebra_simps)
  next
    case False
    obtain es where r: "sub_rest 0 as = (es, br)" "ds = ?x # es"
      using Cons.prems False s x by (auto simp: Let_def split: prod.splits)
    with Cons.IH [OF _ _ r(1)] Cons.prems False show ?thesis by (auto simp: algebra_simps)
  qed
qed simp

lemma sub_both_value:
  "bw = 0 \<or> bw = - 1 \<Longrightarrow> digits as \<Longrightarrow> digits bs \<Longrightarrow> length bs \<le> length as \<Longrightarrow> sub_both bw as bs = (ds, br) \<Longrightarrow>
   (br = 0 \<or> br = - 1) \<and> length ds = length as \<and> digits ds \<and> dval ds + br * 32768 ^ length as = dval as - dval bs + bw"
proof (induction bw as bs arbitrary: ds rule: sub_both.induct)
  case (1 bw a as b bs)
  let ?x = "bw + a - b"
  have x: "- 32768 \<le> ?x" "?x < 32768" using 1 by auto
  note s = digit_diff [of ?x]
  show ?case
  proof (cases "?x < 0")
    case True
    then have c: "?x AND 32768 \<noteq> 0" using s x by simp
    obtain es where r: "sub_both (- 1) as bs = (es, br)" "ds = (?x + 32768) # es"
      using "1.prems" True s x by (auto simp: Let_def split: prod.splits)
    with "1.IH" (1) [OF refl c _ _ _ _ r(1)] "1.prems" True show ?thesis by (auto simp: algebra_simps)
  next
    case False
    then have c: "\<not> ?x AND 32768 \<noteq> 0" using s x by simp
    obtain es where r: "sub_both 0 as bs = (es, br)" "ds = ?x # es"
      using "1.prems" False s x by (auto simp: Let_def split: prod.splits)
    with "1.IH" (2) [OF refl c _ _ _ _ r(1)] "1.prems" False show ?thesis by (auto simp: algebra_simps)
  qed
next
  case (2 bw as) then show ?case using sub_rest_value [of bw as ds br] by auto
qed simp

section \<open>Products\<close>

lemma get_set_high:
  "0 \<le> xx \<Longrightarrow> xx < 2147483648 \<Longrightarrow> u16 (drop_bit 16 xx) = xx div 65536 \<and> u16 xx = xx mod 65536"
  by (simp add: u16_def drop_bit_eq_div)

text \<open>With the high half first one addition keeps the sum below \<open>2\<^sup>3\<^sup>1\<close> and counts what it takes off.\<close>

lemma tradd_value:
  assumes xx: "0 \<le> xx" "xx < 2147483648" and c: "0 \<le> c" "c < 1073741824" and r: "tradd True c (carry, xx) = (carry', xx')"
  shows "0 \<le> xx' \<and> xx' < 2147483648 \<and> xx' + 2147483648 * carry' = xx + c + 2147483648 * carry \<and> carry \<le> carry' \<and> carry' \<le> carry + 1"
proof -
  define y where "y = xx + c"
  define h l where "h = y div 65536" and "l = y mod 65536"
  have y: "y = 65536 * h + l" "0 \<le> l" "l < 65536" "0 \<le> y" "y < 3221225472" using xx c by (simp_all add: h_def l_def y_def)
  then have h: "0 \<le> h" "h < 49152" by linarith+
  define z where "z = s32 y"
  have z: "z = (if h < 32768 then y else y - 4294967296)"
  proof (cases "h < 32768")
    case True then have "y < 2147483648" using y by linarith
    with True y show ?thesis by (simp add: z_def s32_id)
  next
    case False then have "2147483648 \<le> y" using y by linarith
    then have "(y + 2147483648) mod 4294967296 = y - 2147483648" using y by (intro int_mod_pos_eq [of _ _ 1]) auto
    with False show ?thesis by (simp add: z_def s32_def)
  qed
  have "drop_bit 16 z mod 65536 = h"
  proof (cases "h < 32768")
    case True with z h show ?thesis by (simp add: drop_bit_eq_div h_def)
  next
    case False
    have "z = 65536 * (h - 65536) + l" using False z y(1) by simp
    then have "z div 65536 = h - 65536" using y by (intro int_div_pos_eq [of _ _ _ l]) auto
    then have "drop_bit 16 z mod 65536 = (h - 65536) mod 65536" by (simp add: drop_bit_eq_div)
    also have "\<dots> = h" using h by (intro int_mod_pos_eq [of _ _ "- 1"]) auto
    finally show ?thesis .
  qed
  then have gh: "get_high True z = h" by (simp add: get_high_def u16_def)
  have gl: "u16 z = l"
  proof -
    have "z mod 65536 = y mod 65536"
    proof (cases "h < 32768")
      case False
      then have "z = y + (- 65536) * 65536" using z by simp
      then show ?thesis by (simp only: mod_mult_self1)
    qed (simp add: z)
    then show ?thesis by (simp add: u16_def l_def)
  qed
  note d = digit_sum [of h]
  have tr: "(carry', xx') = (if h AND 32768 \<noteq> 0 then (carry + 1, set_high True (h AND 32767) z) else (carry, z))"
    unfolding r [symmetric] by (simp add: tradd_def z_def y_def [symmetric] gh [symmetric] Let_def)
  show ?thesis
  proof (cases "h < 32768")
    case True
    then have "carry' = carry" "xx' = y" using tr d h z by auto
    with True y h y_def show ?thesis by auto
  next
    case False
    have "set_high True (h AND 32767) z = 65536 * (h - 32768) + l"
      using False h d y by (simp add: set_high_def gl u16_id s32_id)
    then have "carry' = carry + 1" "xx' = 65536 * (h - 32768) + l"
      using tr d h False by auto
    with False y h y_def show ?thesis by auto
  qed
qed

lemma last_digit:
  assumes "digits ds" "ds \<noteq> []"
  shows "last ds \<noteq> 0 \<longleftrightarrow> 32768 ^ (length ds - 1) \<le> dval ds"
proof -
  have e: "dval ds = dval (butlast ds) + 32768 ^ (length ds - 1) * last ds"
    using dval_append [of "butlast ds" "[last ds]"] assms(2) by simp
  have "digits (butlast ds @ [last ds])" using assms by simp
  then have d: "digits (butlast ds)" "0 \<le> last ds" by (simp_all del: append_butlast_last_id)
  have r: "0 \<le> dval (butlast ds)" "dval (butlast ds) < 32768 ^ (length ds - 1)" using dval_range [OF d(1)] by simp_all
  show ?thesis
  proof (cases "last ds = 0")
    case True with e r show ?thesis by simp
  next
    case False
    then have "32768 ^ (length ds - 1) * 1 \<le> (32768 :: int) ^ (length ds - 1) * last ds" using d(2) by (intro mult_left_mono) auto
    with False e r show ?thesis by linarith
  qed
qed

lemma nonneg_facts:
  assumes "canonical a" "0 \<le> m_len a"
  shows "digits (used a)" "length (used a) = nat (m_len a)" "mnum a = dval (used a)"
    "m_len a \<noteq> 0 \<Longrightarrow> 32768 ^ (nat (m_len a) - 1) \<le> mnum a" "0 \<le> mnum a"
proof -
  have l: "mint_len a = nat (m_len a)" using assms(2) by (simp add: mint_len_def)
  show d: "digits (used a)" and n: "length (used a) = nat (m_len a)" and v: "mnum a = dval (used a)"
    using assms by (auto simp: canonical_def used_def mnum_def l sgn_if)
  show "0 \<le> mnum a" using v dval_range [OF d] by simp
  assume "m_len a \<noteq> 0"
  then have ne: "used a \<noteq> []" using n assms(2) by auto
  moreover have "last (used a) \<noteq> 0"
    using assms \<open>m_len a \<noteq> 0\<close> ne n unfolding last_conv_nth [OF ne] by (simp add: canonical_def l used_def)
  ultimately have "used a \<noteq> []" "last (used a) \<noteq> 0" by simp_all
  with last_digit [OF d] v n show "32768 ^ (nat (m_len a) - 1) \<le> mnum a" by simp
qed

lemma canonicalI:
  assumes "0 \<le> n" "nat n \<le> length ds" "digits (take (nat n) ds)" "n \<noteq> 0 \<Longrightarrow> 32768 ^ (nat n - 1) \<le> dval (take (nat n) ds)"
  shows "canonical \<lparr>m_len = n, m_val = ds\<rparr>" "mnum \<lparr>m_len = n, m_val = ds\<rparr> = dval (take (nat n) ds)"
proof -
  have l: "mint_len \<lparr>m_len = n, m_val = ds\<rparr> = nat n" using assms(1) by (simp add: mint_len_def)
  have "ds ! (nat n - 1) \<noteq> 0" if "n \<noteq> 0"
  proof -
    have ne: "take (nat n) ds \<noteq> []" using that assms by auto
    then have "last (take (nat n) ds) \<noteq> 0" using last_digit [OF assms(3) ne] assms(2,4) that by simp
    moreover have "last (take (nat n) ds) = ds ! (nat n - 1)" using ne assms that by (simp add: last_conv_nth)
    ultimately show ?thesis by simp
  qed
  then show "canonical \<lparr>m_len = n, m_val = ds\<rparr>" using assms l by (simp add: canonical_def)
  show "mnum \<lparr>m_len = n, m_val = ds\<rparr> = dval (take (nat n) ds)" using assms(1) by (simp add: mnum_def l sgn_if)
qed

lemma m_add_value:
  assumes "canonical a" "canonical b" "0 \<le> m_len b" "m_len b \<le> m_len a" "m_len a < 32767"
  shows "canonical (m_add a b)" "mnum (m_add a b) = mnum a + mnum b" "0 \<le> m_len (m_add a b)"
proof -
  have a0: "0 \<le> m_len a" using assms by simp
  note A = nonneg_facts [OF assms(1) a0] and B = nonneg_facts [OF assms(2,3)]
  obtain ds cy where r: "add_both 0 (used a) (used b) = (ds, cy)" by fastforce
  have v: "cy = 0 \<or> cy = 1" "length ds = nat (m_len a)" "digits ds"
    "dval ds + cy * 32768 ^ nat (m_len a) = mnum a + mnum b"
    using add_both_value [of 0 "used a" "used b" ds cy] r A(1-3) B(1-3) assms by auto
  have "canonical (m_add a b) \<and> mnum (m_add a b) = mnum a + mnum b \<and> 0 \<le> m_len (m_add a b)"
  proof (cases "cy = 1")
    case True
    let ?n = "m_len a + 1"
    have t: "take (nat ?n) (ds @ [1]) = ds @ [1]" using v(2) a0 by simp
    have "nat ?n - 1 = nat (m_len a)" using a0 by simp
    then have "canonical \<lparr>m_len = ?n, m_val = ds @ [1]\<rparr>" "mnum \<lparr>m_len = ?n, m_val = ds @ [1]\<rparr> = dval (ds @ [1])"
      using canonicalI [of ?n "ds @ [1]"] v dval_range [OF v(3)] a0 unfolding t by (auto simp: dval_append)
    moreover have "s16 ?n = ?n" using a0 assms(5) by (intro s16_id) auto
    ultimately show ?thesis using True v a0 by (simp add: m_add_def r dval_append)
  next
    case False
    then have t: "take (nat (m_len a)) ds = ds" "dval ds = mnum a + mnum b" using v by auto
    have top: "32768 ^ (nat (m_len a) - 1) \<le> dval (take (nat (m_len a)) ds)" if "m_len a \<noteq> 0"
      using A(4) [OF that] B(5) unfolding t by linarith
    have "canonical \<lparr>m_len = m_len a, m_val = ds\<rparr>" "mnum \<lparr>m_len = m_len a, m_val = ds\<rparr> = dval ds"
      using canonicalI [OF a0 _ _ top] v unfolding t(1) by auto
    with False t a0 show ?thesis by (simp add: m_add_def r)
  qed
  then show "canonical (m_add a b)" "mnum (m_add a b) = mnum a + mnum b" "0 \<le> m_len (m_add a b)" by blast+
qed

lemma top_digit_facts:
  assumes "digits ds"
  shows "top_digit ds \<le> length ds" "dval (take (top_digit ds) ds) = dval ds"
    "top_digit ds \<noteq> 0 \<Longrightarrow> 32768 ^ (top_digit ds - 1) \<le> dval ds"
  using assms
proof (induction ds rule: rev_induct)
  case (snoc d ds)
  {
    case 1 show ?case by (simp add: top_digit_def) (metis length_dropWhile_le length_rev le_SucI)
  next
    case 2 with snoc show ?case by (auto simp: top_digit_def dval_append)
  next
    case 3 with snoc show ?case
      using last_digit [of "ds @ [d]"] dval_append [of ds "[d]"] by (auto simp: top_digit_def split: if_splits)
  }
qed (simp_all add: top_digit_def)

lemma top_digit_0: "digits ds \<Longrightarrow> top_digit ds = 0 \<longleftrightarrow> dval ds = 0"
proof
  assume "digits ds" "top_digit ds = 0"
  then show "dval ds = 0" using top_digit_facts(2) [of ds] by simp
next
  assume d: "digits ds" "dval ds = 0"
  have "(0 :: int) < 32768 ^ (top_digit ds - 1)" by simp
  with top_digit_facts(3) [OF d(1)] d(2) show "top_digit ds = 0" by linarith
qed

lemma complement_digits:
  "digits ds \<Longrightarrow> digits (map (\<lambda>d. d XOR 32767) ds) \<and> dval (map (\<lambda>d. d XOR 32767) ds) = 32768 ^ length ds - 1 - dval ds"
proof (induction ds)
  case (Cons d ds)
  have "d XOR 32767 = 32767 - d"
  proof -
    have m: "(32767 :: int) = mask 15" by (simp add: mask_eq_exp_minus_1)
    have "take_bit 15 d = d" using Cons.prems by (simp add: take_bit_int_eq_self)
    moreover have "take_bit 15 (NOT d) = mask 15 - take_bit 15 d" by (rule take_bit_not_eq_mask_diff)
    moreover have "bit d k \<Longrightarrow> k < 15" for k using \<open>take_bit 15 d = d\<close> by (metis bit_take_bit_iff)
    then have "d XOR mask 15 = take_bit 15 (NOT d)" by (intro bit_eqI) (auto simp: bit_simps)
    ultimately show ?thesis by (simp add: m)
  qed
  with Cons show ?case by (simp add: algebra_simps)
qed simp

lemma m_sub_value:
  assumes "canonical a" "canonical b" "0 \<le> m_len b" "m_len b \<le> m_len a"
  shows "canonical (m_sub a b) \<and> mnum (m_sub a b) = mnum a - mnum b"
proof -
  have a0: "0 \<le> m_len a" using assms by simp
  note A = nonneg_facts [OF assms(1) a0] and B = nonneg_facts [OF assms(2,3)]
  let ?n = "nat (m_len a)"
  obtain ds br where r: "sub_both 0 (used a) (used b) = (ds, br)" by fastforce
  have v: "br = 0 \<or> br = - 1" "length ds = ?n" "digits ds" "dval ds + br * 32768 ^ ?n = mnum a - mnum b"
    using sub_both_value [of 0 "used a" "used b" ds br] r A(1-3) B(1-3) assms by auto
  have bn: "mnum b < 32768 ^ ?n"
  proof -
    have "mnum b < 32768 ^ nat (m_len b)" using dval_range [OF B(1)] B(2,3) by simp
    also have "\<dots> \<le> 32768 ^ ?n" using assms by (intro power_increasing) auto
    finally show ?thesis .
  qed
  have fin: "canonical (if top_digit val = 0 then \<lparr>m_len = 0, m_val = []\<rparr>
       else \<lparr>m_len = (if br = 0 then int (top_digit val) else - int (top_digit val)), m_val = val\<rparr>)
    \<and> mnum (if top_digit val = 0 then \<lparr>m_len = 0, m_val = []\<rparr>
       else \<lparr>m_len = (if br = 0 then int (top_digit val) else - int (top_digit val)), m_val = val\<rparr>)
      = (if br = 0 then dval val else - dval val)" if "digits val" for val
  proof -
    note t = top_digit_facts [OF that] top_digit_0 [OF that]
    have d: "digits (take (top_digit val) val)" using that by (auto simp: digits_def dest: in_set_takeD)
    have "val ! (top_digit val - 1) \<noteq> 0" if "top_digit val \<noteq> 0"
    proof -
      have ne: "take (top_digit val) val \<noteq> []" using that t(1) by (cases val) auto
      have "32768 ^ (length (take (top_digit val) val) - 1) \<le> dval (take (top_digit val) val)" using t that by simp
      then have "last (take (top_digit val) val) \<noteq> 0" using last_digit [OF d ne] by simp
      then show ?thesis using ne that t(1) by (simp add: last_conv_nth)
    qed
    then show ?thesis using t d by (auto simp: canonical_def mnum_def mint_len_def sgn_if nth_append)
  qed
  show ?thesis
  proof (cases "br = 0")
    case True
    with fin [OF v(3)] v show ?thesis by (cases "top_digit ds = 0") (simp_all add: m_sub_def r Let_def)
  next
    case False
    then have br: "br = - 1" using v by simp
    let ?c = "\<lparr>m_len = m_len a, m_val = map (\<lambda>d. d XOR 32767) ds\<rparr>" and ?one = "\<lparr>m_len = 1, m_val = [1 :: int]\<rparr>"
    obtain es cy where e: "add_both 0 (used ?c) (used ?one) = (es, cy)" by fastforce
    have uc: "used ?c = map (\<lambda>d. d XOR 32767) ds" and uo: "used ?one = [1]" using v(2) by (simp_all add: used_def)
    have "?n \<noteq> 0" using v br bn A(5) dval_range [OF v(3)] by (cases "?n = 0") auto
    then have ev: "length es = ?n" "digits es" "dval es + cy * 32768 ^ ?n = 32768 ^ ?n - 1 - dval ds + 1" "cy = 0 \<or> cy = 1"
      using add_both_value [of 0 "map (\<lambda>d. d XOR 32767) ds" "[1]" es cy] e complement_digits [OF v(3)] v(2) unfolding uc uo by auto
    have dv: "0 < dval ds" using v(4) br bn A(5) by simp
    have "cy = 0" using ev dv dval_range [OF ev(2)] by auto
    then have val: "m_val (m_add ?c ?one) = es" "dval es = mnum b - mnum a" using e ev v(4) br by (simp_all add: m_add_def)
    with fin [OF ev(2)] br ev(1) show ?thesis by (cases "top_digit es = 0") (simp_all add: m_sub_def r Let_def)
  qed
qed

lemma negate_mint: "canonical a \<Longrightarrow> canonical (a\<lparr>m_len := - m_len a\<rparr>) \<and> mnum (a\<lparr>m_len := - m_len a\<rparr>) = - mnum a"
  by (simp add: canonical_def mnum_def mint_len_def sgn_minus)


lemma sum_value:
  "canonical x \<Longrightarrow> canonical y \<Longrightarrow> \<bar>m_len x\<bar> < 32767 \<Longrightarrow> \<bar>m_len y\<bar> < 32767 \<Longrightarrow> canonical (madd x y) \<and> mnum (madd x y) = mnum x + mnum y"
  "canonical x \<Longrightarrow> canonical y \<Longrightarrow> \<bar>m_len x\<bar> < 32767 \<Longrightarrow> \<bar>m_len y\<bar> < 32767 \<Longrightarrow>
   canonical (msub x y) \<and> mnum (msub x y) = (if m_len x < 0 \<and> m_len y \<le> 0 then mnum y - mnum x else mnum x - mnum y)"
proof (induction x y and x y rule: madd_msub.induct)
  case (1 x y)
  then show ?case
    using m_add_value [of x y] m_add_value [of y x] negate_mint [of x] negate_mint [of y]
      negate_mint [of "madd (x\<lparr>m_len := - m_len x\<rparr>) (y\<lparr>m_len := - m_len y\<rparr>)"]
    unfolding madd.simps [of x y] by (auto simp: Let_def)
next
  case (2 x y)
  then show ?case
    using m_sub_value [of x y] negate_mint [of x] negate_mint [of y] negate_mint [of "msub y x"]
      negate_mint [of "msub (y\<lparr>m_len := - m_len y\<rparr>) (x\<lparr>m_len := - m_len x\<rparr>)"]
      negate_mint [of "madd (x\<lparr>m_len := - m_len x\<rparr>) y"]
    unfolding msub.simps [of x y] by (auto simp: Let_def)
qed

lemma tradd_fold:
  assumes "\<forall>j \<in> set js. 0 \<le> p j \<and> p j < 1073741824"
  shows "0 \<le> xx \<Longrightarrow> xx < 2147483648 \<Longrightarrow> fold (\<lambda>j. tradd True (s32 (p j))) js (carry, xx) = (carry', xx') \<Longrightarrow>
    0 \<le> xx' \<and> xx' < 2147483648 \<and> xx' + 2147483648 * carry' = xx + (\<Sum>j\<leftarrow>js. p j) + 2147483648 * carry
    \<and> carry \<le> carry' \<and> carry' \<le> carry + int (length js)"
  using assms
proof (induction js arbitrary: carry xx)
  case (Cons j js)
  have s: "s32 (p j) = p j" using Cons.prems by (simp add: s32_id)
  obtain c1 x1 where t: "tradd True (p j) (carry, xx) = (c1, x1)" by fastforce
  note v = tradd_value [OF Cons.prems(1,2) _ _ t]
  have "fold (\<lambda>j. tradd True (s32 (p j))) js (c1, x1) = (carry', xx')" using Cons.prems(3) by (simp add: s t)
  from Cons.IH [OF _ _ this] v Cons.prems show ?case by auto
qed simp

definition prod_digit :: "int list \<Rightarrow> int list \<Rightarrow> nat \<Rightarrow> int" where
  "prod_digit as bs i =
     (\<Sum>j\<leftarrow>[(if i < length bs then 0 else i - length bs + 1)..<(if i < length as then i + 1 else length as)]. as ! j * bs ! (i - j))"

lemma digits_nth: "digits ds \<Longrightarrow> i < length ds \<Longrightarrow> 0 \<le> ds ! i \<and> ds ! i < 32768"
  by (simp add: digits_def)

lemma product_range: "0 \<le> x \<Longrightarrow> x < 32768 \<Longrightarrow> 0 \<le> y \<Longrightarrow> y < 32768 \<Longrightarrow> 0 \<le> x * y \<and> x * y < (1073741824 :: int)"
  using mult_mono [of x 32767 y 32767] by simp

text \<open>One digit of the product: the sum so far and the products of this place, split at fifteen bits.\<close>

lemma m_mult_step:
  assumes a: "digits as" "digits bs" "length bs \<le> length as" "length bs < 32768" and i: "i < length as + length bs"
    and xx: "0 \<le> xx" "xx < 2147483648"
  shows "m_mult_loop True as bs (i # is) xx =
    (let t = xx + prod_digit as bs i in (t mod 32768) # m_mult_loop True as bs is (t div 32768))"
    "0 \<le> xx + prod_digit as bs i" "(xx + prod_digit as bs i) div 32768 < 2147483648"
proof -
  let ?lo = "if i < length bs then 0 else i - length bs + 1" and ?hi = "if i < length as then i + 1 else length as"
  let ?p = "\<lambda>j. as ! j * bs ! (i - j)"
  obtain cy x1 where f: "fold (\<lambda>j. tradd True (s32 (?p j))) [?lo..<?hi] (0, xx) = (cy, x1)" by fastforce
  have "\<forall>j \<in> set [?lo..<?hi]. 0 \<le> ?p j \<and> ?p j < 1073741824"
  proof
    fix j assume "j \<in> set [?lo..<?hi]"
    then have "j < length as" "i - j < length bs" using i a(3) by (auto split: if_splits)
    with digits_nth [OF a(1)] digits_nth [OF a(2)] show "0 \<le> ?p j \<and> ?p j < 1073741824" by (intro product_range) auto
  qed
  from tradd_fold [OF this xx f] have v: "0 \<le> x1" "x1 < 2147483648" "x1 + 2147483648 * cy = xx + prod_digit as bs i"
    "0 \<le> cy" "cy \<le> int (length [?lo..<?hi])" by (simp_all add: prod_digit_def)
  have "length [?lo..<?hi] \<le> length bs" using i a(3) by auto
  then have cy: "cy < 32768" using v(5) a(4) by linarith
  define t where "t = xx + prod_digit as bs i"
  have t: "t = x1 + 2147483648 * cy" "0 \<le> t" using v by (simp_all add: t_def)
  then show "0 \<le> xx + prod_digit as bs i" by (simp add: t_def)
  have d: "t div 32768 = x1 div 32768 + 65536 * cy" "t mod 32768 = x1 mod 32768"
  proof -
    have "t = x1 + 65536 * cy * 32768" using t by simp
    then show "t div 32768 = x1 div 32768 + 65536 * cy" "t mod 32768 = x1 mod 32768" by (simp, simp only: mod_mult_self1)
  qed
  have x2: "0 \<le> x1 div 32768" "x1 div 32768 < 65536" using v(1,2) by auto
  with cy d v(4) show "(xx + prod_digit as bs i) div 32768 < 2147483648" unfolding t_def [symmetric] by linarith
  have low: "get_low True x1 AND 32767 = t mod 32768"
  proof -
    have "x1 mod 65536 mod 32768 = x1 mod 32768" by (rule mod_mod_cancel) simp
    then show ?thesis unfolding get_low_def u16_def low_bits if_True d(2) .
  qed
  have high: "set_high True cy (drop_bit 15 x1) = t div 32768"
    using x2 v(4) cy d by (simp add: set_high_def u16_id s32_id drop_bit_eq_div)
  show "m_mult_loop True as bs (i # is) xx =
    (let t = xx + prod_digit as bs i in (t mod 32768) # m_mult_loop True as bs is (t div 32768))"
    by (simp only: m_mult_loop.simps Let_def f prod.case low high t_def)
qed

lemma m_mult_loop_value:
  assumes a: "digits as" "digits bs" "length bs \<le> length as" "length bs < 32768" and N: "N \<le> length as + length bs"
  shows "i \<le> N \<Longrightarrow> 0 \<le> xx \<Longrightarrow> xx < 2147483648 \<Longrightarrow>
    digits (m_mult_loop True as bs [i..<N] xx) \<and> length (m_mult_loop True as bs [i..<N] xx) = N - i
    \<and> (\<exists>r \<ge> 0. dval (m_mult_loop True as bs [i..<N] xx) + 32768 ^ (N - i) * r = xx + (\<Sum>k < N - i. prod_digit as bs (i + k) * 32768 ^ k))"
proof (induction "N - i" arbitrary: i xx)
  case 0
  then show ?case by (auto intro: exI [of _ xx])
next
  case (Suc n)
  then have i: "i < N" "n = N - Suc i" "[i..<N] = i # [Suc i..<N]" "N - i = Suc (N - Suc i)" by (auto simp: upt_conv_Cons)
  note st = m_mult_step [OF a _ Suc.prems(2,3), of i]
  define t where "t = xx + prod_digit as bs i"
  have t: "0 \<le> t" "t div 32768 < 2147483648" "m_mult_loop True as bs [i..<N] xx = (t mod 32768) # m_mult_loop True as bs [Suc i..<N] (t div 32768)"
    using st i N unfolding t_def Let_def by auto
  have "0 \<le> t div 32768" using t(1) by (simp add: pos_imp_zdiv_nonneg_iff)
  with Suc.hyps(1) [OF i(2), of "t div 32768"] t(2) i obtain r where IH: "digits (m_mult_loop True as bs [Suc i..<N] (t div 32768))"
    "length (m_mult_loop True as bs [Suc i..<N] (t div 32768)) = N - Suc i" "0 \<le> r"
    "dval (m_mult_loop True as bs [Suc i..<N] (t div 32768)) + 32768 ^ (N - Suc i) * r =
       t div 32768 + (\<Sum>k < N - Suc i. prod_digit as bs (Suc i + k) * 32768 ^ k)" by auto
  have "xx + (\<Sum>k < N - i. prod_digit as bs (i + k) * 32768 ^ k) = t + (\<Sum>k < N - Suc i. prod_digit as bs (i + Suc k) * 32768 ^ Suc k)"
    unfolding i(4) sum.lessThan_Suc_shift t_def by simp
  also have "(\<Sum>k < N - Suc i. prod_digit as bs (i + Suc k) * 32768 ^ Suc k) =
      32768 * (\<Sum>k < N - Suc i. prod_digit as bs (Suc i + k) * 32768 ^ k)"
    by (simp add: sum_distrib_left algebra_simps)
  also have "t + \<dots> = t mod 32768 + 32768 * (t div 32768 + (\<Sum>k < N - Suc i. prod_digit as bs (Suc i + k) * 32768 ^ k))"
    by (simp add: algebra_simps)
  also have "\<dots> = dval (m_mult_loop True as bs [i..<N] xx) + 32768 ^ (N - i) * r"
    unfolding IH(4) [symmetric] t(3) i(4) by (simp add: algebra_simps)
  finally have "dval (m_mult_loop True as bs [i..<N] xx) + 32768 ^ (N - i) * r = xx + (\<Sum>k < N - i. prod_digit as bs (i + k) * 32768 ^ k)"
    by (rule sym)
  moreover have "digits (m_mult_loop True as bs [i..<N] xx)" "length (m_mult_loop True as bs [i..<N] xx) = N - i"
    unfolding t(3) using IH(1,2) i(4) by simp_all
  ultimately show ?case using IH(3) by blast
qed

lemma dval_sum: "dval ds = (\<Sum>k < length ds. ds ! k * 32768 ^ k)"
proof (induction ds)
  case (Cons d ds)
  show ?case unfolding dval_simps Cons.IH list.size add_0_right add_Suc_right sum.lessThan_Suc_shift
    by (simp add: sum_distrib_left algebra_simps)
qed simp

lemma prod_digit_sum:
  assumes "length bs \<le> length as"
  shows "prod_digit as bs i = (\<Sum>j | j < length as \<and> j \<le> i \<and> i - j < length bs. as ! j * bs ! (i - j))"
proof -
  let ?lo = "if i < length bs then 0 else i - length bs + 1" and ?hi = "if i < length as then i + 1 else length as"
  have s: "{?lo..<?hi} = {j. j < length as \<and> j \<le> i \<and> i - j < length bs}" by auto
  show ?thesis unfolding prod_digit_def interv_sum_list_conv_sum_set_nat set_upt s ..
qed

lemma convolution:
  assumes "length bs \<le> length as"
  shows "(\<Sum>i < length as + length bs. prod_digit as bs i * 32768 ^ i) = dval as * dval bs"
proof -
  let ?n = "length as" and ?m = "length bs"
  have "(\<Sum>i < ?n + ?m. prod_digit as bs i * 32768 ^ i) =
      (\<Sum>i < ?n + ?m. \<Sum>j | j < ?n \<and> j \<le> i \<and> i - j < ?m. as ! j * bs ! (i - j) * 32768 ^ i)"
    by (simp add: prod_digit_sum [OF assms] sum_distrib_right)
  also have "\<dots> = (\<Sum>(i, j) \<in> Sigma {..<?n + ?m} (\<lambda>i. {j. j < ?n \<and> j \<le> i \<and> i - j < ?m}). as ! j * bs ! (i - j) * 32768 ^ i)"
    by (rule sum.Sigma) auto
  also have "\<dots> = (\<Sum>(j, k) \<in> {..<?n} \<times> {..<?m}. as ! j * 32768 ^ j * (bs ! k * 32768 ^ k))"
    by (rule sum.reindex_bij_witness [of _ "\<lambda>(j, k). (j + k, j)" "\<lambda>(i, j). (j, i - j)"])
      (auto simp: power_add algebra_simps simp flip: power_add)
  also have "\<dots> = dval as * dval bs"
    unfolding dval_sum sum_product sum.cartesian_product ..
  finally show ?thesis .
qed

text \<open>With the high half first the product is right.\<close>

lemma m_mult_eq:
  assumes "n = nat (m_len a) + nat (m_len b)" "v = m_mult_loop True (used a) (used b) [0..<n] 0" "n \<noteq> 0"
  shows "m_mult True a b = Some \<lparr>m_len = s16 (if v ! (n - 1) \<noteq> 0 then int n else int n - 1), m_val = v\<rparr>"
  unfolding m_mult_def Let_def assms(1) [symmetric] assms(2) [symmetric] using assms(3) by simp

lemma m_mult_value:
  assumes "canonical a" "canonical b" "0 < m_len b" "m_len b \<le> m_len a" "m_len a + m_len b < 32768"
  shows "\<exists>z. m_mult True a b = Some z \<and> canonical z \<and> mnum z = mnum a * mnum b \<and> 0 < m_len z"
proof -
  have a0: "0 \<le> m_len a" and b0: "0 \<le> m_len b" using assms by simp_all
  note A = nonneg_facts [OF assms(1) a0] and B = nonneg_facts [OF assms(2) b0]
  let ?la = "nat (m_len a)" and ?lb = "nat (m_len b)"
  define n where n: "n = ?la + ?lb"
  define v where vd: "v = m_mult_loop True (used a) (used b) [0..<n] 0"
  have len: "length (used b) \<le> length (used a)" "length (used b) < 32768" using A B assms by simp_all
  obtain r where v: "digits v" "length v = n" "0 \<le> r"
    "dval v + 32768 ^ n * r = (\<Sum>k < n. prod_digit (used a) (used b) k * 32768 ^ k)"
    using m_mult_loop_value [OF A(1) B(1) len, of n 0 0] A(2) B(2) unfolding vd n by auto
  have sum: "(\<Sum>k < n. prod_digit (used a) (used b) k * 32768 ^ k) = mnum a * mnum b"
    using convolution [OF len(1)] A(2,3) B(2,3) unfolding n by simp
  have up: "mnum a < 32768 ^ ?la" "mnum b < 32768 ^ ?lb"
    using dval_range [OF A(1)] dval_range [OF B(1)] A(2,3) B(2,3) by simp_all
  have lo: "32768 ^ (?la - 1) \<le> mnum a" "32768 ^ (?lb - 1) \<le> mnum b" using A(4) B(4) assms by simp_all
  have "mnum a * mnum b < 32768 ^ ?la * 32768 ^ ?lb"
    using up A(5) B(5) by (intro mult_strict_mono) auto
  then have "32768 ^ n * r < 32768 ^ n * 1" using v(4) sum conjunct1 [OF dval_range [OF v(1)]] unfolding n power_add by linarith
  then have "r = 0" using v(3) by simp
  then have val: "dval v = mnum a * mnum b" using v sum by simp
  have prod: "(32768 :: int) ^ (?la - 1) * 32768 ^ (?lb - 1) \<le> mnum a * mnum b"
    using lo A(5) by (intro mult_mono) auto
  have low: "32768 ^ (n - 2) \<le> dval v" proof -
    have "?la - 1 + (?lb - 1) = n - 2" unfolding n using assms by linarith
    then show ?thesis using prod unfolding val power_add [symmetric] by simp
  qed
  have n0: "n \<noteq> 0" "2 \<le> n" "int n < 32768" unfolding n using assms by linarith+
  have k16: "s16 (int n) = int n" "s16 (int n - 1) = int n - 1" using n0 by (intro s16_id; linarith)+
  have vne: "v \<noteq> []" using v(2) n0 by (cases v) auto
  have last: "v ! (n - 1) = last v" using v(2) by (simp add: last_conv_nth [OF vne])
  show ?thesis
  proof (cases "v ! (n - 1) = 0")
    case False
    have k: "nat (int n) = n" by (rule nat_int)
    from False have "32768 ^ (nat (int n) - 1) \<le> dval (take (nat (int n)) v)"
      unfolding k using last_digit [OF v(1) vne] last v(2) by simp
    then have "canonical \<lparr>m_len = int n, m_val = v\<rparr>" "mnum \<lparr>m_len = int n, m_val = v\<rparr> = dval v"
      using canonicalI [of "int n" v] v unfolding k by simp_all
    moreover have "0 < int n" using n0 by linarith
    ultimately show ?thesis using False n0 val unfolding m_mult_eq [OF n vd n0(1)] by (simp add: k16)
  next
    case True
    have "v = butlast v @ [last v]" using vne by simp
    then have bl: "dval v = dval (butlast v)" "digits (butlast v)" "take (n - 1) v = butlast v"
      using True last v dval_append [of "butlast v" "[last v]"] by (auto simp: butlast_conv_take digits_def dest: in_set_takeD)
    have k: "nat (int n - 1) = n - 1" by linarith
    have "32768 ^ (nat (int n - 1) - 1) \<le> dval (take (nat (int n - 1)) v)"
      unfolding k bl(3) bl(1) [symmetric] using low by (simp add: numeral_2_eq_2)
    then have "canonical \<lparr>m_len = int n - 1, m_val = v\<rparr>" "mnum \<lparr>m_len = int n - 1, m_val = v\<rparr> = dval v"
      using canonicalI [of "int n - 1" v] v bl n0 unfolding k by simp_all
    moreover have "0 < int n - 1" using n0 by linarith
    ultimately show ?thesis using True n0 val unfolding m_mult_eq [OF n vd n0(1)] by (simp add: k16)
  qed
qed

lemma mint_abs:
  assumes "canonical a"
  shows "canonical (a\<lparr>m_len := \<bar>m_len a\<bar>\<rparr>)" "mnum (a\<lparr>m_len := \<bar>m_len a\<bar>\<rparr>) = (if m_len a < 0 then - mnum a else mnum a)"
proof -
  have "mint_len (a\<lparr>m_len := \<bar>m_len a\<bar>\<rparr>) = mint_len a" by (simp add: mint_len_def)
  with assms show "canonical (a\<lparr>m_len := \<bar>m_len a\<bar>\<rparr>)" "mnum (a\<lparr>m_len := \<bar>m_len a\<bar>\<rparr>) = (if m_len a < 0 then - mnum a else mnum a)"
    by (auto simp: canonical_def mnum_def sgn_if)
qed

section \<open>Properties\<close>

text \<open>
  Claim C38. \<open>madd\<close> is the addition of integers, and its result has no leading zeros; the lengths must
  leave room for one more digit.
\<close>

theorem madd_adds:
  assumes "canonical a" "canonical b" "\<bar>m_len a\<bar> < 32767" "\<bar>m_len b\<bar> < 32767"
  shows "canonical (madd a b) \<and> mnum (madd a b) = mnum a + mnum b"
  using sum_value(1) [OF assms] .

theorem madd_adds_witness:
  "mnum (madd \<lparr>m_len = 1, m_val = [32767]\<rparr> \<lparr>m_len = - 1, m_val = [5]\<rparr>) = 32762"
  using madd_adds [of "\<lparr>m_len = 1, m_val = [32767]\<rparr>" "\<lparr>m_len = - 1, m_val = [5]\<rparr>"]
  by (simp add: canonical_def mint_len_def mnum_def)

text \<open>
  Claim C39. \<open>msub\<close> subtracts integers except when the first one is negative and the second one negative or zero: then
  the result has the opposite sign.
\<close>

theorem msub_sign:
  assumes "canonical a" "canonical b" "\<bar>m_len a\<bar> < 32767" "\<bar>m_len b\<bar> < 32767"
  shows "canonical (msub a b)
    \<and> mnum (msub a b) = (if m_len a < 0 \<and> m_len b \<le> 0 then - (mnum a - mnum b) else mnum a - mnum b)"
  using sum_value(2) [OF assms] by simp

theorem msub_sign_witness:
  "mnum (msub \<lparr>m_len = - 1, m_val = [5]\<rparr> \<lparr>m_len = - 1, m_val = [3]\<rparr>) = 2"
  using msub_sign [of "\<lparr>m_len = - 1, m_val = [5]\<rparr>" "\<lparr>m_len = - 1, m_val = [3]\<rparr>"]
  by (simp add: canonical_def mint_len_def mnum_def)

text \<open>
  Claim C40. With the layout of a PDP-11 \<open>mult\<close> is the multiplication of integers, for numbers other than zero, and the
  result has no leading zeros.
\<close>

theorem mult_multiplies:
  assumes "canonical a" "canonical b" "m_len a \<noteq> 0" "m_len b \<noteq> 0" "\<bar>m_len a\<bar> + \<bar>m_len b\<bar> < 32768"
  shows "\<exists>z. mult True a b = Some z \<and> canonical z \<and> mnum z = mnum a * mnum b"
proof -
  let ?x = "a\<lparr>m_len := \<bar>m_len a\<bar>\<rparr>" and ?y = "b\<lparr>m_len := \<bar>m_len b\<bar>\<rparr>"
  note X = mint_abs [OF assms(1)] and Y = mint_abs [OF assms(2)]
  let ?s = "if m_len b < 0 then - (if m_len a < 0 then - 1 else 1) else (if m_len a < 0 then - 1 else 1) :: int"
  obtain z where z: "(if m_len ?x < m_len ?y then m_mult True ?y ?x else m_mult True ?x ?y) = Some z" "canonical z"
    "mnum z = mnum ?x * mnum ?y" "0 < m_len z"
  proof (cases "m_len ?x < m_len ?y")
    case True
    then show ?thesis using m_mult_value [OF Y(1) X(1)] assms that by (auto simp: mult.commute)
  next
    case False
    then show ?thesis using m_mult_value [OF X(1) Y(1)] assms that by auto
  qed
  let ?z = "z\<lparr>m_len := (if ?s < 0 then - m_len z else m_len z)\<rparr>"
  have "mult True a b = Some ?z" using z(1) by (simp add: mult_def Let_def)
  moreover have "canonical ?z \<and> mnum ?z = (if ?s < 0 then - mnum z else mnum z)"
    using negate_mint [OF z(2)] z(2) by simp
  ultimately show ?thesis using z(3) X(2) Y(2) by auto
qed

theorem mult_multiplies_witness:
  "\<exists>z. mult True \<lparr>m_len = 1, m_val = [300]\<rparr> \<lparr>m_len = - 1, m_val = [300]\<rparr> = Some z \<and> mnum z = - 90000"
  using mult_multiplies [of "\<lparr>m_len = 1, m_val = [300]\<rparr>" "\<lparr>m_len = - 1, m_val = [300]\<rparr>"]
  by (auto simp: canonical_def mint_len_def mnum_def)

text \<open>
  With the low half of a \<open>long\<close> first, as on this machine, the product of two numbers of one digit whose
  product is below \<open>32768\<close> is a number of one digit that is zero.
\<close>

theorem mult_little_endian:
  assumes "0 < x" "x < 32768" "0 < y" "y < 32768" "x * y < 32768"
  shows "mult False \<lparr>m_len = 1, m_val = [x]\<rparr> \<lparr>m_len = 1, m_val = [y]\<rparr> = Some \<lparr>m_len = 1, m_val = [0, 0]\<rparr>"
proof -
  have p: "0 \<le> x * y" using assms by simp
  have g: "get_high False (x * y) AND 32768 = 0"
    using digit_sum(1) [of "x * y"] assms p by (auto simp: get_high_def u16_id)
  have l: "get_low False (x * y) = 0" using assms p by (simp add: get_low_def drop_bit_eq_div u16_def)
  have d: "drop_bit 15 (x * y) = 0" using assms p by (simp add: drop_bit_eq_div)
  have s32: "s32 (x * y) = x * y" by (rule s32_id) (use assms p in linarith)+
  have s: "set_high False 0 0 = 0" by (simp add: set_high_def s32_id)
  have loop: "m_mult_loop False [x] [y] [0..<2] 0 = [0, 0]"
    using assms p g l d s by (simp add: upt_rec tradd_def s32 s32_id Let_def get_low_def)
  then show ?thesis by (simp add: mult_def m_mult_def used_def Let_def numeral_2_eq_2 s16_def)
qed

theorem mult_little_endian_witness:
  "mult False \<lparr>m_len = 1, m_val = [2]\<rparr> \<lparr>m_len = 1, m_val = [3]\<rparr> = Some \<lparr>m_len = 1, m_val = [0, 0]\<rparr>"
  by (rule mult_little_endian) simp_all

end
