(* ===== verification/Grep.thy ===== *)
theory Grep
  imports Strings "HOL-Library.Signed_Division"
begin

text \<open>
  \<open>usr/src/cmd/grep.c\<close>: the compiler of regular expressions, the matcher and the loop over the lines of the input.
  The compiled expression \<open>expbuf\<close>, the pattern and the line are memories of bytes; \<open>braslist\<close> and \<open>braelist\<close> hold
  positions in the line, with \<^const>\<open>None\<close> for the null pointer they start with. They keep what an earlier line left
  in them, as in the program.

  An operation of the matcher moves forward in \<open>expbuf\<close>, which has 256 bytes, and the line has at most 512, so the
  fuel \<open>257\<close> and \<open>513\<close> is enough for all loops but one: a back reference to an empty string that is repeated never
  ends (\<open>Forever\<close>).
\<close>

section \<open>State\<close>

datatype 'a go = Go 'a | Botch | Forever

record brackets =
  braslist :: "nat \<Rightarrow> nat option"
  braelist :: "nat \<Rightarrow> nat option"

abbreviation (input) CBRA :: int where "CBRA \<equiv> 1"
abbreviation (input) CCHR :: int where "CCHR \<equiv> 2"
abbreviation (input) CDOT :: int where "CDOT \<equiv> 4"
abbreviation (input) CCL :: int where "CCL \<equiv> 6"
abbreviation (input) CDOL :: int where "CDOL \<equiv> 10"
abbreviation (input) CEOF :: int where "CEOF \<equiv> 11"
abbreviation (input) CKET :: int where "CKET \<equiv> 12"
abbreviation (input) CBACK :: int where "CBACK \<equiv> 18"

definition bittab :: "int list" where
  "bittab = [1, 2, 4, 8, 16, 32, 64, 128]"

section \<open>The compiler\<close>

text \<open>One character into the bitmap of a class at \<open>ep\<close>.\<close>

definition set_bit_at :: "nat \<Rightarrow> int \<Rightarrow> mem \<Rightarrow> mem" where
  "set_bit_at ep c m = m(ep + nat (drop_bit 3 c) := u8 (m (ep + nat (drop_bit 3 c)) OR bittab ! nat (c AND 7)))"

text \<open>The characters of a range but the last one, and what \<open>c\<close> is afterwards.\<close>

function set_range :: "nat \<Rightarrow> int \<Rightarrow> int \<Rightarrow> mem \<Rightarrow> int \<times> mem" where
  "set_range ep c hi m = (if c < hi then set_range ep (c + 1) hi (set_bit_at ep c m) else (c, m))"
  by auto
termination by (relation "measure (\<lambda>(ep, c, hi, m). nat (hi - c))") auto

declare set_range.simps [simp del]

text \<open>
  The loop over the characters of a class; \<open>sp\<close> points behind the character \<open>c\<close>. The inner result \<^const>\<open>None\<close> is
  the jump to \<open>cerror\<close>.
\<close>

partial_function (option) class_loop :: "mem \<Rightarrow> nat \<Rightarrow> nat \<times> int \<times> nat \<Rightarrow> mem \<Rightarrow> (nat \<times> mem) option option" where
  "class_loop astr cstart st m =
     (case st of (sp, c, ep) \<Rightarrow>
        if c = 0 then Some None
        else
          (let (sp, c, m) = (if c = 45 \<and> sp > cstart \<and> astr sp \<noteq> 93 then
                               (case set_range ep (astr (sp - 2)) (astr sp) m of (c, m) \<Rightarrow> (sp + 1, c, m))
                             else (sp, c, m));
               m = set_bit_at ep c m;
               c = astr sp; sp = sp + 1
           in if c \<noteq> 93 then class_loop astr cstart (sp, c, ep) m else Some (Some (sp, m))))"

text \<open>\<open>lastep\<close> is the last operation, which a star applies to.\<close>

record cstate =
  x_sp :: nat
  x_ep :: nat
  x_lastep :: "nat option"
  x_bracket :: "nat list"
  x_closed :: int
  x_numbra :: nat
  expbuf :: mem

definition emit :: "int list \<Rightarrow> cstate \<Rightarrow> cstate" where
  "emit bs x = x\<lparr>expbuf := put8s (x_ep x) bs (expbuf x), x_ep := x_ep x + length bs\<rparr>"

text \<open>The complement of a bitmap, without the null character.\<close>

definition negate_class :: "nat \<Rightarrow> mem \<Rightarrow> mem" where
  "negate_class ep m =
     (let m = fold (\<lambda>k m. m(ep + k := u8 (m (ep + k) XOR - 1))) [0..<16] m in m(ep := m ep AND 254))"

text \<open>One round of the loop of \<open>compile\<close>. \<open>Stop\<close> is the return, \<open>Fail\<close> the jump to \<open>cerror\<close>.\<close>

datatype cround = Next cstate | Stop mem | Fail

definition compile_round :: "mem \<Rightarrow> cstate \<Rightarrow> cround option" where
  "compile_round astr x =
     (if x_ep x \<ge> 256 then Some Fail
      else
        (let c = astr (x_sp x); x = x\<lparr>x_sp := x_sp x + 1\<rparr>;
             x = (if c \<noteq> 42 then x\<lparr>x_lastep := Some (x_ep x)\<rparr> else x);
             defchar = (\<lambda>c x. Some (Next (emit [CCHR, c] x)))
         in if c = 0 then Some (Stop (expbuf (emit [CEOF] x)))
            else if c = 46 then Some (Next (emit [CDOT] x))
            else if c = 42 then
              (case x_lastep x of
                 None \<Rightarrow> defchar c x
               | Some l \<Rightarrow>
                   if expbuf x l = CBRA \<or> expbuf x l = CKET then defchar c x
                   else Some (Next (x\<lparr>expbuf := (expbuf x)(l := expbuf x l OR 1)\<rparr>)))
            else if c = 36 then
              (if astr (x_sp x) \<noteq> 0 then defchar c x else Some (Next (emit [CDOL] x)))
            else if c = 91 then
              (if x_ep x + 17 \<ge> 256 then Some Fail
               else
                 (let x = emit [CCL] x;
                      c = astr (x_sp x); x = x\<lparr>x_sp := x_sp x + 1\<rparr>;
                      neg = (c = 94);
                      (c, x) = (if neg then (astr (x_sp x), x\<lparr>x_sp := x_sp x + 1\<rparr>) else (c, x))
                  in case class_loop astr (x_sp x) (x_sp x, c, x_ep x) (expbuf x) of
                       None \<Rightarrow> None
                     | Some None \<Rightarrow> Some Fail
                     | Some (Some (sp', m)) \<Rightarrow>
                         Some (Next (x\<lparr>x_sp := sp', expbuf := (if neg then negate_class (x_ep x) m else m), x_ep := x_ep x + 16\<rparr>))))
            else if c = 92 then
              (let c = astr (x_sp x); x = x\<lparr>x_sp := x_sp x + 1\<rparr> in
               if c = 40 then
                 (if x_numbra x \<ge> 9 then Some Fail
                  else Some (Next (emit [CBRA, int (x_numbra x)] (x\<lparr>x_bracket := x_numbra x # x_bracket x, x_numbra := x_numbra x + 1\<rparr>))))
               else if c = 41 then
                 (case x_bracket x of
                    [] \<Rightarrow> Some Fail
                  | b # bs \<Rightarrow> Some (Next (emit [CKET, int b] (x\<lparr>x_bracket := bs, x_closed := x_closed x + 1\<rparr>))))
               else if 49 \<le> c \<and> c \<le> 57 then
                 (if c - 49 \<ge> x_closed x then Some Fail else Some (Next (emit [CBACK, c - 49] x)))
               else defchar c x)
            else defchar c x))"

partial_function (option) compile_loop :: "mem \<Rightarrow> cstate \<Rightarrow> mem option option" where
  "compile_loop astr x =
     Option.bind (compile_round astr x)
       (\<lambda>r. case r of Next x \<Rightarrow> compile_loop astr x | Stop m \<Rightarrow> Some (Some m) | Fail \<Rightarrow> Some None)"

text \<open>The result is whether the expression starts with a circumflex, and the code; \<open>expbuf\<close> is zero at first.\<close>

definition compile :: "mem \<Rightarrow> nat \<Rightarrow> (bool \<times> mem) option option" where
  "compile astr p =
     (let circf = (astr p = 94);
          x = \<lparr>x_sp = (if circf then p + 1 else p), x_ep = 0, x_lastep = None, x_bracket = [], x_closed = 0, x_numbra = 0, expbuf = \<lambda>_. 0\<rparr>
      in map_option (map_option (Pair circf)) (compile_loop astr x))"

section \<open>The matcher\<close>

definition ecmp :: "mem \<Rightarrow> nat \<Rightarrow> nat \<Rightarrow> nat \<Rightarrow> bool" where
  "ecmp lb a b count = list_all (\<lambda>k. lb (a + k) = lb (b + k)) [0..<count]"

text \<open>Where the pointer stands after a loop \<open>while (P(*lp++));\<close>.\<close>

fun skip_while :: "nat \<Rightarrow> (int \<Rightarrow> bool) \<Rightarrow> mem \<Rightarrow> nat \<Rightarrow> nat option" where
  "skip_while 0 P lb lp = None"
| "skip_while (Suc n) P lb lp = (if P (lb lp) then skip_while n P lb (lp + 1) else Some (lp + 1))"

text \<open>
  The loops that try the rest of the expression at positions from \<open>curlp + k * ct\<close> down to \<open>curlp\<close>, where \<open>flt\<close> is the
  test before the recursive call.
\<close>

fun try_down :: "(nat \<Rightarrow> brackets \<Rightarrow> (bool \<times> brackets) go) \<Rightarrow> (nat \<Rightarrow> bool) \<Rightarrow> nat \<Rightarrow> nat \<Rightarrow> nat \<Rightarrow> brackets \<Rightarrow> (bool \<times> brackets) go" where
  "try_down adv flt ct curlp 0 br = (if flt curlp then adv curlp br else Go (False, br))"
| "try_down adv flt ct curlp (Suc k) br =
     (let lp = curlp + Suc k * ct in
      if flt lp then
        (case adv lp br of Go (False, br) \<Rightarrow> try_down adv flt ct curlp k br | r \<Rightarrow> r)
      else try_down adv flt ct curlp k br)"

text \<open>The number of copies of a back reference that follow.\<close>

fun copies :: "nat \<Rightarrow> mem \<Rightarrow> nat \<Rightarrow> nat \<Rightarrow> nat \<Rightarrow> nat option" where
  "copies 0 lb bbeg lp ct = None"
| "copies (Suc n) lb bbeg lp ct = (if ecmp lb bbeg lp ct then map_option Suc (copies n lb bbeg (lp + ct) ct) else Some 0)"

definition in_class :: "mem \<Rightarrow> nat \<Rightarrow> int \<Rightarrow> bool" where
  "in_class code ep ch = (let c = ch AND 127 in code (ep + nat (drop_bit 3 c)) AND bittab ! nat (c AND 7) \<noteq> 0)"

text \<open>The label \<open>star\<close>: \<open>lp\<close> stands behind the first character that no longer matches.\<close>

definition star :: "(nat \<Rightarrow> brackets \<Rightarrow> (bool \<times> brackets) go) \<Rightarrow> mem \<Rightarrow> mem \<Rightarrow> nat \<Rightarrow> nat \<Rightarrow> nat option \<Rightarrow> brackets \<Rightarrow> (bool \<times> brackets) go" where
  "star adv code lb ep curlp lp' br =
     (case lp' of
        None \<Rightarrow> Forever
      | Some lp \<Rightarrow>
          (let lp = lp - 1 in
           if lp = curlp then adv lp br
           else if code ep = CCHR then try_down adv (\<lambda>lp. lb lp = code (ep + 1)) 1 curlp (lp - curlp) br
           else try_down adv (\<lambda>_. True) 1 curlp (lp - curlp) br))"

fun advance :: "nat \<Rightarrow> mem \<Rightarrow> mem \<Rightarrow> nat \<Rightarrow> nat \<Rightarrow> brackets \<Rightarrow> (bool \<times> brackets) go" where
  "advance 0 code lb lp ep br = Forever"
| "advance (Suc n) code lb lp ep br =
     (let op = code ep; ep = ep + 1 in
      if op = CCHR then
        (if code ep = lb lp then advance n code lb (lp + 1) (ep + 1) br else Go (False, br))
      else if op = CDOT then (if lb lp \<noteq> 0 then advance n code lb (lp + 1) ep br else Go (False, br))
      else if op = CDOL then (if lb lp = 0 then advance n code lb lp ep br else Go (False, br))
      else if op = CEOF then Go (True, br)
      else if op = CCL then
        (if in_class code ep (lb lp) then advance n code lb (lp + 1) (ep + 16) br else Go (False, br))
      else if op = CBRA then
        advance n code lb lp (ep + 1) (br\<lparr>braslist := (braslist br)(nat (code ep) := Some lp)\<rparr>)
      else if op = CKET then
        advance n code lb lp (ep + 1) (br\<lparr>braelist := (braelist br)(nat (code ep) := Some lp)\<rparr>)
      else if op = CBACK \<or> op = CBACK OR 1 then
        (let k = nat (code ep) in
         case braelist br k of
           None \<Rightarrow> Go (False, br)
         | Some e \<Rightarrow>
             (let bbeg = (case braslist br k of None \<Rightarrow> 0 | Some b \<Rightarrow> b); ct = e - bbeg in
              if op = CBACK then
                (if ecmp lb bbeg lp ct then advance n code lb (lp + ct) (ep + 1) br else Go (False, br))
              else
                (case (if ct = 0 then None else copies 513 lb bbeg lp ct) of
                   None \<Rightarrow> Forever
                 | Some k \<Rightarrow> try_down (\<lambda>lp br. advance n code lb lp (ep + 1) br) (\<lambda>_. True) ct lp k br)))
      else if op = CDOT OR 1 then
        star (\<lambda>lp br. advance n code lb lp ep br) code lb ep lp (skip_while 513 (\<lambda>c. c \<noteq> 0) lb lp) br
      else if op = CCHR OR 1 then
        star (\<lambda>lp br. advance n code lb lp (ep + 1) br) code lb (ep + 1) lp (skip_while 513 (\<lambda>c. c = code ep) lb lp) br
      else if op = CCL OR 1 then
        star (\<lambda>lp br. advance n code lb lp (ep + 16) br) code lb (ep + 16) lp (skip_while 513 (in_class code ep) lb lp) br
      else Botch)"

declare advance.simps [simp del]

section \<open>A line\<close>

text \<open>
  The search of \<open>execute\<close> in one line: only at its start after a circumflex, otherwise at every position; a position
  whose character is not the first one of the expression is passed over.
\<close>

fun search_from :: "nat \<Rightarrow> mem \<Rightarrow> mem \<Rightarrow> nat \<Rightarrow> brackets \<Rightarrow> (bool \<times> brackets) go" where
  "search_from 0 code lb p1 br = Forever"
| "search_from (Suc n) code lb p1 br =
     (case (if code 0 = CCHR \<and> lb p1 \<noteq> code 1 then Go (False, br) else advance 257 code lb p1 0 br) of
        Go (False, br) \<Rightarrow> if lb p1 \<noteq> 0 then search_from n code lb (p1 + 1) br else Go (False, br)
      | r \<Rightarrow> r)"

definition match_line :: "bool \<Rightarrow> mem \<Rightarrow> mem \<Rightarrow> brackets \<Rightarrow> (bool \<times> brackets) go" where
  "match_line circf code lb br = (if circf then advance 257 code lb 0 0 br else search_from 513 code lb 0 br)"

section \<open>The input\<close>

text \<open>
  The next line: at most 511 characters, without the newline; \<^const>\<open>None\<close> at the end of the input, which also drops a
  last line that has no newline.
\<close>

fun take_line :: "nat \<Rightarrow> int list \<Rightarrow> (int list \<times> int list) option" where
  "take_line n [] = None"
| "take_line n (c # cs) =
     (if c = 10 then Some ([], cs)
      else if n \<le> 1 then Some ([c], cs)
      else map_option (\<lambda>(l, r). (c # l, r)) (take_line (n - 1) cs))"

record gflags =
  bflag :: bool
  lflag :: bool
  nflag :: bool
  cflag :: bool
  vflag :: bool
  hflag :: bool
  sflag :: bool
  yflag :: bool

text \<open>What is printed: the name of the file, a number and a colon, a number alone, or a line.\<close>

datatype gout = Name "int list" | Label int | Count int | Text "int list"

record gstate =
  lnum :: int
  tln :: int
  nsucc :: bool
  linebuf :: mem
  bras :: brackets
  outp :: "gout list"

text \<open>The characters of the line buffer up to the null character, as \<open>printf\<close> takes them.\<close>

fun c_string :: "nat \<Rightarrow> mem \<Rightarrow> nat \<Rightarrow> int list" where
  "c_string 0 m p = []"
| "c_string (Suc n) m p = (if m p = 0 then [] else m p # c_string n m (p + 1))"

text \<open>
  \<open>succeed\<close> for a line that was selected; \<open>pos\<close> is the number of characters read so far. The second result tells that
  the rest of the file is skipped.
\<close>

definition succeed :: "gflags \<Rightarrow> nat \<Rightarrow> int list \<Rightarrow> int \<Rightarrow> gstate \<Rightarrow> bool \<times> gstate" where
  "succeed fl nfile f pos g =
     (let g = g\<lparr>nsucc := True\<rparr> in
      if sflag fl then (False, g)
      else if cflag fl then (False, g\<lparr>tln := s32 (tln g + 1)\<rparr>)
      else if lflag fl then (True, g\<lparr>outp := outp g @ [Name f]\<rparr>)
      else
        (False, g\<lparr>outp := outp g @ (if nfile > 1 \<and> hflag fl then [Name f] else [])
                   @ (if bflag fl then [Label ((pos - 1) sdiv 512)] else []) @ (if nflag fl then [Label (lnum g)] else [])
                   @ [Text (c_string 513 (linebuf g) 0)]\<rparr>))"

lemma take_line_shorter: "take_line n inp = Some (l, r) \<Longrightarrow> length r < length inp"
  by (induction n inp arbitrary: l r rule: take_line.induct) (fastforce split: if_splits)+

text \<open>\<open>flen\<close> is the length of the whole file.\<close>

function execute_loop :: "gflags \<Rightarrow> bool \<times> mem \<Rightarrow> nat \<times> int list \<times> int \<Rightarrow> int list \<Rightarrow> gstate \<Rightarrow> gstate go" where
  "execute_loop fl ce nf inp g =
     (case nf of (nfile, f, flen) \<Rightarrow>
      let g = g\<lparr>lnum := s32 (lnum g + 1)\<rparr> in
      case take_line 511 inp of
        None \<Rightarrow>
          Go (if cflag fl then g\<lparr>outp := outp g @ (if nfile > 1 then [Name f] else []) @ [Count (tln g)]\<rparr> else g)
      | Some (l, rest) \<Rightarrow>
          (let g = g\<lparr>linebuf := put8s 0 (l @ [0]) (linebuf g)\<rparr> in
           case match_line (fst ce) (snd ce) (linebuf g) (bras g) of
             Botch \<Rightarrow> Botch
           | Forever \<Rightarrow> Forever
           | Go (found, br) \<Rightarrow>
               (let g = g\<lparr>bras := br\<rparr> in
                if found \<noteq> vflag fl then
                  (case succeed fl nfile f (flen - int (length rest)) g of
                     (skip, g) \<Rightarrow> execute_loop fl ce nf (if skip then [] else rest) g)
                else execute_loop fl ce nf rest g)))"
  by pat_completeness auto
termination
  by (relation "measure (\<lambda>(fl, ce, nf, inp, g). length inp)") (auto dest: take_line_shorter simp: not_less_eq split: if_splits)

declare execute_loop.simps [simp del]

definition execute :: "gflags \<Rightarrow> bool \<times> mem \<Rightarrow> nat \<Rightarrow> int list \<Rightarrow> int list \<Rightarrow> gstate \<Rightarrow> gstate go" where
  "execute fl ce nfile f inp g = execute_loop fl ce (nfile, f, int (length inp)) inp (g\<lparr>lnum := 0, tln := 0\<rparr>)"

section \<open>The command\<close>

text \<open>The option \<open>-y\<close>: a small letter becomes a class of both its forms; \<open>n\<close> characters are written already.\<close>

function both_cases :: "int list \<Rightarrow> nat \<Rightarrow> int list option" where
  "both_cases [] n = Some []"
| "both_cases (c # p) n =
     (let (out, p') =
        (if c = 92 then (case p of [] \<Rightarrow> ([c], []) | d # p' \<Rightarrow> ([c, d], p'))
         else if c = 91 then (c # takeWhile (\<lambda>d. d \<noteq> 93) p, dropWhile (\<lambda>d. d \<noteq> 93) p)
         else if 97 \<le> c \<and> c \<le> 122 then ([91, c - 32, c, 93], p)
         else ([c], p))
      in if n + length out \<ge> 251 then None else map_option ((@) out) (both_cases p' (n + length out)))"
  by pat_completeness auto
termination
proof (relation "measure (\<lambda>(p, n). length p)")
  fix c :: int and p :: "int list" and n :: nat and x out p'
  assume "x = (if c = 92 then (case p of [] \<Rightarrow> ([c], []) | d # p' \<Rightarrow> ([c, d], p'))
         else if c = 91 then (c # takeWhile (\<lambda>d. d \<noteq> 93) p, dropWhile (\<lambda>d. d \<noteq> 93) p)
         else if 97 \<le> c \<and> c \<le> 122 then ([91, c - 32, c, 93], p)
         else ([c], p))" "(out, p') = x"
  then have "length p' \<le> length p"
    using length_dropWhile_le [of "\<lambda>d. d \<noteq> 93" p] by (auto split: if_splits list.splits)
  then show "((p', n + length out), (c # p, n)) \<in> measure (\<lambda>(p, n). length p)" by simp
qed simp

text \<open>
  The options, each an argument that ends with a null character; the result is the pattern and the files, or
  \<^const>\<open>None\<close> for the exit with status 2.
\<close>

fun options :: "gflags \<Rightarrow> int list list \<Rightarrow> (gflags \<times> int list list) option" where
  "options fl [] = None"
| "options fl (a # as) =
     (if a ! 0 \<noteq> 45 then Some (fl, a # as)
      else
        (let c = a ! 1 in
         if c = 121 then options (fl\<lparr>yflag := True\<rparr>) as
         else if c = 104 then options (fl\<lparr>hflag := False\<rparr>) as
         else if c = 115 then options (fl\<lparr>sflag := True\<rparr>) as
         else if c = 118 then options (fl\<lparr>vflag := True\<rparr>) as
         else if c = 98 then options (fl\<lparr>bflag := True\<rparr>) as
         else if c = 108 then options (fl\<lparr>lflag := True\<rparr>) as
         else if c = 99 then options (fl\<lparr>cflag := True\<rparr>) as
         else if c = 110 then options (fl\<lparr>nflag := True\<rparr>) as
         else if c = 101 then (if as = [] then None else Some (fl, as))
         else None))"

fun run_files :: "gflags \<Rightarrow> bool \<times> mem \<Rightarrow> (int list \<Rightarrow> int list option) \<Rightarrow> nat \<Rightarrow> int list list \<Rightarrow> gstate \<Rightarrow> (gstate \<times> int) go" where
  "run_files fl ce fs nfile [] g = Go (g, if nsucc g then 0 else 1)"
| "run_files fl ce fs nfile (f # files) g =
     (case fs f of
        None \<Rightarrow> Go (g, 2)
      | Some inp \<Rightarrow>
          (case execute fl ce nfile f inp g of
             Go g \<Rightarrow> run_files fl ce fs nfile files g
           | Botch \<Rightarrow> Go (g, 2)
           | Forever \<Rightarrow> Forever))"

definition gstart :: gstate where
  "gstart = \<lparr>lnum = 0, tln = 0, nsucc = False, linebuf = \<lambda>_. 0, bras = \<lparr>braslist = \<lambda>_. None, braelist = \<lambda>_. None\<rparr>, outp = []\<rparr>"

text \<open>
  The command with the arguments \<open>args\<close>, the files \<open>fs\<close> and the standard input; \<open>behind\<close> is what lies in memory
  behind the pattern. The result is what was printed and the exit status; messages for errors are left out.
\<close>

definition grep :: "(int list \<Rightarrow> int list option) \<Rightarrow> int list \<Rightarrow> mem \<Rightarrow> int list list \<Rightarrow> (gout list \<times> int) go" where
  "grep fs stdin behind args =
     (case options \<lparr>bflag = False, lflag = False, nflag = False, cflag = False, vflag = False, hflag = True, sflag = False, yflag = False\<rparr> args of
        None \<Rightarrow> Go ([], 2)
      | Some (fl, as) \<Rightarrow>
          (let p = takeWhile (\<lambda>c. c \<noteq> 0) (hd as) in
           case (if yflag fl then both_cases p 0 else Some p) of
             None \<Rightarrow> Go ([], 2)
           | Some p \<Rightarrow>
               (case compile (put8s 0 (p @ [0]) behind) 0 of
                  None \<Rightarrow> Forever
                | Some None \<Rightarrow> Go ([], 2)
                | Some (Some ce) \<Rightarrow>
                    if tl as = [] then
                      (if lflag fl then Go ([], 1)
                       else
                         (case execute fl ce 0 [] stdin gstart of
                            Go g \<Rightarrow> Go (outp g, if nsucc g then 0 else 1)
                          | Botch \<Rightarrow> Go (outp gstart, 2)
                          | Forever \<Rightarrow> Forever))
                    else
                      (case run_files fl ce fs (length (tl as)) (tl as) gstart of
                         Go (g, st) \<Rightarrow> Go (outp g, st)
                       | Botch \<Rightarrow> Go ([], 2)
                       | Forever \<Rightarrow> Forever))))"

section \<open>Regular expressions\<close>

text \<open>
  The expressions without groups: characters, the dot and classes, each with or without a star, between an optional
  circumflex and an optional dollar sign. A class is a list of ranges, of which one of a single character is
  written as that character; the matcher looks at the low seven bits of a character only.
\<close>

datatype atom = Ch int | Any | Cls bool "(int \<times> int) list"

definition in_ranges :: "(int \<times> int) list \<Rightarrow> int \<Rightarrow> bool" where
  "in_ranges rs c = list_ex (\<lambda>(lo, hi). lo \<le> c \<and> c \<le> hi) rs"

fun atom_matches :: "atom \<Rightarrow> int \<Rightarrow> bool" where
  "atom_matches (Ch c) x = (x = c)"
| "atom_matches Any x = (x \<noteq> 0)"
| "atom_matches (Cls neg rs) x = (x AND 127 \<noteq> 0 \<and> in_ranges rs (x AND 127) \<noteq> neg)"

text \<open>The expression matches at the beginning of a text; with the dollar sign it has to match all of it.\<close>

fun matches :: "(atom \<times> bool) list \<Rightarrow> bool \<Rightarrow> int list \<Rightarrow> bool" where
  "matches [] dol s = (dol \<longrightarrow> s = [])"
| "matches ((a, False) # as) dol s = (case s of [] \<Rightarrow> False | x # s' \<Rightarrow> atom_matches a x \<and> matches as dol s')"
| "matches ((a, True) # as) dol s =
     list_ex (\<lambda>k. list_all (atom_matches a) (take k s) \<and> matches as dol (drop k s)) [0..<length s + 1]"

definition selects :: "bool \<Rightarrow> (atom \<times> bool) list \<Rightarrow> bool \<Rightarrow> int list \<Rightarrow> bool" where
  "selects circf as dol s =
     (if circf then matches as dol s else list_ex (\<lambda>k. matches as dol (drop k s)) [0..<length s + 1])"

lemma list_ex_upto: "list_ex P [0..<n + 1] \<longleftrightarrow> (\<exists>k \<le> n. P k)" "list_ex P [0..<Suc n] \<longleftrightarrow> (\<exists>k \<le> n. P k)"
  by (auto simp: list_ex_iff less_Suc_eq_le simp del: upt_Suc)

fun range_ok :: "int \<times> int \<Rightarrow> bool" where
  "range_ok (lo, hi) = (0 < lo \<and> lo \<le> hi \<and> hi < 128 \<and> lo \<notin> {45, 93, 94} \<and> hi \<notin> {45, 93, 94})"

fun atom_wf :: "atom \<Rightarrow> bool" where
  "atom_wf (Ch c) = (0 < c \<and> c < 256)"
| "atom_wf Any = True"
| "atom_wf (Cls neg rs) = (rs \<noteq> [] \<and> list_all range_ok rs)"

section \<open>The matcher is right\<close>

fun op_code :: "atom \<Rightarrow> int" where
  "op_code (Ch c) = CCHR"
| "op_code Any = CDOT"
| "op_code (Cls neg rs) = CCL"

fun op_len :: "atom \<Rightarrow> nat" where
  "op_len (Ch c) = 2"
| "op_len Any = 1"
| "op_len (Cls neg rs) = 17"

fun operand :: "mem \<Rightarrow> nat \<Rightarrow> atom \<Rightarrow> bool" where
  "operand code ep (Ch c) = (code ep = c)"
| "operand code ep Any = True"
| "operand code ep (Cls neg rs) = (\<forall>x. in_class code ep x = atom_matches (Cls neg rs) x)"

text \<open>The code of an expression at \<open>ep\<close>.\<close>

fun code_for :: "mem \<Rightarrow> nat \<Rightarrow> (atom \<times> bool) list \<Rightarrow> bool \<Rightarrow> bool" where
  "code_for code ep [] dol = (if dol then code ep = CDOL \<and> code (ep + 1) = CEOF else code ep = CEOF)"
| "code_for code ep ((a, st) # as) dol =
     (code ep = op_code a OR of_bool st \<and> operand code (ep + 1) a \<and> code_for code (ep + op_len a) as dol)"

lemma op_star [simp]: "op_code a OR 1 = op_code a + 1"
  by (cases a) simp_all

lemma skip_while_eq:
  "(\<And>i. i < k \<Longrightarrow> P (lb (lp + i))) \<Longrightarrow> \<not> P (lb (lp + k)) \<Longrightarrow> k < n \<Longrightarrow> skip_while n P lb lp = Some (lp + k + 1)"
proof (induction n arbitrary: lp k)
  case (Suc n)
  show ?case
  proof (cases k)
    case 0 with Suc.prems show ?thesis by simp
  next
    case (Suc j)
    have "skip_while n P lb (lp + 1) = Some (lp + 1 + j + 1)"
    proof (rule Suc.IH)
      show "P (lb (lp + 1 + i))" if "i < j" for i using Suc.prems(1) [of "i + 1"] that Suc by simp
    qed (use Suc.prems(2,3) Suc in auto)
    with Suc Suc.prems(1) [of 0] show ?thesis by simp
  qed
qed simp

lemma try_down_eq:
  "(\<And>j. j \<le> k \<Longrightarrow> adv (curlp + j) br = Go (P j, br)) \<Longrightarrow> (\<And>j. j \<le> k \<Longrightarrow> \<not> flt (curlp + j) \<Longrightarrow> \<not> P j) \<Longrightarrow>
   try_down adv flt 1 curlp k br = Go (\<exists>j \<le> k. P j, br)"
proof (induction k)
  case 0
  then show ?case using "0.prems" [of 0] by auto
next
  case (Suc k)
  have "try_down adv flt 1 curlp k br = Go (\<exists>j \<le> k. P j, br)" using Suc by auto
  moreover have "adv (curlp + Suc k) br = Go (P (Suc k), br)" using Suc.prems(1) by blast
  moreover have "\<not> flt (curlp + Suc k) \<Longrightarrow> \<not> P (Suc k)" using Suc.prems(2) by blast
  ultimately show ?case by (cases "P (Suc k)"; cases "flt (curlp + Suc k)") (auto simp: le_Suc_eq)
qed

text \<open>How far a starred atom reaches.\<close>

definition reach :: "(int \<Rightarrow> bool) \<Rightarrow> int list \<Rightarrow> nat" where
  "reach P s = length (takeWhile P s)"

lemma reach_facts:
  "reach P s \<le> length s" "i < reach P s \<Longrightarrow> P (s ! i)" "reach P s < length s \<Longrightarrow> \<not> P (s ! reach P s)"
  "k \<le> length s \<Longrightarrow> list_all P (take k s) \<longleftrightarrow> k \<le> reach P s"
proof -
  show "reach P s \<le> length s" by (simp add: reach_def length_takeWhile_le)
  show "i < reach P s \<Longrightarrow> P (s ! i)" for i unfolding reach_def by (metis nth_mem set_takeWhileD takeWhile_nth)
  show "reach P s < length s \<Longrightarrow> \<not> P (s ! reach P s)" unfolding reach_def by (rule nth_length_takeWhile)
  show "list_all P (take k s) \<longleftrightarrow> k \<le> reach P s" if "k \<le> length s"
    using that
  proof (induction s arbitrary: k)
    case (Cons a s) then show ?case by (cases k) (auto simp: reach_def)
  qed (simp add: reach_def)
qed

lemma string_at_drop: "string_at m p s \<Longrightarrow> k \<le> length s \<Longrightarrow> string_at m (p + k) (drop k s)"
proof (induction s arbitrary: p k)
  case (Cons c s) then show ?case by (cases k) fastforce+
qed simp

lemma string_char: "string_at m p s \<Longrightarrow> m p = (case s of [] \<Rightarrow> 0 | c # s' \<Rightarrow> c)"
  by (cases s) auto

text \<open>What a starred atom and the rest of the expression do at a text.\<close>

lemma star_eq:
  assumes lb: "string_at lb lp s" "length s \<le> 511" and P: "\<not> P 0"
    and adv: "\<And>j. j \<le> length s \<Longrightarrow> adv (lp + j) br = Go (Q (drop j s), br)"
    and filt: "\<And>t. code ep = CCHR \<Longrightarrow> Q t \<Longrightarrow> \<exists>t'. t = code (ep + 1) # t'"
  shows "star adv code lb ep lp (skip_while 513 P lb lp) br = Go (\<exists>k \<le> length s. list_all P (take k s) \<and> Q (drop k s), br)"
proof -
  let ?k = "reach P s"
  note r = reach_facts [where P = P and s = s]
  have "skip_while 513 P lb lp = Some (lp + ?k + 1)"
  proof (rule skip_while_eq)
    show "P (lb (lp + i))" if "i < ?k" for i using string_at_nth [OF lb(1), of i] r(1,2) that by auto
    show "\<not> P (lb (lp + ?k))"
      using string_at_nth [OF lb(1), of ?k] string_at_end [OF lb(1)] r(1,3) P by (cases "?k = length s") auto
    show "?k < 513" using r(1) lb(2) by simp
  qed
  moreover have ex: "(\<exists>k \<le> length s. list_all P (take k s) \<and> Q (drop k s)) \<longleftrightarrow> (\<exists>k \<le> ?k. Q (drop k s))"
    using r(1,4) by (meson le_trans)
  have td: "try_down adv flt 1 lp ?k br = Go (\<exists>k \<le> ?k. Q (drop k s), br)"
    if "\<And>j. j \<le> ?k \<Longrightarrow> \<not> flt (lp + j) \<Longrightarrow> \<not> Q (drop j s)" for flt
    by (rule try_down_eq) (use adv r(1) that in auto)
  have "code ep = CCHR \<Longrightarrow> j \<le> ?k \<Longrightarrow> lb (lp + j) \<noteq> code (ep + 1) \<Longrightarrow> \<not> Q (drop j s)" for j
    using filt [of "drop j s"] string_char [OF string_at_drop [OF lb(1), of j]] r(1) by auto
  ultimately show ?thesis
    unfolding star_def ex using td [of "\<lambda>lp. lb lp = code (ep + 1)"] td [of "\<lambda>_. True"] adv [of 0] by (auto simp: Let_def)
qed

lemma code_for_CCHR:
  assumes "code_for code ep as dol" "code ep = CCHR" "matches as dol t"
  shows "\<exists>t'. t = code (ep + 1) # t'"
proof (cases as)
  case Nil with assms show ?thesis by (simp split: if_splits)
next
  case (Cons x xs)
  obtain a st where x: "x = (a, st)" by (cases x)
  from assms Cons x have "op_code a OR of_bool st = CCHR" by simp
  then obtain c where "a = Ch c" "\<not> st" by (cases a; cases st) auto
  with assms Cons x show ?thesis by (auto split: list.splits)
qed

text \<open>\<open>advance\<close> decides whether the expression matches at the position.\<close>

lemma advance_correct:
  "code_for code ep as dol \<Longrightarrow> string_at lb lp s \<Longrightarrow> length s \<le> 511 \<Longrightarrow> list_all (\<lambda>(a, st). atom_wf a) as \<Longrightarrow> length as + 2 \<le> n
   \<Longrightarrow> advance n code lb lp ep br = Go (matches as dol s, br)"
proof (induction as arbitrary: n lp ep s)
  case Nil
  obtain n' where n: "n = Suc (Suc n')" using Nil.prems(5) by (metis add_2_eq_Suc' le_Suc_ex list.size(3) add_0 plus_nat.simps(2))
  have "lb lp = 0 \<longleftrightarrow> s = []" using Nil.prems(2) by (cases s) auto
  moreover have last: "code ep = CEOF \<Longrightarrow> advance (Suc n') code lb lp ep br = Go (True, br)" for ep
    by (subst advance.simps) simp
  moreover have "code ep = CDOL \<Longrightarrow> advance n code lb lp ep br = (if lb lp = 0 then advance (Suc n') code lb lp (ep + 1) br else Go (False, br))"
    unfolding n by (subst advance.simps) simp
  moreover have "code ep = CEOF \<Longrightarrow> advance n code lb lp ep br = Go (True, br)"
    unfolding n by (subst advance.simps) simp
  ultimately show ?case using Nil.prems(1) by (cases dol) auto
next
  case (Cons x as)
  obtain a st where x: "x = (a, st)" by (cases x)
  obtain n' where n: "n = Suc n'" "length as + 2 \<le> n'" using Cons.prems(5) by (cases n) auto
  have wf: "atom_wf a" "list_all (\<lambda>(a, st). atom_wf a) as" using Cons.prems(4) x by auto
  have code: "code ep = op_code a OR of_bool st" "operand code (ep + 1) a" "code_for code (ep + op_len a) as dol"
    using Cons.prems(1) x by auto
  have IH: "advance n' code lb lp (ep + op_len a) br = Go (matches as dol s, br)" if "string_at lb lp s" "length s \<le> 511" for lp s
    using Cons.IH [OF code(3) that wf(2) n(2)] .
  have head: "lb lp = (case s of [] \<Rightarrow> 0 | c # s' \<Rightarrow> c)" using string_char [OF Cons.prems(2)] .
  have tail: "advance n' code lb (lp + 1) (ep + op_len a) br = Go (matches as dol s', br)" if "s = c # s'" for c s'
    using IH [of "lp + 1" s'] Cons.prems(2,3) that by simp
  have null: "\<not> atom_matches a 0" using wf(1) by (cases a) auto
  have look: "op_code a = CCL \<Longrightarrow> in_class code (ep + 1) = atom_matches a" using code(2) by (cases a) (auto simp: fun_eq_iff)
  show ?case
  proof (cases st)
    case False
    then show ?thesis using code(1,2) head tail null look unfolding x n(1)
      by (cases a; cases s) (simp_all add: advance.simps Let_def add.commute [of 17])
  next
    case True
    have adv: "\<And>j. j \<le> length s \<Longrightarrow> advance n' code lb (lp + j) (ep + op_len a) br = Go (matches as dol (drop j s), br)"
      using IH [OF string_at_drop [OF Cons.prems(2)]] Cons.prems(3) by auto
    have st: "star (\<lambda>lp br. advance n' code lb lp (ep + op_len a) br) code lb (ep + op_len a) lp (skip_while 513 (atom_matches a) lb lp) br
        = Go (\<exists>k \<le> length s. list_all (atom_matches a) (take k s) \<and> matches as dol (drop k s), br)"
      by (rule star_eq [where P = "atom_matches a" and Q = "matches as dol" and s = s])
        (use Cons.prems(2,3) null adv code_for_CCHR [OF code(3)] in auto)
    have "matches (x # as) dol s = (\<exists>k \<le> length s. list_all (atom_matches a) (take k s) \<and> matches as dol (drop k s))"
      using True by (simp add: x list_ex_upto del: upt_Suc)
    moreover have "advance n code lb lp ep br = star (\<lambda>lp br. advance n' code lb lp (ep + op_len a) br) code lb (ep + op_len a) lp (skip_while 513 (atom_matches a) lb lp) br"
    proof (cases a)
      case (Ch c)
      then have "atom_matches a = (\<lambda>x. x = code (ep + 1))" using code(2) by (auto simp: fun_eq_iff)
      with Ch True code(1) show ?thesis unfolding n(1) by (simp add: advance.simps Let_def)
    next
      case Any
      then have "atom_matches a = (\<lambda>c. c \<noteq> 0)" by (auto simp: fun_eq_iff)
      with Any True code(1) show ?thesis unfolding n(1) by (simp add: advance.simps Let_def)
    next
      case (Cls neg rs)
      with True code(1) look show ?thesis unfolding n(1) by (simp add: advance.simps Let_def add.commute [of 17])
    qed
    ultimately show ?thesis using st by simp
  qed
qed

section \<open>Bitmaps of classes\<close>

lemma bittab_nth: "k < 8 \<Longrightarrow> bittab ! k = 2 ^ k"
proof -
  assume "k < 8"
  then have "k = 0 \<or> k = 1 \<or> k = 2 \<or> k = 3 \<or> k = 4 \<or> k = 5 \<or> k = 6 \<or> k = 7" by auto
  then show ?thesis by (elim disjE) (simp_all add: bittab_def)
qed

definition low_bits :: "int \<Rightarrow> nat" where
  "low_bits c = nat (c mod 8)"

lemma and_7: "nat (c AND 7) = low_bits c" for c :: int
  using take_bit_eq_mask [of 3 c] by (simp add: low_bits_def take_bit_eq_mod mask_eq_exp_minus_1)

lemma low_bits_less [simp]: "low_bits c < 8"
  by (simp add: low_bits_def nat_less_iff)

lemma in_class_bit: "in_class m ep y \<longleftrightarrow> bit (m (ep + nat (y mod 128 div 8))) (low_bits (y mod 128))"
  by (simp add: in_class_def Let_def and_7 and_127 bittab_nth and_exp_eq_0_iff_not_bit drop_bit_eq_div)

lemma split_char: "0 \<le> c \<Longrightarrow> 0 \<le> y \<Longrightarrow> nat (y div 8) = nat (c div 8) \<Longrightarrow> low_bits y = low_bits c \<Longrightarrow> y = c"
  unfolding low_bits_def by (metis div_mod_decomp_int eq_nat_nat_iff pos_imp_zdiv_nonneg_iff pos_mod_sign zero_less_numeral)

lemma in_class_set_bit:
  assumes "0 \<le> c" "c < 128"
  shows "in_class (set_bit_at ep c m) ep y \<longleftrightarrow> in_class m ep y \<or> y mod 128 = c"
proof -
  have "bit (set_bit_at ep c m (ep + nat (y mod 128 div 8))) (low_bits (y mod 128)) \<longleftrightarrow>
      bit (m (ep + nat (y mod 128 div 8))) (low_bits (y mod 128)) \<or>
      nat (y mod 128 div 8) = nat (c div 8) \<and> low_bits (y mod 128) = low_bits c"
    by (auto simp: set_bit_at_def and_7 bittab_nth drop_bit_eq_div bit_u8 bit_or_iff bit_exp_iff)
  then show ?thesis using split_char [OF assms(1), of "y mod 128"] by (auto simp: in_class_bit)
qed

lemma set_bit_at_frame: "0 \<le> c \<Longrightarrow> c < 128 \<Longrightarrow> k < ep \<or> ep + 16 \<le> k \<Longrightarrow> set_bit_at ep c m k = m k"
  by (auto simp: set_bit_at_def drop_bit_eq_div)

lemma set_range_result:
  "lo \<le> hi \<Longrightarrow> 0 \<le> lo \<Longrightarrow> hi < 128 \<Longrightarrow> \<exists>m'. set_range ep lo hi m = (hi, m') \<and>
   (\<forall>y. in_class m' ep y \<longleftrightarrow> in_class m ep y \<or> lo \<le> y mod 128 \<and> y mod 128 < hi) \<and> (\<forall>k. k < ep \<or> ep + 16 \<le> k \<longrightarrow> m' k = m k)"
proof (induction ep lo hi m rule: set_range.induct)
  case (1 ep c hi m)
  show ?case
  proof (cases "c < hi")
    case True
    with 1 obtain m' where m': "set_range ep (c + 1) hi (set_bit_at ep c m) = (hi, m')"
        "\<And>y. in_class m' ep y \<longleftrightarrow> in_class (set_bit_at ep c m) ep y \<or> c + 1 \<le> y mod 128 \<and> y mod 128 < hi"
        "\<And>k. k < ep \<or> ep + 16 \<le> k \<Longrightarrow> m' k = set_bit_at ep c m k"
      by force
    have "set_range ep c hi m = (hi, m')" using True m'(1) by (subst set_range.simps) simp
    moreover have "in_class m' ep y \<longleftrightarrow> in_class m ep y \<or> c \<le> y mod 128 \<and> y mod 128 < hi" for y
      using m'(2) [of y] in_class_set_bit [of c ep m y] 1(3,4) True by auto
    moreover have "k < ep \<or> ep + 16 \<le> k \<Longrightarrow> m' k = m k" for k
      using m'(3) [of k] set_bit_at_frame [of c k ep m] 1(3,4) True by auto
    ultimately show ?thesis by blast
  next
    case False
    with 1 have "set_range ep c hi m = (hi, m)" by (subst set_range.simps) simp
    with 1 False show ?thesis by auto
  qed
qed

lemma fold_complement:
  "fold (\<lambda>k m. m(ep + k := u8 (m (ep + k) XOR - 1))) [0..<n] m =
   (\<lambda>k. if ep \<le> k \<and> k < ep + n then u8 (m k XOR - 1) else m k)"
  by (induction n) (auto simp: fun_eq_iff)

lemma negate_class_byte:
  "negate_class ep m k = (if k = ep then u8 (m k XOR - 1) AND 254 else if ep \<le> k \<and> k < ep + 16 then u8 (m k XOR - 1) else m k)"
  unfolding negate_class_def fold_complement by (simp add: Let_def)

lemma bit_254: "k < 8 \<Longrightarrow> bit (254 :: int) k \<longleftrightarrow> k \<noteq> 0"
proof -
  assume "k < 8"
  then have "k = 0 \<or> k = 1 \<or> k = 2 \<or> k = 3 \<or> k = 4 \<or> k = 5 \<or> k = 6 \<or> k = 7" by auto
  then show ?thesis by (elim disjE) (simp_all add: bit_iff_odd)
qed

lemma in_class_negate: "in_class (negate_class ep m) ep y \<longleftrightarrow> y mod 128 \<noteq> 0 \<and> \<not> in_class m ep y"
proof -
  have r: "nat (y mod 128 div 8) < 16" by (auto simp: nat_less_iff)
  have z: "nat (y mod 128 div 8) = 0 \<and> low_bits (y mod 128) = 0 \<longleftrightarrow> y mod 128 = 0"
    using split_char [of 0 "y mod 128"] by (auto simp: low_bits_def)
  show ?thesis
    using r z by (auto simp: in_class_bit negate_class_byte bit_and_iff bit_254 bit_u8 bit_xor_iff bit_not_iff)
qed

lemma negate_class_frame: "k < ep \<or> ep + 16 \<le> k \<Longrightarrow> negate_class ep m k = m k"
  by (auto simp: negate_class_byte)

section \<open>The compiler is right\<close>

text \<open>
  The text of an expression. A character that means something to the compiler has a backslash before it; the bounds of
  ranges are neither a minus sign, a bracket that closes nor a circumflex.
\<close>

fun range_text :: "int \<times> int \<Rightarrow> int list" where
  "range_text (lo, hi) = (if lo = hi then [lo] else [lo, 45, hi])"

fun atom_text :: "atom \<Rightarrow> int list" where
  "atom_text (Ch c) = (if c \<in> {36, 42, 46, 91, 92, 94} then [92, c] else [c])"
| "atom_text Any = [46]"
| "atom_text (Cls neg rs) = 91 # (if neg then [94] else []) @ concat (map range_text rs) @ [93]"

definition expr_text :: "bool \<Rightarrow> (atom \<times> bool) list \<Rightarrow> bool \<Rightarrow> int list" where
  "expr_text circf as dol =
     (if circf then [94] else []) @ concat (map (\<lambda>(a, st). atom_text a @ (if st then [42] else [])) as) @ (if dol then [36] else [])"

definition code_len :: "(atom \<times> bool) list \<Rightarrow> nat" where
  "code_len as = sum_list (map (\<lambda>(a, st). op_len a) as)"

lemma class_single:
  "c \<noteq> 0 \<Longrightarrow> c \<noteq> 45 \<Longrightarrow> class_loop astr cs (sp, c, ep) m =
     (if astr sp \<noteq> 93 then class_loop astr cs (sp + 1, astr sp, ep) (set_bit_at ep c m)
      else Some (Some (sp + 1, set_bit_at ep c m)))"
  by (subst class_loop.simps) (simp add: Let_def)

lemma class_range:
  "cs < sp \<Longrightarrow> astr sp \<noteq> 93 \<Longrightarrow> set_range ep (astr (sp - 2)) (astr sp) m = (c, m') \<Longrightarrow> class_loop astr cs (sp, 45, ep) m =
     (if astr (sp + 1) \<noteq> 93 then class_loop astr cs (sp + 2, astr (sp + 1), ep) (set_bit_at ep c m')
      else Some (Some (sp + 2, set_bit_at ep c m')))"
  by (subst class_loop.simps) (simp add: Let_def)

text \<open>One range of a class: the bits that are set, and where the loop goes on.\<close>

lemma class_one:
  assumes "range_ok r" "string_at astr p (range_text r @ t)" "cs \<le> p + 1"
  shows "\<exists>m'. class_loop astr cs (p + 1, astr p, ep) m =
       (let q = p + length (range_text r) in
        if astr q \<noteq> 93 then class_loop astr cs (q + 1, astr q, ep) m' else Some (Some (q + 1, m')))
     \<and> (\<forall>y. in_class m' ep y \<longleftrightarrow> in_class m ep y \<or> in_ranges [r] (y mod 128)) \<and> (\<forall>k. k < ep \<or> ep + 16 \<le> k \<longrightarrow> m' k = m k)"
proof -
  obtain lo hi where r: "r = (lo, hi)" by (cases r)
  have b: "0 < lo" "lo \<le> hi" "hi < 128" "lo \<noteq> 45" "hi \<noteq> 93" "astr p = lo" using assms(1,2) r by (auto split: if_splits)
  show ?thesis
  proof (cases "lo = hi")
    case True
    then show ?thesis using b r class_single [of lo astr cs "p + 1" ep m] in_class_set_bit [of lo ep m] set_bit_at_frame [of lo _ ep m]
      by (intro exI [of _ "set_bit_at ep lo m"]) (auto simp: in_ranges_def Let_def)
  next
    case False
    have t: "astr (p + 1) = 45" "astr (p + 2) = hi" using assms(2) r False by (auto simp: numeral_2_eq_2)
    obtain m1 where m1: "set_range ep lo hi (set_bit_at ep lo m) = (hi, m1)"
        "\<And>y. in_class m1 ep y \<longleftrightarrow> in_class (set_bit_at ep lo m) ep y \<or> lo \<le> y mod 128 \<and> y mod 128 < hi"
        "\<And>k. k < ep \<or> ep + 16 \<le> k \<Longrightarrow> m1 k = set_bit_at ep lo m k"
      using set_range_result [of lo hi ep "set_bit_at ep lo m"] b by auto
    have "class_loop astr cs (p + 1, lo, ep) m = class_loop astr cs (p + 2, 45, ep) (set_bit_at ep lo m)"
      using class_single [of lo astr cs "p + 1" ep m] t b by simp
    also have "\<dots> = (if astr (p + 3) \<noteq> 93 then class_loop astr cs (p + 4, astr (p + 3), ep) (set_bit_at ep hi m1)
        else Some (Some (p + 4, set_bit_at ep hi m1)))"
      using class_range [of cs "p + 2" astr ep "set_bit_at ep lo m" hi m1] t b m1(1) assms(3) by (simp add: eval_nat_numeral)
    finally show ?thesis using b r False m1(2,3) in_class_set_bit [of lo ep m] in_class_set_bit [of hi ep m1]
        set_bit_at_frame [of lo _ ep m] set_bit_at_frame [of hi _ ep m1]
      by (intro exI [of _ "set_bit_at ep hi m1"]) (auto simp: in_ranges_def Let_def eval_nat_numeral)
  qed
qed

lemma string_at_append: "string_at m p (s @ t) \<Longrightarrow> string_at m (p + length s) t"
  by (induction s arbitrary: p) fastforce+

lemma range_text_first: "range_ok r \<Longrightarrow> \<exists>c t. range_text r = c # t \<and> c \<noteq> 93 \<and> c \<noteq> 94"
  by (cases r) auto

lemma class_loop_text:
  "rs \<noteq> [] \<Longrightarrow> list_all range_ok rs \<Longrightarrow> string_at astr p (concat (map range_text rs) @ 93 # t) \<Longrightarrow> cs \<le> p + 1 \<Longrightarrow>
   \<exists>m'. class_loop astr cs (p + 1, astr p, ep) m = Some (Some (p + length (concat (map range_text rs)) + 1, m'))
     \<and> (\<forall>y. in_class m' ep y \<longleftrightarrow> in_class m ep y \<or> in_ranges rs (y mod 128)) \<and> (\<forall>k. k < ep \<or> ep + 16 \<le> k \<longrightarrow> m' k = m k)"
proof (induction rs arbitrary: p m)
  case (Cons r rs)
  have ok: "range_ok r" "list_all range_ok rs" using Cons.prems(2) by auto
  have str: "string_at astr p (range_text r @ concat (map range_text rs) @ 93 # t)" using Cons.prems(3) by simp
  define q where "q = p + length (range_text r)"
  have str': "string_at astr q (concat (map range_text rs) @ 93 # t)" using string_at_append [OF str] q_def by simp
  obtain m1 where m1: "class_loop astr cs (p + 1, astr p, ep) m =
       (if astr q \<noteq> 93 then class_loop astr cs (q + 1, astr q, ep) m1 else Some (Some (q + 1, m1)))"
     "\<And>y. in_class m1 ep y \<longleftrightarrow> in_class m ep y \<or> in_ranges [r] (y mod 128)" "\<And>k. k < ep \<or> ep + 16 \<le> k \<Longrightarrow> m1 k = m k"
    using class_one [OF ok(1) str Cons.prems(4), of ep m] unfolding q_def Let_def by blast
  show ?case
  proof (cases rs)
    case Nil
    then have "astr q = 93" using str' by simp
    with m1 Nil show ?thesis by (auto simp: q_def)
  next
    case (Cons r' rs')
    obtain c u where c: "range_text r' = c # u" "c \<noteq> 93" using range_text_first [of r'] ok Cons by auto
    then have q: "astr q \<noteq> 93" using str' Cons by auto
    obtain m2 where m2: "class_loop astr cs (q + 1, astr q, ep) m1 = Some (Some (q + length (concat (map range_text rs)) + 1, m2))"
       "\<And>y. in_class m2 ep y \<longleftrightarrow> in_class m1 ep y \<or> in_ranges rs (y mod 128)" "\<And>k. k < ep \<or> ep + 16 \<le> k \<Longrightarrow> m2 k = m1 k"
      using Cons.IH [OF _ ok(2) str', of m1] Cons Cons.prems(4) q_def by force
    have "in_ranges (r # rs) y \<longleftrightarrow> in_ranges [r] y \<or> in_ranges rs y" for y by (simp add: in_ranges_def)
    with m1 m2 q show ?thesis by (auto simp: q_def add.assoc)
  qed
qed simp

lemma in_class_frame: "(\<And>k. ep \<le> k \<Longrightarrow> k < ep + 16 \<Longrightarrow> m' k = m k) \<Longrightarrow> in_class m' ep y = in_class m ep y"
proof -
  assume f: "\<And>k. ep \<le> k \<Longrightarrow> k < ep + 16 \<Longrightarrow> m' k = m k"
  have "nat (y mod 128 div 8) < 16" by (auto simp: nat_less_iff)
  then have "m' (ep + nat (y mod 128 div 8)) = m (ep + nat (y mod 128 div 8))" by (intro f) auto
  then show ?thesis by (simp add: in_class_bit)
qed

lemma operand_frame: "(\<And>k. ep \<le> k \<Longrightarrow> k + 1 < ep + op_len a \<Longrightarrow> m' k = m k) \<Longrightarrow> operand m' ep a = operand m ep a"
  using in_class_frame [of ep m' m] by (cases a) auto

lemma in_ranges_pos: "list_all range_ok rs \<Longrightarrow> in_ranges rs y \<Longrightarrow> 0 < y"
  by (induction rs) (fastforce simp: in_ranges_def)+

text \<open>A class: the operation and its bitmap.\<close>

lemma class_round:
  assumes str: "string_at astr (x_sp x) (atom_text (Cls neg rs) @ t)" and wf: "atom_wf (Cls neg rs)"
    and room: "x_ep x + 17 < 256" and zero: "\<And>k. x_ep x \<le> k \<Longrightarrow> expbuf x k = 0"
  shows "\<exists>m. compile_round astr x = Some (Next (x\<lparr>x_sp := x_sp x + length (atom_text (Cls neg rs)), x_ep := x_ep x + 17,
      x_lastep := Some (x_ep x), expbuf := m\<rparr>)) \<and> m (x_ep x) = CCL \<and> operand m (x_ep x + 1) (Cls neg rs)
    \<and> (\<forall>k. k < x_ep x \<or> x_ep x + 17 \<le> k \<longrightarrow> m k = expbuf x k)"
proof -
  let ?ep = "x_ep x + 1"
  define p where "p = x_sp x + (if neg then 2 else 1)"
  define m0 where "m0 = (expbuf x)(x_ep x := CCL)"
  have rs: "rs \<noteq> []" "list_all range_ok rs" using wf by auto
  obtain r rs' where "rs = r # rs'" using rs(1) by (cases rs) auto
  then obtain c u where c: "concat (map range_text rs) = c # u" "c \<noteq> 94" using range_text_first [of r] rs(2) by auto
  have strp: "string_at astr p (concat (map range_text rs) @ 93 # t)" using str by (auto simp: p_def numeral_2_eq_2)
  have first: "astr (x_sp x) = 91" "neg \<Longrightarrow> astr (x_sp x + 1) = 94" "\<not> neg \<Longrightarrow> astr (x_sp x + 1) = c" using str c by auto
  obtain m1 where m1: "class_loop astr (p + 1) (p + 1, astr p, ?ep) m0 = Some (Some (p + length (concat (map range_text rs)) + 1, m1))"
      "\<And>y. in_class m1 ?ep y \<longleftrightarrow> in_class m0 ?ep y \<or> in_ranges rs (y mod 128)" "\<And>k. k < ?ep \<or> ?ep + 16 \<le> k \<Longrightarrow> m1 k = m0 k"
    using class_loop_text [OF rs strp, of "p + 1" ?ep m0] by auto
  have e: "emit [CCL] (x\<lparr>x_sp := x_sp x + 1, x_lastep := Some (x_ep x)\<rparr>)
      = x\<lparr>x_sp := x_sp x + 1, x_lastep := Some (x_ep x), expbuf := m0, x_ep := ?ep\<rparr>"
    by (simp add: emit_def m0_def put8s_Cons)
  define m where "m = (if neg then negate_class ?ep m1 else m1)"
  have "compile_round astr x = Some (Next (x\<lparr>x_sp := x_sp x + length (atom_text (Cls neg rs)), x_ep := x_ep x + 17, x_lastep := Some (x_ep x), expbuf := m\<rparr>))"
    using m1(1) first room c(2) e unfolding compile_round_def p_def m_def by (cases neg) (simp_all add: Let_def add.commute add.left_commute)
  moreover have "\<not> in_class m0 ?ep y" for y using zero by (simp add: in_class_bit m0_def)
  then have "operand m ?ep (Cls neg rs)"
    using m1(2) in_ranges_pos [OF rs(2)] in_ranges_pos [OF rs(2), of 0] by (auto simp: m_def in_class_negate and_127)
  moreover have "k < ?ep \<or> ?ep + 16 \<le> k \<Longrightarrow> m k = m0 k" for k
    using m1(3) negate_class_frame [of k ?ep m1] by (auto simp: m_def)
  ultimately show ?thesis by (intro exI [of _ m]) (auto simp: m0_def)
qed

lemma escape_round:
  "astr (x_sp x) = 92 \<Longrightarrow> astr (x_sp x + 1) = c \<Longrightarrow> c \<noteq> 40 \<Longrightarrow> c \<noteq> 41 \<Longrightarrow> \<not> (49 \<le> c \<and> c \<le> 57) \<Longrightarrow> x_ep x < 256 \<Longrightarrow>
   compile_round astr x = Some (Next (x\<lparr>x_sp := x_sp x + 2, x_ep := x_ep x + 2, x_lastep := Some (x_ep x),
     expbuf := (expbuf x)(x_ep x := CCHR, x_ep x + 1 := c)\<rparr>))"
  by (auto simp: compile_round_def Let_def emit_def put8s_Cons)

lemma plain_round:
  "astr (x_sp x) = c \<Longrightarrow> c \<notin> {0, 36, 42, 46, 91, 92} \<Longrightarrow> x_ep x < 256 \<Longrightarrow>
   compile_round astr x = Some (Next (x\<lparr>x_sp := x_sp x + 1, x_ep := x_ep x + 2, x_lastep := Some (x_ep x),
     expbuf := (expbuf x)(x_ep x := CCHR, x_ep x + 1 := c)\<rparr>))"
  by (simp add: compile_round_def Let_def emit_def put8s_Cons)

text \<open>A round of the compiler at an atom, at a star and at the end.\<close>

lemma atom_round:
  assumes str: "string_at astr (x_sp x) (atom_text a @ t)" and wf: "atom_wf a"
    and room: "x_ep x + op_len a < 256" and zero: "\<And>k. x_ep x \<le> k \<Longrightarrow> expbuf x k = 0"
  shows "\<exists>m. compile_round astr x = Some (Next (x\<lparr>x_sp := x_sp x + length (atom_text a), x_ep := x_ep x + op_len a,
      x_lastep := Some (x_ep x), expbuf := m\<rparr>)) \<and> m (x_ep x) = op_code a \<and> operand m (x_ep x + 1) a
    \<and> (\<forall>k. k < x_ep x \<or> x_ep x + op_len a \<le> k \<longrightarrow> m k = expbuf x k)"
proof (cases a)
  case (Ch c)
  show ?thesis
  proof (cases "c \<in> {36, 42, 46, 91, 92, 94}")
    case True
    then have "astr (x_sp x) = 92" "astr (x_sp x + 1) = c" using str Ch by auto
    with True Ch room escape_round [of astr x c] show ?thesis
      by (intro exI [of _ "(expbuf x)(x_ep x := CCHR, x_ep x + 1 := c)"]) auto
  next
    case False
    then have "astr (x_sp x) = c" "0 < c" using str Ch by auto
    with False Ch room plain_round [of astr x] show ?thesis
      by (intro exI [of _ "(expbuf x)(x_ep x := CCHR, x_ep x + 1 := c)"]) auto
  qed
next
  case Any
  then have "astr (x_sp x) = 46" using str by auto
  with Any room show ?thesis
    by (intro exI [of _ "(expbuf x)(x_ep x := CDOT)"]) (auto simp: compile_round_def Let_def emit_def put8s_Cons)
next
  case (Cls neg rs)
  then show ?thesis using class_round [of astr x neg rs t] str wf room zero by auto
qed

lemma star_round:
  "astr (x_sp x) = 42 \<Longrightarrow> x_ep x < 256 \<Longrightarrow> x_lastep x = Some l \<Longrightarrow> expbuf x l \<notin> {CBRA, CKET} \<Longrightarrow>
   compile_round astr x = Some (Next (x\<lparr>x_sp := x_sp x + 1, expbuf := (expbuf x)(l := expbuf x l OR 1)\<rparr>))"
  by (simp add: compile_round_def Let_def)

lemma end_round: "astr (x_sp x) = 0 \<Longrightarrow> x_ep x < 256 \<Longrightarrow> compile_round astr x = Some (Stop ((expbuf x)(x_ep x := CEOF)))"
  by (simp add: compile_round_def Let_def emit_def put8s_Cons)

lemma dollar_round:
  "string_at astr (x_sp x) [36] \<Longrightarrow> x_ep x < 256 \<Longrightarrow> compile_round astr x = Some (Next (x\<lparr>x_sp := x_sp x + 1,
     x_lastep := Some (x_ep x), expbuf := (expbuf x)(x_ep x := CDOL), x_ep := x_ep x + 1\<rparr>))"
  by (simp add: compile_round_def Let_def emit_def put8s_Cons)

lemma compile_loop_next: "compile_round astr x = Some (Next x') \<Longrightarrow> compile_loop astr x = compile_loop astr x'"
  by (subst compile_loop.simps) simp

lemma compile_loop_stop: "compile_round astr x = Some (Stop m) \<Longrightarrow> compile_loop astr x = Some (Some m)"
  by (subst compile_loop.simps) simp

lemma code_len_simps [simp]: "code_len [] = 0" "code_len ((a, st) # as) = op_len a + code_len as"
  by (simp_all add: code_len_def)

lemma op_code_range: "op_code a \<noteq> CBRA" "op_code a \<noteq> CKET"
  by (cases a; simp)+

text \<open>An atom with or without its star.\<close>

lemma starred_atom:
  assumes str: "string_at astr (x_sp x) (atom_text a @ (if st then [42] else []) @ t)" and wf: "atom_wf a"
    and room: "x_ep x + op_len a < 256" and zero: "\<And>k. x_ep x \<le> k \<Longrightarrow> expbuf x k = 0"
  shows "\<exists>x'. compile_loop astr x = compile_loop astr x' \<and> string_at astr (x_sp x') t \<and> x_ep x' = x_ep x + op_len a
    \<and> expbuf x' (x_ep x) = op_code a OR of_bool st \<and> operand (expbuf x') (x_ep x + 1) a
    \<and> (\<forall>k. k < x_ep x \<or> x_ep x + op_len a \<le> k \<longrightarrow> expbuf x' k = expbuf x k)"
proof -
  have pos: "0 < op_len a" by (cases a) auto
  obtain m where m: "compile_round astr x = Some (Next (x\<lparr>x_sp := x_sp x + length (atom_text a), x_ep := x_ep x + op_len a,
      x_lastep := Some (x_ep x), expbuf := m\<rparr>))" "m (x_ep x) = op_code a" "operand m (x_ep x + 1) a"
      "\<And>k. k < x_ep x \<or> x_ep x + op_len a \<le> k \<Longrightarrow> m k = expbuf x k"
    using atom_round [OF str wf room zero] by blast
  define y where "y = x\<lparr>x_sp := x_sp x + length (atom_text a), x_ep := x_ep x + op_len a, x_lastep := Some (x_ep x), expbuf := m\<rparr>"
  have y: "compile_loop astr x = compile_loop astr y" using compile_loop_next [OF m(1)] by (simp add: y_def)
  have stry: "string_at astr (x_sp y) ((if st then [42] else []) @ t)" using string_at_append [OF str] by (simp add: y_def)
  show ?thesis
  proof (cases st)
    case False
    with y stry m(2-4) show ?thesis by (intro exI [of _ y]) (auto simp: y_def)
  next
    case True
    let ?z = "y\<lparr>x_sp := x_sp y + 1, expbuf := m(x_ep x := m (x_ep x) OR 1)\<rparr>"
    have "compile_round astr y = Some (Next ?z)"
      using star_round [of astr y "x_ep x"] stry True room m(2) op_code_range [of a] by (simp add: y_def)
    then have "compile_loop astr y = compile_loop astr ?z" by (rule compile_loop_next)
    moreover have "operand (m(x_ep x := m (x_ep x) OR 1)) (x_ep x + 1) a"
      using operand_frame [of "x_ep x + 1" a "m(x_ep x := m (x_ep x) OR 1)" m] m(3) by simp
    ultimately show ?thesis using y stry True m(2,4) pos by (intro exI [of _ ?z]) (auto simp: y_def)
  qed
qed

lemma compile_atoms:
  assumes "string_at astr (x_sp x) (concat (map (\<lambda>(a, st). atom_text a @ (if st then [42] else [])) as) @ (if dol then [36] else []))"
    and "list_all (\<lambda>(a, st). atom_wf a) as" and "x_ep x + code_len as + 2 \<le> 256" and "\<And>k. x_ep x \<le> k \<Longrightarrow> expbuf x k = 0"
  shows "\<exists>m. compile_loop astr x = Some (Some m) \<and> code_for m (x_ep x) as dol \<and> (\<forall>k. k < x_ep x \<longrightarrow> m k = expbuf x k)"
  using assms
proof (induction as arbitrary: x)
  case Nil
  show ?case
  proof (cases dol)
    case True
    let ?y = "x\<lparr>x_sp := x_sp x + 1, x_lastep := Some (x_ep x), expbuf := (expbuf x)(x_ep x := CDOL), x_ep := x_ep x + 1\<rparr>"
    have "compile_loop astr x = compile_loop astr ?y"
      using dollar_round [of astr x] Nil True by (intro compile_loop_next) simp
    also have "\<dots> = Some (Some ((expbuf ?y)(x_ep ?y := CEOF)))"
      using end_round [of astr ?y] Nil True by (intro compile_loop_stop) simp
    finally show ?thesis using True by simp
  next
    case False
    then have "compile_loop astr x = Some (Some ((expbuf x)(x_ep x := CEOF)))"
      using end_round [of astr x] Nil by (intro compile_loop_stop) simp
    with False show ?thesis by simp
  qed
next
  case (Cons p as)
  obtain a st where p: "p = (a, st)" by (cases p)
  obtain y where y: "compile_loop astr x = compile_loop astr y"
      "string_at astr (x_sp y) (concat (map (\<lambda>(a, st). atom_text a @ (if st then [42] else [])) as) @ (if dol then [36] else []))"
      "x_ep y = x_ep x + op_len a" "expbuf y (x_ep x) = op_code a OR of_bool st" "operand (expbuf y) (x_ep x + 1) a"
      "\<And>k. k < x_ep x \<or> x_ep x + op_len a \<le> k \<Longrightarrow> expbuf y k = expbuf x k"
    using starred_atom [of astr x a st "concat (map (\<lambda>(a, st). atom_text a @ (if st then [42] else [])) as) @ (if dol then [36] else [])"]
      Cons.prems p by force
  obtain m where m: "compile_loop astr y = Some (Some m)" "code_for m (x_ep y) as dol" "\<And>k. k < x_ep y \<Longrightarrow> m k = expbuf y k"
    using Cons.IH [OF y(2)] Cons.prems(2-4) p y(3,6) by auto
  have pos: "0 < op_len a" by (cases a) auto
  have "operand m (x_ep x + 1) a"
    using y(3,5) operand_frame [of "x_ep x + 1" a m "expbuf y"] m(3) by simp
  with y m p pos show ?case by auto
qed

lemma atom_text_first: "atom_wf a \<Longrightarrow> \<exists>c t. atom_text a = c # t \<and> c \<noteq> 94"
  by (cases a) auto

text \<open>The compiler emits the code of the expression it is given as a text.\<close>

lemma compile_text:
  assumes str: "string_at astr p (expr_text circf as dol)" and wf: "list_all (\<lambda>(a, st). atom_wf a) as" and room: "code_len as \<le> 254"
  shows "\<exists>code. compile astr p = Some (Some (circf, code)) \<and> code_for code 0 as dol"
proof -
  let ?t = "concat (map (\<lambda>(a, st). atom_text a @ (if st then [42] else [])) as) @ (if dol then [36] else [])"
  have c: "astr p = 94 \<longleftrightarrow> circf"
  proof (cases circf)
    case False
    then show ?thesis using str wf atom_text_first [of "fst (hd as)"] by (cases as) (auto simp: expr_text_def split: if_splits)
  qed (use str in \<open>simp add: expr_text_def\<close>)
  define x where "x = \<lparr>x_sp = (if circf then p + 1 else p), x_ep = 0, x_lastep = None, x_bracket = [], x_closed = 0, x_numbra = 0, expbuf = \<lambda>_. 0 :: int\<rparr>"
  have "string_at astr (x_sp x) ?t" using str by (auto simp: expr_text_def x_def)
  then obtain m where "compile_loop astr x = Some (Some m)" "code_for m 0 as dol"
    using compile_atoms [of astr x as dol] wf room by (auto simp: x_def)
  with c show ?thesis by (auto simp: compile_def x_def Let_def)
qed

section \<open>Selection of lines\<close>

lemma code_len_length: "length as \<le> code_len as"
proof (induction as)
  case (Cons p as)
  obtain a st where "p = (a, st)" by (cases p)
  moreover have "0 < op_len a" by (cases a) auto
  ultimately show ?case using Cons by simp
qed simp

lemma ex_le_Suc: "(\<exists>k \<le> Suc n. P k) \<longleftrightarrow> P 0 \<or> (\<exists>k \<le> n. P (Suc k))"
  unfolding less_Suc_eq_le [symmetric] by (auto simp: less_Suc_eq_0_disj)

lemma search_correct:
  assumes "code_for code 0 as dol" "list_all (\<lambda>(a, st). atom_wf a) as" "length as + 2 \<le> 257"
  shows "string_at lb p s \<Longrightarrow> length s \<le> 511 \<Longrightarrow> length s < n \<Longrightarrow> search_from n code lb p br = Go (\<exists>k \<le> length s. matches as dol (drop k s), br)"
proof (induction n arbitrary: p s)
  case (Suc n)
  have adv: "advance 257 code lb p 0 br = Go (matches as dol s, br)"
    using advance_correct [OF assms(1) Suc.prems(1,2) assms(2,3)] .
  have fast: "code 0 = CCHR \<Longrightarrow> lb p \<noteq> code 1 \<Longrightarrow> \<not> matches as dol s"
    using code_for_CCHR [OF assms(1), of s] string_char [OF Suc.prems(1)] by auto
  show ?case
  proof (cases s)
    case Nil
    with Suc.prems(1) adv fast show ?thesis by (cases "matches as dol []") auto
  next
    case (Cons c t)
    then have "search_from n code lb (p + 1) br = Go (\<exists>k \<le> length t. matches as dol (drop k t), br)"
      using Suc by (intro Suc.IH) auto
    moreover have "(\<exists>k \<le> length s. matches as dol (drop k s)) \<longleftrightarrow> matches as dol s \<or> (\<exists>k \<le> length t. matches as dol (drop k t))"
      by (simp add: Cons ex_le_Suc)
    moreover have "lb p \<noteq> 0" using Suc.prems(1) Cons by simp
    ultimately show ?thesis using adv fast by (cases "matches as dol s") auto
  qed
qed simp

lemma match_line_correct:
  assumes "code_for code 0 as dol" "list_all (\<lambda>(a, st). atom_wf a) as" "code_len as \<le> 254" "string_at lb 0 s" "length s \<le> 511"
  shows "match_line circf code lb br = Go (selects circf as dol s, br)"
proof -
  have n: "length as + 2 \<le> 257" using code_len_length [of as] assms(3) by simp
  show ?thesis
    using advance_correct [OF assms(1,4,5,2) n] search_correct [OF assms(1,2) n assms(4,5)] assms(5)
    by (simp add: match_line_def selects_def list_ex_upto del: upt_Suc)
qed

section \<open>What is printed\<close>

fun numbered :: "int \<Rightarrow> int list list \<Rightarrow> (int \<times> int list) list" where
  "numbered k [] = []"
| "numbered k (l # ls) = (k, l) # numbered (k + 1) ls"

fun report :: "gflags \<Rightarrow> nat \<Rightarrow> int list \<Rightarrow> int \<times> int list \<Rightarrow> gout list" where
  "report fl nfile f (k, l) =
     (if nfile > 1 \<and> hflag fl then [Name f] else []) @ (if nflag fl then [Label k] else []) @ [Text l]"

definition line_ok :: "int list \<Rightarrow> bool" where
  "line_ok l = (length l \<le> 510 \<and> list_all (\<lambda>c. 0 < c \<and> c \<noteq> 10) l)"

definition input_of :: "int list list \<Rightarrow> int list" where
  "input_of ls = concat (map (\<lambda>l. l @ [10]) ls)"

lemma input_of_simps [simp]: "input_of [] = []" "input_of (l # ls) = l @ 10 # input_of ls"
  by (simp_all add: input_of_def)

lemma take_line_append: "list_all (\<lambda>c. 0 < c \<and> c \<noteq> 10) l \<Longrightarrow> length l < n \<Longrightarrow> take_line n (l @ 10 # r) = Some (l, r)"
  by (induction l arbitrary: n) auto

lemma c_string_at: "string_at m p s \<Longrightarrow> length s < n \<Longrightarrow> c_string n m p = s"
proof (induction s arbitrary: p n)
  case Nil then show ?case by (cases n) auto
next
  case (Cons c s) then show ?case by (cases n) auto
qed

lemma succeed_shown:
  assumes "\<not> sflag fl" "\<not> lflag fl" "\<not> bflag fl" "\<not> cflag fl" "string_at (linebuf g) 0 l" "length l \<le> 510"
  shows "succeed fl nfile f pos g = (False, g\<lparr>nsucc := True, outp := outp g @ report fl nfile f (lnum g, l)\<rparr>)"
  using assms c_string_at [OF assms(5), of 513] by (simp add: succeed_def Let_def)

lemma succeed_counted:
  "\<not> sflag fl \<Longrightarrow> cflag fl \<Longrightarrow> succeed fl nfile f pos g = (False, g\<lparr>nsucc := True, tln := s32 (tln g + 1)\<rparr>)"
  by (simp add: succeed_def Let_def)

text \<open>What the loop over the lines does, with a number of lines behind it.\<close>

lemma execute_lines:
  assumes code: "code_for (snd ce) 0 as dol" "list_all (\<lambda>(a, st). atom_wf a) as" "code_len as \<le> 254"
    and fl: "\<not> sflag fl" "\<not> lflag fl" "\<not> bflag fl"
  shows "list_all line_ok ls \<Longrightarrow> 0 \<le> lnum g \<Longrightarrow> lnum g + int (length ls) < 2 ^ 31 \<Longrightarrow> 0 \<le> tln g \<Longrightarrow> tln g + int (length ls) < 2 ^ 31 \<Longrightarrow>
    \<exists>g'. execute_loop fl ce (nfile, f, flen) (input_of ls) g = Go g' \<and>
      (let sel = filter (\<lambda>(k, l). selects (fst ce) as dol l \<noteq> vflag fl) (numbered (lnum g + 1) ls) in
       nsucc g' = (nsucc g \<or> sel \<noteq> []) \<and>
       outp g' = outp g @ (if cflag fl then (if nfile > 1 then [Name f] else []) @ [Count (tln g + int (length sel))]
                           else concat (map (report fl nfile f) sel)))"
proof (induction ls arbitrary: g)
  case Nil
  show ?case by (subst execute_loop.simps) (simp add: Let_def)
next
  case (Cons l ls)
  have l: "length l \<le> 510" "list_all (\<lambda>c. 0 < c \<and> c \<noteq> 10) l" using Cons.prems(1) by (auto simp: line_ok_def)
  define h where "h = g\<lparr>lnum := lnum g + 1, linebuf := put8s 0 (l @ [0]) (linebuf g)\<rparr>"
  have str: "string_at (linebuf h) 0 l" unfolding h_def using l(2) by (auto intro!: string_at_put8s simp: list_all_iff)
  have num: "s32 (lnum g + 1) = lnum g + 1" "s32 (tln g + 1) = tln g + 1" using Cons.prems by (auto intro!: s32_id)
  have m: "match_line (fst ce) (snd ce) (linebuf h) (bras h) = Go (selects (fst ce) as dol l, bras h)"
    using match_line_correct [OF code str] l(1) by simp
  define y where "y = (if cflag fl then h\<lparr>nsucc := True, tln := tln g + 1\<rparr>
    else h\<lparr>nsucc := True, outp := outp g @ report fl nfile f (lnum g + 1, l)\<rparr>)"
  have y: "succeed fl nfile f pos h = (False, y)" for pos
    using succeed_shown [OF fl _ str l(1)] succeed_counted [OF fl(1)] num(2)
    by (cases "cflag fl") (simp_all add: y_def h_def del: report.simps)
  define x where "x = (if selects (fst ce) as dol l \<noteq> vflag fl then y else h)"
  have step: "execute_loop fl ce (nfile, f, flen) (input_of (l # ls)) g = execute_loop fl ce (nfile, f, flen) (input_of ls) x"
    using take_line_append [OF l(2), of 511 "input_of ls"] l(1) m num(1) y
    by (subst execute_loop.simps) (simp add: Let_def h_def x_def)
  have x: "lnum x = lnum g + 1" "tln x = (if cflag fl \<and> selects (fst ce) as dol l \<noteq> vflag fl then tln g + 1 else tln g)"
      "nsucc x = (nsucc g \<or> selects (fst ce) as dol l \<noteq> vflag fl)"
      "outp x = outp g @ (if \<not> cflag fl \<and> selects (fst ce) as dol l \<noteq> vflag fl then report fl nfile f (lnum g + 1, l) else [])"
    by (simp_all add: x_def y_def h_def del: report.simps)
  show ?case
    unfolding step using Cons.IH [of x] Cons.prems x by (cases "cflag fl") (auto simp: Let_def simp del: report.simps)
qed

section \<open>Properties\<close>

text \<open>
  Claim C5. \<open>compile\<close> and \<open>advance\<close> implement regular expressions: for an expression of characters, dots and classes,
  each with or without a star, between an optional circumflex and an optional dollar sign, whose code has at most 254
  bytes, the compiler succeeds on its text, and the search with the code in any line of at most 511 characters ends
  and finds a match exactly if the expression matches at the beginning of the line, or, without a circumflex, at the
  beginning of one of its tails.
\<close>

theorem grep_selects:
  assumes "string_at astr p (expr_text circf as dol)" "list_all (\<lambda>(a, st). atom_wf a) as" "code_len as \<le> 254"
  shows "\<exists>code. compile astr p = Some (Some (circf, code)) \<and>
    (\<forall>lb s br. string_at lb 0 s \<and> length s \<le> 511 \<longrightarrow> match_line circf code lb br = Go (selects circf as dol s, br))"
proof -
  obtain code where c: "compile astr p = Some (Some (circf, code))" "code_for code 0 as dol"
    using compile_text [OF assms] by blast
  show ?thesis using match_line_correct [OF c(2) assms(2,3)] c(1) by blast
qed

definition some_expr :: "(atom \<times> bool) list" where
  "some_expr = [(Ch 97, False), (Cls True [(48, 57), (46, 46)], True), (Any, False)]"

lemma some_line_selected: "selects False some_expr True [122, 97, 98, 99] \<and> \<not> selects False some_expr True [97, 48, 49]"
proof
  show "selects False some_expr True [122, 97, 98, 99]"
    unfolding selects_def some_expr_def by (simp add: in_ranges_def list_ex_upto ex_le_Suc del: upt_Suc)
  show "\<not> selects False some_expr True [97, 48, 49]"
    unfolding selects_def some_expr_def by (simp add: in_ranges_def list_ex_upto ex_le_Suc del: upt_Suc)
qed

theorem grep_selects_witness:
  "\<exists>code. compile (put8s 0 (expr_text False some_expr True @ [0]) (\<lambda>_. 7)) 0 = Some (Some (False, code)) \<and>
     match_line False code (put8s 0 ([122, 97, 98, 99] @ [0]) (\<lambda>_. 7)) (bras gstart) = Go (True, bras gstart) \<and>
     match_line False code (put8s 0 ([97, 48, 49] @ [0]) (\<lambda>_. 7)) (bras gstart) = Go (False, bras gstart)"
proof -
  have s: "string_at (put8s 0 (cs @ [0]) m) 0 cs" if "\<forall>c \<in> set cs. 0 < c" for cs and m :: mem
    using that by (rule string_at_put8s)
  have "\<forall>c \<in> set (expr_text False some_expr True). 0 < c" by (simp add: expr_text_def some_expr_def)
  then obtain code where "compile (put8s 0 (expr_text False some_expr True @ [0]) (\<lambda>_. 7)) 0 = Some (Some (False, code))"
      "\<And>lb s br. string_at lb 0 s \<Longrightarrow> length s \<le> 511 \<Longrightarrow> match_line False code lb br = Go (selects False some_expr True s, br)"
    using grep_selects [OF s, of False some_expr True "\<lambda>_. 7"] by (auto simp: some_expr_def)
  then show ?thesis
    using s [of "[122, 97, 98, 99]" "\<lambda>_. 7"] s [of "[97, 48, 49]" "\<lambda>_. 7"] some_line_selected by fastforce
qed

text \<open>
  Claim C20. What \<open>execute\<close> prints for an expression that \<open>compile\<close> accepted, without the options \<open>-s\<close>, \<open>-l\<close> and \<open>-b\<close>:
  for an input of lines of at most 510 characters, each with its newline, exactly the lines that are selected (with
  \<open>-v\<close> those that are not), in their order, with the name of the file when there are several and the number of the
  line under \<open>-n\<close>; with \<open>-c\<close> only how many they are. The exit status records whether there was one.
\<close>

theorem grep_prints:
  assumes "string_at astr p (expr_text circf as dol)" "list_all (\<lambda>(a, st). atom_wf a) as" "code_len as \<le> 254"
    and "list_all line_ok ls" "length ls < 2 ^ 31" "\<not> sflag fl" "\<not> lflag fl" "\<not> bflag fl"
  shows "\<exists>code g'. compile astr p = Some (Some (circf, code)) \<and> execute fl (circf, code) nfile f (input_of ls) g = Go g' \<and>
    (let sel = filter (\<lambda>(k, l). selects circf as dol l \<noteq> vflag fl) (numbered 1 ls) in
     nsucc g' = (nsucc g \<or> sel \<noteq> []) \<and>
     outp g' = outp g @ (if cflag fl then (if nfile > 1 then [Name f] else []) @ [Count (int (length sel))]
                         else concat (map (report fl nfile f) sel)))"
proof -
  obtain code where c: "compile astr p = Some (Some (circf, code))" "code_for code 0 as dol"
    using compile_text [OF assms(1-3)] by blast
  define h where "h = g\<lparr>lnum := 0, tln := 0\<rparr>"
  have h: "lnum h + 1 = 1" "tln h + int n = int n" "nsucc h = nsucc g" "outp h = outp g" for n by (simp_all add: h_def)
  have code: "code_for (snd (circf, code)) 0 as dol" using c(2) by simp
  have "0 \<le> lnum h" "lnum h + int (length ls) < 2 ^ 31" "0 \<le> tln h" "tln h + int (length ls) < 2 ^ 31"
    using assms(5) by (simp_all add: h_def)
  from execute_lines [OF code assms(2,3,6-8,4) this, of nfile f "int (length (input_of ls))"] c(1) show ?thesis
    unfolding h fst_conv execute_def h_def [symmetric] by blast
qed

definition some_flags :: gflags where
  "some_flags = \<lparr>bflag = False, lflag = False, nflag = True, cflag = False, vflag = False, hflag = True, sflag = False, yflag = False\<rparr>"

theorem grep_prints_witness:
  "\<exists>code g'. compile (put8s 0 (expr_text False some_expr True @ [0]) (\<lambda>_. 7)) 0 = Some (Some (False, code)) \<and>
     execute some_flags (False, code) 2 [102] (input_of [[97, 48, 49], [122, 97, 98, 99]]) gstart = Go g' \<and>
     nsucc g' \<and> outp g' = [Name [102], Label 2, Text [122, 97, 98, 99]]"
proof -
  have s: "string_at (put8s 0 (expr_text False some_expr True @ [0]) (\<lambda>_. 7)) 0 (expr_text False some_expr True)"
    by (rule string_at_put8s) (simp add: expr_text_def some_expr_def)
  have sel: "filter (\<lambda>(k, l). selects False some_expr True l \<noteq> vflag some_flags) (numbered 1 [[97, 48, 49], [122, 97, 98, 99]])
      = [(2, [122, 97, 98, 99])]"
    using some_line_selected by (simp add: some_flags_def)
  have "\<exists>code g'. compile (put8s 0 (expr_text False some_expr True @ [0]) (\<lambda>_. 7)) 0 = Some (Some (False, code)) \<and>
     execute some_flags (False, code) 2 [102] (input_of [[97, 48, 49], [122, 97, 98, 99]]) gstart = Go g' \<and>
     (let sel = [(2, [122, 97, 98, 99])] in nsucc g' = (nsucc gstart \<or> sel \<noteq> []) \<and>
       outp g' = outp gstart @ (if cflag some_flags then (if 2 > (1 :: nat) then [Name [102]] else []) @ [Count (int (length sel))]
                         else concat (map (report some_flags 2 [102]) sel)))"
    unfolding sel [symmetric]
    by (rule grep_prints [OF s]) (simp_all add: some_expr_def some_flags_def line_ok_def)
  then show ?thesis by (simp add: some_flags_def gstart_def Let_def)
qed

end
