(* ===== verification/Dbm.thy ===== *)
theory Dbm
  imports Strings "HOL-Library.Signed_Division"
begin

text \<open>
  \<open>usr/src/libdbm/dbm.c\<close>: a database of keys and data in two files. The file of pages is a map from positions, which
  are multiples of the page size, to blocks of bytes, and so is the file of the directory; what was never
  written is zero, as the code clears a buffer before it reads a block. A \<open>datum\<close> is the list of the bytes it points to,
  \<^const>\<open>None\<close> the null pointer: between taking a datum from a page and using it the page is not changed. The keys and
  data of the caller do not lie in the buffers of the library. Messages are left out; \<open>Abort\<close> is the call of \<open>abort\<close>.

  A page holds the number of items, the position of each item and, from its end downwards, the items. Keys and data
  alternate. The directory is a binary tree of bits: with \<open>hmask = 2 ^ d - 1\<close> the bit number \<open>blkno + hmask\<close> tells
  whether the page \<open>blkno\<close> of depth \<open>d\<close> has been split.
\<close>

section \<open>State\<close>

abbreviation (input) PBLKSIZ :: int where "PBLKSIZ \<equiv> 512"
abbreviation (input) DBLKSIZ :: int where "DBLKSIZ \<equiv> 8192"
abbreviation (input) BYTESIZ :: int where "BYTESIZ \<equiv> 8"

record dbm =
  bitno :: int
  maxbno :: int
  blkno :: int
  hmask :: int
  pagbuf :: mem
  dirbuf :: mem
  oldpag :: int
  olddir :: int
  pagf :: "int \<Rightarrow> mem"
  dirf :: "int \<Rightarrow> mem"

datatype 'a dres = Done 'a | Abort

text \<open>The buffers hold nothing at first. The name of the file is put together in \<open>pagbuf\<close>.\<close>

definition dbm_bss :: dbm where
  "dbm_bss = \<lparr>bitno = 0, maxbno = 0, blkno = 0, hmask = 0, pagbuf = \<lambda>_. 0, dirbuf = \<lambda>_. 0, oldpag = -1, olddir = -1,
     pagf = \<lambda>_ _. 0, dirf = \<lambda>_ _. 0\<rparr>"

definition dbminit :: "int list \<Rightarrow> (int \<Rightarrow> mem) option \<Rightarrow> ((int \<Rightarrow> mem) \<times> int) option \<Rightarrow> dbm \<Rightarrow> int \<times> dbm" where
  "dbminit file pag dir s =
     (let s = s\<lparr>pagbuf := put8s 0 (file @ [46, 100, 105, 114, 0]) (pagbuf s)\<rparr> in
      case (pag, dir) of
        (Some p, Some (d, st_size)) \<Rightarrow> (0, s\<lparr>pagf := p, dirf := d, maxbno := s32 (st_size * BYTESIZ - 1)\<rparr>)
      | _ \<Rightarrow> (-1, s))"

section \<open>Pages\<close>

text \<open>\<open>sp[k]\<close>\<close>

definition sp :: "mem \<Rightarrow> int \<Rightarrow> int" where
  "sp buf k = s16 (get16 buf (2 * nat k))"

definition set_sp :: "int \<Rightarrow> int \<Rightarrow> mem \<Rightarrow> mem" where
  "set_sp k v buf = put16 (2 * nat k) v buf"

definition makdatum :: "mem \<Rightarrow> int \<Rightarrow> int list option" where
  "makdatum buf n =
     (if n < 0 \<or> n \<ge> sp buf 0 then None
      else
        (let t = (if n > 0 then sp buf n else PBLKSIZ); p = sp buf (n + 1)
         in Some (map (\<lambda>k. buf (nat p + k)) [0..<nat (t - p)])))"

fun first_difference :: "int list \<Rightarrow> int list \<Rightarrow> int" where
  "first_difference (x # xs) (y # ys) = (if x \<noteq> y then x - y else first_difference xs ys)"
| "first_difference _ _ = 0"

definition cmpdatum :: "int list \<Rightarrow> int list \<Rightarrow> int" where
  "cmpdatum d1 d2 =
     (if length d1 \<noteq> length d2 then int (length d1) - int (length d2) else first_difference d1 d2)"

text \<open>The index of an item and the page; the index is -1 when there is no room.\<close>

definition additem :: "mem \<Rightarrow> int list \<Rightarrow> int \<times> mem" where
  "additem buf item =
     (let i1 = (if sp buf 0 > 0 then sp buf (sp buf 0) else PBLKSIZ);
          i1 = i1 - int (length item);
          i2 = (sp buf 0 + 2) * 2
      in if i1 \<le> i2 then (-1, buf)
         else
           (let buf = set_sp (sp buf 0 + 1) i1 buf;
                buf = put8s (nat i1) item buf;
                buf = set_sp 0 (sp buf 0 + 1) buf
            in (sp buf 0 - 1, buf)))"

text \<open>The items from \<open>i3\<close> to \<open>i1\<close> are moved up to \<open>i2\<close>.\<close>

function move_up :: "int \<Rightarrow> int \<Rightarrow> int \<Rightarrow> mem \<Rightarrow> int \<times> int \<times> mem" where
  "move_up i1 i2 i3 buf =
     (if i1 > i3 then move_up (i1 - 1) (i2 - 1) i3 (buf(nat (i2 - 1) := buf (nat (i1 - 1)), nat (i1 - 1) := 0))
      else (i1, i2, buf))"
  by auto
termination by (relation "measure (\<lambda>(i1, i2, i3, buf). nat (i1 - i3))") auto

declare move_up.simps [simp del]

definition delitem :: "mem \<Rightarrow> int \<Rightarrow> mem option" where
  "delitem buf n =
     (if n < 0 \<or> n \<ge> sp buf 0 then None
      else
        (let i1 = sp buf (n + 1);
             i2 = (if n > 0 then sp buf n else PBLKSIZ);
             i3 = sp buf (sp buf 0);
             (i1, i2, buf) = (if i2 > i1 then move_up i1 i2 i3 buf else (i1, i2, buf));
             i2 = i2 - i1;
             buf = fold (\<lambda>i buf. set_sp i (sp buf (i + 1) + i2) buf) [n + 1..sp buf 0 - 1] buf;
             buf = set_sp 0 (sp buf 0 - 1) buf
         in Some (set_sp (sp buf 0 + 1) 0 buf)))"

text \<open>The positions do not increase and leave room for the table; the last comparison is one of unsigned numbers.\<close>

definition chkblk :: "mem \<Rightarrow> bool" where
  "chkblk buf =
     (let ts = PBLKSIZ # map (\<lambda>i. sp buf (i + 1)) [0..sp buf 0 - 1]
      in sorted (rev ts) \<and> \<not> u32 (last ts) < u32 ((sp buf 0 + 1) * 2))"

section \<open>Hashing\<close>

definition hitab :: "int list" where
  "hitab = [61, 57, 53, 49, 45, 41, 37, 33, 29, 25, 21, 17, 13, 9, 5, 1]"

definition hltab :: "int list" where
  "hltab =
     [822137535, 823714782, 883626866, 671590471, 372503910, 558084953, 651519112, 1000238937,
      930436694, 814336635, 417934725, 215017944, 446577492, 1051365423, 228326062, 791852123,
      837640450, 1027376024, 342253795, 260918134, 46627423, 342656921, 474477855, 614436662,
      611786819, 532422221, 512144378, 937375398, 384643300, 46339214, 560879913, 104248142,
      830447446, 368090480, 319825659, 952599729, 699151109, 726162885, 1006935516, 900332493,
      836056891, 723806105, 170468307, 145321629, 805509791, 150283701, 862002182, 604625816,
      212139698, 268482334, 810970674, 960789809, 424556370, 136526485, 255393334, 700960087,
      259734073, 848202262, 511513480, 263878901, 659324540, 512484956, 799060155, 515294065]"

definition hash_digit :: "int \<Rightarrow> int \<times> int \<Rightarrow> int \<times> int" where
  "hash_digit f hs = (case hs of (hashi, hashl) \<Rightarrow>
     (let hashi = s32 (hashi + hitab ! nat (f AND 15)) in (hashi, s32 (hashl + hltab ! nat (hashi AND 63)))))"

definition calchash :: "int list \<Rightarrow> int" where
  "calchash item = snd (fold (\<lambda>f hs. hash_digit (drop_bit 4 f) (hash_digit f hs)) item (0, 0))"

text \<open>The next value of the masked hash code, counted from the highest bit of the mask down; 0 after the last one.\<close>

partial_function (option) hashinc_loop :: "int \<Rightarrow> int \<Rightarrow> int option" where
  "hashinc_loop hash bt =
     (let bt = drop_bit 1 bt in
      if bt = 0 then Some 0
      else if hash AND bt = 0 then Some (hash OR bt)
      else hashinc_loop (hash AND NOT bt) bt)"

definition hashinc :: "int \<Rightarrow> dbm \<Rightarrow> int option" where
  "hashinc hash s = hashinc_loop (hash AND hmask s) (s32 (hmask s + 1))"

section \<open>The directory\<close>

definition getbit :: "dbm \<Rightarrow> bool \<times> dbm" where
  "getbit s =
     (if bitno s > maxbno s then (False, s)
      else
        (let n = bitno s smod BYTESIZ; bn = bitno s sdiv BYTESIZ; i = bn smod DBLKSIZ; b = bn sdiv DBLKSIZ;
             s = (if b \<noteq> olddir s then s\<lparr>dirbuf := dirf s (s32 (b * DBLKSIZ)), olddir := b\<rparr> else s)
         in (dirbuf s (nat i) AND push_bit (nat n) 1 \<noteq> 0, s)))"

definition setbit :: "dbm \<Rightarrow> dbm" where
  "setbit s =
     (let s = (if bitno s > maxbno s then snd (getbit (s\<lparr>maxbno := bitno s\<rparr>)) else s);
          n = bitno s smod BYTESIZ; bn = bitno s sdiv BYTESIZ; i = bn smod DBLKSIZ; b = bn sdiv DBLKSIZ;
          s = s\<lparr>dirbuf := (dirbuf s)(nat i := u8 (dirbuf s (nat i) OR push_bit (nat n) 1))\<rparr>
      in s\<lparr>dirf := (dirf s)(s32 (b * DBLKSIZ) := dirbuf s)\<rparr>)"

text \<open>The loop of \<open>forder\<close> and \<open>dbm_access\<close>, with the mask of the next round.\<close>

partial_function (option) find_page :: "int \<Rightarrow> int \<Rightarrow> dbm \<Rightarrow> dbm option" where
  "find_page hash m s =
     (let s = s\<lparr>hmask := m, blkno := hash AND m, bitno := s32 ((hash AND m) + m)\<rparr> in
      case getbit s of (b, s) \<Rightarrow> if b then find_page hash (s32 (push_bit 1 m + 1)) s else Some s)"

definition forder :: "int list \<Rightarrow> dbm \<Rightarrow> (int \<times> dbm) option" where
  "forder key s = map_option (\<lambda>s. (blkno s, s)) (find_page (calchash key) 0 s)"

definition dbm_access :: "int \<Rightarrow> dbm \<Rightarrow> dbm dres option" where
  "dbm_access hash s =
     map_option (\<lambda>s.
       if blkno s \<noteq> oldpag s then
         (let s = s\<lparr>pagbuf := pagf s (s32 (blkno s * PBLKSIZ))\<rparr> in if chkblk (pagbuf s) then Done (s\<lparr>oldpag := blkno s\<rparr>) else Abort)
       else Done s) (find_page hash 0 s)"

section \<open>The operations\<close>

definition then_d :: "'a dres option \<Rightarrow> ('a \<Rightarrow> 'b dres option) \<Rightarrow> 'b dres option" where
  "then_d x f = Option.bind x (\<lambda>r. case r of Abort \<Rightarrow> Some Abort | Done s \<Rightarrow> f s)"

lemma then_d_simps [simp]:
  "then_d None f = None" "then_d (Some Abort) f = Some Abort" "then_d (Some (Done s)) f = f s"
  by (simp_all add: then_d_def)

lemma then_d_mono [partial_function_mono]:
  assumes "mono_option B" "\<And>s. mono_option (C s)"
  shows "mono_option (\<lambda>f. then_d (B f) (\<lambda>s. C s f))"
proof -
  have "mono_option (\<lambda>f. case r of Abort \<Rightarrow> Some Abort | Done s \<Rightarrow> C s f)" for r
    using assms(2) by (cases r) (simp_all add: monotone_def flat_ord_def fun_ord_def)
  then show ?thesis unfolding then_d_def by (rule bind_mono [OF assms(1)])
qed

text \<open>The index of the key in a page, from \<open>i\<close> on.\<close>

function find_key :: "mem \<Rightarrow> int list \<Rightarrow> int \<Rightarrow> int option" where
  "find_key buf key i =
     (case makdatum buf i of
        None \<Rightarrow> None
      | Some item \<Rightarrow> if cmpdatum key item = 0 then Some i else find_key buf key (i + 2))"
  by auto
termination
  by (relation "measure (\<lambda>(buf, key, i). nat (sp buf 0 - i))") (auto simp: makdatum_def split: if_splits)

declare find_key.simps [simp del]

definition fetch :: "int list \<Rightarrow> dbm \<Rightarrow> (int list option \<times> dbm) dres option" where
  "fetch key s =
     then_d (dbm_access (calchash key) s) (\<lambda>s.
       case find_key (pagbuf s) key 0 of
         None \<Rightarrow> Some (Done (None, s))
       | Some i \<Rightarrow> Some (Done (makdatum (pagbuf s) (i + 1), s)))"

definition delpair :: "mem \<Rightarrow> int \<Rightarrow> mem option" where
  "delpair buf i = Option.bind (delitem buf i) (\<lambda>buf. delitem buf i)"

definition write_page :: "dbm \<Rightarrow> dbm" where
  "write_page s = s\<lparr>pagf := (pagf s)(s32 (blkno s * PBLKSIZ) := pagbuf s)\<rparr>"

definition delete :: "int list \<Rightarrow> dbm \<Rightarrow> (int \<times> dbm) dres option" where
  "delete key s =
     then_d (dbm_access (calchash key) s) (\<lambda>s.
       case find_key (pagbuf s) key 0 of
         None \<Rightarrow> Some (Done (-1, s))
       | Some i \<Rightarrow>
           (case delpair (pagbuf s) i of
              None \<Rightarrow> Some Abort
            | Some buf \<Rightarrow> Some (Done (0, write_page (s\<lparr>pagbuf := buf\<rparr>)))))"

text \<open>
  The loop that moves the pairs whose hash code has the next bit from the page to \<open>ovf\<close>; a key without its datum
  ends it.
\<close>

partial_function (option) split_loop :: "int \<Rightarrow> int \<Rightarrow> mem \<Rightarrow> mem \<Rightarrow> (mem \<times> mem) dres option" where
  "split_loop m i buf ovf =
     (case makdatum buf i of
        None \<Rightarrow> Some (Done (buf, ovf))
      | Some item \<Rightarrow>
          if calchash item AND s32 (m + 1) \<noteq> 0 then
            (let ovf = snd (additem ovf item) in
             case delitem buf i of
               None \<Rightarrow> Some Abort
             | Some buf \<Rightarrow>
                 (case makdatum buf i of
                    None \<Rightarrow> Some (Done (buf, ovf))
                  | Some item \<Rightarrow>
                      (let ovf = snd (additem ovf item) in
                       case delitem buf i of None \<Rightarrow> Some Abort | Some buf \<Rightarrow> split_loop m i buf ovf)))
          else split_loop m (i + 2) buf ovf)"

definition split_page :: "dbm \<Rightarrow> dbm dres option" where
  "split_page s =
     then_d (split_loop (hmask s) 0 (pagbuf s) (\<lambda>_. 0)) (\<lambda>(buf, ovf).
       (let s = write_page (s\<lparr>pagbuf := buf\<rparr>);
            s = s\<lparr>pagf := (pagf s)(s32 (s32 (blkno s + hmask s + 1) * PBLKSIZ) := ovf)\<rparr>
        in Some (Done (setbit s))))"

text \<open>A pair into a page: whether there was room, and the page.\<close>

definition addpair :: "mem \<Rightarrow> int list \<Rightarrow> int list \<Rightarrow> (bool \<times> mem) option" where
  "addpair buf key dat =
     (case additem buf key of
        (i, buf) \<Rightarrow>
          if i < 0 then Some (False, buf)
          else
            (case additem buf dat of
               (j, buf) \<Rightarrow> if j < 0 then map_option (Pair False) (delitem buf i) else Some (True, buf)))"

partial_function (option) store :: "int list \<Rightarrow> int list \<Rightarrow> dbm \<Rightarrow> dbm dres option" where
  "store key dat s =
     then_d (dbm_access (calchash key) s) (\<lambda>s.
       case (case find_key (pagbuf s) key 0 of None \<Rightarrow> Some (pagbuf s) | Some i \<Rightarrow> delpair (pagbuf s) i) of
         None \<Rightarrow> Some Abort
       | Some buf \<Rightarrow>
           (case addpair buf key dat of
              None \<Rightarrow> Some Abort
            | Some (added, buf) \<Rightarrow>
                if added then Some (Done (write_page (s\<lparr>pagbuf := buf\<rparr>)))
                else if u32 (int (length key) + int (length dat) + 4) \<ge> u32 PBLKSIZ then Some (Done (s\<lparr>pagbuf := buf\<rparr>))
                else then_d (split_page (s\<lparr>pagbuf := buf\<rparr>)) (\<lambda>s. store key dat s)))"

text \<open>The largest key of a page, from \<open>i\<close> on, that the test admits.\<close>

function largest :: "mem \<Rightarrow> (int list \<Rightarrow> bool) \<Rightarrow> int list option \<Rightarrow> int \<Rightarrow> int list option" where
  "largest buf P best i =
     (case makdatum buf i of
        None \<Rightarrow> best
      | Some item \<Rightarrow>
          largest buf P (if P item \<and> (best = None \<or> cmpdatum (the best) item < 0) then Some item else best) (i + 2))"
  by auto
termination
  by (relation "measure (\<lambda>(buf, P, best, i). nat (sp buf 0 - i))") (auto simp: makdatum_def split: if_splits)

declare largest.simps [simp del]

partial_function (option) firsthash :: "int \<Rightarrow> dbm \<Rightarrow> (int list option \<times> dbm) dres option" where
  "firsthash hash s =
     then_d (dbm_access hash s) (\<lambda>s.
       case largest (pagbuf s) (\<lambda>_. True) (makdatum (pagbuf s) 0) 2 of
         Some bitem \<Rightarrow> Some (Done (Some bitem, s))
       | None \<Rightarrow>
           Option.bind (hashinc hash s) (\<lambda>hash. if hash = 0 then Some (Done (None, s)) else firsthash hash s))"

definition firstkey :: "dbm \<Rightarrow> (int list option \<times> dbm) dres option" where
  "firstkey s = firsthash 0 s"

definition nextkey :: "int list \<Rightarrow> dbm \<Rightarrow> (int list option \<times> dbm) dres option" where
  "nextkey key s =
     then_d (dbm_access (calchash key) s) (\<lambda>s.
       case largest (pagbuf s) (\<lambda>item. cmpdatum key item > 0) None 0 of
         Some bitem \<Rightarrow> Some (Done (Some bitem, s))
       | None \<Rightarrow>
           Option.bind (hashinc (calchash key) s) (\<lambda>hash. if hash = 0 then Some (Done (None, s)) else firsthash hash s))"

declare hashinc_loop.simps [code] find_page.simps [code] split_loop.simps [code] store.simps [code] firsthash.simps [code]

section \<open>Pages as lists of items\<close>

text \<open>The items of a page lie from its end downwards, so that their bytes are those of the list in reverse order.\<close>

definition page_rep :: "mem \<Rightarrow> int list list \<Rightarrow> bool" where
  "page_rep buf its \<longleftrightarrow>
     sp buf 0 = int (length its) \<and>
     (\<forall>i < length its. sp buf (int i + 1) = 512 - int (length (concat (take (Suc i) its)))) \<and>
     length (concat its) + 2 * (length its + 1) < 512 \<and>
     (\<forall>k < length (concat its). buf (512 - length (concat its) + k) = concat (rev its) ! k)"

lemma s16_small: "0 \<le> v \<Longrightarrow> v \<le> 1024 \<Longrightarrow> s16 v = v"
  by (rule s16_id) simp_all

lemma sp_set_sp: "0 \<le> k \<Longrightarrow> 0 \<le> j \<Longrightarrow> sp (set_sp k v buf) j = (if j = k then s16 v else sp buf j)"
proof -
  assume kj: "0 \<le> k" "0 \<le> j"
  have "s16 (u16 v) = s16 v" by (simp add: s16_def u16_def mod_simps)
  moreover have "get16 (put16 a v m) b = get16 m b" if "a + 2 \<le> b \<or> b + 2 \<le> a" for a b m
    using that by (auto simp: get16_def put16_def put8s_out)
  moreover have "2 * nat k + 2 \<le> 2 * nat j \<or> 2 * nat j + 2 \<le> 2 * nat k" if "j \<noteq> k" using that kj by auto
  ultimately show ?thesis using kj by (cases "j = k") (auto simp: sp_def set_sp_def get16_put16)
qed

lemma sp_frame: "(\<And>p. p < 2 * nat j + 2 \<Longrightarrow> buf' p = buf p) \<Longrightarrow> sp buf' j = sp buf j"
  by (simp add: sp_def get16_def)

lemma set_sp_byte: "2 * nat k + 2 \<le> p \<Longrightarrow> set_sp k v buf p = buf p"
  by (simp add: set_sp_def put16_def put8s_out)

lemma length_concat_rev [simp]: "length (concat (rev xs)) = length (concat xs)"
  by (induction xs) auto

lemma page_rep_size: "page_rep buf its \<Longrightarrow> length (concat its) < 512 \<and> length its < 512"
  by (simp add: page_rep_def)

lemma page_rep_item:
  assumes "page_rep buf (as @ x # bs)" "k < length x"
  shows "buf (512 - length (concat (as @ [x])) + k) = x ! k"
proof -
  define its where "its = as @ x # bs"
  let ?b = "length (concat bs)"
  have all: "k < length (concat its) \<Longrightarrow> buf (512 - length (concat its) + k) = concat (rev its) ! k" for k
    using assms(1) unfolding page_rep_def its_def by blast
  have len: "length (concat (as @ x # bs)) = length (concat as) + length x + ?b" by simp
  have "length (concat (as @ x # bs)) < 512" using page_rep_size [OF assms(1)] by blast
  then have "512 - length (concat (as @ [x])) + k = 512 - length (concat (as @ x # bs)) + (?b + k)" by simp
  also have "buf \<dots> = concat (rev (as @ x # bs)) ! (?b + k)"
    using all [of "?b + k"] assms(2) len unfolding its_def by simp
  also have "concat (rev (as @ x # bs)) = concat (rev bs) @ x @ concat (rev as)" by simp
  also have "\<dots> ! (?b + k) = x ! k" using assms(2) by (simp add: nth_append)
  finally show ?thesis .
qed

lemma page_rep_sp:
  assumes "page_rep buf (as @ x # bs)"
  shows "sp buf 0 = int (length as + length bs + 1)" "sp buf (int (length as) + 1) = 512 - int (length (concat (as @ [x])))"
    "as \<noteq> [] \<Longrightarrow> sp buf (int (length as)) = 512 - int (length (concat as))"
proof -
  show "sp buf 0 = int (length as + length bs + 1)" "sp buf (int (length as) + 1) = 512 - int (length (concat (as @ [x])))"
    using assms unfolding page_rep_def by simp_all
  show "sp buf (int (length as)) = 512 - int (length (concat as))" if ne: "as \<noteq> []"
  proof -
    obtain n where n: "length as = Suc n" using ne by (cases as) auto
    then have "sp buf (int n + 1) = 512 - int (length (concat (take (Suc n) (as @ x # bs))))"
      using assms unfolding page_rep_def by auto
    with n show ?thesis by (simp add: add.commute)
  qed
qed

lemma makdatum_rep: "page_rep buf its \<Longrightarrow> makdatum buf (int n) = (if n < length its then Some (its ! n) else None)"
proof (cases "n < length its")
  case True
  assume rep: "page_rep buf its"
  define as x bs where "as = take n its" and "x = its ! n" and "bs = drop (Suc n) its"
  have its: "its = as @ x # bs" using True by (simp add: as_def x_def bs_def id_take_nth_drop)
  have n: "length as = n" using True by (simp add: as_def)
  note s = page_rep_sp [OF rep [unfolded its]]
  have size: "length (concat (as @ x # bs)) < 512" using page_rep_size [OF rep] its by simp
  have t: "(if 0 < int n then sp buf (int n) else 512) = 512 - int (length (concat as))" using s(3) n by (cases as) auto
  have p: "sp buf (int n + 1) = 512 - int (length (concat (as @ [x])))" using s(2) n by simp
  have np: "nat (sp buf (int n + 1)) = 512 - length (concat (as @ [x]))" unfolding p by simp
  have "map (\<lambda>k. buf (nat (sp buf (int n + 1)) + k)) [0..<length x] = x"
    unfolding np by (rule nth_equalityI) (use page_rep_item [OF rep [unfolded its]] in auto)
  moreover have "nat (512 - int (length (concat as)) - sp buf (int n + 1)) = length x" unfolding p by simp
  ultimately show ?thesis using True t s(1) n by (simp add: makdatum_def x_def Let_def)
qed (simp add: makdatum_def page_rep_def)

text \<open>\<open>additem\<close> appends, or refuses when the page is too full.\<close>

lemma page_rep_last: "page_rep buf its \<Longrightarrow> (if sp buf 0 > 0 then sp buf (sp buf 0) else 512) = 512 - int (length (concat its))"
proof (cases its rule: rev_cases)
  case Nil then show "page_rep buf its \<Longrightarrow> ?thesis" by (simp add: page_rep_def)
next
  case (snoc as x)
  assume "page_rep buf its"
  with snoc page_rep_sp [of buf as x "[]"] show ?thesis by (simp add: add.commute)
qed

lemma additem_room:
  assumes rep: "page_rep buf its" and room: "length (concat its) + length x + 2 * (length its + 2) < 512"
  shows "\<exists>buf'. additem buf x = (int (length its), buf') \<and> page_rep buf' (its @ [x])"
proof -
  define i where "i = 512 - length (concat its) - length x"
  let ?n = "length its"
  have i: "2 * (?n + 2) < i" "i + length x + length (concat its) = 512" using room by (auto simp: i_def)
  have n: "sp buf 0 = int ?n" using rep by (simp add: page_rep_def)
  define b1 where "b1 = set_sp (int ?n + 1) (int i) buf"
  define b2 where "b2 = put8s i x b1"
  define b3 where "b3 = set_sp 0 (int ?n + 1) b2"
  have sp1: "sp b1 j = (if j = int ?n + 1 then int i else sp buf j)" if "0 \<le> j" for j
    using that i(2) by (simp add: b1_def sp_set_sp s16_small)
  have sp2: "sp b2 j = sp b1 j" if "j \<le> int ?n + 1" for j
  proof -
    have "nat j \<le> ?n + 1" using that by simp
    with i(1) show ?thesis unfolding b2_def by (intro sp_frame) (simp add: put8s_out)
  qed
  have sp3: "sp b3 j = (if j = 0 then int ?n + 1 else if j = int ?n + 1 then int i else sp buf j)" if "0 \<le> j" "j \<le> int ?n + 1" for j
    using that sp1 sp2 i by (simp add: b3_def sp_set_sp s16_small)
  have l: "(if sp buf 0 > 0 then sp buf (sp buf 0) else 512) - int (length x) = int i"
    unfolding page_rep_last [OF rep] using i(2) by simp
  have "\<not> int i \<le> (int ?n + 2) * 2" using i(1) by simp
  then have "additem buf x = (let b = set_sp 0 (sp b2 0 + 1) b2 in (sp b 0 - 1, b))"
    unfolding additem_def Let_def n l [unfolded n] nat_int b2_def b1_def by (simp only: if_False)
  then have "additem buf x = (sp b3 0 - 1, b3)"
    using n sp2 [of 0] sp1 [of 0] by (simp add: b3_def Let_def)
  moreover have "page_rep b3 (its @ [x])"
    unfolding page_rep_def
  proof (intro conjI allI impI)
    fix j assume j: "j < length (its @ [x])"
    show "sp b3 (int j + 1) = 512 - int (length (concat (take (Suc j) (its @ [x]))))"
    proof (cases "j = ?n")
      case True
      with sp3 [of "int ?n + 1"] i(2) show ?thesis by simp
    next
      case False
      with sp3 [of "int j + 1"] j rep show ?thesis by (simp add: page_rep_def)
    qed
  next
    fix k assume k: "k < length (concat (its @ [x]))"
    have p: "512 - length (concat (its @ [x])) + k = i + k" using i(2) by simp
    have "b3 (i + k) = b2 (i + k)" unfolding b3_def by (rule set_sp_byte) (use i(1) in simp)
    also have "\<dots> = (x @ concat (rev its)) ! k"
    proof (cases "k < length x")
      case False
      have "b2 (i + k) = b1 (i + k)" using False by (simp add: b2_def put8s_out)
      also have "\<dots> = buf (i + k)" unfolding b1_def by (rule set_sp_byte) (use i(1) in simp)
      also have "buf (i + k) = concat (rev its) ! (k - length x)"
      proof -
        have "k - length x < length (concat its)" "i + k = 512 - length (concat its) + (k - length x)" using k False i(2) by simp_all
        then show ?thesis using rep unfolding page_rep_def by metis
      qed
      finally show ?thesis using False by (simp add: nth_append)
    qed (simp add: b2_def put8s_in nth_append)
    finally show "b3 (512 - length (concat (its @ [x])) + k) = concat (rev (its @ [x])) ! k" unfolding p by simp
  qed (use sp3 [of 0] i room in auto)
  ultimately show ?thesis using sp3 [of 0] by auto
qed

lemma additem_full:
  "page_rep buf its \<Longrightarrow> \<not> length (concat its) + length x + 2 * (length its + 2) < 512 \<Longrightarrow> additem buf x = (-1, buf)"
  using page_rep_last [of buf its] by (auto simp: additem_def Let_def page_rep_def)

lemma move_up_moves:
  assumes "0 < z"
  shows "\<exists>buf'. move_up (int (a + n)) (int (a + n + z)) (int a) buf = (int a, int (a + z), buf') \<and>
    (\<forall>p. a + z \<le> p \<and> p < a + n + z \<longrightarrow> buf' p = buf (p - z)) \<and> (\<forall>p. p < a \<or> a + n + z \<le> p \<longrightarrow> buf' p = buf p)"
proof (induction n arbitrary: buf)
  case 0
  show ?case by (subst move_up.simps) auto
next
  case (Suc n)
  define buf1 where "buf1 = buf(a + n + z := buf (a + n), a + n := 0)"
  have i: "int (a + Suc n) - 1 = int (a + n)" "int (a + Suc n + z) - 1 = int (a + n + z)" by simp_all
  have "move_up (int (a + Suc n)) (int (a + Suc n + z)) (int a) buf = move_up (int (a + n)) (int (a + n + z)) (int a) buf1"
    unfolding buf1_def by (subst move_up.simps) (simp only: i nat_int of_nat_less_iff, simp)
  moreover obtain buf' where b: "move_up (int (a + n)) (int (a + n + z)) (int a) buf1 = (int a, int (a + z), buf')"
      "\<And>p. a + z \<le> p \<Longrightarrow> p < a + n + z \<Longrightarrow> buf' p = buf1 (p - z)" "\<And>p. p < a \<or> a + n + z \<le> p \<Longrightarrow> buf' p = buf1 p"
    using Suc [of buf1] by blast
  have "buf' p = buf (p - z)" if "a + z \<le> p" "p < a + Suc n + z" for p
  proof (cases "p = a + n + z")
    case True
    with b(3) [of p] assms show ?thesis by (simp add: buf1_def)
  next
    case False
    with that b(2) [of p] show ?thesis by (auto simp: buf1_def)
  qed
  moreover have "buf' p = buf p" if "p < a \<or> a + Suc n + z \<le> p" for p
    using b(3) [of p] that by (auto simp: buf1_def)
  ultimately show ?case using b(1) by auto
qed

lemma shift_table:
  "1 \<le> a \<Longrightarrow> (\<forall>j \<ge> 0. sp (fold (\<lambda>i buf. set_sp i (sp buf (i + 1) + z) buf) [a..a + int n - 1] buf) j =
      (if a \<le> j \<and> j \<le> a + int n - 1 then s16 (sp buf (j + 1) + z) else sp buf j)) \<and>
    (\<forall>p. 2 * nat (a + int n) \<le> p \<longrightarrow> fold (\<lambda>i buf. set_sp i (sp buf (i + 1) + z) buf) [a..a + int n - 1] buf p = buf p)"
proof (induction n arbitrary: a buf)
  case (Suc n)
  let ?f = "\<lambda>i buf. set_sp i (sp buf (i + 1) + z) buf"
  define b1 where "b1 = set_sp a (sp buf (a + 1) + z) buf"
  have u: "[a..a + int (Suc n) - 1] = a # [a + 1..(a + 1) + int n - 1]" by (simp add: upto_rec1 algebra_simps)
  have e: "fold ?f [a..a + int (Suc n) - 1] buf = fold ?f [a + 1..(a + 1) + int n - 1] b1" unfolding u by (simp add: b1_def)
  have IH: "0 \<le> j \<Longrightarrow> sp (fold ?f [a + 1..(a + 1) + int n - 1] b1) j =
      (if a + 1 \<le> j \<and> j \<le> (a + 1) + int n - 1 then s16 (sp b1 (j + 1) + z) else sp b1 j)"
      "2 * nat ((a + 1) + int n) \<le> p \<Longrightarrow> fold ?f [a + 1..(a + 1) + int n - 1] b1 p = b1 p" for j p
    using Suc.IH [of "a + 1" b1] Suc.prems by auto
  have b1: "0 \<le> j \<Longrightarrow> sp b1 j = (if j = a then s16 (sp buf (a + 1) + z) else sp buf j)" for j
    using Suc.prems by (simp add: b1_def sp_set_sp)
  have b2: "2 * nat a + 2 \<le> p \<Longrightarrow> b1 p = buf p" for p unfolding b1_def by (rule set_sp_byte)
  have "sp (fold ?f [a..a + int (Suc n) - 1] buf) j =
      (if a \<le> j \<and> j \<le> a + int (Suc n) - 1 then s16 (sp buf (j + 1) + z) else sp buf j)" if "0 \<le> j" for j
    unfolding e using IH(1) [OF that] b1 [of j] b1 [of "j + 1"] that Suc.prems by (cases "j = a") auto
  moreover have "fold ?f [a..a + int (Suc n) - 1] buf p = buf p" if "2 * nat (a + int (Suc n)) \<le> p" for p
    unfolding e using IH(2) [of p] b2 [of p] that Suc.prems by simp
  ultimately show ?case by blast
qed simp

text \<open>\<open>delitem\<close> removes the item.\<close>

lemma delitem_rep:
  assumes rep: "page_rep buf (as @ x # bs)"
  shows "\<exists>buf'. delitem buf (int (length as)) = Some buf' \<and> page_rep buf' (as @ bs)"
proof -
  define its where "its = as @ x # bs"
  let ?n = "length as" and ?N = "length as + length bs + 1" and ?z = "length x" and ?off = "512 - length (concat its)"
  note s = page_rep_sp [OF rep]
  have len: "length (concat its) = length (concat as) + ?z + length (concat bs)" by (simp add: its_def)
  have room: "length (concat its) + 2 * (?N + 1) < 512" using rep by (simp add: page_rep_def its_def)
  have i3: "sp buf (sp buf 0) = int ?off"
    using page_rep_last [OF rep] room s(1) by (simp add: its_def)
  have i1: "sp buf (int ?n + 1) = int (?off + length (concat bs))" using s(2) room len by simp
  have i2: "(if int ?n > 0 then sp buf (int ?n) else 512) = int (?off + length (concat bs) + ?z)"
    using s(3) room len by (cases as) auto
  have all: "k < length (concat its) \<Longrightarrow> buf (?off + k) = concat (rev its) ! k" for k
    using rep unfolding page_rep_def its_def by blast
  obtain q buf1 where b1: "(if int (?off + length (concat bs) + ?z) > int (?off + length (concat bs))
        then move_up (int (?off + length (concat bs))) (int (?off + length (concat bs) + ?z)) (int ?off) buf
        else (int (?off + length (concat bs)), int (?off + length (concat bs) + ?z), buf)) = (q, q + int ?z, buf1)"
      "\<And>p. ?off + ?z \<le> p \<Longrightarrow> p < ?off + length (concat bs) + ?z \<Longrightarrow> buf1 p = buf (p - ?z)"
      "\<And>p. p < ?off \<or> ?off + length (concat bs) + ?z \<le> p \<Longrightarrow> buf1 p = buf p"
  proof (cases "?z = 0")
    case False
    with move_up_moves [of ?z ?off "length (concat bs)" buf] that show ?thesis by auto
  qed (use that in auto)
  have t1: "sp buf1 j = sp buf j" if "0 \<le> j" "j \<le> int ?N" for j
  proof (rule sp_frame)
    fix p assume "p < 2 * nat j + 2"
    then have "p < ?off" using that room by simp
    then show "buf1 p = buf p" by (rule b1(3) [OF disjI1])
  qed
  define buf2 where "buf2 = fold (\<lambda>i buf. set_sp i (sp buf (i + 1) + int ?z) buf) [int ?n + 1..int ?N - 1] buf1"
  have t2: "sp buf2 j = (if int ?n + 1 \<le> j \<and> j \<le> int ?N - 1 then s16 (sp buf1 (j + 1) + int ?z) else sp buf1 j)" if "0 \<le> j" for j
    using shift_table [of "int ?n + 1" "int ?z" "length bs" buf1] that unfolding buf2_def by (simp add: algebra_simps)
  have f2: "buf2 p = buf1 p" if "2 * ?N \<le> p" for p
    using shift_table [of "int ?n + 1" "int ?z" "length bs" buf1] that unfolding buf2_def by (simp add: algebra_simps nat_add_distrib)
  define buf3 where "buf3 = set_sp 0 (int ?N - 1) buf2"
  define buf4 where "buf4 = set_sp (int ?N) 0 buf3"
  have t3: "sp buf3 0 = int ?N - 1" using room by (simp add: buf3_def sp_set_sp s16_small)
  have t4: "sp buf4 j = (if j = 0 then int ?N - 1 else sp buf2 j)" if "0 \<le> j" "j < int ?N" for j
    using that t3 by (simp add: buf4_def buf3_def sp_set_sp)
  have f4: "buf4 p = buf1 p" if "2 * ?N + 2 \<le> p" for p
    using that f2 [of p] set_sp_byte [of "int ?N" p 0 buf3] set_sp_byte [of 0 p "int ?N - 1" buf2] by (simp add: buf4_def buf3_def)
  have h: "sp buf1 0 = int ?N" "sp buf2 0 = int ?N" using t1 [of 0] t2 [of 0] s(1) by simp_all
  have n: "\<not> (int ?n < 0 \<or> int ?n \<ge> sp buf 0)" using s(1) by simp
  have "delitem buf (int ?n) = Some (let buf3 = set_sp 0 (sp buf2 0 - 1) buf2 in set_sp (sp buf3 0 + 1) 0 buf3)"
    unfolding delitem_def i1 i2 i3 unfolding Let_def b1(1) prod.case h(1) add_diff_cancel_left' using n by (simp add: buf2_def)
  then have "delitem buf (int ?n) = Some buf4"
    using t3 unfolding h(2) Let_def buf3_def [symmetric] by (simp add: buf4_def add.commute)
  moreover have "page_rep buf4 (as @ bs)"
    unfolding page_rep_def
  proof (intro conjI allI impI)
    fix i assume i: "i < length (as @ bs)"
    have old: "sp buf (int j + 1) = 512 - int (length (concat (take (Suc j) its)))" if "j < ?N" for j
      using rep that unfolding page_rep_def its_def by auto
    have "sp buf4 (int i + 1) = sp buf2 (int i + 1)" using t4 [of "int i + 1"] i by simp
    also have "\<dots> = 512 - int (length (concat (take (Suc i) (as @ bs))))"
    proof (cases "i < ?n")
      case True
      then show ?thesis using t2 [of "int i + 1"] t1 [of "int i + 1"] old [of i] i by (simp add: its_def)
    next
      case False
      have "length (concat (take (Suc (Suc i)) its)) = length (concat (take (Suc i) (as @ bs))) + ?z"
        using False by (simp add: its_def Suc_diff_le)
      moreover have "length (concat (take (Suc i) (as @ bs))) \<le> length (concat (as @ bs))"
        by (metis append_take_drop_id concat_append length_append le_add1)
      moreover have "length (concat (as @ bs)) < 512" using len room by simp
      ultimately show ?thesis using t2 [of "int i + 1"] t1 [of "int i + 2"] old [of "Suc i"] i False
        by (simp add: s16_small add.commute)
    qed
    finally show "sp buf4 (int i + 1) = 512 - int (length (concat (take (Suc i) (as @ bs))))" .
  next
    fix k assume k: "k < length (concat (as @ bs))"
    have p: "512 - length (concat (as @ bs)) + k = ?off + ?z + k" using len room by simp
    have "buf4 (?off + ?z + k) = buf1 (?off + ?z + k)" by (rule f4) (use room in simp)
    also have "\<dots> = concat (rev (as @ bs)) ! k"
    proof (cases "k < length (concat bs)")
      case True
      have "buf1 (?off + ?z + k) = buf (?off + k)" using b1(2) [of "?off + ?z + k"] True by simp
      with all [of k] True len show ?thesis by (simp add: its_def nth_append)
    next
      case False
      have "buf1 (?off + ?z + k) = buf (?off + (?z + k))" using b1(3) [of "?off + ?z + k"] False by (simp add: add.assoc)
      also have "\<dots> = concat (rev its) ! (?z + k)" using all [of "?z + k"] k len by simp
      also have "\<dots> = (x @ concat (rev as)) ! (?z + (k - length (concat bs)))"
        using False by (simp add: its_def nth_append_right)
      also have "\<dots> = concat (rev (as @ bs)) ! k" using False by (simp add: nth_append_length_plus nth_append_right)
      finally show ?thesis .
    qed
    finally show "buf4 (512 - length (concat (as @ bs)) + k) = concat (rev (as @ bs)) ! k" unfolding p .
  qed (use t4 [of 0] room len in auto)
  ultimately show ?thesis by blast
qed

section \<open>Pages as lists of pairs\<close>

definition flat :: "(int list \<times> int list) list \<Rightarrow> int list list" where
  "flat ps = concat (map (\<lambda>(k, v). [k, v]) ps)"

definition weight :: "(int list \<times> int list) list \<Rightarrow> nat" where
  "weight ps = sum_list (map (\<lambda>(k, v). length k + length v + 4) ps)"

lemma flat_simps [simp]: "flat [] = []" "flat ((k, v) # ps) = k # v # flat ps" "flat (ps @ qs) = flat ps @ flat qs"
  by (simp_all add: flat_def)

lemma weight_simps [simp]:
  "weight [] = 0" "weight ((k, v) # ps) = length k + length v + 4 + weight ps" "weight (ps @ qs) = weight ps + weight qs"
  by (simp_all add: weight_def)

lemma length_flat [simp]: "length (flat ps) = 2 * length ps"
  by (induction ps) auto

lemma weight_flat: "length (concat (flat ps)) + 4 * length ps = weight ps"
  by (induction ps) auto

lemma page_rep_weight: "page_rep buf (flat ps) \<Longrightarrow> weight ps + 2 < 512"
  using weight_flat [of ps] by (simp add: page_rep_def)

lemma empty_page: "page_rep (\<lambda>_. 0) (flat [])"
  by (simp add: page_rep_def sp_def get16_def le16_def)

lemma first_difference_0: "length a = length b \<Longrightarrow> first_difference a b = 0 \<longleftrightarrow> a = b"
  by (induction a b rule: list_induct2) auto

lemma cmpdatum_0 [simp]: "cmpdatum a b = 0 \<longleftrightarrow> a = b"
  using first_difference_0 [of a b] by (auto simp: cmpdatum_def)

lemma datum_key: "page_rep buf (flat (as @ (k, v) # bs)) \<Longrightarrow> makdatum buf (int (2 * length as)) = Some k"
  using makdatum_rep [of buf _ "2 * length as"] by (simp add: nth_append)

lemma datum_value: "page_rep buf (flat (as @ (k, v) # bs)) \<Longrightarrow> makdatum buf (int (2 * length as) + 1) = Some v"
  using makdatum_rep [of buf _ "2 * length as + 1"] by (simp add: nth_append add.commute)

lemma datum_end: "page_rep buf (flat as) \<Longrightarrow> makdatum buf (int (2 * length as)) = None"
  using makdatum_rep [of buf _ "2 * length as"] by simp

text \<open>A page that represents a list passes the check.\<close>

lemma sorted_positions: "sorted (rev (512 # map (\<lambda>i. 512 - int (length (concat (take (Suc i) its)))) [0..<length its]))"
proof -
  have le: "length (concat (take i its)) \<le> length (concat (take j its))" if "i \<le> j" for i j
  proof -
    have "take j its = take i its @ take (j - i) (drop i its)" using that by (metis take_add le_add_diff_inverse)
    then show ?thesis by simp
  qed
  let ?ts = "map (\<lambda>i. 512 - int (length (concat (take i its)))) [0..<Suc (length its)]"
  have "512 # map (\<lambda>i. 512 - int (length (concat (take (Suc i) its)))) [0..<length its] = ?ts"
    by (simp add: upt_conv_Cons map_Suc_upt [symmetric] comp_def del: upt_Suc)
  moreover have "sorted (rev ?ts)" unfolding sorted_rev_iff_nth_mono using le by (auto simp del: upt_Suc)
  ultimately show ?thesis by metis
qed

lemma chkblk_rep: assumes rep: "page_rep buf its" shows "chkblk buf"
proof -
  have n: "sp buf 0 = int (length its)" using rep by (simp add: page_rep_def)
  have "map (\<lambda>i. sp buf (i + 1)) [0..int (length its) - 1] = map (\<lambda>i. 512 - int (length (concat (take (Suc i) its)))) [0..<length its]"
    by (rule nth_equalityI) (use rep in \<open>auto simp: page_rep_def\<close>)
  then have ts: "512 # map (\<lambda>i. sp buf (i + 1)) [0..sp buf 0 - 1] = 512 # map (\<lambda>i. 512 - int (length (concat (take (Suc i) its)))) [0..<length its]"
    by (simp add: n)
  have l: "last (512 # map (\<lambda>i. 512 - int (length (concat (take (Suc i) its)))) [0..<length its]) = 512 - int (length (concat its))"
    by (cases "length its") (auto simp: last_map)
  have "\<not> u32 (512 - int (length (concat its))) < u32 ((int (length its) + 1) * 2)"
    using rep by (simp add: page_rep_def u32_id)
  with sorted_positions [of its] show ?thesis unfolding chkblk_def Let_def n ts [unfolded n] l by blast
qed

lemma find_key_absent:
  "page_rep buf (flat (as @ bs)) \<Longrightarrow> key \<notin> fst ` set bs \<Longrightarrow> find_key buf key (int (2 * length as)) = None"
proof (induction bs arbitrary: as)
  case Nil
  then show ?case using datum_end [of buf as] by (subst find_key.simps) simp
next
  case (Cons p bs)
  obtain k v where p: "p = (k, v)" by (cases p)
  have "find_key buf key (int (2 * length (as @ [p]))) = None" using Cons.IH [of "as @ [p]"] Cons.prems by simp
  moreover have "int (2 * length (as @ [p])) = int (2 * length as) + 2" by simp
  ultimately show ?case using datum_key [of buf as k v bs] Cons.prems p by (subst find_key.simps) (simp add: add.commute)
qed

lemma find_key_present:
  "page_rep buf (flat (as @ bs @ (key, v) # cs)) \<Longrightarrow> key \<notin> fst ` set bs \<Longrightarrow>
   find_key buf key (int (2 * length as)) = Some (int (2 * length (as @ bs)))"
proof (induction bs arbitrary: as)
  case Nil
  then show ?case using datum_key [of buf as key v cs] by (subst find_key.simps) simp
next
  case (Cons p bs)
  obtain k w where p: "p = (k, w)" by (cases p)
  have "find_key buf key (int (2 * length (as @ [p]))) = Some (int (2 * length ((as @ [p]) @ bs)))"
    using Cons.IH [of "as @ [p]"] Cons.prems by simp
  moreover have "int (2 * length (as @ [p])) = int (2 * length as) + 2" by simp
  ultimately show ?case using datum_key [of buf as k w "bs @ (key, v) # cs"] Cons.prems p by (subst find_key.simps) (simp add: add.commute)
qed

lemma delpair_rep:
  assumes "page_rep buf (flat (as @ (k, v) # bs))"
  shows "\<exists>buf'. delpair buf (int (2 * length as)) = Some buf' \<and> page_rep buf' (flat (as @ bs))"
proof -
  obtain b1 where b1: "delitem buf (int (length (flat as))) = Some b1" "page_rep b1 (flat as @ v # flat bs)"
    using delitem_rep [of buf "flat as" k "v # flat bs"] assms by auto
  obtain b2 where "delitem b1 (int (length (flat as))) = Some b2" "page_rep b2 (flat as @ flat bs)"
    using delitem_rep [OF b1(2)] by auto
  with b1 show ?thesis by (simp add: delpair_def)
qed

text \<open>A pair has room when its weight and two more bytes do not fill the page.\<close>

lemma addpair_rep:
  assumes rep: "page_rep buf (flat ps)"
  shows "\<exists>buf'. addpair buf k v = Some (weight ps + length k + length v + 6 < 512, buf') \<and>
    page_rep buf' (flat (if weight ps + length k + length v + 6 < 512 then ps @ [(k, v)] else ps))"
proof -
  have w: "length (concat (flat ps)) + 4 * length ps = weight ps" by (rule weight_flat)
  show ?thesis
  proof (cases "length (concat (flat ps)) + length k + 2 * (length (flat ps) + 2) < 512")
    case False
    with w have "\<not> weight ps + length k + length v + 6 < 512" by simp
    with additem_full [OF rep False] rep show ?thesis by (simp add: addpair_def)
  next
    case True
    obtain b1 where b1: "additem buf k = (int (length (flat ps)), b1)" "page_rep b1 (flat ps @ [k])"
      using additem_room [OF rep True] by blast
    have l: "length (concat (flat ps @ [k])) + length v + 2 * (length (flat ps @ [k]) + 2) = weight ps + length k + length v + 6"
      using w by simp
    show ?thesis
    proof (cases "weight ps + length k + length v + 6 < 512")
      case True
      then obtain b2 where b2: "additem b1 v = (int (length (flat ps @ [k])), b2)" "page_rep b2 ((flat ps @ [k]) @ [v])"
        using additem_room [OF b1(2)] l by metis
      with b1 True show ?thesis by (simp add: addpair_def)
    next
      case False
      have "additem b1 v = (-1, b1)" by (rule additem_full [OF b1(2)]) (use l False in simp)
      moreover obtain b2 where "delitem b1 (int (length (flat ps))) = Some b2" "page_rep b2 (flat ps)"
        using delitem_rep [of b1 "flat ps" k "[]"] b1(2) by auto
      ultimately show ?thesis using b1 False by (simp add: addpair_def)
    qed
  qed
qed

definition moves :: "int \<Rightarrow> int list \<times> int list \<Rightarrow> bool" where
  "moves m p = (calchash (fst p) AND s32 (m + 1) \<noteq> 0)"

lemma split_loop_rep:
  "page_rep buf (flat (as @ bs)) \<Longrightarrow> page_rep ovf (flat os) \<Longrightarrow> weight (os @ bs) + 2 < 512 \<Longrightarrow>
   \<exists>buf' ovf'. split_loop m (int (2 * length as)) buf ovf = Some (Done (buf', ovf')) \<and>
     page_rep buf' (flat (as @ filter (\<lambda>p. \<not> moves m p) bs)) \<and> page_rep ovf' (flat (os @ filter (moves m) bs))"
proof (induction bs arbitrary: as os buf ovf)
  case Nil
  then show ?case using datum_end [of buf as] by (subst split_loop.simps) simp
next
  case (Cons p bs)
  obtain k v where p: "p = (k, v)" by (cases p)
  note d = datum_key [of buf as k v bs]
  show ?case
  proof (cases "moves m p")
    case False
    have "calchash k AND s32 (m + 1) = 0" using False p by (simp add: moves_def)
    with d Cons.prems(1) p have "split_loop m (int (2 * length as)) buf ovf = split_loop m (int (2 * length (as @ [p]))) buf ovf"
      by (subst split_loop.simps) (simp add: add.commute)
    with Cons.IH [of buf "as @ [p]" ovf os] Cons.prems False p show ?thesis by simp
  next
    case True
    have w: "length (concat (flat os)) + 4 * length os = weight os" by (rule weight_flat)
    obtain o1 where o1: "additem ovf k = (int (length (flat os)), o1)" "page_rep o1 (flat os @ [k])"
      using additem_room [OF Cons.prems(2), of k] Cons.prems(3) w p by auto
    obtain o2 where o2: "additem o1 v = (int (length (flat os @ [k])), o2)" "page_rep o2 (flat (os @ [p]))"
      using additem_room [OF o1(2), of v] Cons.prems(3) w p by auto
    obtain b1 where b1: "delitem buf (int (length (flat as))) = Some b1" "page_rep b1 (flat as @ v # flat bs)"
      using delitem_rep [of buf "flat as" k "v # flat bs"] Cons.prems(1) p by auto
    obtain b2 where b2: "delitem b1 (int (length (flat as))) = Some b2" "page_rep b2 (flat as @ flat bs)"
      using delitem_rep [OF b1(2)] by auto
    have d1: "makdatum b1 (int (2 * length as)) = Some v"
      using makdatum_rep [OF b1(2), of "2 * length as"] by (simp add: nth_append)
    obtain buf' ovf' where r: "split_loop m (int (2 * length as)) b2 o2 = Some (Done (buf', ovf'))"
      "page_rep buf' (flat (as @ filter (\<lambda>p. \<not> moves m p) bs))" "page_rep ovf' (flat ((os @ [p]) @ filter (moves m) bs))"
      using Cons.IH [of b2 as o2 "os @ [p]"] b2 o2 Cons.prems(3) by auto
    have "calchash k AND s32 (m + 1) \<noteq> 0" using True p by (simp add: moves_def)
    with d Cons.prems(1) d1 b1 b2 o1 o2 p have "split_loop m (int (2 * length as)) buf ovf = split_loop m (int (2 * length as)) b2 o2"
      by (subst split_loop.simps) (simp add: Let_def)
    with r True show ?thesis by simp
  qed
qed

section \<open>The directory as a tree\<close>

text \<open>The bit that tells whether the page \<open>b\<close> of depth \<open>d\<close> has been split; its number has to be a \<open>long\<close>.\<close>

definition dirbit :: "dbm \<Rightarrow> int \<Rightarrow> bool" where
  "dirbit s n = (n < 2 ^ 31 \<and> bit (dirf s (n div 65536 * 8192) (nat (n div 8 mod 8192))) (nat (n mod 8)))"

definition split_at :: "dbm \<Rightarrow> nat \<Rightarrow> int \<Rightarrow> bool" where
  "split_at s d b = dirbit s (b + 2 ^ d - 1)"

definition dir_ok :: "dbm \<Rightarrow> bool" where
  "dir_ok s \<longleftrightarrow> (\<forall>n > maxbno s. \<not> dirbit s n) \<and> maxbno s < 2 ^ 31 \<and>
     (olddir s = -1 \<or> 0 \<le> olddir s \<and> olddir s < 2 ^ 15 \<and> dirbuf s = dirf s (olddir s * 8192))"

lemma dirbit_cong: "dirf t = dirf s \<Longrightarrow> dirbit t = dirbit s"
  by (simp add: dirbit_def fun_eq_iff)

lemma byte_of_bit:
  assumes "0 \<le> n" "n < 2 ^ 31"
  shows "n smod 8 = n mod 8" "n sdiv 8 smod 8192 = n div 8 mod 8192" "n sdiv 8 sdiv 8192 = n div 65536"
    "0 \<le> n div 65536" "n div 65536 < 2 ^ 15" "s32 (n div 65536 * 8192) = n div 65536 * 8192"
proof -
  have e: "n sdiv 8 = n div 8" and p: "0 \<le> n div 8" using assms by (simp_all add: sdiv_pos)
  show "n smod 8 = n mod 8" using assms by (simp add: smod_pos)
  show "n sdiv 8 smod 8192 = n div 8 mod 8192" unfolding e using p by (rule smod_pos) simp
  show "n sdiv 8 sdiv 8192 = n div 65536" unfolding e using sdiv_pos [OF p, of 8192] zdiv_zmult2_eq [of 8192 n 8] by simp
  show b: "0 \<le> n div 65536" "n div 65536 < 2 ^ 15" using assms by simp_all
  show "s32 (n div 65536 * 8192) = n div 65536 * 8192" using b by (intro s32_id) simp_all
qed

lemma getbit_right:
  assumes "dir_ok s" "0 \<le> bitno s" "bitno s < 2 ^ 31"
  shows "\<exists>db od. getbit s = (dirbit s (bitno s), s\<lparr>dirbuf := db, olddir := od\<rparr>) \<and> dir_ok (s\<lparr>dirbuf := db, olddir := od\<rparr>) \<and>
    (bitno s \<le> maxbno s \<longrightarrow> od = bitno s div 65536)"
proof (cases "bitno s > maxbno s")
  case True
  then show ?thesis using assms(1) by (intro exI [of _ "dirbuf s"] exI [of _ "olddir s"]) (auto simp: getbit_def dir_ok_def)
next
  case False
  let ?b = "bitno s div 65536"
  note bb = byte_of_bit [OF assms(2,3)]
  define D :: "mem \<Rightarrow> bool" where "D m = bit (m (nat (bitno s div 8 mod 8192))) (nat (bitno s mod 8))" for m
  have bt: "(m (nat (bitno s div 8 mod 8192)) AND push_bit (nat (bitno s mod 8)) 1 \<noteq> 0) = D m" for m :: mem
    unfolding D_def by (simp add: and_exp_eq_0_iff_not_bit)
  have d: "dirbit s (bitno s) = D (dirf s (?b * 8192))" using assms(3) by (simp add: dirbit_def D_def)
  have g: "getbit s = (let s = (if ?b \<noteq> olddir s then s\<lparr>dirbuf := dirf s (?b * 8192), olddir := ?b\<rparr> else s) in (D (dirbuf s), s))"
    unfolding getbit_def Let_def bb(1-3,6) bt using False by (simp only: if_False)
  show ?thesis
  proof (cases "?b = olddir s")
    case True
    then have "dirbuf s = dirf s (?b * 8192)" using assms(1) bb(4) by (auto simp: dir_ok_def)
    then have "getbit s = (dirbit s (bitno s), s)" using True by (simp add: g d)
    with True assms(1) show ?thesis by (intro exI [of _ "dirbuf s"] exI [of _ "olddir s"]) simp
  next
    case ne: False
    then have "getbit s = (dirbit s (bitno s), s\<lparr>dirbuf := dirf s (?b * 8192), olddir := ?b\<rparr>)" by (simp add: g d)
    moreover have "dir_ok (s\<lparr>dirbuf := dirf s (?b * 8192), olddir := ?b\<rparr>)"
      using assms(1) bb(4,5) by (simp add: dir_ok_def dirbit_def)
    ultimately show ?thesis by blast
  qed
qed

lemma set_one_bit:
  "k < 8 \<Longrightarrow> bit ((f(b := (f b)(i := u8 (f b i OR push_bit j 1)))) b' i') k = (bit (f b' i') k \<or> b' = b \<and> i' = i \<and> k = j)"
  for f :: "int \<Rightarrow> mem"
  by (auto simp: bit_u8 bit_or_iff bit_push_1 bit_exp_iff)

lemma same_bit:
  assumes "0 \<le> n" "0 \<le> m" "n div 65536 = m div 65536" "n div 8 mod 8192 = m div 8 mod 8192" "n mod 8 = m mod 8"
  shows "n = (m :: int)"
proof -
  have "x = 65536 * (x div 65536) + 8 * (x div 8 mod 8192) + x mod 8" for x :: int
  proof -
    have "x div 65536 = x div 8 div 8192" using zdiv_zmult2_eq [of 8192 x 8] by simp
    then have "65536 * (x div 65536) + 8 * (x div 8 mod 8192) = 8 * (x div 8)"
      using mult_div_mod_eq [of 8192 "x div 8"] by linarith
    then show ?thesis using mult_div_mod_eq [of 8 x] by linarith
  qed
  from this [of n] this [of m] show ?thesis unfolding assms(3-5) by linarith
qed

text \<open>\<open>setbit\<close> sets one bit. The directory block has been read, unless the bit is a new one.\<close>

lemma setbit_right:
  assumes "dir_ok s" "0 \<le> bitno s" "bitno s < 2 ^ 31" "bitno s \<le> maxbno s \<longrightarrow> olddir s = bitno s div 65536"
  shows "\<exists>db od df. setbit s = s\<lparr>maxbno := max (maxbno s) (bitno s), dirbuf := db, olddir := od, dirf := df\<rparr> \<and> dir_ok (setbit s) \<and>
    (\<forall>n \<ge> 0. dirbit (setbit s) n = (n = bitno s \<or> dirbit s n))"
proof -
  let ?b = "bitno s div 65536" and ?i = "nat (bitno s div 8 mod 8192)" and ?n = "nat (bitno s mod 8)"
  note bb = byte_of_bit [OF assms(2,3)]
  define t where "t = (if bitno s > maxbno s then snd (getbit (s\<lparr>maxbno := bitno s\<rparr>)) else s)"
  have t: "\<exists>db. t = s\<lparr>maxbno := max (maxbno s) (bitno s), dirbuf := db, olddir := ?b\<rparr> \<and> dir_ok t"
  proof (cases "bitno s > maxbno s")
    case True
    have "dir_ok (s\<lparr>maxbno := bitno s\<rparr>)" using assms(1,3) True by (auto simp: dir_ok_def dirbit_def)
    then obtain db od where "getbit (s\<lparr>maxbno := bitno s\<rparr>) = (dirbit (s\<lparr>maxbno := bitno s\<rparr>) (bitno s), s\<lparr>maxbno := bitno s, dirbuf := db, olddir := od\<rparr>)"
        "dir_ok (s\<lparr>maxbno := bitno s, dirbuf := db, olddir := od\<rparr>)" "od = ?b"
      using getbit_right [of "s\<lparr>maxbno := bitno s\<rparr>"] assms(2,3) by auto
    with True show ?thesis by (auto simp: t_def)
  next
    case False
    with assms show ?thesis by (intro exI [of _ "dirbuf s"]) (simp add: t_def)
  qed
  then obtain db where db: "t = s\<lparr>maxbno := max (maxbno s) (bitno s), dirbuf := db, olddir := ?b\<rparr>" "dir_ok t" by blast
  have blk: "db = dirf s (?b * 8192)" using db bb(4) by (auto simp: dir_ok_def)
  define db' where "db' = db(?i := u8 (db ?i OR push_bit ?n 1))"
  have e: "setbit s = s\<lparr>maxbno := max (maxbno s) (bitno s), dirbuf := db', olddir := ?b, dirf := (dirf s)(?b * 8192 := db')\<rparr>"
  proof -
    have "setbit s = (let s = t; n = bitno s smod 8; bn = bitno s sdiv 8; i = bn smod 8192; b = bn sdiv 8192;
        s = s\<lparr>dirbuf := (dirbuf s)(nat i := u8 (dirbuf s (nat i) OR push_bit (nat n) 1))\<rparr>
      in s\<lparr>dirf := (dirf s)(s32 (b * 8192) := dirbuf s)\<rparr>)"
      unfolding setbit_def t_def by (simp only: Let_def)
    then show ?thesis unfolding db(1) by (simp add: Let_def bb(1-3,6) db'_def)
  qed
  have bits: "dirbit (setbit s) n = (n = bitno s \<or> dirbit s n)" if "0 \<le> n" for n
  proof -
    have k: "nat (n mod 8) < 8" by (auto simp: nat_less_iff)
    have e': "dirf (setbit s) = (dirf s)(?b * 8192 := (dirf s (?b * 8192))(?i := u8 (dirf s (?b * 8192) ?i OR push_bit ?n 1)))"
      unfolding e db'_def blk by (simp del: fun_upd_apply)
    have c: "n div 65536 * 8192 = ?b * 8192 \<longleftrightarrow> n div 65536 = ?b" by simp
    have "bit ((dirf (setbit s)) (n div 65536 * 8192) (nat (n div 8 mod 8192))) (nat (n mod 8)) =
      (bit (dirf s (n div 65536 * 8192) (nat (n div 8 mod 8192))) (nat (n mod 8)) \<or>
        n div 65536 = ?b \<and> nat (n div 8 mod 8192) = ?i \<and> nat (n mod 8) = ?n)"
      unfolding e' set_one_bit [OF k] c by (rule refl)
    moreover have "n div 65536 = ?b \<and> nat (n div 8 mod 8192) = ?i \<and> nat (n mod 8) = ?n \<longleftrightarrow> n = bitno s"
    proof -
      have "nat (n div 8 mod 8192) = ?i \<longleftrightarrow> n div 8 mod 8192 = bitno s div 8 mod 8192" by (rule eq_nat_nat_iff) simp_all
      moreover have "nat (n mod 8) = ?n \<longleftrightarrow> n mod 8 = bitno s mod 8" by (rule eq_nat_nat_iff) simp_all
      ultimately show ?thesis using same_bit [OF that assms(2)] by blast
    qed
    ultimately show ?thesis using assms(3) by (auto simp: dirbit_def)
  qed
  have "dir_ok (setbit s)"
    unfolding dir_ok_def
  proof (intro conjI allI impI)
    fix n assume n: "maxbno (setbit s) < n"
    then show "\<not> dirbit (setbit s) n"
      using bits [of n] assms(1,2) by (auto simp: e dir_ok_def)
  qed (use assms(1,3) bb in \<open>auto simp: e dir_ok_def\<close>)
  with e bits show ?thesis by blast
qed

text \<open>The leaf that a hash code leads to.\<close>

definition leaf_depth :: "dbm \<Rightarrow> int \<Rightarrow> nat" where
  "leaf_depth s h = (LEAST d. \<not> split_at s d (h mod 2 ^ d))"

definition leaf_block :: "dbm \<Rightarrow> int \<Rightarrow> int" where
  "leaf_block s h = h mod 2 ^ leaf_depth s h"

text \<open>Only pages whose parents are split are split, and none below depth 20.\<close>

definition tree_ok :: "dbm \<Rightarrow> bool" where
  "tree_ok s \<longleftrightarrow> dir_ok s \<and>
     (\<forall>d b. 0 \<le> b \<and> b < 2 ^ d \<and> split_at s d b \<longrightarrow> d \<le> 20 \<and> (\<forall>e < d. split_at s e (b mod 2 ^ e)))"

lemma split_cong: assumes "dirf t = dirf s" shows "split_at t = split_at s"
  by (intro ext) (simp only: split_at_def dirbit_cong [OF assms])

lemma leaf_cong: assumes "dirf t = dirf s" shows "leaf_depth t = leaf_depth s \<and> leaf_block t = leaf_block s"
  by (intro conjI ext) (simp_all only: leaf_depth_def leaf_block_def split_cong [OF assms])

lemma tree_cong: assumes "dirf t = dirf s" "dir_ok t" "tree_ok s" shows "tree_ok t"
  using assms(2,3) unfolding tree_ok_def split_cong [OF assms(1)] by blast

lemma leaf_facts:
  assumes "tree_ok s"
  shows "\<not> split_at s (leaf_depth s h) (leaf_block s h)" "e < leaf_depth s h \<Longrightarrow> split_at s e (h mod 2 ^ e)" "leaf_depth s h \<le> 21"
    "0 \<le> leaf_block s h" "leaf_block s h < 2 ^ leaf_depth s h"
proof -
  have n: "\<not> split_at s 21 (h mod 2 ^ 21)"
  proof
    assume "split_at s 21 (h mod 2 ^ 21)"
    moreover have "0 \<le> h mod 2 ^ 21" "h mod 2 ^ 21 < 2 ^ 21" by simp_all
    ultimately have "(21 :: nat) \<le> 20" using assms unfolding tree_ok_def by blast
    then show False by simp
  qed
  show "\<not> split_at s (leaf_depth s h) (leaf_block s h)"
    unfolding leaf_block_def leaf_depth_def by (rule LeastI [of "\<lambda>d. \<not> split_at s d (h mod 2 ^ d)", OF n])
  show "e < leaf_depth s h \<Longrightarrow> split_at s e (h mod 2 ^ e)" unfolding leaf_depth_def using not_less_Least by blast
  show "leaf_depth s h \<le> 21" unfolding leaf_depth_def by (rule Least_le) (rule n)
  show "0 \<le> leaf_block s h" "leaf_block s h < 2 ^ leaf_depth s h" by (simp_all add: leaf_block_def)
qed

lemma leaf_depth_eq:
  assumes "\<not> split_at s d (h mod 2 ^ d)" "\<And>e. e < d \<Longrightarrow> split_at s e (h mod 2 ^ e)"
  shows "leaf_depth s h = d"
  unfolding leaf_depth_def by (rule Least_equality) (use assms not_le in blast)+

lemma pow_le: "d \<le> n \<Longrightarrow> (2 :: int) ^ d \<le> 2 ^ n"
  by (rule power_increasing) simp_all

lemma and_mask: "h AND (2 ^ d - 1) = h mod 2 ^ d" for h :: int
  using take_bit_eq_mask [of d h] by (simp add: take_bit_eq_mod mask_eq_exp_minus_1)

text \<open>Two hash codes that lead to the same page number lead to the same leaf.\<close>

lemma leaf_of_block:
  assumes "tree_ok s" "g mod 2 ^ leaf_depth s h = leaf_block s h"
  shows "leaf_depth s g = leaf_depth s h" "leaf_block s g = leaf_block s h"
proof -
  have "split_at s e (g mod 2 ^ e)" if "e < leaf_depth s h" for e
  proof -
    have "g mod 2 ^ e = g mod 2 ^ leaf_depth s h mod 2 ^ e" using that by (simp add: mod_mod_cancel le_imp_power_dvd)
    also have "\<dots> = h mod 2 ^ e" unfolding assms(2) leaf_block_def using that by (simp add: mod_mod_cancel le_imp_power_dvd)
    finally show ?thesis using leaf_facts(2) [OF assms(1) that] by simp
  qed
  then show d: "leaf_depth s g = leaf_depth s h" using leaf_facts(1) [OF assms(1), of h] assms(2) by (intro leaf_depth_eq) simp_all
  show "leaf_block s g = leaf_block s h" using d assms(2) by (simp add: leaf_block_def)
qed

lemma same_block:
  assumes "tree_ok s" "leaf_block s g = leaf_block s h"
  shows "leaf_depth s g = leaf_depth s h"
proof -
  have *: "leaf_depth s h \<le> leaf_depth s g" if "leaf_block s g = leaf_block s h" for g h
  proof (rule ccontr)
    assume "\<not> leaf_depth s h \<le> leaf_depth s g"
    then have l: "leaf_depth s g < leaf_depth s h" by simp
    have "leaf_block s g = h mod 2 ^ leaf_depth s h mod 2 ^ leaf_depth s g"
      using that leaf_facts(4,5) [OF assms(1), of g] by (simp add: leaf_block_def [of s h])
    also have "\<dots> = h mod 2 ^ leaf_depth s g" using l by (simp add: mod_mod_cancel le_imp_power_dvd)
    finally show False using leaf_facts(1) [OF assms(1), of g] leaf_facts(2) [OF assms(1) l] by simp
  qed
  from * [OF assms(2)] * [OF assms(2) [symmetric]] show ?thesis by simp
qed

text \<open>A round of the search.\<close>

abbreviation at_node :: "nat \<Rightarrow> int \<Rightarrow> mem \<Rightarrow> int \<Rightarrow> dbm \<Rightarrow> dbm" where
  "at_node d b db od s \<equiv> s\<lparr>bitno := b + 2 ^ d - 1, blkno := b, hmask := 2 ^ d - 1, dirbuf := db, olddir := od\<rparr>"

lemma find_page_round:
  assumes "dir_ok s" "d \<le> 21"
  shows "\<exists>db od. find_page h (2 ^ d - 1) s =
      (if split_at s d (h mod 2 ^ d) then find_page h (2 ^ Suc d - 1) (at_node d (h mod 2 ^ d) db od s) else Some (at_node d (h mod 2 ^ d) db od s))
    \<and> dir_ok (at_node d (h mod 2 ^ d) db od s)
    \<and> (h mod 2 ^ d + 2 ^ d - 1 \<le> maxbno s \<longrightarrow> od = (h mod 2 ^ d + 2 ^ d - 1) div 65536)"
proof -
  let ?b = "h mod 2 ^ d" and ?n = "h mod 2 ^ d + 2 ^ d - 1"
  define t where "t = s\<lparr>hmask := 2 ^ d - 1, blkno := ?b, bitno := ?n\<rparr>"
  have p: "(0 :: int) < 2 ^ d" "(2 :: int) ^ d \<le> 2097152" using pow_le [OF assms(2)] by simp_all
  have b: "0 \<le> ?b" "?b < 2 ^ d" by simp_all
  have n: "0 \<le> ?n" "?n < 2147483648" using p b by linarith+
  have s32n: "s32 (?b + (2 ^ d - 1)) = ?n" using n by (simp add: s32_id)
  have m: "s32 (push_bit 1 (2 ^ d - 1) + 1) = 2 ^ Suc d - 1"
  proof -
    have "s32 (2 * 2 ^ d - 1) = 2 * 2 ^ d - 1" by (rule s32_id) (use p in linarith)+
    then show ?thesis by (simp add: push_bit_eq_mult mult.commute)
  qed
  have t: "dir_ok t" "bitno t = ?n" using assms(1) by (simp_all add: t_def dir_ok_def dirbit_def)
  obtain db od where g: "getbit t = (dirbit t ?n, t\<lparr>dirbuf := db, olddir := od\<rparr>)" "dir_ok (t\<lparr>dirbuf := db, olddir := od\<rparr>)"
      "?n \<le> maxbno t \<longrightarrow> od = ?n div 65536"
    using getbit_right [OF t(1)] n t(2) by auto
  have d: "dirbit t ?n = split_at s d ?b" by (simp add: split_at_def t_def dirbit_def)
  have a: "t\<lparr>dirbuf := db, olddir := od\<rparr> = at_node d ?b db od s" by (simp add: t_def)
  have "find_page h (2 ^ d - 1) s = (case getbit t of (b, s) \<Rightarrow> if b then find_page h (2 ^ Suc d - 1) s else Some s)"
    by (subst find_page.simps) (simp only: Let_def and_mask s32n m t_def)
  with g d show ?thesis unfolding a by (auto simp: t_def)
qed

lemma find_page_leaf:
  "tree_ok s \<Longrightarrow> d \<le> leaf_depth s h \<Longrightarrow> \<exists>db od.
    find_page h (2 ^ d - 1) s = Some (at_node (leaf_depth s h) (leaf_block s h) db od s)
    \<and> dir_ok (at_node (leaf_depth s h) (leaf_block s h) db od s)
    \<and> (leaf_block s h + 2 ^ leaf_depth s h - 1 \<le> maxbno s \<longrightarrow> od = (leaf_block s h + 2 ^ leaf_depth s h - 1) div 65536)"
proof (induction "leaf_depth s h - d" arbitrary: d s)
  case (0 d s)
  then have d: "d = leaf_depth s h" by simp
  have "dir_ok s" "d \<le> 21" using 0(2) leaf_facts(3) [OF 0(2)] d by (simp_all add: tree_ok_def)
  from find_page_round [OF this, of h] show ?case
    using leaf_facts(1) [OF 0(2), of h] unfolding d leaf_block_def by auto
next
  case (Suc n d s)
  then have d: "d < leaf_depth s h" by simp
  have "dir_ok s" "d \<le> 21" using Suc(3) leaf_facts(3) [OF Suc(3), of h] d by (simp_all add: tree_ok_def)
  from find_page_round [OF this, of h] obtain db od where
    r: "find_page h (2 ^ d - 1) s = find_page h (2 ^ Suc d - 1) (at_node d (h mod 2 ^ d) db od s)" "dir_ok (at_node d (h mod 2 ^ d) db od s)"
    using leaf_facts(2) [OF Suc(3) d] by auto
  let ?t = "at_node d (h mod 2 ^ d) db od s"
  have t: "leaf_depth ?t = leaf_depth s" "leaf_block ?t = leaf_block s" "tree_ok ?t"
    using leaf_cong [of ?t s] tree_cong [OF _ r(2) Suc(3)] by simp_all
  show ?case
    using Suc(1) [of ?t "Suc d"] Suc(2) d t unfolding r(1) by simp
qed

section \<open>The database as a map\<close>

fun pair_up :: "int list list \<Rightarrow> (int list \<times> int list) list" where
  "pair_up (k # v # its) = (k, v) # pair_up its"
| "pair_up _ = []"

definition pairs_of :: "mem \<Rightarrow> (int list \<times> int list) list" where
  "pairs_of buf = pair_up (map (\<lambda>i. the (makdatum buf (int i))) [0..<nat (sp buf 0)])"

definition page :: "dbm \<Rightarrow> int \<Rightarrow> mem" where
  "page s h = pagf s (leaf_block s h * 512)"

definition dbmap :: "dbm \<Rightarrow> int list \<Rightarrow> int list option" where
  "dbmap s key = map_of (pairs_of (page s (calchash key))) key"

text \<open>The page of a leaf holds different keys, whose hash codes lead to it.\<close>

definition holds_pairs :: "dbm \<Rightarrow> int \<Rightarrow> (int list \<times> int list) list \<Rightarrow> bool" where
  "holds_pairs s h ps \<longleftrightarrow> page_rep (page s h) (flat ps) \<and> distinct (map fst ps) \<and>
     (\<forall>k \<in> fst ` set ps. calchash k mod 2 ^ leaf_depth s h = leaf_block s h)"

definition dbm_ok :: "dbm \<Rightarrow> bool" where
  "dbm_ok s \<longleftrightarrow> tree_ok s \<and> (oldpag s = -1 \<or> pagbuf s = pagf s (s32 (oldpag s * 512))) \<and> (\<forall>h. \<exists>ps. holds_pairs s h ps)"

lemma pair_up_flat [simp]: "pair_up (flat ps) = ps"
  by (induction ps) auto

lemma pairs_of_rep: "page_rep buf (flat ps) \<Longrightarrow> pairs_of buf = ps"
proof -
  assume rep: "page_rep buf (flat ps)"
  then have n: "nat (sp buf 0) = length (flat ps)" by (simp add: page_rep_def)
  have "map (\<lambda>i. the (makdatum buf (int i))) [0..<nat (sp buf 0)] = flat ps"
    unfolding n by (rule nth_equalityI) (use makdatum_rep [OF rep] in auto)
  then show ?thesis by (simp add: pairs_of_def)
qed

lemma dbmap_page: "holds_pairs s (calchash key) ps \<Longrightarrow> dbmap s key = map_of ps key"
  using pairs_of_rep [of "page s (calchash key)" ps] by (simp add: dbmap_def holds_pairs_def)

lemma block_address: "tree_ok s \<Longrightarrow> s32 (leaf_block s h * 512) = leaf_block s h * 512"
proof -
  assume ok: "tree_ok s"
  have "leaf_block s h < 2097152" using leaf_facts(3,5) [OF ok, of h] pow_le [of "leaf_depth s h" 21] by simp
  then show ?thesis using leaf_facts(4) [OF ok, of h] by (intro s32_id) auto
qed

text \<open>What an access changes.\<close>

definition accessed :: "dbm \<Rightarrow> int \<Rightarrow> dbm \<Rightarrow> bool" where
  "accessed s h t \<longleftrightarrow> (\<exists>db od. t = at_node (leaf_depth s h) (leaf_block s h) db od s\<lparr>pagbuf := page s h, oldpag := leaf_block s h\<rparr>) \<and>
     dir_ok t \<and> (bitno t \<le> maxbno t \<longrightarrow> olddir t = bitno t div 65536)"

lemma accessed_simps:
  assumes "accessed s h t"
  shows "dirf t = dirf s" "pagf t = pagf s" "pagbuf t = page s h" "oldpag t = leaf_block s h" "blkno t = leaf_block s h"
    "hmask t = 2 ^ leaf_depth s h - 1" "bitno t = leaf_block s h + 2 ^ leaf_depth s h - 1" "maxbno t = maxbno s" "dir_ok t"
    "bitno t \<le> maxbno t \<Longrightarrow> olddir t = bitno t div 65536"
  using assms by (auto simp: accessed_def)

lemma access_leaf:
  assumes "dbm_ok s"
  shows "\<exists>t. dbm_access h s = Some (Done t) \<and> accessed s h t"
proof -
  have ok: "tree_ok s" using assms by (simp add: dbm_ok_def)
  obtain ps where ps: "holds_pairs s h ps" using assms by (auto simp: dbm_ok_def)
  then have chk: "chkblk (page s h)" using chkblk_rep by (auto simp: holds_pairs_def)
  obtain db od where f: "find_page h (2 ^ 0 - 1) s = Some (at_node (leaf_depth s h) (leaf_block s h) db od s)"
      "dir_ok (at_node (leaf_depth s h) (leaf_block s h) db od s)"
      "leaf_block s h + 2 ^ leaf_depth s h - 1 \<le> maxbno s \<longrightarrow> od = (leaf_block s h + 2 ^ leaf_depth s h - 1) div 65536"
    using find_page_leaf [OF ok, of 0 h] by blast
  let ?n = "at_node (leaf_depth s h) (leaf_block s h) db od s"
  have a: "pagf s (s32 (leaf_block s h * 512)) = page s h" by (simp add: page_def block_address [OF ok])
  let ?t = "?n\<lparr>pagbuf := page s h, oldpag := leaf_block s h\<rparr>"
  have "dbm_access h s = Some (Done ?t)"
  proof (cases "leaf_block s h = oldpag s")
    case True
    then have p: "pagbuf s = page s h" using assms a leaf_facts(4) [OF ok, of h] by (auto simp: dbm_ok_def)
    have "?n\<lparr>pagbuf := pagbuf s, oldpag := oldpag s\<rparr> = ?n" by simp
    then have "?t = ?n" unfolding p True .
    with True f(1) show ?thesis by (simp add: dbm_access_def)
  next
    case False
    with f(1) a chk show ?thesis by (simp add: dbm_access_def Let_def)
  qed
  moreover have "dir_ok ?t" using f(2) by (simp add: dir_ok_def dirbit_def)
  ultimately show ?thesis using f(3) by (auto simp: accessed_def)
qed

lemma page_cong: "dirf t = dirf s \<Longrightarrow> pagf t = pagf s \<Longrightarrow> page t = page s"
  using leaf_cong [of t s] by (intro ext) (simp add: page_def)

lemma accessed_ok:
  assumes "dbm_ok s" "accessed s h t"
  shows "dbm_ok t" "dbmap t = dbmap s"
proof -
  note a = accessed_simps [OF assms(2)]
  have l: "leaf_depth t = leaf_depth s" "leaf_block t = leaf_block s" using leaf_cong [OF a(1)] by auto
  have p: "page t = page s" using page_cong [OF a(1,2)] .
  have ok: "tree_ok s" using assms(1) by (simp add: dbm_ok_def)
  have "tree_ok t" using tree_cong [OF a(1,9) ok] .
  moreover have "pagbuf t = pagf t (s32 (oldpag t * 512))" using a(2-4) block_address [OF ok] by (simp add: page_def)
  moreover have "\<forall>h. \<exists>ps. holds_pairs t h ps" using assms(1) l p by (simp add: dbm_ok_def holds_pairs_def)
  ultimately show "dbm_ok t" by (simp add: dbm_ok_def)
  show "dbmap t = dbmap s" by (intro ext) (simp add: dbmap_def p)
qed

section \<open>Looking up and deleting\<close>

lemma split_at_key:
  "key \<in> fst ` set ps \<Longrightarrow> \<exists>as v bs. ps = as @ (key, v) # bs \<and> key \<notin> fst ` set as"
proof (induction ps)
  case (Cons p ps)
  show ?case
  proof (cases "fst p = key")
    case True
    then show ?thesis by (intro exI [of _ "[]"] exI [of _ "snd p"] exI [of _ ps]) (cases p, simp)
  next
    case False
    then obtain as v bs where "ps = as @ (key, v) # bs" "key \<notin> fst ` set as" using Cons by auto
    with False show ?thesis by (intro exI [of _ "p # as"]) auto
  qed
qed simp

lemma map_of_middle: "key \<notin> fst ` set as \<Longrightarrow> map_of (as @ (key, v) # bs) key = Some v"
  by (induction as) auto

lemma fetch_map:
  assumes "dbm_ok s"
  shows "\<exists>t. fetch key s = Some (Done (dbmap s key, t)) \<and> dbm_ok t \<and> dbmap t = dbmap s"
proof -
  obtain t where t: "dbm_access (calchash key) s = Some (Done t)" "accessed s (calchash key) t" using access_leaf [OF assms] by blast
  obtain ps where ps: "holds_pairs s (calchash key) ps" using assms by (auto simp: dbm_ok_def)
  have rep: "page_rep (pagbuf t) (flat ps)" using ps accessed_simps(3) [OF t(2)] by (simp add: holds_pairs_def)
  note m = dbmap_page [OF ps]
  have "fetch key s = Some (Done (dbmap s key, t))"
  proof (cases "key \<in> fst ` set ps")
    case False
    moreover from False have "map_of ps key = None" by (simp add: map_of_eq_None_iff)
    ultimately show ?thesis using find_key_absent [of _ "[]" ps key] rep m t(1) by (simp add: fetch_def)
  next
    case True
    obtain as v bs where s: "ps = as @ (key, v) # bs" "key \<notin> fst ` set as" using split_at_key [OF True] by metis
    have "find_key (pagbuf t) key 0 = Some (int (2 * length as))"
      using find_key_present [of _ "[]" as key v bs] rep s by simp
    then show ?thesis using datum_value [of _ as key v bs] rep s m t(1) map_of_middle [OF s(2)] by (simp add: fetch_def)
  qed
  with accessed_ok [OF assms t(2)] show ?thesis by blast
qed

lemma leaf_block_iff: "tree_ok s \<Longrightarrow> leaf_block s g = leaf_block s h \<longleftrightarrow> g mod 2 ^ leaf_depth s h = leaf_block s h"
proof
  assume "tree_ok s" "leaf_block s g = leaf_block s h"
  with same_block [of s g h] show "g mod 2 ^ leaf_depth s h = leaf_block s h" by (simp add: leaf_block_def [of s g])
qed (rule leaf_of_block(2))

lemma dbmap_leaf:
  assumes "dbm_ok s" "holds_pairs s h ps" "calchash k mod 2 ^ leaf_depth s h = leaf_block s h"
  shows "dbmap s k = map_of ps k"
proof -
  have "leaf_depth s (calchash k) = leaf_depth s h \<and> leaf_block s (calchash k) = leaf_block s h"
    using leaf_of_block [OF _ assms(3)] assms(1) by (simp add: dbm_ok_def)
  then have "holds_pairs s (calchash k) ps" using assms(2) by (simp add: holds_pairs_def page_def)
  then show ?thesis by (rule dbmap_page)
qed

lemma find_and_drop:
  assumes rep: "page_rep buf (flat ps)" and dist: "distinct (map fst ps)"
  shows "\<exists>buf'. (case find_key buf key 0 of None \<Rightarrow> Some buf | Some i \<Rightarrow> delpair buf i) = Some buf' \<and>
    page_rep buf' (flat (filter (\<lambda>p. fst p \<noteq> key) ps)) \<and> (find_key buf key 0 = None \<longleftrightarrow> map_of ps key = None)"
proof (cases "key \<in> fst ` set ps")
  case False
  then have "filter (\<lambda>p. fst p \<noteq> key) ps = ps" "map_of ps key = None" by (auto simp: filter_id_conv map_of_eq_None_iff)
  moreover have "find_key buf key 0 = None" using find_key_absent [of buf "[]" ps key] rep False by simp
  ultimately show ?thesis using rep by simp
next
  case True
  obtain as v bs where s: "ps = as @ (key, v) # bs" "key \<notin> fst ` set as" using split_at_key [OF True] by metis
  have "key \<notin> fst ` set bs" using dist s by auto
  then have "filter (\<lambda>p. fst p \<noteq> key) bs = bs" "filter (\<lambda>p. fst p \<noteq> key) as = as" using s(2) by (auto simp: filter_id_conv)
  then have f: "filter (\<lambda>p. fst p \<noteq> key) ps = as @ bs" using s(1) by simp
  have "find_key buf key 0 = Some (int (2 * length as))" using find_key_present [of buf "[]" as key v bs] rep s by simp
  moreover obtain buf' where "delpair buf (int (2 * length as)) = Some buf'" "page_rep buf' (flat (as @ bs))"
    using delpair_rep [of buf as key v bs] rep s by auto
  ultimately show ?thesis unfolding f using map_of_middle [OF s(2), of v bs] s(1) by simp
qed

text \<open>The page of a leaf is written.\<close>

lemma write_leaf:
  assumes ok: "dbm_ok s" and acc: "accessed s h t" and rep: "page_rep buf (flat qs)" and dist: "distinct (map fst qs)"
    and leaf: "\<forall>k \<in> fst ` set qs. calchash k mod 2 ^ leaf_depth s h = leaf_block s h"
  shows "dbm_ok (write_page (t\<lparr>pagbuf := buf\<rparr>))"
    "dbmap (write_page (t\<lparr>pagbuf := buf\<rparr>)) k =
      (if calchash k mod 2 ^ leaf_depth s h = leaf_block s h then map_of qs k else dbmap s k)"
proof -
  let ?r = "write_page (t\<lparr>pagbuf := buf\<rparr>)"
  note a = accessed_simps [OF acc]
  have tree: "tree_ok s" using ok by (simp add: dbm_ok_def)
  have d: "dirf ?r = dirf s" using a(1) by (simp add: write_page_def)
  have l: "leaf_depth ?r = leaf_depth s" "leaf_block ?r = leaf_block s" using leaf_cong [OF d] by auto
  have p: "page ?r g = (if leaf_block s g = leaf_block s h then buf else page s g)" for g
    unfolding page_def l using a(2,5) block_address [OF tree] by (simp add: write_page_def)
  have same: "holds_pairs ?r g qs" if "leaf_block s g = leaf_block s h" for g
    using rep dist leaf same_block [OF tree that] that by (simp add: holds_pairs_def p l)
  have other: "holds_pairs ?r g ps" if "leaf_block s g \<noteq> leaf_block s h" "holds_pairs s g ps" for g ps
    using that by (simp add: holds_pairs_def p l)
  have "dir_ok ?r" using a(9) by (simp add: dir_ok_def dirbit_def write_page_def)
  then have "tree_ok ?r" using tree_cong [OF d] tree by blast
  moreover have "pagbuf ?r = pagf ?r (s32 (oldpag ?r * 512))" using a(4,5) by (simp add: write_page_def)
  moreover have "\<exists>ps. holds_pairs ?r g ps" for g using same other [of g] ok unfolding dbm_ok_def by blast
  ultimately show "dbm_ok ?r" by (simp add: dbm_ok_def)
  show "dbmap ?r k = (if calchash k mod 2 ^ leaf_depth s h = leaf_block s h then map_of qs k else dbmap s k)"
  proof (cases "leaf_block s (calchash k) = leaf_block s h")
    case True
    with dbmap_page [OF same [OF True]] leaf_block_iff [OF tree] show ?thesis by simp
  next
    case False
    obtain ps where ps: "holds_pairs s (calchash k) ps" using ok by (auto simp: dbm_ok_def)
    with dbmap_page [OF ps] dbmap_page [OF other [OF False ps]] False leaf_block_iff [OF tree] show ?thesis by simp
  qed
qed

lemma map_of_filter_key: "map_of (filter (\<lambda>p. P (fst p)) ps) k = (if P k then map_of ps k else None)"
  by (induction ps) auto

lemma delete_map:
  assumes "dbm_ok s"
  shows "\<exists>t. delete key s = Some (Done (if dbmap s key = None then -1 else 0, t)) \<and> dbm_ok t \<and> dbmap t = (dbmap s)(key := None)"
proof -
  let ?h = "calchash key"
  obtain t where t: "dbm_access ?h s = Some (Done t)" "accessed s ?h t" using access_leaf [OF assms] by blast
  obtain ps where ps: "holds_pairs s ?h ps" using assms by (auto simp: dbm_ok_def)
  have rep: "page_rep (pagbuf t) (flat ps)" "distinct (map fst ps)" using ps accessed_simps(3) [OF t(2)] by (simp_all add: holds_pairs_def)
  note m = dbmap_page [OF ps]
  obtain buf where f: "(case find_key (pagbuf t) key 0 of None \<Rightarrow> Some (pagbuf t) | Some i \<Rightarrow> delpair (pagbuf t) i) = Some buf"
      "page_rep buf (flat (filter (\<lambda>p. fst p \<noteq> key) ps))" "find_key (pagbuf t) key 0 = None \<longleftrightarrow> map_of ps key = None"
    using find_and_drop [OF rep, of key] by metis
  show ?thesis
  proof (cases "find_key (pagbuf t) key 0")
    case None
    then have n: "dbmap s key = None" using f(3) m by simp
    have "delete key s = Some (Done (-1, t))" using t(1) None by (simp add: delete_def)
    moreover have "(dbmap s)(key := None) = dbmap s" using n by (simp add: fun_upd_idem)
    ultimately show ?thesis using accessed_ok [OF assms t(2)] n by auto
  next
    case (Some i)
    then have n: "dbmap s key \<noteq> None" using f(3) m by simp
    let ?qs = "filter (\<lambda>p. fst p \<noteq> key) ps"
    have "delete key s = Some (Done (0, write_page (t\<lparr>pagbuf := buf\<rparr>)))" using t(1) f(1) Some by (simp add: delete_def)
    moreover have q: "distinct (map fst ?qs)" "\<forall>k \<in> fst ` set ?qs. calchash k mod 2 ^ leaf_depth s ?h = leaf_block s ?h"
      using ps by (auto simp: holds_pairs_def distinct_map_filter)
    have "dbmap (write_page (t\<lparr>pagbuf := buf\<rparr>)) = (dbmap s)(key := None)"
    proof
      fix k
      show "dbmap (write_page (t\<lparr>pagbuf := buf\<rparr>)) k = ((dbmap s)(key := None)) k"
        using dbmap_leaf [OF assms ps, of k] unfolding write_leaf(2) [OF assms t(2) f(2) q] map_of_filter_key [of "\<lambda>x. x \<noteq> key"] by (auto simp: leaf_block_def)
    qed
    ultimately show ?thesis using write_leaf(1) [OF assms t(2) f(2) q] n by auto
  qed
qed

section \<open>Splitting a page\<close>

lemma node_injective:
  assumes "0 \<le> b" "b < 2 ^ d" "0 \<le> c" "c < (2 :: int) ^ e" "b + 2 ^ d = c + 2 ^ e"
  shows "d = e \<and> b = c"
proof -
  have *: "\<not> d < e" if "0 \<le> c" "b < 2 ^ d" "b + 2 ^ d = c + 2 ^ e" for b c :: int and d e
  proof
    assume "d < e"
    then have "(2 :: int) ^ Suc d \<le> 2 ^ e" by (intro pow_le) simp
    with that show False by simp
  qed
  from *[of c b d e] *[of b c e d] assms have "d = e" by simp
  with assms(5) show ?thesis by simp
qed

lemma mod_pow_Suc: "x mod 2 ^ Suc d = x mod 2 ^ d + (if bit x d then 2 ^ d else 0)" for x :: int
  using take_bit_Suc_from_most [of d x] by (simp add: take_bit_eq_mod)

lemma moves_bit: "d \<le> 20 \<Longrightarrow> moves (2 ^ d - 1) p = bit (calchash (fst p)) d"
proof -
  assume "d \<le> 20"
  then have "(2 :: int) ^ d \<le> 1048576" using pow_le [of d 20] by simp
  moreover have "(0 :: int) < 2 ^ d" by simp
  ultimately have "s32 (2 ^ d) = 2 ^ d" by (intro s32_id) linarith+
  then show ?thesis by (simp add: moves_def and_exp_eq_0_iff_not_bit)
qed

text \<open>The tree when the bit of a leaf is set.\<close>

lemma split_tree:
  assumes ok: "tree_ok s" and d: "leaf_depth s h \<le> 20" and dir: "dir_ok r"
    and bits: "\<And>n. 0 \<le> n \<Longrightarrow> dirbit r n = (n = leaf_block s h + 2 ^ leaf_depth s h - 1 \<or> dirbit s n)"
  shows "tree_ok r" "leaf_depth r g = (if leaf_block s g = leaf_block s h then Suc (leaf_depth s h) else leaf_depth s g)"
proof -
  let ?D = "leaf_depth s h" and ?B = "leaf_block s h"
  note B = leaf_facts(4,5) [OF ok, of h]
  have sp: "split_at r e b = (e = ?D \<and> b = ?B \<or> split_at s e b)" if "0 \<le> b" "b < 2 ^ e" for e b
  proof -
    have "(0 :: int) < 2 ^ e" by simp
    then have "0 \<le> b + 2 ^ e - 1" using that by linarith
    moreover have "b + 2 ^ e - 1 = ?B + 2 ^ ?D - 1 \<longleftrightarrow> e = ?D \<and> b = ?B"
      using node_injective [OF that B] by auto
    ultimately show ?thesis using bits unfolding split_at_def by blast
  qed
  have sm: "split_at r e (x mod 2 ^ e) = (e = ?D \<and> x mod 2 ^ e = ?B \<or> split_at s e (x mod 2 ^ e))" for e x by (rule sp) simp_all
  have old: "e \<le> 20 \<and> (\<forall>e' < e. split_at s e' (b mod 2 ^ e'))" if "0 \<le> b" "b < 2 ^ e" "split_at s e b" for e b
    using ok that unfolding tree_ok_def by blast
  show "tree_ok r"
    unfolding tree_ok_def
  proof (intro conjI allI impI dir)
    fix e b assume b: "0 \<le> b \<and> b < 2 ^ e \<and> split_at r e b"
    show "e \<le> 20" using b sp [of b e] old [of b e] d by blast
    show "split_at r e' (b mod 2 ^ e')" if "e' < e" for e'
    proof (cases "split_at s e b")
      case True
      then show ?thesis using old [of b e] b that sm by blast
    next
      case False
      then have "e = ?D" "b = ?B" using b sp [of b e] by auto
      then have "b mod 2 ^ e' = h mod 2 ^ e'" using that by (simp add: leaf_block_def mod_mod_cancel le_imp_power_dvd)
      then show ?thesis using leaf_facts(2) [OF ok] that \<open>e = ?D\<close> sm by metis
    qed
  qed
  show "leaf_depth r g = (if leaf_block s g = ?B then Suc ?D else leaf_depth s g)"
  proof (cases "leaf_block s g = ?B")
    case True
    then have g: "leaf_depth s g = ?D" "g mod 2 ^ ?D = ?B" using same_block [OF ok True] leaf_block_iff [OF ok] by auto
    have "leaf_depth r g = Suc ?D"
    proof (rule leaf_depth_eq)
      show "\<not> split_at r (Suc ?D) (g mod 2 ^ Suc ?D)"
      proof
        assume "split_at r (Suc ?D) (g mod 2 ^ Suc ?D)"
        then have "split_at s (Suc ?D) (g mod 2 ^ Suc ?D)" using sm [of "Suc ?D" g] by (metis n_not_Suc_n)
        then have "split_at s ?D (g mod 2 ^ Suc ?D mod 2 ^ ?D)" using old [of "g mod 2 ^ Suc ?D" "Suc ?D"] by simp
        moreover have "g mod 2 ^ Suc ?D mod 2 ^ ?D = ?B" using g(2) by (simp add: mod_mod_cancel le_imp_power_dvd)
        ultimately show False using leaf_facts(1) [OF ok, of h] by simp
      qed
      show "split_at r e (g mod 2 ^ e)" if "e < Suc ?D" for e
        using that leaf_facts(2) [OF ok, of e g] g sm [of e g] by (cases "e = ?D") auto
    qed
    with True show ?thesis by simp
  next
    case False
    have "leaf_depth r g = leaf_depth s g"
    proof (rule leaf_depth_eq)
      show "\<not> split_at r (leaf_depth s g) (g mod 2 ^ leaf_depth s g)"
        using sm leaf_facts(1) [OF ok, of g] False unfolding leaf_block_def [of s g] by auto
      show "split_at r e (g mod 2 ^ e)" if "e < leaf_depth s g" for e
        using leaf_facts(2) [OF ok that] sm by blast
    qed
    with False show ?thesis by simp
  qed
qed

text \<open>The new page is the page of no other leaf.\<close>

lemma new_page_unused:
  assumes "tree_ok s" "leaf_block s g \<noteq> leaf_block s h"
  shows "leaf_block s g \<noteq> leaf_block s h + 2 ^ leaf_depth s h"
proof
  let ?D = "leaf_depth s h"
  assume e: "leaf_block s g = leaf_block s h + 2 ^ ?D"
  have "(2 :: int) ^ ?D < 2 ^ leaf_depth s g" using e leaf_facts(4) [OF assms(1), of h] leaf_facts(5) [OF assms(1), of g] by linarith
  then have "?D < leaf_depth s g" by simp
  then have "g mod 2 ^ ?D = leaf_block s g mod 2 ^ ?D" by (simp add: leaf_block_def [of s g] mod_mod_cancel le_imp_power_dvd)
  also have "\<dots> = leaf_block s h" unfolding e using leaf_facts(4,5) [OF assms(1), of h] by simp
  finally show False using leaf_of_block(2) [OF assms(1)] assms(2) by blast
qed

lemma split_leaf:
  assumes ok: "dbm_ok s" and acc: "accessed s h t" and d: "leaf_depth s h \<le> 20"
    and rep: "page_rep buf (flat qs)" and dist: "distinct (map fst qs)"
    and leaf: "\<forall>k \<in> fst ` set qs. calchash k mod 2 ^ leaf_depth s h = leaf_block s h"
  shows "\<exists>r. split_page (t\<lparr>pagbuf := buf\<rparr>) = Some (Done r) \<and> dbm_ok r \<and>
    (\<forall>k. dbmap r k = (if calchash k mod 2 ^ leaf_depth s h = leaf_block s h then map_of qs k else dbmap s k)) \<and>
    leaf_depth r h = Suc (leaf_depth s h)"
proof -
  let ?D = "leaf_depth s h" and ?B = "leaf_block s h"
  note a = accessed_simps [OF acc]
  have tree: "tree_ok s" using ok by (simp add: dbm_ok_def)
  note B = leaf_facts(4,5) [OF tree, of h]
  have p: "(2 :: int) ^ ?D \<le> 1048576" "(0 :: int) < 2 ^ ?D" using pow_le [OF d] by simp_all
  define P where "P = moves (2 ^ ?D - 1)"
  obtain buf' ovf where sl: "split_loop (2 ^ ?D - 1) 0 buf (\<lambda>_. 0) = Some (Done (buf', ovf))"
      "page_rep buf' (flat (filter (\<lambda>p. \<not> P p) qs))" "page_rep ovf (flat (filter P qs))"
    using split_loop_rep [of buf "[]" qs "\<lambda>_. 0" "[]" "2 ^ ?D - 1"] rep empty_page page_rep_weight [OF rep] by (auto simp: P_def)
  define t2 where "t2 = write_page (t\<lparr>pagbuf := buf'\<rparr>)"
  define t3 where "t3 = t2\<lparr>pagf := (pagf t2)((?B + 2 ^ ?D) * 512 := ovf)\<rparr>"
  have s32: "s32 (s32 (?B + (2 ^ ?D - 1) + 1) * 512) = (?B + 2 ^ ?D) * 512" using p B by (simp add: s32_id)
  have r: "split_page (t\<lparr>pagbuf := buf\<rparr>) = Some (Done (setbit t3))"
    unfolding split_page_def t3_def t2_def using sl(1) a(5,6) s32 by (simp add: Let_def write_page_def)
  have t3: "dir_ok t3" "bitno t3 = ?B + 2 ^ ?D - 1" "dirf t3 = dirf s" "maxbno t3 = maxbno s" "oldpag t3 = ?B" "pagbuf t3 = buf'"
      "pagf t3 = (pagf s)(?B * 512 := buf', (?B + 2 ^ ?D) * 512 := ovf)" "bitno t3 \<le> maxbno t3 \<longrightarrow> olddir t3 = bitno t3 div 65536"
    using a block_address [OF tree] by (simp_all add: t3_def t2_def write_page_def dir_ok_def dirbit_def)
  have n: "0 \<le> bitno t3" "bitno t3 < 2 ^ 31" unfolding t3(2) using p B by simp_all
  obtain db od df where s3: "setbit t3 = t3\<lparr>maxbno := max (maxbno t3) (bitno t3), dirbuf := db, olddir := od, dirf := df\<rparr>"
      "dir_ok (setbit t3)" "\<And>n. 0 \<le> n \<Longrightarrow> dirbit (setbit t3) n = (n = ?B + 2 ^ ?D - 1 \<or> dirbit s n)"
    using setbit_right [OF t3(1) n t3(8)] t3(2) dirbit_cong [OF t3(3)] by auto
  let ?r = "setbit t3"
  note st = split_tree [OF tree d s3(2,3)]
  have pf: "pagf ?r = pagf t3" "pagbuf ?r = buf'" "oldpag ?r = ?B" using t3 by (simp_all add: s3(1))
  have moved: "leaf_block ?r g = ?B + (if bit g ?D then 2 ^ ?D else 0)" if "leaf_block s g = ?B" for g
    using that leaf_block_iff [OF tree, of g h] by (simp add: leaf_block_def [of ?r] st(2) mod_pow_Suc del: power_Suc)
  have kept: "leaf_block ?r g = leaf_block s g" "page ?r g = page s g" if "leaf_block s g \<noteq> ?B" for g
  proof -
    show l: "leaf_block ?r g = leaf_block s g" using that by (simp add: leaf_block_def [of ?r] leaf_block_def [of s g] st(2))
    show "page ?r g = page s g" using that new_page_unused [OF tree that] by (simp add: page_def l pf t3(7))
  qed
  have key: "P q = bit (calchash (fst q)) ?D" for q using moves_bit [OF d] by (simp add: P_def)
  have low: "holds_pairs ?r g (filter (\<lambda>p. \<not> P p) qs)" if "leaf_block s g = ?B" "\<not> bit g ?D" for g
    using sl(2) dist leaf that p
    by (auto simp: holds_pairs_def page_def pf t3(7) moved st(2) mod_pow_Suc key distinct_map_filter simp del: power_Suc)
  have high: "holds_pairs ?r g (filter P qs)" if "leaf_block s g = ?B" "bit g ?D" for g
    using sl(3) dist leaf that p
    by (auto simp: holds_pairs_def page_def pf t3(7) moved st(2) mod_pow_Suc key distinct_map_filter simp del: power_Suc)
  have other: "holds_pairs ?r g ps" if "leaf_block s g \<noteq> ?B" "holds_pairs s g ps" for g ps
    using that kept [OF that(1)] by (simp add: holds_pairs_def st(2))
  have "\<exists>ps. holds_pairs ?r g ps" for g using low high other [of g] ok unfolding dbm_ok_def by blast
  moreover have "pagbuf ?r = pagf ?r (s32 (oldpag ?r * 512))" using pf t3(7) p block_address [OF tree] by simp
  ultimately have "dbm_ok ?r" using st(1) by (simp add: dbm_ok_def)
  moreover have "dbmap ?r k = (if calchash k mod 2 ^ ?D = ?B then map_of qs k else dbmap s k)" for k
  proof (cases "leaf_block s (calchash k) = ?B")
    case True
    have "map_of (filter (\<lambda>p. \<not> P p) qs) k = (if \<not> bit (calchash k) ?D then map_of qs k else None)"
      "map_of (filter P qs) k = (if bit (calchash k) ?D then map_of qs k else None)"
      using map_of_filter_key [of "\<lambda>k. \<not> bit (calchash k) ?D" qs k] map_of_filter_key [of "\<lambda>k. bit (calchash k) ?D" qs k]
      unfolding key by simp_all
    with dbmap_page [OF low [OF True]] dbmap_page [OF high [OF True]] True leaf_block_iff [OF tree] show ?thesis by auto
  next
    case False
    obtain ps where ps: "holds_pairs s (calchash k) ps" using ok by (auto simp: dbm_ok_def)
    with dbmap_page [OF ps] dbmap_page [OF other [OF False ps]] False leaf_block_iff [OF tree] show ?thesis by simp
  qed
  ultimately show ?thesis using r st(2) [of h] by auto
qed

section \<open>Storing\<close>

text \<open>
  The pairs of the database whose hash codes agree with that of the key in the last \<open>n\<close> bits fit into a page together
  with the new pair.
\<close>

definition room_at :: "dbm \<Rightarrow> nat \<Rightarrow> int list \<Rightarrow> int list \<Rightarrow> bool" where
  "room_at s n key dat \<longleftrightarrow>
     (\<forall>qs. distinct (map fst qs) \<and>
        (\<forall>(k, v) \<in> set qs. k \<noteq> key \<and> dbmap s k = Some v \<and> calchash k mod 2 ^ n = calchash key mod 2 ^ n) \<longrightarrow>
        weight qs + length key + length dat + 6 < 512)"

lemma store_map:
  "dbm_ok s \<Longrightarrow> n \<le> 21 \<Longrightarrow> room_at s n key dat \<Longrightarrow>
   \<exists>t. store key dat s = Some (Done t) \<and> dbm_ok t \<and> dbmap t = (dbmap s)(key \<mapsto> dat)"
proof (induction "n - leaf_depth s (calchash key)" arbitrary: s rule: less_induct)
  case less
  note ok = less.prems(1)
  let ?h = "calchash key" and ?D = "leaf_depth s (calchash key)" and ?B = "leaf_block s (calchash key)"
  obtain t where t: "dbm_access ?h s = Some (Done t)" "accessed s ?h t" using access_leaf [OF ok] by blast
  obtain ps where ps: "holds_pairs s ?h ps" using ok by (auto simp: dbm_ok_def)
  have rep: "page_rep (pagbuf t) (flat ps)" "distinct (map fst ps)" using ps accessed_simps(3) [OF t(2)] by (simp_all add: holds_pairs_def)
  let ?qs = "filter (\<lambda>p. fst p \<noteq> key) ps"
  obtain buf where f: "(case find_key (pagbuf t) key 0 of None \<Rightarrow> Some (pagbuf t) | Some i \<Rightarrow> delpair (pagbuf t) i) = Some buf"
      "page_rep buf (flat ?qs)"
    using find_and_drop [OF rep, of key] by metis
  have q: "distinct (map fst ?qs)" "\<forall>k \<in> fst ` set ?qs. calchash k mod 2 ^ ?D = ?B"
    using ps by (auto simp: holds_pairs_def distinct_map_filter)
  have hk: "calchash key mod 2 ^ ?D = ?B" by (simp add: leaf_block_def)
  have mq: "map_of ?qs k = (if k \<noteq> key then map_of ps k else None)" for k by (rule map_of_filter_key [of "\<lambda>x. x \<noteq> key"])
  have small: "length key + length dat + 6 < 512" using less.prems(3) unfolding room_at_def by (elim allE [of _ "[]"]) simp
  obtain buf' where add: "addpair buf key dat = Some (weight ?qs + length key + length dat + 6 < 512, buf')"
      "page_rep buf' (flat (if weight ?qs + length key + length dat + 6 < 512 then ?qs @ [(key, dat)] else ?qs))"
    using addpair_rep [OF f(2), of key dat] by metis
  show ?case
  proof (cases "weight ?qs + length key + length dat + 6 < 512")
    case True
    let ?t = "write_page (t\<lparr>pagbuf := buf'\<rparr>)"
    have "store key dat s = Some (Done ?t)" using t(1) f(1) add(1) True by (subst store.simps) simp
    moreover have r: "page_rep buf' (flat (?qs @ [(key, dat)]))" using add(2) True by simp
    have q': "distinct (map fst (?qs @ [(key, dat)]))" "\<forall>k \<in> fst ` set (?qs @ [(key, dat)]). calchash k mod 2 ^ ?D = ?B"
      using q hk by auto
    have "dbmap ?t = (dbmap s)(key \<mapsto> dat)"
    proof
      fix k
      show "dbmap ?t k = ((dbmap s)(key \<mapsto> dat)) k"
        unfolding write_leaf(2) [OF ok t(2) r q'] using dbmap_leaf [OF ok ps, of k] hk mq [of k]
        by (cases "k = key") (auto simp: map_add_def split: option.splits)
    qed
    ultimately show ?thesis using write_leaf(1) [OF ok t(2) r q'] by blast
  next
    case False
    have deep: "?D < n"
    proof (rule ccontr)
      assume "\<not> ?D < n"
      then have n: "(2 :: int) ^ n dvd 2 ^ ?D" by (simp add: le_imp_power_dvd)
      have "k \<noteq> key \<and> dbmap s k = Some v \<and> calchash k mod 2 ^ n = calchash key mod 2 ^ n" if "(k, v) \<in> set ?qs" for k v
      proof -
        have kv: "k \<noteq> key" "(k, v) \<in> set ps" "calchash k mod 2 ^ ?D = ?B" using that q(2) by auto
        have "calchash k mod 2 ^ n = calchash key mod 2 ^ n" using kv(3) hk mod_mod_cancel [OF n] by metis
        moreover have "dbmap s k = Some v" using dbmap_leaf [OF ok ps kv(3)] kv(2) rep(2) by simp
        ultimately show ?thesis using kv(1) by blast
      qed
      with less.prems(3) q(1) False show False unfolding room_at_def by blast
    qed
    then have "?D \<le> 20" using less.prems(2) by simp
    obtain r where r: "split_page (t\<lparr>pagbuf := buf'\<rparr>) = Some (Done r)" "dbm_ok r"
        "\<And>k. dbmap r k = (if calchash k mod 2 ^ ?D = ?B then map_of ?qs k else dbmap s k)" "leaf_depth r ?h = Suc ?D"
      using split_leaf [OF ok t(2) \<open>?D \<le> 20\<close> _ q, of buf'] add(2) False by auto
    have m: "dbmap r = (dbmap s)(key := None)"
    proof
      fix k
      show "dbmap r k = ((dbmap s)(key := None)) k"
        unfolding r(3) using dbmap_leaf [OF ok ps, of k] hk mq [of k] by auto
    qed
    have "\<not> u32 (int (length key) + int (length dat) + 4) \<ge> u32 512" using small by (simp add: u32_id)
    then have s: "store key dat s = store key dat r" using t(1) f(1) add(1) False r(1) by (subst store.simps) simp
    have "room_at r n key dat" unfolding room_at_def
    proof (intro allI impI)
      fix qs assume a: "distinct (map fst qs) \<and> (\<forall>(k, v) \<in> set qs. k \<noteq> key \<and> dbmap r k = Some v \<and> calchash k mod 2 ^ n = calchash key mod 2 ^ n)"
      then have "\<forall>(k, v) \<in> set qs. k \<noteq> key \<and> dbmap s k = Some v \<and> calchash k mod 2 ^ n = calchash key mod 2 ^ n"
        unfolding m by auto
      with a less.prems(3) show "weight qs + length key + length dat + 6 < 512" unfolding room_at_def by blast
    qed
    moreover have "n - leaf_depth r ?h < n - ?D" using deep r(4) by simp
    ultimately obtain u where "store key dat r = Some (Done u)" "dbm_ok u" "dbmap u = (dbmap r)(key \<mapsto> dat)"
      using less.hyps [OF _ r(2) less.prems(2)] by blast
    then show ?thesis using s m by simp
  qed
qed

section \<open>An empty database\<close>

definition empty_dbm :: dbm where
  "empty_dbm = snd (dbminit [100, 98] (Some (\<lambda>_ _. 0)) (Some (\<lambda>_ _. 0, 0)) dbm_bss)"

lemma empty_dbm_ok: "dbm_ok empty_dbm" "dbmap empty_dbm = Map.empty"
proof -
  have e: "dirf empty_dbm = (\<lambda>_ _. 0)" "pagf empty_dbm = (\<lambda>_ _. 0)" "oldpag empty_dbm = -1" "olddir empty_dbm = -1" "maxbno empty_dbm = -1"
    by (simp_all add: empty_dbm_def dbminit_def dbm_bss_def Let_def s32_id)
  have "\<not> split_at empty_dbm d b" for d b by (simp add: split_at_def dirbit_def e)
  then have "tree_ok empty_dbm" using e by (simp add: tree_ok_def dir_ok_def dirbit_def)
  moreover have h: "holds_pairs empty_dbm h []" for h
    using empty_page by (simp add: holds_pairs_def page_def e)
  ultimately show "dbm_ok empty_dbm" using e by (auto simp: dbm_ok_def)
  show "dbmap empty_dbm = Map.empty" using dbmap_page [OF h] by (simp add: fun_eq_iff)
qed

lemma empty_room: "length key + length dat < 506 \<Longrightarrow> room_at empty_dbm n key dat"
  unfolding room_at_def
proof (intro allI impI)
  fix qs assume small: "length key + length dat < 506"
    and a: "distinct (map fst qs) \<and> (\<forall>(k, v) \<in> set qs. k \<noteq> key \<and> dbmap empty_dbm k = Some v \<and> calchash k mod 2 ^ n = calchash key mod 2 ^ n)"
  then have "qs = []" by (cases qs) (auto simp: empty_dbm_ok(2))
  with small show "weight qs + length key + length dat + 6 < 512" by simp
qed

section \<open>Properties\<close>

text \<open>
  Claim C4. \<open>store\<close> implements the update of a map: on a well formed database it returns, however many pages it has to
  split, the database is well formed again, and the map that it represents has the new pair and is otherwise
  unchanged. The condition is that some number \<open>n\<close> of bits of the hash code, at most 21, tells enough keys apart: the
  pairs that agree with the key in the last \<open>n\<close> bits fit into one page together with the new pair.
\<close>

theorem store_updates:
  assumes "dbm_ok s" "n \<le> 21" "room_at s n key dat"
  shows "\<exists>t. store key dat s = Some (Done t) \<and> dbm_ok t \<and> dbmap t = (dbmap s)(key \<mapsto> dat)"
  using store_map [OF assms] .

theorem store_updates_witness:
  "\<exists>t. store [107, 101, 121] [1, 2] empty_dbm = Some (Done t) \<and> dbm_ok t \<and> dbmap t = [[107, 101, 121] \<mapsto> [1, 2]]"
  using store_updates [OF empty_dbm_ok(1) _ empty_room [of "[107, 101, 121]" "[1, 2]" 0]] unfolding empty_dbm_ok(2) by simp

text \<open>
  Claim C6. \<open>fetch\<close> and \<open>delete\<close> implement the application of a map and the removal of a key: on a well formed database
  both return; \<open>fetch\<close> gives the datum of the key, or the null pointer, and changes no pair, \<open>delete\<close> removes the pair of the
  key and no other and tells by its result whether there was one.
\<close>

theorem fetch_and_delete:
  assumes "dbm_ok s"
  shows "(\<exists>t. fetch key s = Some (Done (dbmap s key, t)) \<and> dbm_ok t \<and> dbmap t = dbmap s) \<and>
    (\<exists>t. delete key s = Some (Done (if dbmap s key = None then -1 else 0, t)) \<and> dbm_ok t \<and> dbmap t = (dbmap s)(key := None))"
  using fetch_map [OF assms] delete_map [OF assms] by blast

theorem fetch_and_delete_witness:
  "\<exists>s t. store [107] [1, 2] empty_dbm = Some (Done s) \<and> fetch [107] s = Some (Done (Some [1, 2], t)) \<and>
    (\<exists>u. delete [107] t = Some (Done (0, u)) \<and> dbmap u = Map.empty)"
proof -
  obtain s where s: "store [107] [1, 2] empty_dbm = Some (Done s)" "dbm_ok s" "dbmap s = [[107] \<mapsto> [1, 2]]"
    using store_map [OF empty_dbm_ok(1) _ empty_room [of "[107]" "[1, 2]" 0]] unfolding empty_dbm_ok(2) by auto
  obtain t where t: "fetch [107] s = Some (Done (Some [1, 2], t))" "dbm_ok t" "dbmap t = [[107] \<mapsto> [1, 2]]"
    using fetch_and_delete [OF s(2), of "[107]"] s(3) by auto
  obtain u where "delete [107] t = Some (Done (0, u))" "dbmap u = Map.empty"
    using fetch_and_delete [OF t(2), of "[107]"] t(3) by auto
  with s t show ?thesis by blast
qed

end
