(* ===== verification/Spec2Isabelle.thy ===== *)
theory Spec2Isabelle
  imports Prelude Bytes Resmap Clist Kernel_State Proc Callout Userio Sync Prf Bio Blocks Inodes Fileio Image Swapper
    Namei Filecalls Lifecycle Signals Tty Syscalls Disk Irq Vfp Devices Strings Qsort Crypt Ctime Mp Grep Dbm
begin

text \<open>
  A verification library for Research UNIX, Seventh Edition, as ported to the BCM283x (Raspberry Pi 1): the kernel
  (\<open>src/usr/sys\<close>), and of the programs around it routines of the C library (\<open>src/usr/src/libc/gen\<close>), the multiple
  precision library (\<open>libmp\<close>), the database library (\<open>libdbm\<close>) and the command \<open>grep\<close> (\<open>src/usr/src/cmd\<close>). Paths below
  are relative to \<open>src/usr\<close>.

  \<^bold>\<open>How the program is put together.\<close> The kernel is one program without threads of its own. A process enters it by a
  system call or a fault (\<open>bcm283x/traps.c\<close>), and the routine that handles it runs until it returns, or until it calls
  \<open>sleep\<close> (\<open>sys/slp.c\<close>) and another process runs. Interrupts of the clock, of the disk and of terminals call \<open>clock\<close>,
  the interrupt routine of the driver and \<open>wakeup\<close>. System calls on files go from descriptors (\<open>sys/fio.c\<close>) through
  path names (\<open>sys/nami.c\<close>), inodes (\<open>sys/iget.c\<close>), the block map and transfers (\<open>sys/subr.c\<close>, \<open>sys/rdwri.c\<close>) and the
  allocation of blocks (\<open>sys/alloc.c\<close>) to the buffer cache (\<open>sys/bio.c\<close>), which calls a driver. Processes own images in
  core or on swap space, which the resource maps (\<open>sys/malloc.c\<close>) hand out and the swapper (\<open>sys/slp.c\<close>) moves.
  Terminals queue characters in the blocks of \<open>sys/prim.c\<close>.

  \<^bold>\<open>State and outcomes.\<close> \<open>Kernel_State\<close> has a record for every structure of \<open>h/*.h\<close>: \<open>proc\<close>, \<open>inode\<close>, \<open>file_ent\<close>,
  \<open>buf\<close>, \<open>text_ent\<close>, \<open>mount\<close> with its \<open>filsys\<close>, \<open>tty\<close>, \<open>user\<close>. The tables and the global variables are the fields
  of the record \<open>kst\<close>; a table is a function from indices and a pointer into it an index. The record \<open>world\<close> adds the
  list \<open>env\<close> of what happens while the process sleeps, one function on the state for each sleep it wakes up from. An
  operation is a function from the state to a result of type \<open>res\<close>: \<open>Ok\<close> with a value and the new state, \<open>Jump\<close> (the
  \<open>longjmp\<close> that an interrupted system call leaves by), \<open>Blocked\<close> (asleep on a channel with nothing left in \<open>env\<close>),
  \<open>Panic\<close>, and \<open>Stuck\<close>, where the code would leave a table, follow a null pointer or loop without end. \<open>bnd\<close> composes them. Integers are
  \<^typ>\<open>int\<close>, with the truncation (\<open>u8\<close>, \<open>s16\<close>, \<open>u16\<close>, \<open>s32\<close>, \<open>u32\<close> of \<open>Prelude\<close>) written where a store or a sum can
  exceed the type of the variable. Plain \<open>char\<close> is unsigned on this machine and words are little-endian (\<open>Bytes\<close>).

  \<^bold>\<open>The theories and the code.\<close>

  \<^item> \<open>Resmap\<close>: \<open>sys/malloc.c\<close>, first fit allocation in the core and swap maps. The units of a map are a set;
    \<open>malloc_first_fit\<close> and \<open>mfree_releases\<close> say what the two routines do to it, and \<open>unit_allocator\<close> is the contract.
  \<^item> \<open>Clist\<close>: \<open>sys/prim.c\<close>, queues of characters in blocks of sixteen bytes, addresses explicit. \<open>crep\<close> relates a queue
    to its path of blocks and its characters; the routines refine queues that share a pool, the contract
    \<open>char_queues\<close>.
  \<^item> \<open>Proc\<close>: the queues and the choice of the next process of \<open>sys/slp.c\<close>, the posting and recognition of signals of
    \<open>sys/sig.c\<close>. \<open>Sync\<close>: sleeping, and the contract \<open>sleep_lock\<close> of a lock one sleeps for.
  \<^item> \<open>Callout\<close>: \<open>sys/clock.c\<close>. \<open>Prf\<close>: \<open>sys/prf.c\<close>. \<open>Userio\<close>: \<open>bcm283x/page_tables.c\<close>, loads and stores of user memory
    (\<open>copyin\<close>, \<open>copyout\<close>) and \<open>passc\<close>, \<open>cpass\<close>, \<open>iomove\<close>.
  \<^item> \<open>Bio\<close>: \<open>sys/bio.c\<close>. The free list of buffers, linked in both directions, refines a list (\<open>avail\<close>).
  \<^item> \<open>Blocks\<close>: \<open>sys/alloc.c\<close>. \<open>Inodes\<close>: \<open>sys/iget.c\<close>, the layout of inodes on the disk. \<open>Fileio\<close>: \<open>bmap\<close> of
    \<open>sys/subr.c\<close>, \<open>sys/rdwri.c\<close>, \<open>sys/pipe.c\<close>; \<open>bmap_follows_path\<close> compares the map with the arithmetic of
    indirect blocks.
  \<^item> \<open>Image\<close>: segmentation (\<open>bcm283x/bcm283x_machdep.c\<close>) and shared text (\<open>sys/text.c\<close>). \<open>Swapper\<close>: \<open>sched\<close>, \<open>swapin\<close>,
    \<open>newproc\<close>, \<open>expand\<close> of \<open>sys/slp.c\<close>, \<open>grow\<close>, \<open>sbreak\<close>.
  \<^item> \<open>Namei\<close>: \<open>sys/nami.c\<close>, \<open>sys/fio.c\<close>. \<open>Filecalls\<close>: \<open>sys/sys2.c\<close>, \<open>sys/sys3.c\<close>, the calls on files of \<open>sys/sys4.c\<close>,
    \<open>sys/acct.c\<close>. \<open>Lifecycle\<close>: \<open>sys/sys1.c\<close>. \<open>Signals\<close>: the rest of \<open>sys/sig.c\<close>. \<open>Syscalls\<close>: the rest of
    \<open>sys/sys4.c\<close>, the table \<open>sysent\<close> and the entries of \<open>bcm283x/traps.c\<close>.
  \<^item> \<open>Tty\<close>: \<open>sys/tty.c\<close>. The queues of all terminals are a pool in the sense of \<open>char_queues\<close>; \<open>canon\<close> on linked
    blocks is the line editor \<open>edit\<close> on lists.
  \<^item> \<open>Disk\<close>: \<open>bcm283x/dev/sdx.c\<close>. The queue of transfers refines a list under requests and interrupts (the step relation
    \<open>disk_run\<close>), and every transfer that was queued is completed. \<open>Irq\<close>: \<open>bcm283x/dev/bcm283x_irq.c\<close>, the dispatcher of interrupts.
    \<open>Vfp\<close>: \<open>bcm283x/vfp.c\<close>, \<open>undefined.c\<close>, the lazy switching of the floating point unit. \<open>Devices\<close>: \<open>dev/mem.c\<close>,
    \<open>dev/sys.c\<close>.
  \<^item> \<open>Strings\<close>, \<open>Qsort\<close>, \<open>Crypt\<close>, \<open>Ctime\<close>: the files of these names in \<open>src/libc/gen\<close> and the string routines beside
    them, on a memory of bytes (\<open>mem\<close>). \<open>Mp\<close>: \<open>madd.c\<close>, \<open>mult.c\<close>, \<open>util.c\<close> of \<open>src/libmp\<close>.
  \<^item> \<open>Grep\<close>: \<open>src/cmd/grep.c\<close>. The compiler and the matcher are compared with the matching of regular expressions
    (\<open>matches\<close>), and the command with the list of lines selected.
  \<^item> \<open>Dbm\<close>: \<open>src/libdbm/dbm.c\<close>. A page of bytes represents a list of pairs (\<open>page_rep\<close>), the directory a binary tree
    of pages (\<open>tree_ok\<close>), and the database a finite map (\<open>dbmap\<close>), which \<open>store\<close>, \<open>fetch\<close> and \<open>delete\<close> update and
    look up.

  \<^bold>\<open>Contracts.\<close> \<open>char_queues\<close> (\<open>Clist\<close>) is interpreted by the pool of character blocks and by the terminal queues,
  \<open>unit_allocator\<close> (\<open>Resmap\<close>) by the resource maps, \<open>sleep_lock\<close> (\<open>Sync\<close>) by the locks of inodes (\<open>plock\<close>, \<open>prele\<close>) and
  of shared text (\<open>xlock\<close>, \<open>xunlock\<close>).

  \<^bold>\<open>Bounds and fuel.\<close> A walk along a chain of a table carries fuel that exceeds the number of entries of the table
  (\<open>qfuel\<close> for the process queues, \<open>bfuel\<close> and \<open>NBUF + 1\<close> for buffers), so only a chain with a cycle runs out of it
  (\<open>Stuck\<close>). A loop around \<open>sleep\<close> runs once more than \<open>env\<close> has entries, since each sleep uses one up (\<open>await\<close>). Loops
  over the characters of a transfer run as often as the 16-bit \<open>u_count\<close> allows. In the matcher of \<open>grep\<close> an operation
  moves forward in a buffer of 256 bytes and a position in a line of at most 512, so 257 and 513 rounds are
  enough, which \<open>grep_selects\<close> proves for expressions without groups. Loops of the C library, of
  \<open>qsort\<close> and of \<open>dbm\<close> that need not end are partial functions whose result \<^const>\<open>None\<close> means that they do not
  return; that they do return is part of the properties (\<open>strcpy_copies\<close>, \<open>qsort_sorts\<close>, \<open>store_updates\<close>).

  \<^bold>\<open>What is a parameter.\<close> Drivers behind the switches \<open>bdevsw\<close>, \<open>cdevsw\<close> and \<open>linesw\<close> (\<open>d_strategy\<close>, \<open>cd_read\<close>,
  \<open>t_oproc\<close>, \<open>cd_stop\<close> and the like), the controller of the memory card, the registers of the interrupt controller, the comparison that \<open>qsort\<close> is given, the
  profiling count \<open>addupc\<close> (assembly), and what other processes and interrupts do while a process sleeps (\<open>env\<close>).

  \<^bold>\<open>Not modelled.\<close> Start-up and exceptions in assembly (\<open>bcm283x/*.s\<close>), \<open>startup\<close> and \<open>clkstart\<close>, cache and translation buffer maintenance,
  \<open>main\<close>, which only calls start-up code and \<open>newproc\<close>; the drivers of the console, the card controller, the mailbox
  and the timer, which read and write registers of the hardware; \<open>physio\<close>, which still computes with the segmentation registers
  of the PDP-11; the files \<open>machdep.c\<close>, \<open>trap.c\<close> and \<open>ureg.c\<close> of \<open>sys\<close>, the tape, line printer and multiplexor drivers and
  \<open>mkconf\<close>, which are not part of this port; standard input and output, \<open>malloc\<close> and the floating
  point conversions of the C library, division and input and output of \<open>libmp\<close>, and the other commands, compilers and games.
  Sharing of memory between processes does not occur, and preemption inside the kernel does not either: a routine runs
  alone between two sleeps, as the priority of the processor (\<open>spl6\<close>, \<open>splx\<close>) guarantees for the tables that interrupts
  share.
\<close>

end
